(* ===== verification/Prelude.thy ===== *)
theory Prelude
  imports Complex_Main "HOL-Library.AList" "HOL-Library.Multiset"
begin

text \<open>
  Shared vocabulary of the development.

  \<^item> JavaScript numbers that carry geometry are exact rationals (\<open>number\<close>): the code's
    arithmetic on them is \<open>+\<close>, \<open>-\<close>, \<open>*\<close>, \<open>/\<close>, \<open>Math.min\<close>, \<open>Math.max\<close>, \<open>Math.floor\<close>,
    \<open>Math.ceil\<close>, \<open>Math.round\<close>, and the bitwise-or-zero idiom \<open>x | 0\<close>, each written out below.
    Rounding of doubles, NaN and infinities are outside the model.
  \<^item> A JavaScript \<open>Map\<close> iterates in insertion order, and \<open>set\<close> on a present key keeps its
    place: an association list with \<open>AList.update\<close> and \<open>AList.delete\<close> behaves this way.
  \<^item> Array operations \<open>splice\<close>, \<open>indexOf\<close>, \<open>unshift\<close> and the insertion-ordered \<open>Set\<close>.
  \<^item> \<open>run\<close> drives a machine over a list of events; the locales \<open>step_invariant\<close> and
    \<open>monitored\<close> lift one-step facts to whole runs.
\<close>

named_theorems js_simps \<open>definitions of the array and number operations\<close>
named_theorems wf_intros \<open>introduction rules for the components' invariants\<close>

section \<open>Numbers\<close>

type_synonym number = rat

definition js_round :: "number \<Rightarrow> int" where
  "js_round x = \<lfloor>x + 1 / 2\<rfloor>"

definition js_trunc :: "number \<Rightarrow> int" where
  "js_trunc x = (if x < 0 then \<lceil>x\<rceil> else \<lfloor>x\<rfloor>)"

text \<open>\<open>x | 0\<close>: truncate towards zero, then wrap into the signed 32-bit range.\<close>

definition to_int32 :: "number \<Rightarrow> int" where
  "to_int32 x = (js_trunc x + 2147483648) mod 4294967296 - 2147483648"

lemma js_trunc_of_int [simp]: "js_trunc (of_int n) = n"
  by (simp add: js_trunc_def)

lemma to_int32_bounds: "- 2147483648 \<le> to_int32 x" "to_int32 x < 2147483648"
  by (simp_all add: to_int32_def)

lemma to_int32_id:
  "- 2147483648 \<le> n \<Longrightarrow> n < 2147483648 \<Longrightarrow> to_int32 (of_int n) = n"
  by (simp add: to_int32_def)

lemma js_round_of_int [simp]: "js_round (of_int n) = n"
  by (simp add: js_round_def floor_unique)

lemma js_round_mono: "x \<le> y \<Longrightarrow> js_round x \<le> js_round y"
  by (simp add: js_round_def floor_mono)

lemma js_round_lower: "x - 1 / 2 < of_int (js_round x)"
  unfolding js_round_def by linarith

lemma js_round_upper: "of_int (js_round x) \<le> x + 1 / 2"
  by (simp add: js_round_def)

text \<open>The rectangles of the code, \<open>{ x, y, width, height }\<close>, half-open on the right and below.\<close>

record rect =
  rx :: number
  ry :: number
  rw :: number
  rh :: number

definition in_rect :: "rect \<Rightarrow> number \<Rightarrow> number \<Rightarrow> bool" where
  "in_rect r x y \<longleftrightarrow> rx r \<le> x \<and> x < rx r + rw r \<and> ry r \<le> y \<and> y < ry r + rh r"

section \<open>Arrays\<close>

fun index_of :: "'a \<Rightarrow> 'a list \<Rightarrow> nat option" where
  "index_of x [] = None"
| "index_of x (y # ys) = (if x = y then Some 0 else map_option Suc (index_of x ys))"

definition remove_at :: "nat \<Rightarrow> 'a list \<Rightarrow> 'a list" where
  "remove_at i xs = take i xs @ drop (Suc i) xs"

definition insert_at :: "nat \<Rightarrow> 'a \<Rightarrow> 'a list \<Rightarrow> 'a list" where
  "insert_at i x xs = take i xs @ x # drop i xs"

definition oset_add :: "'a \<Rightarrow> 'a list \<Rightarrow> 'a list" where
  "oset_add x xs = (if x \<in> set xs then xs else xs @ [x])"

lemma index_of_None [simp]: "index_of x xs = None \<longleftrightarrow> x \<notin> set xs"
  by (induction xs) auto

lemma index_of_Some_nth: "index_of x xs = Some i \<Longrightarrow> i < length xs \<and> xs ! i = x"
  by (induction xs arbitrary: i) (auto split: if_splits)

lemma index_of_Some_in: "index_of x xs = Some i \<Longrightarrow> x \<in> set xs"
  by (metis index_of_None not_None_eq)

lemma index_of_in: "x \<in> set xs \<Longrightarrow> \<exists>i. index_of x xs = Some i"
  by (metis index_of_None not_None_eq)

lemma index_of_nth: "distinct xs \<Longrightarrow> i < length xs \<Longrightarrow> index_of (xs ! i) xs = Some i"
  by (metis index_of_Some_nth index_of_in nth_eq_iff_index_eq nth_mem)

lemma remove_at_remove1: "index_of x xs = Some i \<Longrightarrow> remove_at i xs = remove1 x xs"
  by (induction xs arbitrary: i) (auto simp: remove_at_def split: if_splits)

lemma set_remove_at:
  "distinct xs \<Longrightarrow> index_of x xs = Some i \<Longrightarrow> set (remove_at i xs) = set xs - {x}"
  by (simp add: remove_at_remove1)

lemma distinct_remove_at [simp]: "distinct xs \<Longrightarrow> distinct (remove_at i xs)"
  using set_take_disj_set_drop_if_distinct [of xs i "Suc i"] by (auto simp: remove_at_def)

lemma set_remove_at_subset: "set (remove_at i xs) \<subseteq> set xs"
  by (auto simp: remove_at_def dest: in_set_takeD in_set_dropD)

lemma mset_remove_at: "i < length xs \<Longrightarrow> add_mset (xs ! i) (mset (remove_at i xs)) = mset xs"
  by (metis id_take_nth_drop mset.simps(2) mset_append remove_at_def union_mset_add_mset_right)

lemma set_insert_at [simp]: "set (insert_at i x xs) = insert x (set xs)"
  by (metis append_take_drop_id insert_at_def list.simps(15) set_append Un_insert_right)

lemma mset_insert_at [simp]: "mset (insert_at i x xs) = add_mset x (mset xs)"
  by (metis append_take_drop_id insert_at_def mset.simps(2) mset_append union_mset_add_mset_right)

lemma distinct_insert_at [simp]:
  "distinct (insert_at i x xs) \<longleftrightarrow> x \<notin> set xs \<and> distinct xs"
  by (metis distinct.simps(2) mset.simps(2) mset_eq_imp_distinct_iff mset_insert_at)

lemma set_oset_add [simp]: "set (oset_add x xs) = insert x (set xs)"
  by (auto simp: oset_add_def)

lemma distinct_oset_add [simp]: "distinct xs \<Longrightarrow> distinct (oset_add x xs)"
  by (simp add: oset_add_def)

section \<open>Insertion-ordered maps\<close>

type_synonym ('k, 'v) omap = "('k \<times> 'v) list"

abbreviation oget :: "('k, 'v) omap \<Rightarrow> 'k \<Rightarrow> 'v option" where
  "oget m k \<equiv> map_of m k"

abbreviation oset :: "'k \<Rightarrow> 'v \<Rightarrow> ('k, 'v) omap \<Rightarrow> ('k, 'v) omap" where
  "oset k v m \<equiv> AList.update k v m"

abbreviation odel :: "'k \<Rightarrow> ('k, 'v) omap \<Rightarrow> ('k, 'v) omap" where
  "odel k m \<equiv> AList.delete k m"

abbreviation okeys :: "('k, 'v) omap \<Rightarrow> 'k list" where
  "okeys m \<equiv> map fst m"

text \<open>Facts stay in the form of lookups.\<close>

declare map_of_eq_Some_iff [simp del] Some_eq_map_of_iff [simp del]

lemma oget_oset [simp]: "oget (oset k v m) = (oget m)(k \<mapsto> v)"
  by (rule AList.update_conv')

lemma oget_odel [simp]: "oget (odel k m) = (oget m)(k := None)"
  by (rule AList.delete_conv')

lemma distinct_okeys_oset [simp]: "distinct (okeys m) \<Longrightarrow> distinct (okeys (oset k v m))"
  by (rule AList.distinct_update)

lemma distinct_okeys_odel [simp]: "distinct (okeys m) \<Longrightarrow> distinct (okeys (odel k m))"
  by (rule AList.distinct_delete)

lemma set_okeys_oset [simp]: "set (okeys (oset k v m)) = insert k (set (okeys m))"
  using AList.dom_update [of k v m] by simp

lemma set_okeys_odel [simp]: "set (okeys (odel k m)) = set (okeys m) - {k}"
  by (simp add: AList.delete_keys)

lemma fst_oset [simp]: "fst ` set (oset k v m) = insert k (fst ` set m)"
  using AList.dom_update [of k v m] by simp

lemma fst_odel [simp]: "fst ` set (odel k m) = fst ` set m - {k}"
  using set_okeys_odel [of k m] by simp

lemma oget_Some_key: "oget m k = Some v \<Longrightarrow> k \<in> set (okeys m)"
  by (force dest: map_of_SomeD)

lemma oget_None_key: "oget m k = None \<longleftrightarrow> k \<notin> set (okeys m)"
  by (simp add: map_of_eq_None_iff)

lemma in_set_oget: "distinct (okeys m) \<Longrightarrow> (k, v) \<in> set m \<longleftrightarrow> oget m k = Some v"
  by (simp add: map_of_eq_Some_iff)

lemma oset_fresh: "k \<notin> set (okeys m) \<Longrightarrow> oset k v m = m @ [(k, v)]"
  by (induction m) auto

lemma okeys_oset_present: "k \<in> set (okeys m) \<Longrightarrow> okeys (oset k v m) = okeys m"
  by (induction m) auto

text \<open>Updating the values of a map in place, one by one.\<close>

definition omap_values :: "('v \<Rightarrow> 'v) \<Rightarrow> ('k, 'v) omap \<Rightarrow> ('k, 'v) omap" where
  "omap_values f m = map (\<lambda>(k, v). (k, f v)) m"

lemma oget_omap_values [simp]: "oget (omap_values f m) k = map_option f (oget m k)"
  by (induction m) (auto simp: omap_values_def)

lemma okeys_omap_values [simp]: "okeys (omap_values f m) = okeys m"
  by (induction m) (auto simp: omap_values_def)

section \<open>Machines driven by events\<close>

text \<open>
  \<open>run step s es\<close> feeds the events to the machine one after another and returns the final
  state with the trace: each event and what the machine answered to it.
\<close>

fun run :: "('s \<Rightarrow> 'e \<Rightarrow> 's \<times> 'r) \<Rightarrow> 's \<Rightarrow> 'e list \<Rightarrow> 's \<times> ('e \<times> 'r) list" where
  "run step s [] = (s, [])"
| "run step s (e # es) =
     (let (s', r) = step s e; (s'', tr) = run step s' es in (s'', (e, r) # tr))"

text \<open>Every event of the list satisfies the guard in the state it arrives in.\<close>

fun admissible :: "('s \<Rightarrow> 'e \<Rightarrow> 's \<times> 'r) \<Rightarrow> ('s \<Rightarrow> 'e \<Rightarrow> bool) \<Rightarrow> 's \<Rightarrow> 'e list \<Rightarrow> bool" where
  "admissible step ok s [] = True"
| "admissible step ok s (e # es) = (ok s e \<and> admissible step ok (fst (step s e)) es)"

text \<open>
  A monitor is an executable specification: it reads an event and the machine's answer and
  either moves on or objects with \<open>None\<close>.
\<close>

fun monitor :: "('a \<Rightarrow> 'e \<Rightarrow> 'r \<Rightarrow> 'a option) \<Rightarrow> 'a \<Rightarrow> ('e \<times> 'r) list \<Rightarrow> 'a option" where
  "monitor spec a [] = Some a"
| "monitor spec a ((e, r) # tr) =
     (case spec a e r of None \<Rightarrow> None | Some a' \<Rightarrow> monitor spec a' tr)"

lemma admissible_True [simp]: "admissible step (\<lambda>_ _. True) s es"
  by (induction es arbitrary: s) auto

lemma admissible_events: "admissible step (\<lambda>_. P) s es \<longleftrightarrow> (\<forall>e \<in> set es. P e)"
  by (induction es arbitrary: s) auto

lemma run_append:
  "run step s (es @ fs) =
     (let (s', tr) = run step s es; (s'', tr') = run step s' fs in (s'', tr @ tr'))"
  by (induction es arbitrary: s) (auto simp: Let_def split: prod.splits)

locale step_invariant =
  fixes step :: "'s \<Rightarrow> 'e \<Rightarrow> 's \<times> 'r"
    and ok :: "'s \<Rightarrow> 'e \<Rightarrow> bool"
    and inv :: "'s \<Rightarrow> bool"
  assumes inv_step: "inv s \<Longrightarrow> ok s e \<Longrightarrow> inv (fst (step s e))"
begin

lemma inv_run: "inv s \<Longrightarrow> admissible step ok s es \<Longrightarrow> inv (fst (run step s es))"
proof (induction es arbitrary: s)
  case Nil
  then show ?case by simp
next
  case (Cons e es)
  obtain s' r where s': "step s e = (s', r)" by (cases "step s e")
  with Cons.prems inv_step [of s e] have "inv s'" "admissible step ok s' es" by auto
  then have "inv (fst (run step s' es))" by (rule Cons.IH)
  then show ?case by (auto simp: s' split: prod.splits)
qed

end

locale monitored =
  fixes step :: "'s \<Rightarrow> 'e \<Rightarrow> 's \<times> 'r"
    and ok :: "'s \<Rightarrow> 'e \<Rightarrow> bool"
    and spec :: "'a \<Rightarrow> 'e \<Rightarrow> 'r \<Rightarrow> 'a option"
    and R :: "'s \<Rightarrow> 'a \<Rightarrow> bool"
  assumes sim: "R s a \<Longrightarrow> ok s e \<Longrightarrow> step s e = (s', r) \<Longrightarrow> \<exists>a'. spec a e r = Some a' \<and> R s' a'"
begin

lemma sim_run:
  "R s a \<Longrightarrow> admissible step ok s es \<Longrightarrow> run step s es = (s', tr) \<Longrightarrow>
     \<exists>a'. monitor spec a tr = Some a' \<and> R s' a'"
proof (induction es arbitrary: s a tr)
  case Nil
  then show ?case by simp
next
  case (Cons e es)
  obtain t r where t: "step s e = (t, r)" by (cases "step s e")
  obtain tr' where tr': "run step t es = (s', tr')" and tr: "tr = (e, r) # tr'"
    using Cons.prems(3) by (auto simp: t Let_def split: prod.splits)
  obtain b where b: "spec a e r = Some b" "R t b"
    using sim [OF Cons.prems(1) _ t] Cons.prems(2) by auto
  with Cons.IH [OF b(2) _ tr'] Cons.prems(2) t show ?case by (auto simp: tr)
qed

lemma accepts:
  assumes "R s a" "admissible step ok s es"
  shows "monitor spec a (snd (run step s es)) \<noteq> None"
  using assms sim_run [of s a es] by (cases "run step s es") fastforce

end

text \<open>A simulated machine keeps the invariant of being related to some specification state.\<close>

sublocale monitored \<subseteq> related: step_invariant step ok "\<lambda>s. \<exists>a. R s a"
proof (unfold_locales, elim exE)
  fix s a e
  assume "R s a" "ok s e"
  then show "\<exists>a. R (fst (step s e)) a"
    using sim [of s a e "fst (step s e)" "snd (step s e)"] by auto
qed

end
