(* ===== verification/Region.thy ===== *)
theory Region
  imports Prelude
begin

text \<open>
  \<open>packages/core/src/protocols/region.ts\<close>: the rectangle lists behind \<open>wl_region\<close>, and the
  interface \<open>region_store\<close> that their clients (hit testing, damage tracking) rely on. The
  interface promises the point-set meaning of \<open>add\<close> and \<open>subtract\<close>; its interpretation \<open>region\<close>
  discharges the promises for the code's rectangle lists.
\<close>

section \<open>The code\<close>

type_synonym region = "rect list"

definition subtractRectFromRect :: "rect \<Rightarrow> rect \<Rightarrow> rect list" where
  "subtractRectFromRect r s =
     (let ix0 = max (rx r) (rx s);
          iy0 = max (ry r) (ry s);
          ix1 = min (rx r + rw r) (rx s + rw s);
          iy1 = min (ry r + rh r) (ry s + rh s)
      in if ix0 \<ge> ix1 \<or> iy0 \<ge> iy1 then [r]
         else
           (let rx0 = rx r; ry0 = ry r; rx1 = rx r + rw r; ry1 = ry r + rh r
            in (if ry0 < iy0 then [\<lparr>rx = rx0, ry = ry0, rw = rx1 - rx0, rh = iy0 - ry0\<rparr>] else [])
             @ (if iy1 < ry1 then [\<lparr>rx = rx0, ry = iy1, rw = rx1 - rx0, rh = ry1 - iy1\<rparr>] else [])
             @ (if rx0 < ix0 then [\<lparr>rx = rx0, ry = iy0, rw = ix0 - rx0, rh = iy1 - iy0\<rparr>] else [])
             @ (if ix1 < rx1 then [\<lparr>rx = ix1, ry = iy0, rw = rx1 - ix1, rh = iy1 - iy0\<rparr>] else [])))"

definition region_empty :: region where
  "region_empty = []"

definition region_subtract :: "region \<Rightarrow> number \<Rightarrow> number \<Rightarrow> number \<Rightarrow> number \<Rightarrow> region" where
  "region_subtract r x y w h =
     (if w \<le> 0 \<or> h \<le> 0 then r
      else concat (map (\<lambda>q. subtractRectFromRect q \<lparr>rx = x, ry = y, rw = w, rh = h\<rparr>) r))"

definition region_add :: "region \<Rightarrow> number \<Rightarrow> number \<Rightarrow> number \<Rightarrow> number \<Rightarrow> region" where
  "region_add r x y w h =
     (if w \<le> 0 \<or> h \<le> 0 then r
      else concat (map (\<lambda>q. subtractRectFromRect q \<lparr>rx = x, ry = y, rw = w, rh = h\<rparr>) r)
             @ [\<lparr>rx = x, ry = y, rw = w, rh = h\<rparr>])"

fun region_contains :: "region \<Rightarrow> number \<Rightarrow> number \<Rightarrow> bool" where
  "region_contains [] x y = False"
| "region_contains (r # rs) x y =
     (if x \<ge> rx r \<and> x < rx r + rw r \<and> y \<ge> ry r \<and> y < ry r + rh r then True
      else region_contains rs x y)"

definition region_isEmpty :: "region \<Rightarrow> bool" where
  "region_isEmpty r = (length r = 0)"

definition region_snapshot :: "region \<Rightarrow> rect list" where
  "region_snapshot r = map (\<lambda>q. q) r"

text \<open>The documented list invariant: no empty rectangle, and no two that share a point.\<close>

definition region_wf :: "region \<Rightarrow> bool" where
  "region_wf r \<longleftrightarrow>
     (\<forall>q \<in> set r. 0 < rw q \<and> 0 < rh q)
     \<and> sorted_wrt (\<lambda>p q. \<forall>x y. \<not> (in_rect p x y \<and> in_rect q x y)) r"

section \<open>Subtracting one rectangle from another\<close>

lemma strips_points:
  assumes "rx0 \<le> ix0" "ix0 < ix1" "ix1 \<le> rx1" "ry0 \<le> iy0" "iy0 < iy1" "iy1 \<le> ry1"
  shows "(\<exists>q \<in> set ((if ry0 < iy0 then [\<lparr>rx = rx0, ry = ry0, rw = rx1 - rx0, rh = iy0 - ry0\<rparr>] else [])
             @ (if iy1 < ry1 then [\<lparr>rx = rx0, ry = iy1, rw = rx1 - rx0, rh = ry1 - iy1\<rparr>] else [])
             @ (if rx0 < ix0 then [\<lparr>rx = rx0, ry = iy0, rw = ix0 - rx0, rh = iy1 - iy0\<rparr>] else [])
             @ (if ix1 < rx1 then [\<lparr>rx = ix1, ry = iy0, rw = rx1 - ix1, rh = iy1 - iy0\<rparr>] else [])).
           in_rect q x y) \<longleftrightarrow>
         (rx0 \<le> x \<and> x < rx1 \<and> ry0 \<le> y \<and> y < ry1)
           \<and> \<not> (ix0 \<le> x \<and> x < ix1 \<and> iy0 \<le> y \<and> y < iy1)"
proof -
  have "(\<exists>q \<in> set (if c then [p] else []). in_rect q x y) \<longleftrightarrow> c \<and> in_rect p x y" for c p
    by auto
  then show ?thesis
    using assms unfolding set_append bex_Un
    by (simp only:) (simp add: in_rect_def, linarith)
qed

lemma subtractRect_points:
  "(\<exists>q \<in> set (subtractRectFromRect r s). in_rect q x y) \<longleftrightarrow> in_rect r x y \<and> \<not> in_rect s x y"
proof -
  let ?ix0 = "max (rx r) (rx s)" and ?iy0 = "max (ry r) (ry s)"
  let ?ix1 = "min (rx r + rw r) (rx s + rw s)" and ?iy1 = "min (ry r + rh r) (ry s + rh s)"
  have both: "in_rect r x y \<and> in_rect s x y \<longleftrightarrow> ?ix0 \<le> x \<and> x < ?ix1 \<and> ?iy0 \<le> y \<and> y < ?iy1"
    by (auto simp: in_rect_def)
  show ?thesis
  proof (cases "?ix0 \<ge> ?ix1 \<or> ?iy0 \<ge> ?iy1")
    case True
    then have "\<not> (in_rect r x y \<and> in_rect s x y)" using both by linarith
    with True show ?thesis by (auto simp: subtractRectFromRect_def Let_def)
  next
    case False
    then have "(\<exists>q \<in> set (subtractRectFromRect r s). in_rect q x y) \<longleftrightarrow>
        (rx r \<le> x \<and> x < rx r + rw r \<and> ry r \<le> y \<and> y < ry r + rh r)
        \<and> \<not> (?ix0 \<le> x \<and> x < ?ix1 \<and> ?iy0 \<le> y \<and> y < ?iy1)"
      unfolding subtractRectFromRect_def Let_def if_not_P [OF False]
      by (intro strips_points) auto
    with both show ?thesis by (auto simp: in_rect_def)
  qed
qed

lemma subtractRect_nonempty:
  "0 < rw r \<Longrightarrow> 0 < rh r \<Longrightarrow> q \<in> set (subtractRectFromRect r s) \<Longrightarrow> 0 < rw q \<and> 0 < rh q"
  unfolding subtractRectFromRect_def Let_def by (auto split: if_splits)

lemma subtractRect_disjoint:
  "sorted_wrt (\<lambda>p q. \<forall>x y. \<not> (in_rect p x y \<and> in_rect q x y)) (subtractRectFromRect r s)"
  unfolding subtractRectFromRect_def in_rect_def Let_def by (auto simp del: max_less_iff_conj)

text \<open>The strips stay inside the rectangle they are cut from.\<close>

definition rect_within :: "number \<Rightarrow> number \<Rightarrow> number \<Rightarrow> number \<Rightarrow> rect \<Rightarrow> bool" where
  "rect_within x0 y0 x1 y1 q \<longleftrightarrow> x0 \<le> rx q \<and> y0 \<le> ry q \<and> rx q + rw q \<le> x1 \<and> ry q + rh q \<le> y1"

lemma subtractRect_within:
  "rect_within x0 y0 x1 y1 r \<Longrightarrow> q \<in> set (subtractRectFromRect r s) \<Longrightarrow> rect_within x0 y0 x1 y1 q"
  unfolding subtractRectFromRect_def Let_def rect_within_def by (auto split: if_splits)

lemma region_contains_iff: "region_contains r x y \<longleftrightarrow> (\<exists>q \<in> set r. in_rect q x y)"
  by (induction r) (auto simp: in_rect_def)

lemma concat_subtract_points:
  "(\<exists>q \<in> set (concat (map (\<lambda>q. subtractRectFromRect q s) r)). in_rect q x y) \<longleftrightarrow>
     (\<exists>q \<in> set r. in_rect q x y) \<and> \<not> in_rect s x y"
proof -
  have "(\<exists>q \<in> set (concat (map (\<lambda>q. subtractRectFromRect q s) r)). in_rect q x y) \<longleftrightarrow>
      (\<exists>p \<in> set r. \<exists>q \<in> set (subtractRectFromRect p s). in_rect q x y)"
    by auto
  then show ?thesis by (auto simp: subtractRect_points)
qed

lemma region_subtract_points:
  "region_contains (region_subtract r x y w h) px py \<longleftrightarrow>
     region_contains r px py \<and> \<not> in_rect \<lparr>rx = x, ry = y, rw = w, rh = h\<rparr> px py"
  unfolding region_contains_iff region_subtract_def
  by (cases "w \<le> 0 \<or> h \<le> 0") (auto simp only: concat_subtract_points if_True if_False, auto simp: in_rect_def)

lemma region_add_points:
  "region_contains (region_add r x y w h) px py \<longleftrightarrow>
     region_contains r px py \<or> in_rect \<lparr>rx = x, ry = y, rw = w, rh = h\<rparr> px py"
proof (cases "w \<le> 0 \<or> h \<le> 0")
  case True
  then show ?thesis by (auto simp: region_add_def in_rect_def)
next
  case False
  then show ?thesis
    using concat_subtract_points [of "\<lparr>rx = x, ry = y, rw = w, rh = h\<rparr>" r px py]
    by (auto simp: region_contains_iff region_add_def)
qed

section \<open>The list invariant\<close>

lemma concat_subtract_wf:
  "region_wf r \<Longrightarrow> region_wf (concat (map (\<lambda>q. subtractRectFromRect q s) r))"
proof (induction r)
  case Nil
  then show ?case by simp
next
  case (Cons q r)
  let ?rest = "concat (map (\<lambda>q. subtractRectFromRect q s) r)"
  from Cons.prems have r: "region_wf r" and q: "0 < rw q" "0 < rh q"
    and apart: "\<And>p x y. p \<in> set r \<Longrightarrow> \<not> (in_rect q x y \<and> in_rect p x y)"
    by (auto simp: region_wf_def)
  have sep: "\<not> (in_rect a x y \<and> in_rect b x y)"
    if "a \<in> set (subtractRectFromRect q s)" "b \<in> set ?rest" for a b x y
  proof
    assume both: "in_rect a x y \<and> in_rect b x y"
    with that(1) have "in_rect q x y" using subtractRect_points by blast
    moreover from both that(2) obtain p where "p \<in> set r" "in_rect p x y"
      using concat_subtract_points by blast
    ultimately show False using apart by blast
  qed
  have rest: "region_wf ?rest" by (rule Cons.IH [OF r])
  have "region_wf (subtractRectFromRect q s @ ?rest)"
    unfolding region_wf_def sorted_wrt_append
    using rest subtractRect_disjoint [of q s] subtractRect_nonempty [OF q] sep
    unfolding region_wf_def set_append ball_Un by blast
  then show ?case by simp
qed

lemma region_subtract_wf [wf_intros]: "region_wf r \<Longrightarrow> region_wf (region_subtract r x y w h)"
  unfolding region_subtract_def by (simp add: concat_subtract_wf)

lemma region_add_wf [wf_intros]:
  assumes "region_wf r"
  shows "region_wf (region_add r x y w h)"
proof (cases "w \<le> 0 \<or> h \<le> 0")
  case True
  with assms show ?thesis by (simp add: region_add_def)
next
  case False
  let ?n = "\<lparr>rx = x, ry = y, rw = w, rh = h\<rparr>"
  let ?c = "concat (map (\<lambda>q. subtractRectFromRect q ?n) r)"
  have "\<not> (in_rect a px py \<and> in_rect ?n px py)" if "a \<in> set ?c" for a px py
    using concat_subtract_points [of ?n r px py] that by blast
  with concat_subtract_wf [OF assms, of ?n] False show ?thesis
    by (simp add: region_add_def region_wf_def sorted_wrt_append)
qed

lemma region_empty_wf [wf_intros]: "region_wf region_empty"
  by (simp add: region_wf_def region_empty_def)

lemma region_add_within:
  assumes "\<forall>q \<in> set r. rect_within x0 y0 x1 y1 q"
    and "rect_within x0 y0 x1 y1 \<lparr>rx = x, ry = y, rw = w, rh = h\<rparr>"
  shows "\<forall>q \<in> set (region_add r x y w h). rect_within x0 y0 x1 y1 q"
  using assms subtractRect_within [of x0 y0 x1 y1] by (auto simp: region_add_def)

section \<open>The interface\<close>

locale region_store =
  fixes empty :: "'r"
    and add subtract :: "'r \<Rightarrow> number \<Rightarrow> number \<Rightarrow> number \<Rightarrow> number \<Rightarrow> 'r"
    and contains :: "'r \<Rightarrow> number \<Rightarrow> number \<Rightarrow> bool"
    and snapshot :: "'r \<Rightarrow> rect list"
    and inv :: "'r \<Rightarrow> bool"
  assumes inv_empty: "inv empty"
    and inv_add: "inv r \<Longrightarrow> inv (add r x y w h)"
    and inv_subtract: "inv r \<Longrightarrow> inv (subtract r x y w h)"
    and contains_empty: "\<not> contains empty px py"
    and contains_add: "contains (add r x y w h) px py \<longleftrightarrow>
          contains r px py \<or> in_rect \<lparr>rx = x, ry = y, rw = w, rh = h\<rparr> px py"
    and contains_subtract: "contains (subtract r x y w h) px py \<longleftrightarrow>
          contains r px py \<and> \<not> in_rect \<lparr>rx = x, ry = y, rw = w, rh = h\<rparr> px py"
    and contains_snapshot: "contains r px py \<longleftrightarrow> (\<exists>q \<in> set (snapshot r). in_rect q px py)"
    and snapshot_nonempty: "inv r \<Longrightarrow> q \<in> set (snapshot r) \<Longrightarrow> 0 < rw q \<and> 0 < rh q"
begin

lemma contains_add_mono: "contains r px py \<Longrightarrow> contains (add r x y w h) px py"
  by (simp add: contains_add)

lemma snapshot_empty_iff: "inv r \<Longrightarrow> snapshot r = [] \<longleftrightarrow> (\<forall>px py. \<not> contains r px py)"
proof
  assume r: "inv r" and none: "\<forall>px py. \<not> contains r px py"
  show "snapshot r = []"
  proof (rule ccontr)
    assume "snapshot r \<noteq> []"
    then obtain q where q: "q \<in> set (snapshot r)" by (meson last_in_set)
    with snapshot_nonempty [OF r q] have "in_rect q (rx q) (ry q)" by (simp add: in_rect_def)
    with q none show False by (auto simp: contains_snapshot)
  qed
qed (simp add: contains_snapshot)

lemma contains_bounds:
  assumes "contains r px py"
    and "\<And>q. q \<in> set (snapshot r) \<Longrightarrow> x0 \<le> rx q \<and> y0 \<le> ry q \<and> rx q + rw q \<le> x1 \<and> ry q + rh q \<le> y1"
  shows "x0 \<le> px" "y0 \<le> py" "px < x1" "py < y1"
proof -
  from assms(1) obtain q where q: "q \<in> set (snapshot r)" and i: "in_rect q px py"
    by (auto simp: contains_snapshot)
  from assms(2) [OF q] i show "x0 \<le> px" "y0 \<le> py" "px < x1" "py < y1"
    unfolding in_rect_def by linarith+
qed

end

interpretation region: region_store region_empty region_add region_subtract region_contains
  region_snapshot region_wf
proof unfold_locales
  show "\<not> region_contains region_empty px py" for px py
    by (simp add: region_empty_def)
  show "region_contains r px py \<longleftrightarrow> (\<exists>q \<in> set (region_snapshot r). in_rect q px py)" for r px py
    by (simp add: region_snapshot_def region_contains_iff)
  show "region_wf r \<Longrightarrow> q \<in> set (region_snapshot r) \<Longrightarrow> 0 < rw q \<and> 0 < rh q" for r q
    by (auto simp: region_snapshot_def region_wf_def)
qed (rule region_add_points region_subtract_points | erule wf_intros | rule wf_intros)+

section \<open>Sequences of requests\<close>

datatype region_op = RAdd number number number number | RSubtract number number number number

fun region_apply :: "region \<Rightarrow> region_op \<Rightarrow> region" where
  "region_apply r (RAdd x y w h) = region_add r x y w h"
| "region_apply r (RSubtract x y w h) = region_subtract r x y w h"

text \<open>
  The specification of a client's request sequence: the last request whose rectangle covers the
  point decides.
\<close>

fun region_spec :: "region_op list \<Rightarrow> number \<Rightarrow> number \<Rightarrow> bool" where
  "region_spec [] px py = False"
| "region_spec (RAdd x y w h # later) px py =
     (in_rect \<lparr>rx = x, ry = y, rw = w, rh = h\<rparr> px py \<or> region_spec later px py)"
| "region_spec (RSubtract x y w h # later) px py =
     (\<not> in_rect \<lparr>rx = x, ry = y, rw = w, rh = h\<rparr> px py \<and> region_spec later px py)"

lemma region_apply_wf: "region_wf r \<Longrightarrow> region_wf (region_apply r oper)"
  by (cases oper) (auto intro: wf_intros)

text \<open>
  C19: for every sequence of \<open>add\<close> and \<open>subtract\<close> requests (\<open>region_spec\<close> reads the newest
  first) the rectangle list answers \<open>contains\<close> exactly as the point-set reading of the requests
  does, whatever the splitting into strips has produced, and the list keeps the documented
  invariant: no empty rectangle and no two that overlap.
\<close>

theorem region_requests_refine:
  "region_contains (foldl region_apply region_empty ops) px py = region_spec (rev ops) px py
   \<and> region_wf (foldl region_apply region_empty ops)"
proof (induction ops rule: rev_induct)
  case Nil
  then show ?case by (simp add: region_empty_def region_wf_def)
next
  case (snoc oper ops)
  then show ?case
    by (cases oper) (auto simp: region.contains_add region.contains_subtract intro: wf_intros)
qed

end
