(* ===== verification/Damage.thy ===== *)
theory Damage
  imports Region
begin

text \<open>
  \<open>packages/core/src/gpu/output-damage-ring.ts\<close> and \<open>output-damage-map.ts\<close>: what has to be
  repainted. A ring holds, per scanout slot, a region of stale pixels in output-local coordinates;
  the map holds a ring per output, converts between the global plane and each output's local
  space (through the output's content camera), and keeps the per-output dirty bit.
  The ring is a client of the \<open>region_store\<close> interface.
\<close>

section \<open>The ring of one output\<close>

datatype repaint = RFull | RPartial rect

record damage_ring =
  dr_slots :: "(int, region) omap"
  dr_width :: number
  dr_height :: number

definition ring_new :: damage_ring where
  "ring_new = \<lparr>dr_slots = [], dr_width = 1, dr_height = 1\<rparr>"

definition ring_setBounds :: "damage_ring \<Rightarrow> number \<Rightarrow> number \<Rightarrow> damage_ring" where
  "ring_setBounds r w h = r\<lparr>dr_width := max 1 w, dr_height := max 1 h\<rparr>"

definition ring_full :: "damage_ring \<Rightarrow> damage_ring" where
  "ring_full r = r\<lparr>dr_slots := []\<rparr>"

definition ring_damageRect ::
  "damage_ring \<Rightarrow> number \<Rightarrow> number \<Rightarrow> number \<Rightarrow> number \<Rightarrow> damage_ring" where
  "ring_damageRect r x y w h =
     (if w \<le> 0 \<or> h \<le> 0 \<or> length (dr_slots r) = 0 then r
      else
        (let x0 = max 0 (of_int \<lfloor>x\<rfloor>);
             y0 = max 0 (of_int \<lfloor>y\<rfloor>);
             x1 = min (dr_width r) (of_int \<lceil>x + w\<rceil>);
             y1 = min (dr_height r) (of_int \<lceil>y + h\<rceil>)
         in if x1 \<le> x0 \<or> y1 \<le> y0 then r
            else r\<lparr>dr_slots :=
                     omap_values (\<lambda>region. region_add region x0 y0 (x1 - x0) (y1 - y0)) (dr_slots r)\<rparr>))"

text \<open>
  The four running extrema of \<open>take\<close>. The code starts them at plus and minus infinity; for a
  non-empty list (the only case it reaches) starting at the first rectangle is the same.
\<close>

fun ring_extent :: "rect list \<Rightarrow> number \<times> number \<times> number \<times> number" where
  "ring_extent [] = (0, 0, 0, 0)"
| "ring_extent [q] = (rx q, ry q, rx q + rw q, ry q + rh q)"
| "ring_extent (q # qs) =
     (let (x0, y0, x1, y1) = ring_extent qs
      in (if rx q < x0 then rx q else x0,
          if ry q < y0 then ry q else y0,
          if rx q + rw q > x1 then rx q + rw q else x1,
          if ry q + rh q > y1 then ry q + rh q else y1))"

definition ring_take :: "damage_ring \<Rightarrow> int \<Rightarrow> damage_ring \<times> repaint" where
  "ring_take r key =
     (let existing = oget (dr_slots r) key;
          r' = r\<lparr>dr_slots := oset key region_empty (dr_slots r)\<rparr>
      in case existing of
           None \<Rightarrow> (r', RFull)
         | Some region \<Rightarrow>
             (let rects = region_snapshot region
              in if length rects = 0 then (r', RFull)
                 else
                   (let (x0, y0, x1, y1) = ring_extent rects
                    in if x0 \<le> 0 \<and> y0 \<le> 0 \<and> x1 \<ge> dr_width r \<and> y1 \<ge> dr_height r
                       then (r', RFull)
                       else (r', RPartial \<lparr>rx = x0, ry = y0, rw = x1 - x0, rh = y1 - y0\<rparr>))))"

section \<open>The map of outputs\<close>

record output_bounds =
  ob_outputId :: nat
  ob_logicalX :: number
  ob_logicalY :: number
  ob_logicalWidth :: number
  ob_logicalHeight :: number

record damage_entry =
  de_bounds :: output_bounds
  de_ring :: damage_ring

record camera =
  cam_x :: number
  cam_y :: number
  cam_zoom :: number

record damage_map =
  dm_entries :: "(nat, damage_entry) omap"
  dm_cameras :: "(nat, camera) omap"
  dm_dirty :: "nat list"

definition dmap_new :: damage_map where
  "dmap_new = \<lparr>dm_entries = [], dm_cameras = [], dm_dirty = []\<rparr>"

fun setOutputs_loop ::
  "(nat, damage_entry) omap \<Rightarrow> output_bounds list \<Rightarrow> (nat, damage_entry) omap \<Rightarrow> nat list
     \<Rightarrow> (nat, damage_entry) omap \<times> nat list" where
  "setOutputs_loop old [] next dirty = (next, dirty)"
| "setOutputs_loop old (b # bs) next dirty =
     (let prev = oget old (ob_outputId b);
          fresh = ring_setBounds ring_new (ob_logicalWidth b) (ob_logicalHeight b)
      in case prev of
           Some p \<Rightarrow>
             if ob_logicalWidth (de_bounds p) = ob_logicalWidth b
                \<and> ob_logicalHeight (de_bounds p) = ob_logicalHeight b
             then setOutputs_loop old bs
                    (oset (ob_outputId b)
                       \<lparr>de_bounds = b,
                        de_ring = ring_setBounds (de_ring p) (ob_logicalWidth b) (ob_logicalHeight b)\<rparr>
                       next)
                    dirty
             else setOutputs_loop old bs
                    (oset (ob_outputId b) \<lparr>de_bounds = b, de_ring = ring_full fresh\<rparr> next)
                    (oset_add (ob_outputId b) dirty)
         | None \<Rightarrow>
             setOutputs_loop old bs
               (oset (ob_outputId b) \<lparr>de_bounds = b, de_ring = fresh\<rparr> next)
               (oset_add (ob_outputId b) dirty))"

definition dmap_setOutputs :: "damage_map \<Rightarrow> output_bounds list \<Rightarrow> damage_map" where
  "dmap_setOutputs m outputs =
     (let (next, dirty) = setOutputs_loop (dm_entries m) outputs [] (dm_dirty m)
      in m\<lparr>dm_entries := next, dm_dirty := filter (\<lambda>oid. oget next oid \<noteq> None) dirty\<rparr>)"

definition dmap_full :: "damage_map \<Rightarrow> damage_map" where
  "dmap_full m =
     m\<lparr>dm_entries := omap_values (\<lambda>e. e\<lparr>de_ring := ring_full (de_ring e)\<rparr>) (dm_entries m),
       dm_dirty := foldl (\<lambda>d (_, e). oset_add (ob_outputId (de_bounds e)) d) (dm_dirty m) (dm_entries m)\<rparr>"

text \<open>
  One output's share of a global damage rectangle: \<open>None\<close> when the loop body continues without
  touching it, else the rectangle handed to its ring.
\<close>

definition damage_share ::
  "damage_map \<Rightarrow> output_bounds \<Rightarrow> number \<Rightarrow> number \<Rightarrow> number \<Rightarrow> number \<Rightarrow> bool \<Rightarrow> nat list
     \<Rightarrow> (number \<times> number \<times> number \<times> number) option" where
  "damage_share m b gx gy w h anchored exclude =
     (if ob_outputId b \<in> set exclude then None
      else
        (let cam = (if anchored then None else oget (dm_cameras m) (ob_outputId b));
             z = (case cam of Some c \<Rightarrow> cam_zoom c | None \<Rightarrow> 1);
             bx = ob_logicalX b + (case cam of Some c \<Rightarrow> cam_x c | None \<Rightarrow> 0);
             by = ob_logicalY b + (case cam of Some c \<Rightarrow> cam_y c | None \<Rightarrow> 0);
             lx0 = max gx bx;
             ly0 = max gy by;
             lx1 = min (gx + w) (bx + ob_logicalWidth b / z);
             ly1 = min (gy + h) (by + ob_logicalHeight b / z)
         in if lx1 \<le> lx0 \<or> ly1 \<le> ly0 then None
            else Some ((lx0 - bx) * z, (ly0 - by) * z, (lx1 - lx0) * z, (ly1 - ly0) * z)))"

definition dmap_damageRect ::
  "damage_map \<Rightarrow> number \<Rightarrow> number \<Rightarrow> number \<Rightarrow> number \<Rightarrow> bool \<Rightarrow> nat list \<Rightarrow> damage_map" where
  "dmap_damageRect m gx gy w h anchored exclude =
     (if w \<le> 0 \<or> h \<le> 0 then m
      else
        m\<lparr>dm_entries :=
            omap_values
              (\<lambda>e. case damage_share m (de_bounds e) gx gy w h anchored exclude of
                     None \<Rightarrow> e
                   | Some (x, y, w', h') \<Rightarrow> e\<lparr>de_ring := ring_damageRect (de_ring e) x y w' h'\<rparr>)
              (dm_entries m),
          dm_dirty :=
            foldl
              (\<lambda>d (_, e). case damage_share m (de_bounds e) gx gy w h anchored exclude of
                            None \<Rightarrow> d
                          | Some _ \<Rightarrow> oset_add (ob_outputId (de_bounds e)) d)
              (dm_dirty m) (dm_entries m)\<rparr>)"

definition dmap_setCamera :: "damage_map \<Rightarrow> nat \<Rightarrow> number \<Rightarrow> number \<Rightarrow> number \<Rightarrow> damage_map" where
  "dmap_setCamera m outputId x y zoom =
     (if x = 0 \<and> y = 0 \<and> zoom = 1 then m\<lparr>dm_cameras := odel outputId (dm_cameras m)\<rparr>
      else m\<lparr>dm_cameras := oset outputId \<lparr>cam_x = x, cam_y = y, cam_zoom = zoom\<rparr> (dm_cameras m)\<rparr>)"

definition dmap_fullOutput :: "damage_map \<Rightarrow> nat \<Rightarrow> damage_map" where
  "dmap_fullOutput m outputId =
     (case oget (dm_entries m) outputId of
        None \<Rightarrow> m
      | Some e \<Rightarrow>
          m\<lparr>dm_entries := oset outputId (e\<lparr>de_ring := ring_full (de_ring e)\<rparr>) (dm_entries m),
            dm_dirty := oset_add outputId (dm_dirty m)\<rparr>)"

definition dmap_isDirty :: "damage_map \<Rightarrow> nat \<Rightarrow> bool" where
  "dmap_isDirty m outputId \<longleftrightarrow> outputId \<in> set (dm_dirty m)"

definition dmap_markDirty :: "damage_map \<Rightarrow> nat \<Rightarrow> damage_map" where
  "dmap_markDirty m outputId =
     (if oget (dm_entries m) outputId \<noteq> None
      then m\<lparr>dm_dirty := oset_add outputId (dm_dirty m)\<rparr> else m)"

definition dmap_clearDirty :: "damage_map \<Rightarrow> nat \<Rightarrow> damage_map" where
  "dmap_clearDirty m outputId = m\<lparr>dm_dirty := removeAll outputId (dm_dirty m)\<rparr>"

definition toGlobal :: "output_bounds \<Rightarrow> rect \<Rightarrow> rect" where
  "toGlobal b box = box\<lparr>rx := rx box + ob_logicalX b, ry := ry box + ob_logicalY b\<rparr>"

definition dmap_take :: "damage_map \<Rightarrow> nat \<Rightarrow> int \<Rightarrow> damage_map \<times> repaint" where
  "dmap_take m outputId slotKey =
     (case oget (dm_entries m) outputId of
        None \<Rightarrow> (m, RFull)
      | Some e \<Rightarrow>
          (let (ring, local) = ring_take (de_ring e) slotKey;
               m' = m\<lparr>dm_entries := oset outputId (e\<lparr>de_ring := ring\<rparr>) (dm_entries m)\<rparr>
           in case local of
                RFull \<Rightarrow> (m', RFull)
              | RPartial box \<Rightarrow> (m', RPartial (toGlobal (de_bounds e) box))))"

definition dmap_size :: "damage_map \<Rightarrow> nat" where
  "dmap_size m = length (dm_entries m)"

section \<open>Facts on the ring\<close>

definition region_in_bounds :: "number \<Rightarrow> number \<Rightarrow> region \<Rightarrow> bool" where
  "region_in_bounds w h r \<longleftrightarrow> region_wf r \<and> (\<forall>q \<in> set r. rect_within 0 0 w h q)"

definition ring_wf :: "damage_ring \<Rightarrow> bool" where
  "ring_wf r \<longleftrightarrow> distinct (okeys (dr_slots r)) \<and> 1 \<le> dr_width r \<and> 1 \<le> dr_height r \<and>
     (\<forall>k reg. oget (dr_slots r) k = Some reg \<longrightarrow> region_in_bounds (dr_width r) (dr_height r) reg)"

text \<open>A repaint answer covers a point: everything, or the points of the box.\<close>

fun repaint_covers :: "repaint \<Rightarrow> number \<Rightarrow> number \<Rightarrow> bool" where
  "repaint_covers RFull x y = True"
| "repaint_covers (RPartial box) x y = in_rect box x y"

text \<open>Slot \<open>k\<close> knows that the point is stale: it is untracked (a full repaint), or its region has it.\<close>

definition slot_stale :: "damage_ring \<Rightarrow> int \<Rightarrow> number \<Rightarrow> number \<Rightarrow> bool" where
  "slot_stale r k x y \<longleftrightarrow> (case oget (dr_slots r) k of None \<Rightarrow> True | Some reg \<Rightarrow> region_contains reg x y)"

lemma region_in_bounds_empty [simp]: "region_in_bounds w h region_empty"
  by (simp add: region_in_bounds_def region_empty_wf) (simp add: region_empty_def)

lemma ring_new_wf [wf_intros]: "ring_wf ring_new"
  by (simp add: ring_wf_def ring_new_def)

lemma ring_full_wf [wf_intros]: "ring_wf r \<Longrightarrow> ring_wf (ring_full r)"
  by (simp add: ring_wf_def ring_full_def)

lemma ring_setBounds_new_wf [wf_intros]: "ring_wf (ring_setBounds ring_new w h)"
  by (simp add: ring_wf_def ring_new_def ring_setBounds_def)

lemma ring_damageRect_wf [wf_intros]:
  assumes "ring_wf r"
  shows "ring_wf (ring_damageRect r x y w h)"
proof -
  have add: "region_in_bounds (dr_width r) (dr_height r) (region_add reg x0 y0 (x1 - x0) (y1 - y0))"
    if "region_in_bounds (dr_width r) (dr_height r) reg" "0 \<le> x0" "0 \<le> y0" "x1 \<le> dr_width r" "y1 \<le> dr_height r"
    for reg x0 y0 x1 y1
    using that region_add_within [of reg 0 0 "dr_width r" "dr_height r" x0 y0 "x1 - x0" "y1 - y0"]
    unfolding region_in_bounds_def by (simp add: region_add_wf rect_within_def)
  show ?thesis
    using assms unfolding ring_damageRect_def Let_def ring_wf_def
    by (auto intro!: add)
qed

lemma ring_take_wf [wf_intros]: "ring_wf r \<Longrightarrow> ring_wf (fst (ring_take r k))"
  unfolding ring_take_def Let_def ring_wf_def
  by (auto split: option.splits prod.splits simp: if_distrib cong: if_cong)

lemma ring_dims [simp]:
  "dr_width (ring_damageRect r x y w h) = dr_width r"
  "dr_height (ring_damageRect r x y w h) = dr_height r"
  "dr_width (ring_full r) = dr_width r" "dr_height (ring_full r) = dr_height r"
  "dr_width (fst (ring_take r k)) = dr_width r" "dr_height (fst (ring_take r k)) = dr_height r"
  by (simp_all add: ring_damageRect_def ring_full_def ring_take_def Let_def split: option.splits prod.splits)

lemma ring_extent_bounds:
  "ring_extent qs = (x0, y0, x1, y1) \<Longrightarrow> q \<in> set qs \<Longrightarrow>
     x0 \<le> rx q \<and> y0 \<le> ry q \<and> rx q + rw q \<le> x1 \<and> ry q + rh q \<le> y1"
  by (induction qs arbitrary: x0 y0 x1 y1 rule: ring_extent.induct)
     (fastforce split: prod.splits if_splits)+

lemma ring_extent_within:
  "ring_extent qs = (x0, y0, x1, y1) \<Longrightarrow> qs \<noteq> [] \<Longrightarrow> \<forall>q \<in> set qs. rect_within a b c d q \<Longrightarrow>
     a \<le> x0 \<and> b \<le> y0 \<and> x1 \<le> c \<and> y1 \<le> d"
  by (induction qs arbitrary: x0 y0 x1 y1 rule: ring_extent.induct)
     (fastforce simp: rect_within_def split: prod.splits if_splits)+

lemma ring_damageRect_mono: "slot_stale r k px py \<Longrightarrow> slot_stale (ring_damageRect r x y w h) k px py"
  by (auto simp: slot_stale_def ring_damageRect_def Let_def region.contains_add_mono split: option.splits)

lemma ring_damageRect_stale:
  assumes "in_rect \<lparr>rx = x, ry = y, rw = w, rh = h\<rparr> px py"
    and "in_rect \<lparr>rx = 0, ry = 0, rw = dr_width r, rh = dr_height r\<rparr> px py"
  shows "slot_stale (ring_damageRect r x y w h) k px py"
proof -
  from assms have "x \<le> px" "px < x + w" "y \<le> py" "py < y + h" "0 \<le> px" "0 \<le> py"
    "px < dr_width r" "py < dr_height r"
    by (auto simp: in_rect_def)
  moreover have "of_int \<lfloor>x\<rfloor> \<le> x" "of_int \<lfloor>y\<rfloor> \<le> y" "x + w \<le> of_int \<lceil>x + w\<rceil>" "y + h \<le> of_int \<lceil>y + h\<rceil>"
    by simp_all
  ultimately have x: "max 0 (of_int \<lfloor>x\<rfloor>) \<le> px" "px < min (dr_width r) (of_int \<lceil>x + w\<rceil>)"
    and y: "max 0 (of_int \<lfloor>y\<rfloor>) \<le> py" "py < min (dr_height r) (of_int \<lceil>y + h\<rceil>)"
    and wh: "0 < w" "0 < h"
    by linarith+
  then have "max 0 (of_int \<lfloor>x\<rfloor>) < min (dr_width r) (of_int \<lceil>x + w\<rceil>)"
    "max 0 (of_int \<lfloor>y\<rfloor>) < min (dr_height r) (of_int \<lceil>y + h\<rceil>)"
    by linarith+
  with x y wh show ?thesis
    unfolding slot_stale_def ring_damageRect_def Let_def
    by (cases "oget (dr_slots r) k") (auto simp: region.contains_add in_rect_def)
qed

lemma ring_full_stale: "slot_stale (ring_full r) k px py"
  by (simp add: slot_stale_def ring_full_def)

lemma ring_take_other: "k' \<noteq> k \<Longrightarrow> slot_stale (fst (ring_take r k')) k px py = slot_stale r k px py"
  by (simp add: slot_stale_def ring_take_def Let_def split: option.splits prod.splits)

lemma ring_take_covers:
  assumes "slot_stale r k px py"
  shows "repaint_covers (snd (ring_take r k)) px py"
proof (cases "oget (dr_slots r) k")
  case None
  then show ?thesis by (simp add: ring_take_def Let_def)
next
  case (Some reg)
  obtain x0 y0 x1 y1 where ext: "ring_extent reg = (x0, y0, x1, y1)" by (metis prod_cases4)
  from assms Some have c: "region_contains reg px py" by (simp add: slot_stale_def)
  have "x0 \<le> px" "y0 \<le> py" "px < x1" "py < y1"
    using region.contains_bounds [OF c, of x0 y0 x1 y1] ring_extent_bounds [OF ext]
    by (simp_all add: region_snapshot_def)
  with Some ext show ?thesis
    by (simp add: ring_take_def Let_def region_snapshot_def in_rect_def)
qed

lemma ring_take_box:
  assumes "ring_wf r" and "snd (ring_take r k) = RPartial box"
  shows "rect_within 0 0 (dr_width r) (dr_height r) box" "0 < rw box" "0 < rh box"
proof -
  from assms(2) obtain reg x0 y0 x1 y1 where reg: "oget (dr_slots r) k = Some reg" "reg \<noteq> []"
    and ext: "ring_extent reg = (x0, y0, x1, y1)"
    and box: "box = \<lparr>rx = x0, ry = y0, rw = x1 - x0, rh = y1 - y0\<rparr>"
    by (auto simp: ring_take_def Let_def region_snapshot_def split: option.splits prod.splits if_splits)
  from assms(1) reg have wf: "region_wf reg" and within: "\<forall>q \<in> set reg. rect_within 0 0 (dr_width r) (dr_height r) q"
    by (auto simp: ring_wf_def region_in_bounds_def)
  from ring_extent_within [OF ext reg(2) within] box
  show "rect_within 0 0 (dr_width r) (dr_height r) box" by (simp add: rect_within_def)
  from reg(2) obtain q where q: "q \<in> set reg" by (meson last_in_set)
  with wf have "0 < rw q" "0 < rh q" by (auto simp: region_wf_def)
  with ring_extent_bounds [OF ext q] box show "0 < rw box" "0 < rh box" by auto
qed

section \<open>The map as a machine\<close>

datatype dmap_op =
  DSetOutputs "output_bounds list"
| DFull
| DDamage number number number number bool "nat list"
| DSetCamera nat number number number
| DFullOutput nat
| DMarkDirty nat
| DClearDirty nat
| DTake nat int

fun dmap_step :: "damage_map \<Rightarrow> dmap_op \<Rightarrow> damage_map \<times> repaint option" where
  "dmap_step m (DSetOutputs bs) = (dmap_setOutputs m bs, None)"
| "dmap_step m DFull = (dmap_full m, None)"
| "dmap_step m (DDamage x y w h anchored exclude) = (dmap_damageRect m x y w h anchored exclude, None)"
| "dmap_step m (DSetCamera o' x y zoom) = (dmap_setCamera m o' x y zoom, None)"
| "dmap_step m (DFullOutput o') = (dmap_fullOutput m o', None)"
| "dmap_step m (DMarkDirty o') = (dmap_markDirty m o', None)"
| "dmap_step m (DClearDirty o') = (dmap_clearDirty m o', None)"
| "dmap_step m (DTake o' k) = (let (m', res) = dmap_take m o' k in (m', Some res))"

text \<open>A camera's zoom is positive.\<close>

fun dmap_ok :: "damage_map \<Rightarrow> dmap_op \<Rightarrow> bool" where
  "dmap_ok m (DSetCamera o' x y zoom) = (0 < zoom)"
| "dmap_ok m _ = True"

definition entry_wf :: "nat \<Rightarrow> damage_entry \<Rightarrow> bool" where
  "entry_wf oid e \<longleftrightarrow> ob_outputId (de_bounds e) = oid \<and> ring_wf (de_ring e)
     \<and> dr_width (de_ring e) = max 1 (ob_logicalWidth (de_bounds e))
     \<and> dr_height (de_ring e) = max 1 (ob_logicalHeight (de_bounds e))"

definition entries_wf :: "(nat, damage_entry) omap \<Rightarrow> bool" where
  "entries_wf es \<longleftrightarrow> distinct (okeys es) \<and> (\<forall>oid e. oget es oid = Some e \<longrightarrow> entry_wf oid e)"

definition dmap_wf :: "damage_map \<Rightarrow> bool" where
  "dmap_wf m \<longleftrightarrow> entries_wf (dm_entries m)
     \<and> (\<forall>oid c. oget (dm_cameras m) oid = Some c \<longrightarrow> 0 < cam_zoom c)
     \<and> set (dm_dirty m) \<subseteq> set (okeys (dm_entries m))"

lemma dmap_new_wf: "dmap_wf dmap_new"
  by (simp add: dmap_wf_def dmap_new_def entries_wf_def)

lemma entries_wfD: "entries_wf es \<Longrightarrow> oget es oid = Some e \<Longrightarrow> entry_wf oid e"
  by (simp add: entries_wf_def)

lemma entries_wf_oset: "entries_wf es \<Longrightarrow> entry_wf oid e \<Longrightarrow> entries_wf (oset oid e es)"
  by (simp add: entries_wf_def)

lemma entries_wf_values:
  assumes "entries_wf es" "\<And>oid e. entry_wf oid e \<Longrightarrow> entry_wf oid (f e)"
  shows "entries_wf (omap_values f es)"
  using assms by (auto simp: entries_wf_def)

lemma entry_wf_fresh:
  "entry_wf (ob_outputId b)
     \<lparr>de_bounds = b, de_ring = ring_setBounds ring_new (ob_logicalWidth b) (ob_logicalHeight b)\<rparr>"
  using ring_setBounds_new_wf [of "ob_logicalWidth b" "ob_logicalHeight b"]
  by (simp add: entry_wf_def) (simp add: ring_setBounds_def)

lemma entry_wf_stale:
  "entry_wf (ob_outputId b)
     \<lparr>de_bounds = b, de_ring = ring_full (ring_setBounds ring_new (ob_logicalWidth b) (ob_logicalHeight b))\<rparr>"
  using entry_wf_fresh [of b] ring_full_wf by (simp add: entry_wf_def)

lemma entry_wf_kept:
  assumes "entry_wf (ob_outputId b) p"
    and "ob_logicalWidth (de_bounds p) = ob_logicalWidth b"
    and "ob_logicalHeight (de_bounds p) = ob_logicalHeight b"
  shows "entry_wf (ob_outputId b) \<lparr>de_bounds = b,
      de_ring = ring_setBounds (de_ring p) (ob_logicalWidth b) (ob_logicalHeight b)\<rparr>"
proof -
  have "ring_setBounds (de_ring p) (ob_logicalWidth b) (ob_logicalHeight b) = de_ring p"
    using assms by (simp add: entry_wf_def ring_setBounds_def)
  with assms show ?thesis by (simp add: entry_wf_def)
qed

lemma setOutputs_loop_entries:
  "entries_wf old \<Longrightarrow> entries_wf next \<Longrightarrow> entries_wf (fst (setOutputs_loop old bs next dirty))"
proof (induction bs arbitrary: "next" dirty)
  case Nil
  then show ?case by simp
next
  case (Cons b bs)
  show ?case
    by (cases "oget old (ob_outputId b)")
       (use Cons entries_wfD in \<open>simp_all add: Let_def entries_wf_oset entry_wf_fresh entry_wf_stale entry_wf_kept\<close>)
qed

lemma dmap_setOutputs_wf: "dmap_wf m \<Longrightarrow> dmap_wf (dmap_setOutputs m bs)"
  using setOutputs_loop_entries [of "dm_entries m" "[]" bs "dm_dirty m"]
  by (auto simp: dmap_wf_def dmap_setOutputs_def entries_wf_def oget_None_key split: prod.splits
      dest: oget_Some_key)

lemma foldl_dirty_set:
  "set (foldl (\<lambda>d (_, e). oset_add (f e) d) ds es) = set ds \<union> (\<lambda>(_, e). f e) ` set es"
  by (induction es arbitrary: ds) auto

lemma foldl_dirty_set_if:
  "set (foldl (\<lambda>d (_, e). case g e of None \<Rightarrow> d | Some _ \<Rightarrow> oset_add (f e) d) ds es)
     = set ds \<union> (\<lambda>(_, e). f e) ` {(k, e) \<in> set es. g e \<noteq> None}"
proof (induction es arbitrary: ds)
  case Nil
  then show ?case by simp
next
  case (Cons p es)
  obtain k e where p: "p = (k, e)" by (cases p)
  show ?case
  proof (cases "g e")
    case None
    then have "{(k, e) \<in> set (p # es). g e \<noteq> None} = {(k, e) \<in> set es. g e \<noteq> None}"
      by (auto simp: p)
    with None Cons.IH [of ds] show ?thesis by (simp add: p)
  next
    case (Some y)
    then have "{(k, e) \<in> set (p # es). g e \<noteq> None} = insert p {(k, e) \<in> set es. g e \<noteq> None}"
      by (auto simp: p)
    with Some Cons.IH [of "oset_add (f e) ds"] show ?thesis by (simp add: p)
  qed
qed

lemma entries_ids:
  assumes "dmap_wf m" "(k, e) \<in> set (dm_entries m)"
  shows "ob_outputId (de_bounds e) = k" "oget (dm_entries m) k = Some e"
proof -
  from assms have d: "entries_wf (dm_entries m)" by (simp add: dmap_wf_def)
  with assms(2) show o: "oget (dm_entries m) k = Some e" by (simp add: entries_wf_def)
  from entries_wfD [OF d o] show "ob_outputId (de_bounds e) = k" by (simp add: entry_wf_def)
qed

lemma entry_wf_ring [wf_intros]:
  "entry_wf oid e \<Longrightarrow> ring_wf r' \<Longrightarrow> dr_width r' = dr_width (de_ring e) \<Longrightarrow>
     dr_height r' = dr_height (de_ring e) \<Longrightarrow> entry_wf oid (e\<lparr>de_ring := r'\<rparr>)"
  by (simp add: entry_wf_def)

lemma entry_wf_ringD: "entry_wf oid e \<Longrightarrow> ring_wf (de_ring e)"
  by (simp add: entry_wf_def)

lemma dmap_wf_values:
  assumes "dmap_wf m" "\<And>oid e. entry_wf oid e \<Longrightarrow> entry_wf oid (f e)"
    and "set d \<subseteq> set (dm_dirty m) \<union> set (okeys (dm_entries m))"
  shows "dmap_wf (m\<lparr>dm_entries := omap_values f (dm_entries m), dm_dirty := d\<rparr>)"
  using assms by (auto simp: dmap_wf_def entries_wf_values)

lemma dmap_wf_update:
  assumes "dmap_wf m" "oget (dm_entries m) oid = Some e" "entry_wf oid e'"
    and "set d \<subseteq> insert oid (set (dm_dirty m))"
  shows "dmap_wf (m\<lparr>dm_entries := oset oid e' (dm_entries m), dm_dirty := d\<rparr>)"
  using assms oget_Some_key [OF assms(2)] by (auto simp: dmap_wf_def entries_wf_oset)

lemma dmap_full_wf: "dmap_wf m \<Longrightarrow> dmap_wf (dmap_full m)"
  unfolding dmap_full_def
  by (rule dmap_wf_values)
     (auto simp: foldl_dirty_set entries_ids(1) intro!: wf_intros rev_image_eqI dest: entry_wf_ringD)

lemma dmap_damageRect_wf: "dmap_wf m \<Longrightarrow> dmap_wf (dmap_damageRect m x y w h anchored ex)"
  unfolding dmap_damageRect_def
  by (cases "w \<le> 0 \<or> h \<le> 0")
     (auto 0 3 simp: foldl_dirty_set_if entries_ids(1) image_iff intro!: dmap_wf_values wf_intros
        dest: entry_wf_ringD split: option.splits)

lemma dmap_setCamera_wf: "dmap_wf m \<Longrightarrow> 0 < zoom \<Longrightarrow> dmap_wf (dmap_setCamera m oid x y zoom)"
  by (auto simp: dmap_wf_def dmap_setCamera_def split: if_splits)

lemma dmap_wf_entry: "dmap_wf m \<Longrightarrow> oget (dm_entries m) oid = Some e \<Longrightarrow> entry_wf oid e"
  by (auto simp: dmap_wf_def entries_wf_def)

lemma dmap_fullOutput_wf: "dmap_wf m \<Longrightarrow> dmap_wf (dmap_fullOutput m oid)"
  unfolding dmap_fullOutput_def
  by (auto intro!: dmap_wf_update wf_intros dest: dmap_wf_entry entry_wf_ringD split: option.splits)

lemma dmap_dirty_wf:
  "dmap_wf m \<Longrightarrow> dmap_wf (dmap_markDirty m oid)" "dmap_wf m \<Longrightarrow> dmap_wf (dmap_clearDirty m oid)"
  by (auto simp: dmap_wf_def dmap_markDirty_def dmap_clearDirty_def oget_None_key)

text \<open>What \<open>take\<close> does to the state, apart from its answer.\<close>

lemma dmap_take_state:
  "fst (dmap_take m oid k) =
     (case oget (dm_entries m) oid of
        None \<Rightarrow> m
      | Some e \<Rightarrow> m\<lparr>dm_entries := oset oid (e\<lparr>de_ring := fst (ring_take (de_ring e) k)\<rparr>) (dm_entries m)\<rparr>)"
  by (simp add: dmap_take_def Let_def split: option.splits prod.splits repaint.splits)

lemma dmap_take_wf: "dmap_wf m \<Longrightarrow> dmap_wf (fst (dmap_take m oid k))"
proof (cases "oget (dm_entries m) oid")
  case (Some e)
  assume m: "dmap_wf m"
  then have e: "entry_wf oid e" using Some by (rule dmap_wf_entry)
  from dmap_wf_update [OF m Some, of "e\<lparr>de_ring := fst (ring_take (de_ring e) k)\<rparr>" "dm_dirty m"]
  show ?thesis
    using e ring_take_wf [OF entry_wf_ringD [OF e]] by (auto simp add: dmap_take_state Some entry_wf_ring)
qed (simp add: dmap_take_state)

lemma dmap_step_take_state: "fst (dmap_step m (DTake oid k)) = fst (dmap_take m oid k)"
  by (simp split: prod.splits)

lemma dmap_step_wf: "dmap_wf m \<Longrightarrow> dmap_ok m oper \<Longrightarrow> dmap_wf (fst (dmap_step m oper))"
proof (cases oper)
  case (DTake oid k)
  assume "dmap_wf m"
  with DTake show ?thesis by (simp only: dmap_step_take_state dmap_take_wf)
qed (auto simp: dmap_setOutputs_wf dmap_full_wf dmap_damageRect_wf dmap_setCamera_wf dmap_fullOutput_wf dmap_dirty_wf)

interpretation dmap: step_invariant dmap_step dmap_ok dmap_wf
  by unfold_locales (rule dmap_step_wf)

section \<open>No damage is lost\<close>

text \<open>
  The camera through which output \<open>b\<close> sees a world point (output-anchored rectangles bypass it),
  and the output-local point where the world point is drawn.
\<close>

definition damage_camera :: "damage_map \<Rightarrow> output_bounds \<Rightarrow> bool \<Rightarrow> camera" where
  "damage_camera m b anchored =
     (case (if anchored then None else oget (dm_cameras m) (ob_outputId b)) of
        None \<Rightarrow> \<lparr>cam_x = 0, cam_y = 0, cam_zoom = 1\<rparr>
      | Some c \<Rightarrow> c)"

definition drawn_x :: "camera \<Rightarrow> output_bounds \<Rightarrow> number \<Rightarrow> number" where
  "drawn_x c b px = (px - (ob_logicalX b + cam_x c)) * cam_zoom c"

definition drawn_y :: "camera \<Rightarrow> output_bounds \<Rightarrow> number \<Rightarrow> number" where
  "drawn_y c b py = (py - (ob_logicalY b + cam_y c)) * cam_zoom c"

definition on_output :: "camera \<Rightarrow> output_bounds \<Rightarrow> number \<Rightarrow> number \<Rightarrow> bool" where
  "on_output c b px py \<longleftrightarrow>
     in_rect \<lparr>rx = 0, ry = 0, rw = ob_logicalWidth b, rh = ob_logicalHeight b\<rparr> (drawn_x c b px) (drawn_y c b py)"

lemma damage_share_zoom:
  "damage_share m b gx gy w h anchored exclude =
     (if ob_outputId b \<in> set exclude then None
      else
        (let c = damage_camera m b anchored;
             bx = ob_logicalX b + cam_x c;
             by = ob_logicalY b + cam_y c;
             lx0 = max gx bx;
             ly0 = max gy by;
             lx1 = min (gx + w) (bx + ob_logicalWidth b / cam_zoom c);
             ly1 = min (gy + h) (by + ob_logicalHeight b / cam_zoom c)
         in if lx1 \<le> lx0 \<or> ly1 \<le> ly0 then None
            else Some ((lx0 - bx) * cam_zoom c, (ly0 - by) * cam_zoom c,
                       (lx1 - lx0) * cam_zoom c, (ly1 - ly0) * cam_zoom c)))"
  by (simp add: damage_share_def damage_camera_def Let_def split: option.splits)

text \<open>One axis of the conversion: clip in world units, then scale.\<close>

lemma clip_axis:
  fixes z :: number
  assumes z: "0 < z" and g: "g \<le> p" "p < g + w" and d: "0 \<le> (p - b) * z" "(p - b) * z < l"
  shows "max g b < min (g + w) (b + l / z)"
    and "(max g b - b) * z \<le> (p - b) * z"
    and "(p - b) * z < (max g b - b) * z + (min (g + w) (b + l / z) - max g b) * z"
proof -
  from z d(1) have b: "b \<le> p" by (simp add: zero_le_mult_iff)
  from z d(2) have "p - b < l / z" by (simp add: pos_less_divide_eq)
  then have l: "p < b + l / z" by simp
  from g b l show "max g b < min (g + w) (b + l / z)" by linarith
  from g b have "max g b - b \<le> p - b" by linarith
  with z show "(max g b - b) * z \<le> (p - b) * z" by (simp add: mult_right_mono)
  from g l have "p - b < min (g + w) (b + l / z) - b" by linarith
  with z have "(p - b) * z < (min (g + w) (b + l / z) - b) * z" by (simp add: mult_strict_right_mono)
  also have "\<dots> = (max g b - b) * z + (min (g + w) (b + l / z) - max g b) * z"
    by (simp add: algebra_simps)
  finally show "(p - b) * z < (max g b - b) * z + (min (g + w) (b + l / z) - max g b) * z" .
qed

lemma damage_share_covers:
  assumes z: "0 < cam_zoom (damage_camera m b anchored)"
    and p: "in_rect \<lparr>rx = gx, ry = gy, rw = w, rh = h\<rparr> px py"
    and v: "on_output (damage_camera m b anchored) b px py"
    and x: "ob_outputId b \<notin> set exclude"
  shows "\<exists>x y w' h'. damage_share m b gx gy w h anchored exclude = Some (x, y, w', h') \<and>
           in_rect \<lparr>rx = x, ry = y, rw = w', rh = h'\<rparr>
             (drawn_x (damage_camera m b anchored) b px) (drawn_y (damage_camera m b anchored) b py)"
proof -
  let ?c = "damage_camera m b anchored"
  from p have g: "gx \<le> px" "px < gx + w" "gy \<le> py" "py < gy + h" by (simp_all add: in_rect_def)
  from v have d: "0 \<le> drawn_x ?c b px" "drawn_x ?c b px < ob_logicalWidth b"
    "0 \<le> drawn_y ?c b py" "drawn_y ?c b py < ob_logicalHeight b"
    by (simp_all add: on_output_def in_rect_def)
  note cx = clip_axis [OF z g(1,2) d(1,2) [unfolded drawn_x_def]]
  note cy = clip_axis [OF z g(3,4) d(3,4) [unfolded drawn_y_def]]
  note over = cx(1) [unfolded not_le [symmetric]] cy(1) [unfolded not_le [symmetric]]
  show ?thesis
    unfolding damage_share_zoom Let_def if_not_P [OF x]
    by (simp only: over simp_thms if_False option.inject prod.inject ex_simps)
       (use cx cy in \<open>auto simp: drawn_x_def drawn_y_def in_rect_def\<close>)
qed

text \<open>The output's slot knows that the local point is stale.\<close>

definition output_stale :: "damage_map \<Rightarrow> nat \<Rightarrow> int \<Rightarrow> number \<Rightarrow> number \<Rightarrow> output_bounds \<Rightarrow> bool" where
  "output_stale m oid k lx ly b \<longleftrightarrow>
     (case oget (dm_entries m) oid of
        None \<Rightarrow> False
      | Some e \<Rightarrow> de_bounds e = b \<and> slot_stale (de_ring e) k lx ly)"

definition keeps_outputs :: "nat \<Rightarrow> int \<Rightarrow> dmap_op \<Rightarrow> bool" where
  "keeps_outputs oid k oper \<longleftrightarrow> (case oper of DSetOutputs _ \<Rightarrow> False | DTake o' k' \<Rightarrow> o' \<noteq> oid \<or> k' \<noteq> k | _ \<Rightarrow> True)"

lemma output_stale_step:
  assumes "output_stale m oid k lx ly b" "keeps_outputs oid k oper"
  shows "output_stale (fst (dmap_step m oper)) oid k lx ly b"
proof (cases oper)
  case (DSetOutputs bs)
  with assms show ?thesis by (simp add: keeps_outputs_def)
next
  case DFull
  with assms show ?thesis
    by (auto simp: output_stale_def dmap_full_def ring_full_stale split: option.splits)
next
  case (DDamage x y w h anchored exclude)
  with assms show ?thesis
    by (auto simp: output_stale_def dmap_damageRect_def ring_damageRect_mono split: option.splits)
next
  case (DSetCamera o' x y zoom)
  with assms show ?thesis by (simp add: output_stale_def dmap_setCamera_def)
next
  case (DFullOutput o')
  with assms show ?thesis
    by (auto simp: output_stale_def dmap_fullOutput_def ring_full_stale split: option.splits)
next
  case (DMarkDirty o')
  with assms show ?thesis by (simp add: output_stale_def dmap_markDirty_def)
next
  case (DClearDirty o')
  with assms show ?thesis by (simp add: output_stale_def dmap_clearDirty_def)
next
  case (DTake o' k')
  then have s: "fst (dmap_step m oper) = fst (dmap_take m o' k')"
    by (simp only: dmap_step_take_state)
  from DTake assms(2) have "o' \<noteq> oid \<or> k' \<noteq> k" by (simp add: keeps_outputs_def)
  with assms(1) show ?thesis
    unfolding s output_stale_def
    by (auto simp: dmap_take_state ring_take_other split: option.splits)
qed

interpretation stale: step_invariant dmap_step "\<lambda>_. keeps_outputs oid k" "\<lambda>m. output_stale m oid k lx ly b"
  for oid k lx ly b
  by unfold_locales (rule output_stale_step)

lemma output_stale_take:
  assumes "output_stale m oid k lx ly b"
  shows "repaint_covers (snd (dmap_take m oid k)) (lx + ob_logicalX b) (ly + ob_logicalY b)"
proof -
  from assms obtain e where e: "oget (dm_entries m) oid = Some e" "de_bounds e = b"
    and s: "slot_stale (de_ring e) k lx ly"
    by (auto simp: output_stale_def split: option.splits)
  obtain ring local where t: "ring_take (de_ring e) k = (ring, local)" by (cases "ring_take (de_ring e) k")
  with ring_take_covers [OF s] e show ?thesis
    by (cases local) (auto simp: dmap_take_def in_rect_def toGlobal_def)
qed

text \<open>
  C16: once a world point inside a damaged rectangle is visible on an output (and the output is
  not excluded), no later sequence of damage, camera, dirty-bit and other outputs' or slots'
  take operations loses it: the next \<open>take\<close> of any slot of that output answers with a full
  repaint or with a box that contains the place on the output where the point was drawn.
\<close>

theorem damage_reaches_every_slot:
  assumes wf: "dmap_wf m" and e: "oget (dm_entries m) oid = Some e"
    and hit: "in_rect \<lparr>rx = gx, ry = gy, rw = w, rh = h\<rparr> px py"
    and cam: "c = damage_camera m (de_bounds e) anchored"
    and vis: "on_output c (de_bounds e) px py"
    and inc: "oid \<notin> set exclude"
    and later: "\<forall>oper \<in> set ops. keeps_outputs oid k oper"
  shows "repaint_covers
           (snd (dmap_take (fst (run dmap_step (dmap_damageRect m gx gy w h anchored exclude) ops)) oid k))
           (drawn_x c (de_bounds e) px + ob_logicalX (de_bounds e))
           (drawn_y c (de_bounds e) py + ob_logicalY (de_bounds e))"
proof (rule output_stale_take, rule stale.inv_run)
  show "admissible dmap_step (\<lambda>_. keeps_outputs oid k) (dmap_damageRect m gx gy w h anchored exclude) ops"
    using later by (simp add: admissible_events)
next
  from wf e have ew: "entry_wf oid e" by (rule dmap_wf_entry)
  have z: "0 < cam_zoom c"
    using wf by (auto simp: cam damage_camera_def dmap_wf_def split: option.splits)
  from hit have wh: "\<not> (w \<le> 0 \<or> h \<le> 0)" by (auto simp: in_rect_def)
  from ew inc have "ob_outputId (de_bounds e) \<notin> set exclude" by (simp add: entry_wf_def)
  from damage_share_covers [OF z [unfolded cam] hit vis [unfolded cam] this] obtain x y w' h' where
    sh: "damage_share m (de_bounds e) gx gy w h anchored exclude = Some (x, y, w', h')"
    and p: "in_rect \<lparr>rx = x, ry = y, rw = w', rh = h'\<rparr> (drawn_x c (de_bounds e) px) (drawn_y c (de_bounds e) py)"
    unfolding cam by blast
  from vis ew have "in_rect \<lparr>rx = 0, ry = 0, rw = dr_width (de_ring e), rh = dr_height (de_ring e)\<rparr>
      (drawn_x c (de_bounds e) px) (drawn_y c (de_bounds e) py)"
    by (auto simp: on_output_def in_rect_def entry_wf_def)
  from ring_damageRect_stale [OF p this] e sh wh
  show "output_stale (dmap_damageRect m gx gy w h anchored exclude) oid k
      (drawn_x c (de_bounds e) px) (drawn_y c (de_bounds e) py) (de_bounds e)"
    by (simp add: output_stale_def dmap_damageRect_def)
qed

text \<open>
  A concrete history: the output is panned by 40 and zoomed by 2, slot 7 was painted, then world
  damage arrives and the camera moves before slot 7 is painted again.
\<close>

definition sample_output :: output_bounds where
  "sample_output = \<lparr>ob_outputId = 1, ob_logicalX = 100, ob_logicalY = 0,
     ob_logicalWidth = 200, ob_logicalHeight = 100\<rparr>"

definition sample_ops :: "dmap_op list" where
  "sample_ops = [DSetOutputs [sample_output], DSetCamera 1 40 0 2, DTake 1 7]"

theorem damage_reaches_every_slot_witness:
  "repaint_covers
     (snd (dmap_take (fst (run dmap_step
        (dmap_damageRect (fst (run dmap_step dmap_new sample_ops)) 145 20 10 10 False [])
        [DTake 1 8, DClearDirty 1, DSetCamera 1 0 0 1])) 1 7)) 120 50"
proof -
  let ?m = "fst (run dmap_step dmap_new sample_ops)"
  let ?e = "\<lparr>de_bounds = sample_output, de_ring = \<lparr>dr_slots = [(7, [])], dr_width = 200, dr_height = 100\<rparr>\<rparr>"
  let ?c = "\<lparr>cam_x = 40, cam_y = 0, cam_zoom = 2\<rparr>"
  have "admissible dmap_step dmap_ok dmap_new sample_ops" by code_simp
  then have wf: "dmap_wf ?m" by (rule dmap.inv_run [OF dmap_new_wf])
  have e: "oget (dm_entries ?m) 1 = Some ?e" by code_simp
  have c: "?c = damage_camera ?m (de_bounds ?e) False" by code_simp
  have p: "in_rect \<lparr>rx = 145, ry = 20, rw = 10, rh = 10\<rparr> 150 25" by code_simp
  have v: "on_output ?c (de_bounds ?e) 150 25" by code_simp
  have "drawn_x ?c (de_bounds ?e) 150 + ob_logicalX (de_bounds ?e) = 120"
    "drawn_y ?c (de_bounds ?e) 25 + ob_logicalY (de_bounds ?e) = 50" by code_simp+
  with damage_reaches_every_slot [OF wf e p c v, of "[]" "[DTake 1 8, DClearDirty 1, DSetCamera 1 0 0 1]" 7]
  show ?thesis by (simp add: keeps_outputs_def)
qed

text \<open>
  over every history of the map from the empty one, a partial answer to \<open>take\<close> is a
  non-empty box inside the output's rectangle (its logical size is at least 1 by 1), so it is a
  valid scissor.
\<close>

theorem take_box_is_valid_scissor:
  assumes "admissible dmap_step dmap_ok dmap_new ops"
    and "m = fst (run dmap_step dmap_new ops)"
    and "oget (dm_entries m) oid = Some e" "snd (dmap_take m oid k) = RPartial box"
  shows "rect_within (ob_logicalX (de_bounds e)) (ob_logicalY (de_bounds e))
           (ob_logicalX (de_bounds e) + max 1 (ob_logicalWidth (de_bounds e)))
           (ob_logicalY (de_bounds e) + max 1 (ob_logicalHeight (de_bounds e))) box
         \<and> 0 < rw box \<and> 0 < rh box"
proof -
  have "dmap_wf m" unfolding assms(2) using dmap_new_wf assms(1) by (rule dmap.inv_run)
  then have ew: "entry_wf oid e" using assms(3) by (rule dmap_wf_entry)
  obtain ring local where t: "ring_take (de_ring e) k = (ring, local)" by (cases "ring_take (de_ring e) k")
  with assms(3,4) obtain b where b: "local = RPartial b" "box = toGlobal (de_bounds e) b"
    by (cases local) (auto simp: dmap_take_def)
  from ew ring_take_box [of "de_ring e" k b] t b show ?thesis
    by (auto simp: entry_wf_def rect_within_def toGlobal_def)
qed

theorem take_box_is_valid_scissor_witness:
  "rect_within 100 0 300 100 \<lparr>rx = 110, ry = 40, rw = 20, rh = 20\<rparr>"
proof -
  let ?ops = "sample_ops @ [DDamage 145 20 10 10 False []]"
  let ?e = "\<lparr>de_bounds = sample_output, de_ring =
    \<lparr>dr_slots = [(7, [\<lparr>rx = 10, ry = 40, rw = 20, rh = 20\<rparr>])], dr_width = 200, dr_height = 100\<rparr>\<rparr>"
  have "admissible dmap_step dmap_ok dmap_new ?ops" by code_simp
  moreover have "oget (dm_entries (fst (run dmap_step dmap_new ?ops))) 1 = Some ?e" by code_simp
  moreover have "snd (dmap_take (fst (run dmap_step dmap_new ?ops)) 1 7)
      = RPartial \<lparr>rx = 110, ry = 40, rw = 20, rh = 20\<rparr>" by code_simp
  ultimately show ?thesis
    using take_box_is_valid_scissor [of ?ops _ 1 ?e 7] by (simp add: sample_output_def)
qed

end
