(* ===== verification/Buffer_Lifecycle.thy ===== *)
theory Buffer_Lifecycle
  imports Prelude
begin

text \<open>
  \<open>packages/core/src/gpu/client-buffer-lifecycle.ts\<close>: the state machine that decides when a
  client's buffer is imported, read by a frame, released to the client and torn down. One
  definition per handler. \<open>this.out\<close> is the field \<open>lc_out\<close>, a thrown \<open>Error\<close> is a value of
  \<open>lifecycle_error\<close> (each of them is raised before the handler has changed anything), and a
  handler's \<open>b\<close>, a reference to a record in the map, is the map's entry.

  The specification is the executor's protocol: a monitor that watches the events and the
  intents and keeps, per buffer, only what can be seen from outside.
\<close>

section \<open>Data\<close>

datatype 'fd acquire_fence = NoFence | Implicit | SyncFile 'fd | Syncobj nat nat

datatype release_fence = NoRelease | ReleaseFile nat

record dims =
  dim_w :: nat
  dim_h :: nat

datatype 'fd lc_event =
    Commit nat nat dims
  | AcquireFenceAvailable nat "'fd acquire_fence"
  | FrameStart
  | FrameSampled nat
  | FrameAborted
  | Submitted nat
  | EndAccessFenceExported nat release_fence
  | GpuCompleted nat
  | BufferDestroyed nat
  | SurfaceRemoved nat
  | ImportCompleted nat
  | AccessFailed nat string
  | ScanoutPresented nat
  | ScanoutRetired nat

datatype 'fd lc_intent =
    ImportBuffer nat nat dims
  | BeginAccess nat nat "'fd acquire_fence" release_fence
  | EndAccess nat nat
  | ReleaseImport nat
  | SendWlRelease nat
  | DiscardAcquireFence nat "'fd acquire_fence"

datatype lifecycle_error = FrameAlreadyInFlight | SampledWithoutFrame | SampledTwice nat
  | SyncobjNotImplemented | SubmittedWithoutFrame

datatype buffer_state = Importing | Imported | Poisoned

record 'fd buffer_rec =
  br_state :: buffer_state
  br_currentSurfaceId :: nat
  br_destroyed :: bool
  br_releaseOwed :: bool
  br_importOwed :: bool
  br_chainFence :: release_fence
  br_pendingAcquireFence :: "'fd acquire_fence"
  br_inflightSerials :: "nat list"
  br_accessOpen :: bool
  br_scanoutHeld :: bool
  br_dims :: dims

record surface_rec =
  sr_currentBufferId :: nat

record 'fd lifecycle =
  lc_buffers :: "(nat, 'fd buffer_rec) omap"
  lc_surfaces :: "(nat, surface_rec) omap"
  lc_frame :: "(nat \<times> nat) list option"
  lc_pendingEndExports :: "(nat, nat list) omap"
  lc_out :: "'fd lc_intent list"

definition lifecycle_new :: "'fd lifecycle" where
  "lifecycle_new = \<lparr>lc_buffers = [], lc_surfaces = [], lc_frame = None, lc_pendingEndExports = [],
     lc_out = []\<rparr>"

section \<open>Operations\<close>

definition emit :: "'fd lc_intent \<Rightarrow> 'fd lifecycle \<Rightarrow> 'fd lifecycle" where
  "emit i s = s\<lparr>lc_out := lc_out s @ [i]\<rparr>"

definition set_buffer :: "nat \<Rightarrow> 'fd buffer_rec \<Rightarrow> 'fd lifecycle \<Rightarrow> 'fd lifecycle" where
  "set_buffer bufferId b s = s\<lparr>lc_buffers := oset bufferId b (lc_buffers s)\<rparr>"

definition discardPendingAcquireFence :: "nat \<Rightarrow> 'fd lifecycle \<Rightarrow> 'fd lifecycle" where
  "discardPendingAcquireFence bufferId s =
     (case oget (lc_buffers s) bufferId of
        None \<Rightarrow> s
      | Some b \<Rightarrow>
          (let s' = set_buffer bufferId (b\<lparr>br_pendingAcquireFence := NoFence\<rparr>) s
           in case br_pendingAcquireFence b of
                NoFence \<Rightarrow> s'
              | Implicit \<Rightarrow> s'
              | pending \<Rightarrow> emit (DiscardAcquireFence bufferId pending) s'))"

definition maybeFlush :: "nat \<Rightarrow> 'fd lifecycle \<Rightarrow> 'fd lifecycle" where
  "maybeFlush bufferId s =
     (case oget (lc_buffers s) bufferId of
        None \<Rightarrow> s
      | Some b \<Rightarrow>
          if length (br_inflightSerials b) > 0 then s
          else if br_accessOpen b then s
          else if br_scanoutHeld b then s
          else if br_state b = Importing then s
          else
            (let s1 = (if br_releaseOwed b
                       then set_buffer bufferId (b\<lparr>br_releaseOwed := False\<rparr>)
                              (if br_destroyed b then s else emit (SendWlRelease bufferId) s)
                       else s)
             in if br_importOwed b
                then (let s2 = emit (ReleaseImport bufferId) (discardPendingAcquireFence bufferId s1)
                      in s2\<lparr>lc_buffers := odel bufferId (lc_buffers s2)\<rparr>)
                else s1))"

definition markSupersededOnSurface :: "nat \<Rightarrow> nat \<Rightarrow> 'fd lifecycle \<Rightarrow> 'fd lifecycle" where
  "markSupersededOnSurface bufferId surfaceId s =
     (case oget (lc_buffers s) bufferId of
        None \<Rightarrow> s
      | Some b \<Rightarrow>
          (let b1 = (if br_currentSurfaceId b = surfaceId then b\<lparr>br_currentSurfaceId := 0\<rparr> else b);
               b2 = (if br_destroyed b1 then b1 else b1\<lparr>br_releaseOwed := True\<rparr>)
           in maybeFlush bufferId (set_buffer bufferId b2 s)))"

definition onCommit :: "nat \<Rightarrow> nat \<Rightarrow> dims \<Rightarrow> 'fd lifecycle \<Rightarrow> 'fd lifecycle" where
  "onCommit surfaceId bufferId d s =
     (let s1 = (case oget (lc_surfaces s) surfaceId of
                  None \<Rightarrow> s\<lparr>lc_surfaces := oset surfaceId \<lparr>sr_currentBufferId = 0\<rparr> (lc_surfaces s)\<rparr>
                | Some _ \<Rightarrow> s);
          s2 = (case oget (lc_buffers s1) bufferId of
                  None \<Rightarrow>
                    emit (ImportBuffer bufferId surfaceId d)
                      (set_buffer bufferId
                         \<lparr>br_state = Importing, br_currentSurfaceId = surfaceId, br_destroyed = False,
                          br_releaseOwed = False, br_importOwed = False, br_chainFence = NoRelease,
                          br_pendingAcquireFence = NoFence, br_inflightSerials = [],
                          br_accessOpen = False, br_scanoutHeld = False, br_dims = d\<rparr> s1)
                | Some _ \<Rightarrow> s1);
          cur = (case oget (lc_surfaces s2) surfaceId of None \<Rightarrow> 0 | Some r \<Rightarrow> sr_currentBufferId r)
      in if cur = bufferId then s2
         else
           (let s3 = (if cur \<noteq> 0 then markSupersededOnSurface cur surfaceId s2 else s2);
                s4 = s3\<lparr>lc_surfaces :=
                          oset surfaceId \<lparr>sr_currentBufferId = bufferId\<rparr> (lc_surfaces s3)\<rparr>
            in case oget (lc_buffers s4) bufferId of
                 None \<Rightarrow> s4
               | Some b \<Rightarrow>
                   set_buffer bufferId
                     (b\<lparr>br_currentSurfaceId := surfaceId, br_releaseOwed := False,
                        br_importOwed := False\<rparr>) s4))"

definition onAcquireFenceAvailable :: "nat \<Rightarrow> 'fd acquire_fence \<Rightarrow> 'fd lifecycle \<Rightarrow> 'fd lifecycle" where
  "onAcquireFenceAvailable bufferId fence s =
     (case oget (lc_buffers s) bufferId of
        None \<Rightarrow> s
      | Some _ \<Rightarrow>
          (let s1 = discardPendingAcquireFence bufferId s
           in case oget (lc_buffers s1) bufferId of
                None \<Rightarrow> s1
              | Some b \<Rightarrow>
                  set_buffer bufferId
                    (b\<lparr>br_pendingAcquireFence := (if fence = NoFence then Implicit else fence)\<rparr>) s1))"

definition onFrameStart :: "'fd lifecycle \<Rightarrow> lifecycle_error + 'fd lifecycle" where
  "onFrameStart s =
     (if lc_frame s \<noteq> None then Inl FrameAlreadyInFlight else Inr (s\<lparr>lc_frame := Some []\<rparr>))"

definition is_syncobj :: "'fd acquire_fence \<Rightarrow> bool" where
  "is_syncobj f \<longleftrightarrow> (case f of Syncobj _ _ \<Rightarrow> True | _ \<Rightarrow> False)"

definition onFrameSampled :: "nat \<Rightarrow> 'fd lifecycle \<Rightarrow> lifecycle_error + 'fd lifecycle" where
  "onFrameSampled surfaceId s =
     (case lc_frame s of
        None \<Rightarrow> Inl SampledWithoutFrame
      | Some sampled \<Rightarrow>
          (case oget (lc_surfaces s) surfaceId of
             None \<Rightarrow> Inr s
           | Some r \<Rightarrow>
               (let bufferId = sr_currentBufferId r
                in if bufferId = 0 then Inr s
                   else
                     (case oget (lc_buffers s) bufferId of
                        None \<Rightarrow> Inr s
                      | Some b \<Rightarrow>
                          if br_state b = Poisoned then Inr s
                          else if br_state b = Importing then Inr s
                          else if br_accessOpen b then Inl (SampledTwice bufferId)
                          else if is_syncobj (br_pendingAcquireFence b) then Inl SyncobjNotImplemented
                          else
                            Inr (emit (BeginAccess bufferId surfaceId (br_pendingAcquireFence b)
                                         (br_chainFence b))
                                   (set_buffer bufferId
                                      (b\<lparr>br_pendingAcquireFence := NoFence, br_accessOpen := True\<rparr>)
                                      (s\<lparr>lc_frame := Some (sampled @ [(surfaceId, bufferId)])\<rparr>)))))))"

fun abort_loop :: "(nat \<times> nat) list \<Rightarrow> 'fd lifecycle \<Rightarrow> 'fd lifecycle" where
  "abort_loop [] s = s"
| "abort_loop ((surfaceId, bufferId) # sampled) s =
     abort_loop sampled
       (maybeFlush bufferId
          (case oget (lc_buffers s) bufferId of
             None \<Rightarrow> s
           | Some b \<Rightarrow> set_buffer bufferId (b\<lparr>br_accessOpen := False\<rparr>) s))"

definition onFrameAborted :: "'fd lifecycle \<Rightarrow> 'fd lifecycle" where
  "onFrameAborted s =
     (case lc_frame s of
        None \<Rightarrow> s
      | Some sampled \<Rightarrow> abort_loop sampled (s\<lparr>lc_frame := None\<rparr>))"

fun submit_loop :: "nat \<Rightarrow> (nat \<times> nat) list \<Rightarrow> nat list \<Rightarrow> 'fd lifecycle \<Rightarrow> nat list \<times> 'fd lifecycle" where
  "submit_loop serial [] endedBuffers s = (endedBuffers, s)"
| "submit_loop serial ((surfaceId, bufferId) # sampled) endedBuffers s =
     (case oget (lc_buffers s) bufferId of
        None \<Rightarrow> submit_loop serial sampled endedBuffers s
      | Some b \<Rightarrow>
          submit_loop serial sampled (endedBuffers @ [bufferId])
            (emit (EndAccess bufferId surfaceId)
               (set_buffer bufferId
                  (b\<lparr>br_accessOpen := False,
                     br_inflightSerials := oset_add serial (br_inflightSerials b)\<rparr>) s)))"

definition onSubmitted :: "nat \<Rightarrow> 'fd lifecycle \<Rightarrow> lifecycle_error + 'fd lifecycle" where
  "onSubmitted serial s =
     (case lc_frame s of
        None \<Rightarrow> Inl SubmittedWithoutFrame
      | Some sampled \<Rightarrow>
          (let (endedBuffers, s') = submit_loop serial sampled [] (s\<lparr>lc_frame := None\<rparr>)
           in Inr (if length endedBuffers > 0
                   then s'\<lparr>lc_pendingEndExports := oset serial endedBuffers (lc_pendingEndExports s')\<rparr>
                   else s')))"

definition onEndAccessFenceExported :: "nat \<Rightarrow> release_fence \<Rightarrow> 'fd lifecycle \<Rightarrow> 'fd lifecycle" where
  "onEndAccessFenceExported bufferId fence s =
     (case oget (lc_buffers s) bufferId of
        None \<Rightarrow> s
      | Some b \<Rightarrow> set_buffer bufferId (b\<lparr>br_chainFence := fence\<rparr>) s)"

fun completed_loop :: "nat \<Rightarrow> nat list \<Rightarrow> 'fd lifecycle \<Rightarrow> 'fd lifecycle" where
  "completed_loop serial [] s = s"
| "completed_loop serial (bufferId # ids) s =
     completed_loop serial ids
       (case oget (lc_buffers s) bufferId of
          None \<Rightarrow> s
        | Some b \<Rightarrow>
            if serial \<in> set (br_inflightSerials b)
            then maybeFlush bufferId
                   (set_buffer bufferId
                      (b\<lparr>br_inflightSerials := removeAll serial (br_inflightSerials b)\<rparr>) s)
            else s)"

definition onGpuCompleted :: "nat \<Rightarrow> 'fd lifecycle \<Rightarrow> 'fd lifecycle" where
  "onGpuCompleted serial s =
     completed_loop serial (okeys (lc_buffers s))
       (s\<lparr>lc_pendingEndExports := odel serial (lc_pendingEndExports s)\<rparr>)"

definition onBufferDestroyed :: "nat \<Rightarrow> 'fd lifecycle \<Rightarrow> 'fd lifecycle" where
  "onBufferDestroyed bufferId s =
     (case oget (lc_buffers s) bufferId of
        None \<Rightarrow> s
      | Some b \<Rightarrow>
          (let sid = br_currentSurfaceId b;
               s1 = (if sid \<noteq> 0
                     then (case oget (lc_surfaces s) sid of
                             Some r \<Rightarrow>
                               if sr_currentBufferId r = bufferId
                               then s\<lparr>lc_surfaces := oset sid \<lparr>sr_currentBufferId = 0\<rparr> (lc_surfaces s)\<rparr>
                               else s
                           | None \<Rightarrow> s)
                     else s)
           in maybeFlush bufferId
                (set_buffer bufferId
                   (b\<lparr>br_destroyed := True, br_importOwed := True, br_currentSurfaceId := 0,
                      br_releaseOwed := False\<rparr>) s1)))"

definition onSurfaceRemoved :: "nat \<Rightarrow> 'fd lifecycle \<Rightarrow> 'fd lifecycle" where
  "onSurfaceRemoved surfaceId s =
     (case oget (lc_surfaces s) surfaceId of
        None \<Rightarrow> s
      | Some r \<Rightarrow>
          (let cur = sr_currentBufferId r;
               s1 = (if cur \<noteq> 0
                     then (case oget (lc_buffers s) cur of
                             Some b \<Rightarrow>
                               if br_currentSurfaceId b = surfaceId
                               then set_buffer cur
                                      (b\<lparr>br_releaseOwed := (if br_destroyed b then br_releaseOwed b else True),
                                         br_importOwed := True, br_currentSurfaceId := 0\<rparr>) s
                               else s
                           | None \<Rightarrow> s)
                     else s);
               s2 = s1\<lparr>lc_surfaces := odel surfaceId (lc_surfaces s1)\<rparr>
           in if cur \<noteq> 0 then maybeFlush cur s2 else s2))"

definition onAccessFailed :: "nat \<Rightarrow> 'fd lifecycle \<Rightarrow> 'fd lifecycle" where
  "onAccessFailed bufferId s =
     (case oget (lc_buffers s) bufferId of
        None \<Rightarrow> s
      | Some b \<Rightarrow> maybeFlush bufferId (set_buffer bufferId (b\<lparr>br_state := Poisoned\<rparr>) s))"

definition onImportCompleted :: "nat \<Rightarrow> 'fd lifecycle \<Rightarrow> 'fd lifecycle" where
  "onImportCompleted bufferId s =
     (case oget (lc_buffers s) bufferId of
        None \<Rightarrow> s
      | Some b \<Rightarrow>
          if br_state b \<noteq> Importing then s
          else maybeFlush bufferId (set_buffer bufferId (b\<lparr>br_state := Imported\<rparr>) s))"

definition onScanoutPresented :: "nat \<Rightarrow> 'fd lifecycle \<Rightarrow> 'fd lifecycle" where
  "onScanoutPresented bufferId s =
     (case oget (lc_buffers s) bufferId of
        None \<Rightarrow> s
      | Some b \<Rightarrow> set_buffer bufferId (b\<lparr>br_scanoutHeld := True\<rparr>) s)"

definition onScanoutRetired :: "nat \<Rightarrow> 'fd lifecycle \<Rightarrow> 'fd lifecycle" where
  "onScanoutRetired bufferId s =
     (case oget (lc_buffers s) bufferId of
        None \<Rightarrow> s
      | Some b \<Rightarrow>
          if \<not> br_scanoutHeld b then s
          else maybeFlush bufferId (set_buffer bufferId (b\<lparr>br_scanoutHeld := False\<rparr>) s))"

fun lc_dispatch :: "'fd lc_event \<Rightarrow> 'fd lifecycle \<Rightarrow> lifecycle_error + 'fd lifecycle" where
  "lc_dispatch (Commit surfaceId bufferId d) s = Inr (onCommit surfaceId bufferId d s)"
| "lc_dispatch (AcquireFenceAvailable bufferId fence) s = Inr (onAcquireFenceAvailable bufferId fence s)"
| "lc_dispatch FrameStart s = onFrameStart s"
| "lc_dispatch (FrameSampled surfaceId) s = onFrameSampled surfaceId s"
| "lc_dispatch FrameAborted s = Inr (onFrameAborted s)"
| "lc_dispatch (Submitted serial) s = onSubmitted serial s"
| "lc_dispatch (EndAccessFenceExported bufferId fence) s = Inr (onEndAccessFenceExported bufferId fence s)"
| "lc_dispatch (GpuCompleted serial) s = Inr (onGpuCompleted serial s)"
| "lc_dispatch (BufferDestroyed bufferId) s = Inr (onBufferDestroyed bufferId s)"
| "lc_dispatch (SurfaceRemoved surfaceId) s = Inr (onSurfaceRemoved surfaceId s)"
| "lc_dispatch (ImportCompleted bufferId) s = Inr (onImportCompleted bufferId s)"
| "lc_dispatch (AccessFailed bufferId reason) s = Inr (onAccessFailed bufferId s)"
| "lc_dispatch (ScanoutPresented bufferId) s = Inr (onScanoutPresented bufferId s)"
| "lc_dispatch (ScanoutRetired bufferId) s = Inr (onScanoutRetired bufferId s)"

text \<open>\<open>step\<close>: clear the intent buffer, dispatch, return what was collected.\<close>

definition lc_step ::
  "'fd lifecycle \<Rightarrow> 'fd lc_event \<Rightarrow> 'fd lifecycle \<times> (lifecycle_error + 'fd lc_intent list)" where
  "lc_step s e =
     (let s0 = s\<lparr>lc_out := []\<rparr>
      in case lc_dispatch e s0 of Inl err \<Rightarrow> (s0, Inl err) | Inr s' \<Rightarrow> (s', Inr (lc_out s')))"

definition takeAcquireFence ::
  "'fd lifecycle \<Rightarrow> nat \<Rightarrow> 'fd lifecycle \<times> (lifecycle_error + 'fd acquire_fence)" where
  "takeAcquireFence s bufferId =
     (case oget (lc_buffers s) bufferId of
        None \<Rightarrow> (s, Inr NoFence)
      | Some b \<Rightarrow>
          if is_syncobj (br_pendingAcquireFence b) then (s, Inl SyncobjNotImplemented)
          else (set_buffer bufferId (b\<lparr>br_pendingAcquireFence := NoFence\<rparr>) s,
                Inr (br_pendingAcquireFence b)))"

definition lc_isEmpty :: "'fd lifecycle \<Rightarrow> bool" where
  "lc_isEmpty s \<longleftrightarrow> length (lc_buffers s) = 0 \<and> length (lc_surfaces s) = 0
     \<and> lc_frame s = None \<and> length (lc_pendingEndExports s) = 0"

record buffer_snapshot =
  bs_bufferId :: nat
  bs_state :: buffer_state
  bs_currentSurfaceId :: nat
  bs_destroyed :: bool
  bs_releaseOwed :: bool
  bs_importOwed :: bool
  bs_accessOpen :: bool
  bs_inflightCount :: nat

definition lc_snapshot :: "'fd lifecycle \<Rightarrow> buffer_snapshot list \<times> (nat \<times> nat) list \<times> bool" where
  "lc_snapshot s =
     (map (\<lambda>(bufferId, b). \<lparr>bs_bufferId = bufferId, bs_state = br_state b,
             bs_currentSurfaceId = br_currentSurfaceId b, bs_destroyed = br_destroyed b,
             bs_releaseOwed = br_releaseOwed b, bs_importOwed = br_importOwed b,
             bs_accessOpen = br_accessOpen b, bs_inflightCount = length (br_inflightSerials b)\<rparr>)
          (lc_buffers s),
      map (\<lambda>(surfaceId, r). (surfaceId, sr_currentBufferId r)) (lc_surfaces s),
      lc_frame s \<noteq> None)"

text \<open>The calls a user of the class can make, as one machine.\<close>

datatype 'fd lc_call = Step "'fd lc_event" | TakeFence nat

datatype 'fd lc_answer = Raised lifecycle_error | Intents "'fd lc_intent list" | Fence "'fd acquire_fence"

fun lc_do :: "'fd lifecycle \<Rightarrow> 'fd lc_call \<Rightarrow> 'fd lifecycle \<times> 'fd lc_answer" where
  "lc_do s (Step e) =
     (case lc_step s e of (s', Inl err) \<Rightarrow> (s', Raised err) | (s', Inr is) \<Rightarrow> (s', Intents is))"
| "lc_do s (TakeFence bufferId) =
     (case takeAcquireFence s bufferId of
        (s', Inl err) \<Rightarrow> (s', Raised err) | (s', Inr f) \<Rightarrow> (s', Fence f))"


section \<open>The executor's protocol\<close>

text \<open>What the executor can see of a buffer.\<close>

record 'fd xbuf =
  x_state :: buffer_state
  x_open :: bool
  x_serials :: "nat list"
  x_held :: bool
  x_destroyed :: bool
  x_owed :: bool
  x_doomed :: bool
  x_fence :: "'fd acquire_fence"
  x_chain :: release_fence

type_synonym 'fd xbufs = "nat \<Rightarrow> 'fd xbuf option"

record 'fd xstate =
  xs_bufs :: "'fd xbufs"
  xs_cur :: "(nat, nat) omap"
  xs_frame :: "nat list option"

definition x_new :: "'fd xstate" where
  "x_new = \<lparr>xs_bufs = (\<lambda>_. None), xs_cur = [], xs_frame = None\<rparr>"

definition x_fresh :: "'fd xbuf" where
  "x_fresh = \<lparr>x_state = Importing, x_open = False, x_serials = [], x_held = False,
     x_destroyed = False, x_owed = False, x_doomed = False, x_fence = NoFence, x_chain = NoRelease\<rparr>"

text \<open>Nobody reads the buffer: no bracket, no frame in flight, no display engine, no import.\<close>

definition x_idle :: "'fd xbuf \<Rightarrow> bool" where
  "x_idle x \<longleftrightarrow> \<not> x_open x \<and> x_serials x = [] \<and> \<not> x_held x \<and> x_state x \<noteq> Importing"

definition has_payload :: "'fd acquire_fence \<Rightarrow> bool" where
  "has_payload f \<longleftrightarrow> (case f of NoFence \<Rightarrow> False | Implicit \<Rightarrow> False | _ \<Rightarrow> True)"

text \<open>The intents the executor may be given, and what carrying them out changes.\<close>

fun x_allow :: "'fd lc_event \<Rightarrow> (nat, nat) omap \<Rightarrow> 'fd xbufs \<Rightarrow> 'fd lc_intent \<Rightarrow> 'fd xbufs option" where
  "x_allow e cur a (ImportBuffer i sid d) =
     (if e = Commit sid i d \<and> a i = None then Some (a(i \<mapsto> x_fresh)) else None)"
| "x_allow e cur a (BeginAccess i sid f ch) =
     (case a i of
        None \<Rightarrow> None
      | Some x \<Rightarrow>
          if e = FrameSampled sid \<and> oget cur sid = Some i \<and> x_state x = Imported \<and> \<not> x_open x
             \<and> f = x_fence x \<and> \<not> is_syncobj f \<and> ch = x_chain x
          then Some (a(i \<mapsto> x\<lparr>x_open := True, x_fence := NoFence\<rparr>)) else None)"
| "x_allow e cur a (EndAccess i sid) =
     (case (e, a i) of
        (Submitted n, Some x) \<Rightarrow>
          if x_open x
          then Some (a(i \<mapsto> x\<lparr>x_open := False, x_serials := oset_add n (x_serials x)\<rparr>)) else None
      | _ \<Rightarrow> None)"
| "x_allow e cur a (ReleaseImport i) =
     (case a i of
        None \<Rightarrow> None
      | Some x \<Rightarrow>
          if x_doomed x \<and> x_idle x \<and> \<not> has_payload (x_fence x) then Some (a(i := None)) else None)"
| "x_allow e cur a (SendWlRelease i) =
     (case a i of
        None \<Rightarrow> None
      | Some x \<Rightarrow>
          if x_owed x \<and> \<not> x_destroyed x \<and> x_idle x \<and> i \<notin> set (map snd cur)
          then Some (a(i \<mapsto> x\<lparr>x_owed := False\<rparr>)) else None)"
| "x_allow e cur a (DiscardAcquireFence i f) =
     (case a i of
        None \<Rightarrow> None
      | Some x \<Rightarrow>
          if f = x_fence x \<and> has_payload f then Some (a(i \<mapsto> x\<lparr>x_fence := NoFence\<rparr>)) else None)"

fun x_allow_all ::
  "'fd lc_event \<Rightarrow> (nat, nat) omap \<Rightarrow> 'fd xbufs \<Rightarrow> 'fd lc_intent list \<Rightarrow> 'fd xbufs option" where
  "x_allow_all e cur a [] = Some a"
| "x_allow_all e cur a (i # is) =
     (case x_allow e cur a i of None \<Rightarrow> None | Some a' \<Rightarrow> x_allow_all e cur a' is)"

definition x_upd :: "nat \<Rightarrow> ('fd xbuf \<Rightarrow> 'fd xbuf) \<Rightarrow> 'fd xbufs \<Rightarrow> 'fd xbufs" where
  "x_upd i f a = a(i := map_option f (a i))"

definition x_current :: "'fd xstate \<Rightarrow> nat \<Rightarrow> nat" where
  "x_current a sid = (case oget (xs_cur a) sid of None \<Rightarrow> 0 | Some i \<Rightarrow> i)"

text \<open>What an event means before any intent of its step is carried out.\<close>

fun x_before :: "'fd lc_event \<Rightarrow> 'fd xstate \<Rightarrow> 'fd xstate" where
  "x_before (Commit sid i d) a =
     (if x_current a sid = i then a\<lparr>xs_cur := oset sid i (xs_cur a)\<rparr>
      else a\<lparr>xs_cur := oset sid i (xs_cur a),
             xs_bufs := x_upd i (\<lambda>x. x\<lparr>x_owed := False, x_doomed := False\<rparr>)
                          (if x_current a sid \<noteq> 0
                           then x_upd (x_current a sid) (\<lambda>x. x\<lparr>x_owed := True\<rparr>) (xs_bufs a)
                           else xs_bufs a)\<rparr>)"
| "x_before FrameStart a = a\<lparr>xs_frame := Some []\<rparr>"
| "x_before FrameAborted a =
     (case xs_frame a of
        None \<Rightarrow> a
      | Some ids \<Rightarrow>
          a\<lparr>xs_frame := None,
            xs_bufs := (\<lambda>i. map_option (\<lambda>x. if i \<in> set ids then x\<lparr>x_open := False\<rparr> else x) (xs_bufs a i))\<rparr>)"
| "x_before (Submitted n) a = a\<lparr>xs_frame := None\<rparr>"
| "x_before (EndAccessFenceExported i f) a = a\<lparr>xs_bufs := x_upd i (\<lambda>x. x\<lparr>x_chain := f\<rparr>) (xs_bufs a)\<rparr>"
| "x_before (GpuCompleted n) a =
     a\<lparr>xs_bufs := (\<lambda>i. map_option (\<lambda>x. x\<lparr>x_serials := removeAll n (x_serials x)\<rparr>) (xs_bufs a i))\<rparr>"
| "x_before (BufferDestroyed i) a =
     (if xs_bufs a i = None then a
      else a\<lparr>xs_cur := omap_values (\<lambda>j. if j = i then 0 else j) (xs_cur a),
             xs_bufs := x_upd i (\<lambda>x. x\<lparr>x_destroyed := True, x_owed := False, x_doomed := True\<rparr>)
                          (xs_bufs a)\<rparr>)"
| "x_before (SurfaceRemoved sid) a =
     a\<lparr>xs_cur := odel sid (xs_cur a),
       xs_bufs := (if x_current a sid \<noteq> 0
                   then x_upd (x_current a sid) (\<lambda>x. x\<lparr>x_owed := True, x_doomed := True\<rparr>) (xs_bufs a)
                   else xs_bufs a)\<rparr>"
| "x_before (ImportCompleted i) a =
     a\<lparr>xs_bufs := x_upd i (\<lambda>x. if x_state x = Importing then x\<lparr>x_state := Imported\<rparr> else x) (xs_bufs a)\<rparr>"
| "x_before (AccessFailed i _) a = a\<lparr>xs_bufs := x_upd i (\<lambda>x. x\<lparr>x_state := Poisoned\<rparr>) (xs_bufs a)\<rparr>"
| "x_before (ScanoutPresented i) a = a\<lparr>xs_bufs := x_upd i (\<lambda>x. x\<lparr>x_held := True\<rparr>) (xs_bufs a)\<rparr>"
| "x_before (ScanoutRetired i) a = a\<lparr>xs_bufs := x_upd i (\<lambda>x. x\<lparr>x_held := False\<rparr>) (xs_bufs a)\<rparr>"
| "x_before _ a = a"

definition x_begun :: "'fd lc_intent list \<Rightarrow> nat list" where
  "x_begun is = concat (map (\<lambda>i. case i of BeginAccess b _ _ _ \<Rightarrow> [b] | _ \<Rightarrow> []) is)"

text \<open>What must hold once the intents are carried out (\<open>a0\<close> is the state before the event).\<close>

fun x_after ::
  "'fd lc_event \<Rightarrow> 'fd lc_intent list \<Rightarrow> 'fd xstate \<Rightarrow> 'fd xstate \<Rightarrow> 'fd xstate option" where
  "x_after (AcquireFenceAvailable i f) is a0 a =
     (case xs_bufs a i of
        None \<Rightarrow> Some a
      | Some x \<Rightarrow>
          if has_payload (x_fence x) then None
          else Some (a\<lparr>xs_bufs := (xs_bufs a)(i \<mapsto> x\<lparr>x_fence := (if f = NoFence then Implicit else f)\<rparr>)\<rparr>))"
| "x_after FrameStart is a0 a = (if xs_frame a0 = None then Some a else None)"
| "x_after (FrameSampled sid) is a0 a =
     (case xs_frame a0 of
        None \<Rightarrow> None
      | Some ids \<Rightarrow>
          if (case xs_bufs a0 (x_current a0 sid) of
                Some x \<Rightarrow> x_current a0 sid \<noteq> 0 \<and> x_state x = Imported \<longrightarrow> x_begun is = [x_current a0 sid]
              | None \<Rightarrow> True)
          then Some (a\<lparr>xs_frame := Some (ids @ x_begun is)\<rparr>) else None)"
| "x_after (Submitted n) is a0 a =
     (case xs_frame a0 of
        None \<Rightarrow> None
      | Some ids \<Rightarrow>
          if list_all (\<lambda>i. case xs_bufs a i of None \<Rightarrow> False | Some x \<Rightarrow> \<not> x_open x \<and> n \<in> set (x_serials x)) ids
          then Some a else None)"
| "x_after _ is a0 a = Some a"

definition x_intents :: "'fd xstate \<Rightarrow> 'fd lc_event \<Rightarrow> 'fd lc_intent list \<Rightarrow> 'fd xstate option" where
  "x_intents a e is =
     (let a1 = x_before e a
      in case x_allow_all e (xs_cur a1) (xs_bufs a1) is of
           None \<Rightarrow> None
         | Some bufs \<Rightarrow> x_after e is a (a1\<lparr>xs_bufs := bufs\<rparr>))"

text \<open>The errors are the ones that are due, and an error has no effect.\<close>

fun x_error_due :: "'fd xstate \<Rightarrow> 'fd lc_call \<Rightarrow> lifecycle_error \<Rightarrow> bool" where
  "x_error_due a (Step FrameStart) FrameAlreadyInFlight = (xs_frame a \<noteq> None)"
| "x_error_due a (Step (FrameSampled _)) SampledWithoutFrame = (xs_frame a = None)"
| "x_error_due a (Step (FrameSampled sid)) (SampledTwice i) =
     (x_current a sid = i \<and> xs_frame a \<noteq> None
      \<and> (case xs_bufs a i of None \<Rightarrow> False | Some x \<Rightarrow> x_open x))"
| "x_error_due a (Step (FrameSampled sid)) SyncobjNotImplemented =
     (case xs_bufs a (x_current a sid) of None \<Rightarrow> False | Some x \<Rightarrow> is_syncobj (x_fence x))"
| "x_error_due a (Step (Submitted _)) SubmittedWithoutFrame = (xs_frame a = None)"
| "x_error_due a (TakeFence i) SyncobjNotImplemented =
     (case xs_bufs a i of None \<Rightarrow> False | Some x \<Rightarrow> is_syncobj (x_fence x))"
| "x_error_due _ _ _ = False"

fun x_spec :: "'fd xstate \<Rightarrow> 'fd lc_call \<Rightarrow> 'fd lc_answer \<Rightarrow> 'fd xstate option" where
  "x_spec a c (Raised err) = (if x_error_due a c err then Some a else None)"
| "x_spec a (Step e) (Intents is) = x_intents a e is"
| "x_spec a (TakeFence i) (Fence f) =
     (case xs_bufs a i of
        None \<Rightarrow> if f = NoFence then Some a else None
      | Some x \<Rightarrow>
          if f = x_fence x \<and> \<not> is_syncobj f
          then Some (a\<lparr>xs_bufs := (xs_bufs a)(i \<mapsto> x\<lparr>x_fence := NoFence\<rparr>)\<rparr>) else None)"
| "x_spec _ _ _ = None"


section \<open>The view of a state\<close>

definition view :: "'fd buffer_rec \<Rightarrow> 'fd xbuf" where
  "view b = \<lparr>x_state = br_state b, x_open = br_accessOpen b, x_serials = br_inflightSerials b,
     x_held = br_scanoutHeld b, x_destroyed = br_destroyed b, x_owed = br_releaseOwed b,
     x_doomed = br_importOwed b, x_fence = br_pendingAcquireFence b, x_chain = br_chainFence b\<rparr>"

text \<open>
  The view of all buffers, with what the event still has to do to each of them (\<open>f\<close>).
\<close>

definition bufs_view :: "(nat \<Rightarrow> 'fd xbuf \<Rightarrow> 'fd xbuf) \<Rightarrow> 'fd lifecycle \<Rightarrow> 'fd xbufs" where
  "bufs_view f s = (\<lambda>i. map_option (\<lambda>b. f i (view b)) (oget (lc_buffers s) i))"

abbreviation nothing_left :: "nat \<Rightarrow> 'fd xbuf \<Rightarrow> 'fd xbuf" where
  "nothing_left \<equiv> (\<lambda>_ x. x)"

text \<open>From \<open>s\<close> to \<open>s'\<close> only intents the protocol allows were added.\<close>

definition obeys ::
  "'fd lc_event \<Rightarrow> (nat, nat) omap \<Rightarrow> (nat \<Rightarrow> 'fd xbuf \<Rightarrow> 'fd xbuf) \<Rightarrow> 'fd lifecycle
     \<Rightarrow> 'fd lifecycle \<Rightarrow> bool" where
  "obeys e cur f s s' \<longleftrightarrow>
     (\<exists>is. lc_out s' = lc_out s @ is \<and> x_allow_all e cur (bufs_view f s) is = Some (bufs_view f s'))"

lemma set_buffer_simps [simp]:
  "lc_buffers (set_buffer i b s) = oset i b (lc_buffers s)" "lc_surfaces (set_buffer i b s) = lc_surfaces s"
  "lc_frame (set_buffer i b s) = lc_frame s" "lc_out (set_buffer i b s) = lc_out s"
  "lc_pendingEndExports (set_buffer i b s) = lc_pendingEndExports s"
  by (simp_all add: set_buffer_def)

lemma emit_simps [simp]:
  "lc_buffers (emit x s) = lc_buffers s" "lc_surfaces (emit x s) = lc_surfaces s"
  "lc_frame (emit x s) = lc_frame s" "lc_out (emit x s) = lc_out s @ [x]"
  "lc_pendingEndExports (emit x s) = lc_pendingEndExports s"
  by (simp_all add: emit_def)

lemma bufs_view_set_buffer [simp]:
  "bufs_view f (set_buffer i b s) = (bufs_view f s)(i \<mapsto> f i (view b))"
  by (auto simp: bufs_view_def)

lemma bufs_view_cong: "lc_buffers s = lc_buffers s' \<Longrightarrow> bufs_view f s = bufs_view f s'"
  by (simp add: bufs_view_def)

lemma bufs_view_apply: "bufs_view f s i = map_option (\<lambda>b. f i (view b)) (oget (lc_buffers s) i)"
  by (simp add: bufs_view_def)

lemma x_allow_all_append:
  "x_allow_all e cur a (is @ js) =
     (case x_allow_all e cur a is of None \<Rightarrow> None | Some a' \<Rightarrow> x_allow_all e cur a' js)"
  by (induction "is" arbitrary: a) (auto split: option.splits)

lemma obeys_refl: "lc_out s' = lc_out s \<Longrightarrow> bufs_view f s' = bufs_view f s \<Longrightarrow> obeys e cur f s s'"
  by (auto simp: obeys_def intro!: exI [of _ "[]"])

lemma obeys_trans [trans]: "obeys e cur f s s' \<Longrightarrow> obeys e cur f s' s'' \<Longrightarrow> obeys e cur f s s''"
  unfolding obeys_def by (elim exE conjE, rule_tac x = "is @ isa" in exI) (simp add: x_allow_all_append)

lemma obeys_after:
  "obeys e cur f t s' \<Longrightarrow> lc_out t = lc_out s \<Longrightarrow> bufs_view f t = bufs_view f s \<Longrightarrow> obeys e cur f s s'"
  by (simp add: obeys_def)

text \<open>\<open>maybeFlush\<close> touches one buffer: it drops a release it has sent, or deletes the entry.\<close>

lemma maybeFlush_frame [simp]:
  "lc_surfaces (maybeFlush i s) = lc_surfaces s" "lc_frame (maybeFlush i s) = lc_frame s"
  "lc_pendingEndExports (maybeFlush i s) = lc_pendingEndExports s"
  by (simp_all add: maybeFlush_def discardPendingAcquireFence_def Let_def
      split: option.splits acquire_fence.splits)

definition flushed :: "'fd buffer_rec \<Rightarrow> 'fd buffer_rec option" where
  "flushed b =
     (if x_idle (view b) then (if br_importOwed b then None else Some (b\<lparr>br_releaseOwed := False\<rparr>))
      else Some b)"

lemma maybeFlush_get:
  "oget (lc_buffers (maybeFlush i s)) =
     (oget (lc_buffers s))(i := Option.bind (oget (lc_buffers s) i) flushed)"
proof (cases "oget (lc_buffers s) i")
  case None
  then show ?thesis by (simp add: maybeFlush_def fun_upd_idem)
next
  case (Some b)
  have "b\<lparr>br_releaseOwed := False\<rparr> = b" if "\<not> br_releaseOwed b"
    using that by (cases b) simp
  with Some show ?thesis
    by (cases "br_pendingAcquireFence b")
       (auto simp: maybeFlush_def flushed_def x_idle_def view_def discardPendingAcquireFence_def Let_def
         fun_upd_idem)
qed

lemma maybeFlush_distinct [simp]:
  "distinct (okeys (lc_buffers s)) \<Longrightarrow> distinct (okeys (lc_buffers (maybeFlush i s)))"
  by (simp add: maybeFlush_def discardPendingAcquireFence_def Let_def
      split: option.splits acquire_fence.splits)

lemma maybeFlush_obeys:
  assumes "f i = (\<lambda>x. x)"
    and "\<And>b. oget (lc_buffers s) i = Some b \<Longrightarrow> br_releaseOwed b \<Longrightarrow> i \<notin> snd ` set cur \<and> \<not> br_destroyed b"
  shows "obeys e cur f s (maybeFlush i s)"
proof (cases "oget (lc_buffers s) i")
  case None
  then show ?thesis by (simp add: maybeFlush_def obeys_refl)
next
  case (Some b)
  note get = Some
  show ?thesis
  proof (cases "x_idle (view b)")
    case False
    with Some have "maybeFlush i s = s"
      by (auto simp: maybeFlush_def x_idle_def view_def)
    then show ?thesis by (simp add: obeys_refl)
  next
    case True
    define pre where "pre = (if br_releaseOwed b \<and> \<not> br_destroyed b then [SendWlRelease i] else [] :: 'a lc_intent list)"
    define post where "post = (if br_importOwed b
       then (if has_payload (br_pendingAcquireFence b) then [DiscardAcquireFence i (br_pendingAcquireFence b)] else [])
            @ [ReleaseImport i] else [])"
    from True have idle: "br_inflightSerials b = []" "\<not> br_accessOpen b" "\<not> br_scanoutHeld b" "br_state b \<noteq> Importing"
      by (auto simp: x_idle_def view_def)
    have out: "lc_out (maybeFlush i s) = lc_out s @ pre @ post"
      using idle get
      by (cases "br_pendingAcquireFence b")
         (auto simp: maybeFlush_def discardPendingAcquireFence_def Let_def pre_def post_def has_payload_def)
    have a: "bufs_view f s i = Some (view b)" using get assms(1) by (simp add: bufs_view_apply)
    have v: "bufs_view f (maybeFlush i s) = (bufs_view f s)(i := map_option view (flushed b))"
      using get assms(1) by (auto simp: bufs_view_def maybeFlush_get)
    let ?x = "(view b)\<lparr>x_owed := False\<rparr>"
    have x: "x_idle ?x" "x_doomed ?x = br_importOwed b" "x_fence ?x = br_pendingAcquireFence b"
      using True by (simp_all add: x_idle_def view_def)
    have "x_allow_all e cur (bufs_view f s) pre = Some ((bufs_view f s)(i \<mapsto> ?x))"
    proof (cases "br_releaseOwed b")
      case True
      with assms(2) [OF get] a \<open>x_idle (view b)\<close> show ?thesis by (simp add: pre_def) (simp add: view_def)
    next
      case False
      then have "?x = view b" by (simp add: view_def)
      with False a show ?thesis by (simp add: pre_def fun_upd_idem)
    qed
    moreover have "x_allow_all e cur ((bufs_view f s)(i \<mapsto> ?x)) post = Some (bufs_view f (maybeFlush i s))"
    proof (cases "br_importOwed b")
      case False
      then show ?thesis
        unfolding v flushed_def if_P [OF True] by (simp add: post_def) (simp add: view_def)
    next
      case doomed: True
      have "x_idle (?x\<lparr>x_fence := NoFence\<rparr>)" using x(1) by (simp add: x_idle_def)
      with doomed x show ?thesis
        unfolding v flushed_def if_P [OF True] post_def
        by (simp del: x_allow_all.simps(2) add: x_allow_all.simps(2) [of _ _ "(bufs_view f s)(i \<mapsto> ?x)"]
            x_allow_all.simps(2) [of _ _ "(bufs_view f s)(i \<mapsto> ?x\<lparr>x_fence := NoFence\<rparr>)"])
           (simp add: has_payload_def)
    qed
    ultimately show ?thesis unfolding obeys_def out by (auto simp: x_allow_all_append)
  qed
qed

section \<open>Invariants\<close>

text \<open>
  A surface's current buffer points back at it and owes nothing, 0 names no buffer, a destroyed
  buffer owes no release, and the buffers pinned by the frame are exactly once in it, alive and open.
\<close>

definition cur_ok :: "'fd lifecycle \<Rightarrow> bool" where
  "cur_ok s \<longleftrightarrow> (\<forall>sid r. oget (lc_surfaces s) sid = Some r \<longrightarrow> sr_currentBufferId r \<noteq> 0 \<longrightarrow>
     sid \<noteq> 0 \<and> (\<exists>b. oget (lc_buffers s) (sr_currentBufferId r) = Some b \<and> br_currentSurfaceId b = sid
                \<and> \<not> br_destroyed b \<and> \<not> br_releaseOwed b \<and> \<not> br_importOwed b))"

definition dead_ok :: "'fd lifecycle \<Rightarrow> bool" where
  "dead_ok s \<longleftrightarrow> (\<forall>i b. oget (lc_buffers s) i = Some b \<longrightarrow>
     i \<noteq> 0 \<and> (br_destroyed b \<longrightarrow> \<not> br_releaseOwed b))"

definition frame_ok :: "'fd lifecycle \<Rightarrow> bool" where
  "frame_ok s \<longleftrightarrow> (case lc_frame s of
       None \<Rightarrow> True
     | Some sampled \<Rightarrow> distinct (map snd sampled) \<and>
         (\<forall>i \<in> snd ` set sampled. \<exists>b. oget (lc_buffers s) i = Some b \<and> br_accessOpen b))"

definition lc_wf :: "'fd lifecycle \<Rightarrow> bool" where
  "lc_wf s \<longleftrightarrow> distinct (okeys (lc_buffers s)) \<and> distinct (okeys (lc_surfaces s))
     \<and> cur_ok s \<and> dead_ok s \<and> frame_ok s"

definition cur_rel :: "'fd lifecycle \<Rightarrow> (nat, nat) omap \<Rightarrow> bool" where
  "cur_rel s cur \<longleftrightarrow> distinct (okeys cur)
     \<and> (\<forall>sid. oget cur sid = map_option sr_currentBufferId (oget (lc_surfaces s) sid))"

definition exec_rel :: "'fd lifecycle \<Rightarrow> 'fd xstate \<Rightarrow> bool" where
  "exec_rel s a \<longleftrightarrow> lc_wf s \<and> cur_rel s (xs_cur a) \<and> xs_bufs a = bufs_view nothing_left s
     \<and> xs_frame a = map_option (map snd) (lc_frame s)"

text \<open>
  How clients use buffers: a buffer is current on one surface at a time, and the id of a destroyed
  buffer is not committed again while its entry drains.
\<close>

fun exclusive_use :: "'fd lifecycle \<Rightarrow> 'fd lc_call \<Rightarrow> bool" where
  "exclusive_use s (Step (Commit sid i d)) =
     (sid \<noteq> 0 \<and> i \<noteq> 0
      \<and> list_all (\<lambda>(sid', r). sid' = sid \<or> sr_currentBufferId r \<noteq> i) (lc_surfaces s)
      \<and> (case oget (lc_buffers s) i of None \<Rightarrow> True | Some b \<Rightarrow> \<not> br_destroyed b))"
| "exclusive_use s _ = True"

lemma view_simps [simp]:
  "x_state (view b) = br_state b" "x_open (view b) = br_accessOpen b"
  "x_serials (view b) = br_inflightSerials b" "x_held (view b) = br_scanoutHeld b"
  "x_destroyed (view b) = br_destroyed b" "x_owed (view b) = br_releaseOwed b"
  "x_doomed (view b) = br_importOwed b" "x_fence (view b) = br_pendingAcquireFence b"
  "x_chain (view b) = br_chainFence b"
  by (simp_all add: view_def)

lemma omap_vals: "distinct (okeys m) \<Longrightarrow> v \<in> snd ` set m \<longleftrightarrow> (\<exists>k. oget m k = Some v)"
  by (force simp: in_set_oget [symmetric])

lemma lc_wf_cong:
  assumes "lc_buffers s = lc_buffers t" "lc_surfaces s = lc_surfaces t" "lc_frame s = lc_frame t"
  shows "lc_wf s = lc_wf t"
  by (simp only: lc_wf_def cur_ok_def dead_ok_def frame_ok_def assms)

lemma lc_wf_parts:
  assumes "lc_wf s"
  shows "distinct (okeys (lc_buffers s))" "distinct (okeys (lc_surfaces s))" "cur_ok s" "dead_ok s" "frame_ok s"
  using assms by (simp_all add: lc_wf_def)

lemma cur_okD:
  assumes "cur_ok s" "oget (lc_surfaces s) sid = Some r" "sr_currentBufferId r = i" "i \<noteq> 0"
  obtains b where "oget (lc_buffers s) i = Some b" "br_currentSurfaceId b = sid" "\<not> br_destroyed b"
    "\<not> br_releaseOwed b" "\<not> br_importOwed b" "sid \<noteq> 0"
  using assms unfolding cur_ok_def by blast

lemma cur_rel_none:
  assumes "cur_rel s cur" "cur_ok s" "oget (lc_buffers s) i = Some b"
    "br_releaseOwed b \<or> br_destroyed b \<or> br_importOwed b" "i \<noteq> 0"
  shows "i \<notin> snd ` set cur"
proof
  assume "i \<in> snd ` set cur"
  with assms(1) obtain sid r where "oget (lc_surfaces s) sid = Some r" "sr_currentBufferId r = i"
    by (auto simp: cur_rel_def omap_vals)
  from cur_okD [OF assms(2) this assms(5)] assms(3,4) show False by auto
qed

lemma flushed_keeps:
  "flushed b = Some b' \<Longrightarrow> b' = b \<or> b' = b\<lparr>br_releaseOwed := False\<rparr>"
  by (auto simp: flushed_def split: if_splits)

lemma flushed_open: "br_accessOpen b \<Longrightarrow> flushed b = Some b"
  by (simp add: flushed_def x_idle_def)

lemma flushed_current: "\<not> br_importOwed b \<Longrightarrow> \<not> br_releaseOwed b \<Longrightarrow> flushed b = Some b"
  by (simp add: flushed_def)

lemma maybeFlush_wf [wf_intros]:
  assumes "lc_wf s"
  shows "lc_wf (maybeFlush i s)"
proof -
  note p = lc_wf_parts [OF assms]
  have "cur_ok (maybeFlush i s)"
    unfolding cur_ok_def
  proof (intro allI impI)
    fix sid r
    assume "oget (lc_surfaces (maybeFlush i s)) sid = Some r" and n: "sr_currentBufferId r \<noteq> 0"
    then have "oget (lc_surfaces s) sid = Some r" by simp
    from cur_okD [OF p(3) this refl n] obtain b where
      "oget (lc_buffers s) (sr_currentBufferId r) = Some b" "br_currentSurfaceId b = sid" "\<not> br_destroyed b"
      "\<not> br_releaseOwed b" "\<not> br_importOwed b" "sid \<noteq> 0" by blast
    then show "sid \<noteq> 0 \<and> (\<exists>b. oget (lc_buffers (maybeFlush i s)) (sr_currentBufferId r) = Some b
        \<and> br_currentSurfaceId b = sid \<and> \<not> br_destroyed b \<and> \<not> br_releaseOwed b \<and> \<not> br_importOwed b)"
      by (auto simp: maybeFlush_get flushed_current)
  qed
  moreover have "dead_ok (maybeFlush i s)"
    using p(4) by (auto simp: dead_ok_def maybeFlush_get bind_eq_Some_conv dest: flushed_keeps)
  moreover have "frame_ok (maybeFlush i s)"
    using p(5) by (force simp: frame_ok_def maybeFlush_get flushed_open split: option.splits)
  ultimately show ?thesis using p by (simp add: lc_wf_def)
qed

text \<open>An update that keeps the bracket, and either keeps the buffer's debts or is of no current buffer.\<close>

lemma set_buffer_wf:
  assumes "lc_wf s" "oget (lc_buffers s) i = Some b"
    and "br_accessOpen b' = br_accessOpen b \<or> lc_frame s = None" "br_destroyed b' \<Longrightarrow> \<not> br_releaseOwed b'"
    and "br_currentSurfaceId b' = br_currentSurfaceId b \<and> br_destroyed b' = br_destroyed b
           \<and> br_releaseOwed b' = br_releaseOwed b \<and> br_importOwed b' = br_importOwed b
         \<or> (\<forall>sid r. oget (lc_surfaces s) sid = Some r \<longrightarrow> sr_currentBufferId r \<noteq> i)"
  shows "lc_wf (set_buffer i b' s)"
proof -
  note p = lc_wf_parts [OF assms(1)]
  have "cur_ok (set_buffer i b' s)"
    unfolding cur_ok_def
  proof (intro allI impI)
    fix sid r
    assume "oget (lc_surfaces (set_buffer i b' s)) sid = Some r" and n: "sr_currentBufferId r \<noteq> 0"
    then have r: "oget (lc_surfaces s) sid = Some r" by simp
    from cur_okD [OF p(3) this refl n] obtain c where
      "oget (lc_buffers s) (sr_currentBufferId r) = Some c" "br_currentSurfaceId c = sid" "\<not> br_destroyed c"
      "\<not> br_releaseOwed c" "\<not> br_importOwed c" "sid \<noteq> 0" by blast
    with assms(2,5) r show "sid \<noteq> 0 \<and> (\<exists>b. oget (lc_buffers (set_buffer i b' s)) (sr_currentBufferId r) = Some b
        \<and> br_currentSurfaceId b = sid \<and> \<not> br_destroyed b \<and> \<not> br_releaseOwed b \<and> \<not> br_importOwed b)"
      by (cases "sr_currentBufferId r = i") auto
  qed
  moreover have "dead_ok (set_buffer i b' s)" using p(4) assms(2,4) by (simp add: dead_ok_def)
  moreover have "frame_ok (set_buffer i b' s)"
    using p(5) assms(2,3) by (fastforce simp: frame_ok_def split: option.splits)
  ultimately show ?thesis using p by (simp add: lc_wf_def)
qed

section \<open>Every handler follows the protocol\<close>

definition answered :: "'fd lc_event \<Rightarrow> 'fd xstate \<Rightarrow> 'fd lifecycle \<Rightarrow> bool" where
  "answered e a s' \<longleftrightarrow> (\<exists>a'. x_intents a e (lc_out s') = Some a' \<and> exec_rel s' a')"

lemma answered_intents:
  assumes "x_allow_all e (xs_cur (x_before e a)) (xs_bufs (x_before e a)) (lc_out s') = Some (bufs_view nothing_left s')"
    and "x_after e (lc_out s') a ((x_before e a)\<lparr>xs_bufs := bufs_view nothing_left s'\<rparr>) = Some a'"
    and "exec_rel s' a'"
  shows "answered e a s'"
  using assms by (simp add: answered_def x_intents_def Let_def)

lemma answeredI:
  assumes "obeys e (xs_cur (x_before e a)) f t s'" "lc_out t = []"
    and "bufs_view f t = xs_bufs (x_before e a)" "bufs_view f s' = bufs_view nothing_left s'"
    and "x_after e (lc_out s') a ((x_before e a)\<lparr>xs_bufs := bufs_view nothing_left s'\<rparr>) = Some a'"
    and "exec_rel s' a'"
  shows "answered e a s'"
proof -
  from assms(1-4) have
    "x_allow_all e (xs_cur (x_before e a)) (xs_bufs (x_before e a)) (lc_out s') = Some (bufs_view nothing_left s')"
    by (simp add: obeys_def)
  with assms(5,6) show ?thesis by (simp add: answered_def x_intents_def Let_def)
qed

text \<open>The common shape: update one entry, then flush it.\<close>

lemma answered_update:
  assumes r: "exec_rel s a" and o: "lc_out s = []"
    and wf: "lc_wf t" and t: "lc_out t = []" "lc_frame t = lc_frame s"
    and v: "xs_bufs (x_before e a) = bufs_view nothing_left t"
    and c: "cur_rel t (xs_cur (x_before e a))"
    and f: "xs_frame (x_before e a) = xs_frame a"
    and d: "\<And>is a1. x_after e is a a1 = Some a1"
    and m: "s' = maybeFlush i t \<or> s' = t"
  shows "answered e a s'"
proof -
  have ob: "obeys e (xs_cur (x_before e a)) nothing_left t s'"
    using m
  proof
    assume "s' = maybeFlush i t"
    moreover have "i \<notin> snd ` set (xs_cur (x_before e a)) \<and> \<not> br_destroyed b"
      if "oget (lc_buffers t) i = Some b" "br_releaseOwed b" for b
      using cur_rel_none [OF c lc_wf_parts(3) [OF wf] that(1)] that(2) lc_wf_parts(4) [OF wf] that(1)
      by (auto simp: dead_ok_def)
    ultimately show ?thesis by (simp add: maybeFlush_obeys)
  qed (simp add: obeys_refl)
  let ?a' = "(x_before e a)\<lparr>xs_bufs := bufs_view nothing_left s'\<rparr>"
  have "lc_wf s'" "cur_rel s' (xs_cur ?a')" "xs_frame ?a' = map_option (map snd) (lc_frame s')"
    using m wf c r t(2) f by (auto simp: exec_rel_def cur_rel_def intro: wf_intros)
  then have "exec_rel s' ?a'" by (simp add: exec_rel_def)
  with ob t(1) v [symmetric] refl d show ?thesis by (rule answeredI)
qed

lemma exec_relD:
  assumes "exec_rel s a"
  shows "lc_wf s" "cur_rel s (xs_cur a)" "xs_bufs a = bufs_view nothing_left s"
    "xs_frame a = map_option (map snd) (lc_frame s)"
  using assms by (simp_all add: exec_rel_def)

lemma x_upd_view:
  "x_upd i f (bufs_view nothing_left s) =
     (case oget (lc_buffers s) i of
        None \<Rightarrow> bufs_view nothing_left s
      | Some b \<Rightarrow> (bufs_view nothing_left s)(i \<mapsto> f (view b)))"
  by (auto simp: x_upd_def bufs_view_apply fun_upd_idem split: option.splits)

lemma cur_rel_set_buffer [simp]: "cur_rel (set_buffer i b s) cur = cur_rel s cur"
  by (simp add: cur_rel_def)

text \<open>The events that change one entry and none of its debts.\<close>

lemma answered_touch:
  assumes r: "exec_rel s a" and o: "lc_out s = []"
    and get: "oget (lc_buffers s) i = Some b"
    and b': "br_accessOpen b' = br_accessOpen b" "br_currentSurfaceId b' = br_currentSurfaceId b"
      "br_destroyed b' = br_destroyed b" "br_releaseOwed b' = br_releaseOwed b" "br_importOwed b' = br_importOwed b"
    and e: "x_before e a = a\<lparr>xs_bufs := x_upd i f (xs_bufs a)\<rparr>" "f (view b) = view b'"
      "\<And>is a1. x_after e is a a1 = Some a1"
    and m: "s' = maybeFlush i (set_buffer i b' s) \<or> s' = set_buffer i b' s"
  shows "answered e a s'"
proof (rule answered_update [OF r o _ _ _ _ _ _ e(3) m])
  note p = lc_wf_parts [OF exec_relD(1) [OF r]]
  show "lc_wf (set_buffer i b' s)"
    using p(4) get b' by (intro set_buffer_wf [OF exec_relD(1) [OF r] get]) (auto simp: dead_ok_def)
  show "xs_bufs (x_before e a) = bufs_view nothing_left (set_buffer i b' s)"
    by (simp add: e exec_relD(3) [OF r] x_upd_view get)
qed (use o b' exec_relD(2) [OF r] in \<open>simp_all add: e\<close>)

lemma answered_nothing:
  assumes "exec_rel s a" "lc_out s = []" "x_before e a = a" "\<And>is a1. x_after e is a a1 = Some a1"
  shows "answered e a s"
proof (rule answeredI [where f = nothing_left and t = s and a' = a])
  show "x_after e (lc_out s) a ((x_before e a)\<lparr>xs_bufs := bufs_view nothing_left s\<rparr>) = Some a"
    by (simp add: assms exec_relD(3) [OF assms(1), symmetric])
qed (use assms in \<open>simp_all add: obeys_refl exec_relD\<close>)

lemma x_upd_None: "xs_bufs a = bufs_view nothing_left s \<Longrightarrow> oget (lc_buffers s) i = None \<Longrightarrow>
   a\<lparr>xs_bufs := x_upd i f (xs_bufs a)\<rparr> = a"
  by (simp add: x_upd_view)

lemma touched:
  assumes r: "exec_rel s a" and o: "lc_out s = []"
    and e: "x_before e a = a\<lparr>xs_bufs := x_upd i f (xs_bufs a)\<rparr>" "\<And>is a1. x_after e is a a1 = Some a1"
    and g: "\<And>b. br_accessOpen (g b) = br_accessOpen b \<and> br_currentSurfaceId (g b) = br_currentSurfaceId b
      \<and> br_destroyed (g b) = br_destroyed b \<and> br_releaseOwed (g b) = br_releaseOwed b
      \<and> br_importOwed (g b) = br_importOwed b"
    and f: "\<And>b. f (view b) = (if c b then view (g b) else view b)"
    and s': "s' = (case oget (lc_buffers s) i of
       None \<Rightarrow> s
     | Some b \<Rightarrow> if c b then flush (set_buffer i (g b) s) else s)"
    and flush: "flush = maybeFlush i \<or> flush = (\<lambda>x. x)"
  shows "answered e a s'"
proof (cases "oget (lc_buffers s) i")
  case None
  with x_upd_None [OF exec_relD(3) [OF r] None] show ?thesis
    unfolding s' by (simp add: answered_nothing [OF r o] e)
next
  case (Some b)
  show ?thesis
  proof (cases "c b")
    case True
    with Some g [of b] f [of b] flush show ?thesis
      unfolding s' by (intro answered_touch [OF r o Some _ _ _ _ _ e(1) _ e(2), where b' = "g b"]) auto
  next
    case False
    then have "x_before e a = a"
      using exec_relD(3) [OF r] Some f [of b] by (simp add: e x_upd_view fun_upd_idem bufs_view_apply)
    with Some False show ?thesis unfolding s' by (simp add: answered_nothing [OF r o] e)
  qed
qed

lemma touch_events:
  assumes r: "exec_rel s a" and o: "lc_out s = []"
  shows "answered (EndAccessFenceExported i rf) a (onEndAccessFenceExported i rf s)"
    and "answered (AccessFailed i reason) a (onAccessFailed i s)"
    and "answered (ImportCompleted i) a (onImportCompleted i s)"
    and "answered (ScanoutPresented i) a (onScanoutPresented i s)"
    and "answered (ScanoutRetired i) a (onScanoutRetired i s)"
proof -
  show "answered (EndAccessFenceExported i rf) a (onEndAccessFenceExported i rf s)"
    by (rule touched [OF r o, where i = i and f = "\<lambda>x. x\<lparr>x_chain := rf\<rparr>" and c = "\<lambda>_. True"
          and g = "\<lambda>b. b\<lparr>br_chainFence := rf\<rparr>" and flush = "\<lambda>x. x"])
       (simp_all add: view_def onEndAccessFenceExported_def split: option.splits)
  show "answered (AccessFailed i reason) a (onAccessFailed i s)"
    by (rule touched [OF r o, where i = i and f = "\<lambda>x. x\<lparr>x_state := Poisoned\<rparr>" and c = "\<lambda>_. True"
          and g = "\<lambda>b. b\<lparr>br_state := Poisoned\<rparr>" and flush = "maybeFlush i"])
       (simp_all add: view_def onAccessFailed_def split: option.splits)
  show "answered (ImportCompleted i) a (onImportCompleted i s)"
    by (rule touched [OF r o, where i = i and c = "\<lambda>b. br_state b = Importing"
          and f = "\<lambda>x. if x_state x = Importing then x\<lparr>x_state := Imported\<rparr> else x"
          and g = "\<lambda>b. b\<lparr>br_state := Imported\<rparr>" and flush = "maybeFlush i"])
       (simp_all add: view_def onImportCompleted_def split: option.splits)
  show "answered (ScanoutPresented i) a (onScanoutPresented i s)"
    by (rule touched [OF r o, where i = i and f = "\<lambda>x. x\<lparr>x_held := True\<rparr>" and c = "\<lambda>_. True"
          and g = "\<lambda>b. b\<lparr>br_scanoutHeld := True\<rparr>" and flush = "\<lambda>x. x"])
       (simp_all add: view_def onScanoutPresented_def split: option.splits)
  show "answered (ScanoutRetired i) a (onScanoutRetired i s)"
    by (rule touched [OF r o, where i = i and f = "\<lambda>x. x\<lparr>x_held := False\<rparr>" and c = br_scanoutHeld
          and g = "\<lambda>b. b\<lparr>br_scanoutHeld := False\<rparr>" and flush = "maybeFlush i"])
       (simp_all add: view_def onScanoutRetired_def split: option.splits)
qed

text \<open>The end of a buffer and of a surface.\<close>

lemma x_current_rel: "cur_rel s (xs_cur a) \<Longrightarrow>
   x_current a sid = (case oget (lc_surfaces s) sid of None \<Rightarrow> 0 | Some r \<Rightarrow> sr_currentBufferId r)"
  by (simp add: x_current_def cur_rel_def split: option.splits)

lemma bufferDestroyed_answered:
  assumes r: "exec_rel s a" and o: "lc_out s = []"
  shows "answered (BufferDestroyed i) a (onBufferDestroyed i s)"
proof (cases "oget (lc_buffers s) i")
  case None
  then have "xs_bufs a i = None" using exec_relD(3) [OF r] by (simp add: bufs_view_apply)
  with None show ?thesis by (simp add: onBufferDestroyed_def answered_nothing [OF r o])
next
  case (Some b)
  note wf = exec_relD(1) [OF r]
  note p = lc_wf_parts [OF wf]
  define sid where "sid = br_currentSurfaceId b"
  define mine where "mine \<longleftrightarrow> sid \<noteq> 0 \<and> (\<exists>r. oget (lc_surfaces s) sid = Some r \<and> sr_currentBufferId r = i)"
  define s1 where "s1 = (if mine then s\<lparr>lc_surfaces := oset sid \<lparr>sr_currentBufferId = 0\<rparr> (lc_surfaces s)\<rparr> else s)"
  define b' where "b' = b\<lparr>br_destroyed := True, br_importOwed := True, br_currentSurfaceId := 0, br_releaseOwed := False\<rparr>"
  have s': "onBufferDestroyed i s = maybeFlush i (set_buffer i b' s1)"
    using Some by (auto simp: onBufferDestroyed_def Let_def s1_def mine_def sid_def b'_def split: option.splits)
  from p(4) Some have i0: "i \<noteq> 0" by (simp add: dead_ok_def)
  have owner: "sid' = sid \<and> mine" if "oget (lc_surfaces s) sid' = Some r'" "sr_currentBufferId r' = i" for sid' r'
    using cur_okD [OF p(3) that i0] Some that by (auto simp: mine_def sid_def)
  have surf: "map_option sr_currentBufferId (oget (lc_surfaces s1) sid') =
      map_option (\<lambda>r. if sr_currentBufferId r = i then 0 else sr_currentBufferId r) (oget (lc_surfaces s) sid')" for sid'
    using owner [of sid'] by (cases "oget (lc_surfaces s) sid'") (auto simp: s1_def mine_def)
  have no: "sr_currentBufferId r' \<noteq> i" if "oget (lc_surfaces s1) sid' = Some r'" for sid' r'
    using surf [of sid'] that i0 by (cases "oget (lc_surfaces s) sid'") (auto split: if_splits)
  have get: "oget (lc_buffers s1) i = Some b" using Some by (simp add: s1_def)
  have "cur_ok s1" using p(3) by (auto simp: cur_ok_def s1_def)
  then have "lc_wf s1" using wf by (simp add: lc_wf_def dead_ok_def frame_ok_def s1_def split: option.splits)
  then have wf1: "lc_wf (set_buffer i b' s1)"
    by (rule set_buffer_wf [OF _ get]) (use no in \<open>auto simp: b'_def\<close>)
  have before: "x_before (BufferDestroyed i) a =
      a\<lparr>xs_cur := omap_values (\<lambda>j. if j = i then 0 else j) (xs_cur a), xs_bufs := bufs_view nothing_left (set_buffer i b' s1)\<rparr>"
    using Some exec_relD(3) [OF r]
    by (simp add: bufs_view_apply x_upd_view) (simp add: bufs_view_def view_def b'_def s1_def)
  have "cur_rel (set_buffer i b' s1) (xs_cur (x_before (BufferDestroyed i) a))"
    using exec_relD(2) [OF r] surf unfolding before cur_rel_def by (simp add: option.map_comp comp_def)
  then show ?thesis
    by (intro answered_update [OF r o wf1, where i = i]) (use o before s' in \<open>simp_all add: s1_def\<close>)
qed

lemma surfaceRemoved_answered:
  assumes r: "exec_rel s a" and o: "lc_out s = []"
  shows "answered (SurfaceRemoved sid) a (onSurfaceRemoved sid s)"
proof -
  note wf = exec_relD(1) [OF r]
  note p = lc_wf_parts [OF wf]
  have c: "cur_rel s (xs_cur a)" by (rule exec_relD(2) [OF r])
  show ?thesis
  proof (cases "oget (lc_surfaces s) sid")
    case None
    with c have "oget (xs_cur a) sid = None" by (simp add: cur_rel_def)
    then have "x_current a sid = 0" by (simp add: x_current_def)
    moreover have "odel sid (xs_cur a) = xs_cur a"
      using \<open>oget (xs_cur a) sid = None\<close> by (simp add: oget_None_key AList.delete_idem)
    ultimately have "x_before (SurfaceRemoved sid) a = a" by simp
    with None show ?thesis by (simp add: onSurfaceRemoved_def answered_nothing [OF r o])
  next
    case (Some q)
    define i where "i = sr_currentBufferId q"
    define del where "del t = t\<lparr>lc_surfaces := odel sid (lc_surfaces t)\<rparr>" for t :: "'a lifecycle"
    have cur: "x_current a sid = i" using Some by (simp add: x_current_rel [OF c] i_def)
    have "cur_ok (del s)" using p(3) by (auto simp: cur_ok_def del_def)
    then have wfd: "lc_wf (del s)" using wf by (simp add: lc_wf_def dead_ok_def frame_ok_def del_def split: option.splits)
    have cd: "cur_rel (del s) (odel sid (xs_cur a))" using c by (auto simp: cur_rel_def del_def)
    show ?thesis
    proof (cases "i = 0")
      case True
      with Some have "onSurfaceRemoved sid s = del s" by (simp add: onSurfaceRemoved_def Let_def i_def del_def)
      then show ?thesis
        by (intro answered_update [OF r o wfd, where i = 0])
           (use o cd cur True exec_relD(3) [OF r] in \<open>auto simp: del_def bufs_view_def\<close>)
    next
      case False
      from cur_okD [OF p(3) Some refl] False obtain b where b: "oget (lc_buffers s) i = Some b"
        "br_currentSurfaceId b = sid" "\<not> br_destroyed b" by (auto simp: i_def)
      define b' where "b' = b\<lparr>br_releaseOwed := True, br_importOwed := True, br_currentSurfaceId := 0\<rparr>"
      have s': "onSurfaceRemoved sid s = maybeFlush i (set_buffer i b' (del s))"
      proof -
        have "set_buffer i b' (del s) = del (set_buffer i b' s)"
          by (simp add: del_def set_buffer_def)
        with Some False b show ?thesis
          by (simp add: onSurfaceRemoved_def Let_def i_def [symmetric] b'_def [symmetric] del_def [symmetric])
      qed
      have no: "sr_currentBufferId r' \<noteq> i" if "oget (lc_surfaces (del s)) sid' = Some r'" for sid' r'
      proof
        assume "sr_currentBufferId r' = i"
        moreover from that have "oget (lc_surfaces s) sid' = Some r'" "sid' \<noteq> sid"
          by (auto simp: del_def split: if_splits)
        ultimately show False using cur_okD [OF p(3), of sid' r' i] False b by auto
      qed
      have wf1: "lc_wf (set_buffer i b' (del s))"
        by (rule set_buffer_wf [OF wfd, of _ b]) (use b no in \<open>auto simp: b'_def del_def\<close>)
      have "x_upd i (\<lambda>x. x\<lparr>x_owed := True, x_doomed := True\<rparr>) (xs_bufs a)
          = bufs_view nothing_left (set_buffer i b' (del s))"
        using b exec_relD(3) [OF r] by (simp add: x_upd_view) (simp add: bufs_view_def view_def b'_def del_def)
      then show ?thesis
        by (intro answered_update [OF r o wf1, where i = i]) (use o cd cur False s' in \<open>simp_all add: del_def\<close>)
    qed
  qed
qed

text \<open>
  A commit imports the buffer on first sight, supersedes the surface's previous buffer, adopts
  the new one.
\<close>

definition import_first_sight :: "nat \<Rightarrow> nat \<Rightarrow> dims \<Rightarrow> 'fd lifecycle \<Rightarrow> 'fd lifecycle" where
  "import_first_sight sid i d s =
     (case oget (lc_buffers s) i of
        None \<Rightarrow>
          emit (ImportBuffer i sid d)
            (set_buffer i
               \<lparr>br_state = Importing, br_currentSurfaceId = sid, br_destroyed = False,
                br_releaseOwed = False, br_importOwed = False, br_chainFence = NoRelease,
                br_pendingAcquireFence = NoFence, br_inflightSerials = [],
                br_accessOpen = False, br_scanoutHeld = False, br_dims = d\<rparr> s)
      | Some _ \<Rightarrow> s)"

definition adopt :: "nat \<Rightarrow> nat \<Rightarrow> 'fd lifecycle \<Rightarrow> 'fd lifecycle" where
  "adopt sid i s =
     (case oget (lc_buffers s) i of
        None \<Rightarrow> s\<lparr>lc_surfaces := oset sid \<lparr>sr_currentBufferId = i\<rparr> (lc_surfaces s)\<rparr>
      | Some b \<Rightarrow>
          set_buffer i (b\<lparr>br_currentSurfaceId := sid, br_releaseOwed := False, br_importOwed := False\<rparr>)
            (s\<lparr>lc_surfaces := oset sid \<lparr>sr_currentBufferId = i\<rparr> (lc_surfaces s)\<rparr>))"

definition surface_current :: "'fd lifecycle \<Rightarrow> nat \<Rightarrow> nat" where
  "surface_current s sid = (case oget (lc_surfaces s) sid of None \<Rightarrow> 0 | Some r \<Rightarrow> sr_currentBufferId r)"

definition know_surface :: "nat \<Rightarrow> 'fd lifecycle \<Rightarrow> 'fd lifecycle" where
  "know_surface sid s =
     (case oget (lc_surfaces s) sid of
        None \<Rightarrow> s\<lparr>lc_surfaces := oset sid \<lparr>sr_currentBufferId = 0\<rparr> (lc_surfaces s)\<rparr> | Some _ \<Rightarrow> s)"

lemma onCommit_phases:
  "onCommit sid i d s =
     (let s2 = import_first_sight sid i d (know_surface sid s); cur = surface_current s sid
      in if cur = i then s2
         else adopt sid i (if cur \<noteq> 0 then markSupersededOnSurface cur sid s2 else s2))"
proof -
  have surf: "lc_surfaces (import_first_sight sid i d t) = lc_surfaces t" for t :: "'a lifecycle"
    by (simp add: import_first_sight_def split: option.splits)
  have "(case oget (lc_surfaces (know_surface sid s)) sid of None \<Rightarrow> 0 | Some r \<Rightarrow> sr_currentBufferId r)
      = surface_current s sid"
    by (simp add: know_surface_def surface_current_def split: option.splits)
  then show ?thesis
    unfolding onCommit_def Let_def know_surface_def [symmetric] import_first_sight_def [symmetric]
    unfolding surf by (simp add: adopt_def cong: option.case_cong)
qed

lemma know_surface_rel:
  assumes "lc_wf s" "sid \<noteq> 0"
  shows "lc_wf (know_surface sid s)" "surface_current (know_surface sid s) = surface_current s"
    "lc_buffers (know_surface sid s) = lc_buffers s" "lc_frame (know_surface sid s) = lc_frame s"
    "lc_out (know_surface sid s) = lc_out s"
    "\<exists>q. oget (lc_surfaces (know_surface sid s)) sid = Some q \<and> sr_currentBufferId q = surface_current s sid"
  using assms
  by (auto simp: lc_wf_def cur_ok_def dead_ok_def frame_ok_def know_surface_def surface_current_def
      fun_eq_iff split: option.splits)

lemma import_first_sight_rel:
  assumes wf: "lc_wf s" and i: "i \<noteq> 0"
    and c: "f i x_fresh = x_fresh"
  shows "lc_wf (import_first_sight sid i d s)" "lc_surfaces (import_first_sight sid i d s) = lc_surfaces s"
    "lc_frame (import_first_sight sid i d s) = lc_frame s"
    "obeys (Commit sid i d) cur f s (import_first_sight sid i d s)"
    "\<exists>b. oget (lc_buffers (import_first_sight sid i d s)) i = Some b
       \<and> (oget (lc_buffers s) i = Some b \<or> \<not> br_destroyed b)"
    "\<And>j. j \<noteq> i \<Longrightarrow> oget (lc_buffers (import_first_sight sid i d s)) j = oget (lc_buffers s) j"
proof -
  show "lc_wf (import_first_sight sid i d s)"
  proof (cases "oget (lc_buffers s) i")
    case None
    with lc_wf_parts [OF wf] i show ?thesis
      unfolding import_first_sight_def lc_wf_def
      by (fastforce simp: cur_ok_def dead_ok_def frame_ok_def split: option.splits)
  qed (simp add: import_first_sight_def wf)
  show "obeys (Commit sid i d) cur f s (import_first_sight sid i d s)"
  proof (cases "oget (lc_buffers s) i")
    case None
    then show ?thesis
      using c unfolding obeys_def import_first_sight_def
      by (simp add: bufs_view_apply) (simp add: bufs_view_def x_fresh_def view_def fun_eq_iff)
  qed (simp add: import_first_sight_def obeys_refl)
qed (auto simp: import_first_sight_def split: option.splits)

lemma commit_adopt_wf:
  assumes wf: "lc_wf s" and q: "oget (lc_surfaces s) sid = Some q" "sr_currentBufferId q = prev"
    and i: "sid \<noteq> 0" "i \<noteq> 0" "prev \<noteq> i"
    and other: "\<forall>sid' r. oget (lc_surfaces s) sid' = Some r \<longrightarrow> sid' \<noteq> sid \<longrightarrow> sr_currentBufferId r \<noteq> i"
    and b: "oget (lc_buffers s) i = Some b" "\<not> br_destroyed b"
    and t: "oget (lc_buffers t) = (oget (lc_buffers s))(prev := c)" "distinct (okeys (lc_buffers t))"
      "lc_surfaces t = lc_surfaces s" "lc_frame t = lc_frame s"
    and c: "prev = 0 \<Longrightarrow> c = oget (lc_buffers s) 0"
      "\<And>p. prev \<noteq> 0 \<Longrightarrow> oget (lc_buffers s) prev = Some p \<Longrightarrow>
         (c = None \<and> \<not> br_accessOpen p) \<or> (\<exists>p'. c = Some p' \<and> br_accessOpen p' = br_accessOpen p \<and> \<not> br_destroyed p')"
  shows "lc_wf (adopt sid i t)"
proof -
  note p = lc_wf_parts [OF wf]
  let ?b = "b\<lparr>br_currentSurfaceId := sid, br_releaseOwed := False, br_importOwed := False\<rparr>"
  have bi: "oget (lc_buffers t) i = Some b" using t(1) b(1) i(3) by simp
  then have F: "lc_buffers (adopt sid i t) = oset i ?b (lc_buffers t)"
    "lc_surfaces (adopt sid i t) = oset sid \<lparr>sr_currentBufferId = i\<rparr> (lc_surfaces s)"
    "lc_frame (adopt sid i t) = lc_frame s"
    by (simp_all add: adopt_def t)
  have prev: "\<exists>b. oget (lc_buffers s) prev = Some b \<and> br_currentSurfaceId b = sid" if "prev \<noteq> 0"
    using cur_okD [OF p(3) q that] by metis
  have "cur_ok (adopt sid i t)"
    unfolding cur_ok_def
  proof (intro allI impI)
    fix sid' r
    assume r: "oget (lc_surfaces (adopt sid i t)) sid' = Some r" and n: "sr_currentBufferId r \<noteq> 0"
    show "sid' \<noteq> 0 \<and> (\<exists>b. oget (lc_buffers (adopt sid i t)) (sr_currentBufferId r) = Some b
        \<and> br_currentSurfaceId b = sid' \<and> \<not> br_destroyed b \<and> \<not> br_releaseOwed b \<and> \<not> br_importOwed b)"
    proof (cases "sid' = sid")
      case True
      with r b i show ?thesis by (auto simp: F)
    next
      case False
      with r have r': "oget (lc_surfaces s) sid' = Some r" by (simp add: F)
      from cur_okD [OF p(3) r' refl n] obtain d where d: "oget (lc_buffers s) (sr_currentBufferId r) = Some d"
        "br_currentSurfaceId d = sid'" "\<not> br_destroyed d" "\<not> br_releaseOwed d" "\<not> br_importOwed d" "sid' \<noteq> 0"
        by metis
      have "sr_currentBufferId r \<noteq> prev" using prev d False n by auto
      with d other r' False show ?thesis by (simp add: F t)
    qed
  qed
  moreover have "dead_ok (adopt sid i t)"
    unfolding dead_ok_def
  proof (intro allI impI)
    fix j d
    assume d: "oget (lc_buffers (adopt sid i t)) j = Some d"
    have s: "j \<noteq> 0 \<and> (br_destroyed d \<longrightarrow> \<not> br_releaseOwed d)" if "oget (lc_buffers s) j = Some d"
      using p(4) that by (simp add: dead_ok_def)
    consider "j = i" | "j \<noteq> i" "j = prev" "prev \<noteq> 0" | "j \<noteq> i" "j \<noteq> prev \<or> prev = 0" by blast
    then show "j \<noteq> 0 \<and> (br_destroyed d \<longrightarrow> \<not> br_releaseOwed d)"
    proof cases
      case 1
      with d i(2) show ?thesis by (auto simp: F)
    next
      case 2
      with d c(2) prev show ?thesis by (auto simp: F t)
    next
      case 3
      with d c(1) s show ?thesis by (auto simp: F t split: if_splits)
    qed
  qed
  moreover have "frame_ok (adopt sid i t)"
  proof (cases "lc_frame s")
    case None
    then show ?thesis by (simp add: frame_ok_def F)
  next
    case (Some sampled)
    have "\<exists>d. oget (lc_buffers (adopt sid i t)) j = Some d \<and> br_accessOpen d"
      if j: "oget (lc_buffers s) j = Some e" "br_accessOpen e" for j e
      using j c b prev i(3) by (cases "prev = 0"; cases "j = i"; cases "j = prev") (auto simp: F t)
    with Some p(5) show ?thesis unfolding frame_ok_def F(3) Some option.case by blast
  qed
  ultimately show ?thesis
    using p t(2) unfolding lc_wf_def F by simp
qed

lemma commit_superseded:
  assumes wf: "lc_wf s" and q: "oget (lc_surfaces s) sid = Some q" "sr_currentBufferId q = prev"
    and i: "sid \<noteq> 0" "i \<noteq> 0" "prev \<noteq> i"
    and other: "\<forall>sid' r. oget (lc_surfaces s) sid' = Some r \<longrightarrow> sid' \<noteq> sid \<longrightarrow> sr_currentBufferId r \<noteq> i"
    and b: "oget (lc_buffers s) i = Some b" "\<not> br_destroyed b"
    and cur: "distinct (okeys cur)" "\<And>sid'. oget cur sid' =
      (if sid' = sid then Some i else map_option sr_currentBufferId (oget (lc_surfaces s) sid'))"
    and f: "prev \<noteq> 0 \<Longrightarrow> f prev = (\<lambda>x. x)"
    and h: "\<And>j x. h j x = (if j = prev \<and> prev \<noteq> 0 then x\<lparr>x_owed := True\<rparr> else f j x)"
    and t: "t = (if prev \<noteq> 0 then markSupersededOnSurface prev sid s else s)"
  shows "lc_wf (adopt sid i t)" "lc_surfaces t = lc_surfaces s" "lc_frame t = lc_frame s"
    "\<exists>u. lc_out u = lc_out s \<and> bufs_view f u = bufs_view h s \<and> obeys e cur f u t"
proof -
  have "lc_wf (adopt sid i t) \<and> lc_surfaces t = lc_surfaces s \<and> lc_frame t = lc_frame s \<and>
    (\<exists>u. lc_out u = lc_out s \<and> bufs_view f u = bufs_view h s \<and> obeys e cur f u t)"
  proof (cases "prev = 0")
    case True
    have "lc_wf (adopt sid i s)"
      by (rule commit_adopt_wf [OF wf q i other b, where c = "oget (lc_buffers s) prev"])
         (use True lc_wf_parts [OF wf] in \<open>simp_all add: fun_upd_idem\<close>)
    moreover have "bufs_view f s = bufs_view h s" using True by (simp add: bufs_view_def h)
    ultimately show ?thesis using True by (auto simp: t intro: obeys_refl)
  next
    case False
    from cur_okD [OF lc_wf_parts(3) [OF wf] q False] obtain p where p: "oget (lc_buffers s) prev = Some p"
      "br_currentSurfaceId p = sid" "\<not> br_destroyed p" by metis
    define p' where "p' = p\<lparr>br_currentSurfaceId := 0, br_releaseOwed := True\<rparr>"
    have t': "t = maybeFlush prev (set_buffer prev p' s)"
      using False p by (simp add: t markSupersededOnSurface_def p'_def Let_def)
    have none: "prev \<notin> snd ` set cur"
    proof
      assume "prev \<in> snd ` set cur"
      then obtain sid' where c: "oget cur sid' = Some prev" using cur(1) by (auto simp: omap_vals)
      with cur(2) [of sid'] i(3) obtain r where r: "sid' \<noteq> sid" "oget (lc_surfaces s) sid' = Some r"
        "sr_currentBufferId r = prev" by (cases "oget (lc_surfaces s) sid'") (auto split: if_splits)
      from cur_okD [OF lc_wf_parts(3) [OF wf] r(2,3) False] p r(1) show False by auto
    qed
    have "obeys e cur f (set_buffer prev p' s) t"
      unfolding t' by (rule maybeFlush_obeys [where f = f and i = prev, OF f [OF False]]) (use none p in \<open>auto simp: p'_def\<close>)
    moreover have "bufs_view f (set_buffer prev p' s) = bufs_view h s"
      using p False f by (auto simp: fun_eq_iff bufs_view_apply h) (simp add: p'_def view_def)
    moreover have "lc_wf (adopt sid i t)"
      by (rule commit_adopt_wf [OF wf q i other b, where c = "flushed p'"])
         (use False p lc_wf_parts [OF wf] in \<open>auto simp: t' maybeFlush_get flushed_def x_idle_def p'_def\<close>)
    ultimately show ?thesis by (auto simp: t' intro!: exI [of _ "set_buffer prev p' s"])
  qed
  then show "lc_wf (adopt sid i t)" "lc_surfaces t = lc_surfaces s" "lc_frame t = lc_frame s"
    "\<exists>u. lc_out u = lc_out s \<and> bufs_view f u = bufs_view h s \<and> obeys e cur f u t" by blast+
qed

lemma commit_answered:
  assumes r: "exec_rel s a" and o: "lc_out s = []" and g: "exclusive_use s (Step (Commit sid i d))"
  shows "answered (Commit sid i d) a (onCommit sid i d s)"
proof -
  note wf = exec_relD(1) [OF r]
  note c = exec_relD(2) [OF r]
  from g have i: "sid \<noteq> 0" "i \<noteq> 0" by simp_all
  have other: "sr_currentBufferId q' \<noteq> i" if "oget (lc_surfaces s) sid' = Some q'" "sid' \<noteq> sid" for sid' q'
    using g that by (fastforce simp: list_all_iff dest: map_of_SomeD)
  define s1 where "s1 = know_surface sid s"
  define s2 where "s2 = import_first_sight sid i d s1"
  define prev where "prev = surface_current s sid"
  note k = know_surface_rel [OF wf i(1), folded s1_def prev_def]
  have cur: "x_current a sid = prev" by (simp add: x_current_rel [OF c] prev_def surface_current_def)
  show ?thesis
  proof (cases "prev = i")
    case True
    then obtain q where q: "oget (lc_surfaces s) sid = Some q" "sr_currentBufferId q = i"
      using i(2) by (auto simp: prev_def surface_current_def split: option.splits)
    from cur_okD [OF lc_wf_parts(3) [OF wf] q i(2)] obtain b where "oget (lc_buffers s) i = Some b" by metis
    with q True have s': "onCommit sid i d s = s"
      by (simp add: onCommit_phases Let_def prev_def [symmetric] know_surface_def import_first_sight_def)
    have "cur_rel s (oset sid i (xs_cur a))" using c q by (auto simp: cur_rel_def)
    then show ?thesis
      unfolding s' by (intro answered_update [OF r o wf, where i = i])
        (use o cur True exec_relD(3) [OF r] in simp_all)
  next
    case False
    define f where "f = (\<lambda>j x. if j = i then x\<lparr>x_owed := False, x_doomed := False\<rparr> else x :: 'a xbuf)"
    define h where "h = (\<lambda>j x. if j = prev \<and> prev \<noteq> 0 then x\<lparr>x_owed := True\<rparr> else f j x)"
    have "h i x_fresh = x_fresh" using False by (simp add: h_def f_def x_fresh_def)
    note m = import_first_sight_rel [OF k(1) i(2), where f = h, OF this, where sid = sid and d = d, folded s2_def]
    define cur' where "cur' = oset sid i (xs_cur a)"
    have before: "x_before (Commit sid i d) a = a\<lparr>xs_cur := cur', xs_bufs := bufs_view h s\<rparr>"
      using False cur exec_relD(3) [OF r]
      by (auto simp: cur'_def x_upd_def bufs_view_def h_def f_def fun_eq_iff option.map_comp comp_def)
    from m(5) obtain b where b: "oget (lc_buffers s2) i = Some b" "\<not> br_destroyed b"
      using g k(3) by (auto split: option.splits)
    from k(6) m(2) obtain q where q: "oget (lc_surfaces s2) sid = Some q" "sr_currentBufferId q = prev"
      by auto
    have other2: "\<forall>sid' q'. oget (lc_surfaces s2) sid' = Some q' \<longrightarrow> sid' \<noteq> sid \<longrightarrow> sr_currentBufferId q' \<noteq> i"
      using other m(2) by (auto simp: s1_def know_surface_def split: option.splits)
    define t where "t = (if prev \<noteq> 0 then markSupersededOnSurface prev sid s2 else s2)"
    have s': "onCommit sid i d s = adopt sid i t"
      using False by (simp add: onCommit_phases Let_def prev_def [symmetric] s1_def [symmetric] s2_def [symmetric] t_def)
    have surf: "map_option sr_currentBufferId (oget (lc_surfaces s2) sid') = oget (xs_cur a) sid'"
      if "sid' \<noteq> sid" for sid'
      using c m(2) that by (auto simp: cur_rel_def s1_def know_surface_def split: option.splits)
    have cur': "distinct (okeys cur')" "oget cur' sid' =
      (if sid' = sid then Some i else map_option sr_currentBufferId (oget (lc_surfaces s2) sid'))" for sid'
      using c surf [of sid'] by (simp_all add: cur'_def cur_rel_def)
    have fprev: "f prev = (\<lambda>x. x)" using False by (simp add: f_def)
    have hh: "h j x = (if j = prev \<and> prev \<noteq> 0 then x\<lparr>x_owed := True\<rparr> else f j x)" for j x
      by (simp add: h_def)
    note w = commit_superseded [OF m(1) q i False other2 b cur' fprev hh t_def]
    from w(4) [where e = "Commit sid i d"] obtain u where u: "lc_out u = lc_out s2" "bufs_view f u = bufs_view h s2"
      "obeys (Commit sid i d) cur' f u t" by metis
    have v: "bufs_view nothing_left (adopt sid i t) = bufs_view f t"
    proof (rule ext)
      fix j
      show "bufs_view nothing_left (adopt sid i t) j = bufs_view f t j"
        by (cases "oget (lc_buffers t) j"; cases "oget (lc_buffers t) i"; cases "j = i")
           (auto simp: adopt_def bufs_view_apply f_def view_def)
    qed
    have out: "lc_out (adopt sid i t) = lc_out t" by (simp add: adopt_def split: option.splits)
    have "x_allow_all (Commit sid i d) cur' (bufs_view h s) (lc_out (adopt sid i t)) = Some (bufs_view nothing_left (adopt sid i t))"
      using m(4) [of cur'] u k o unfolding obeys_def v out
      by (auto simp: x_allow_all_append bufs_view_cong [OF k(3), symmetric])
    moreover have "cur_rel (adopt sid i t) cur'"
      using cur' w(2) by (simp add: cur_rel_def adopt_def split: option.splits)
    moreover have "lc_frame (adopt sid i t) = lc_frame s"
      using w(3) m(3) k(4) by (simp add: adopt_def split: option.splits)
    ultimately show ?thesis
      unfolding s'
      by (intro answered_intents [where a' = "a\<lparr>xs_cur := cur', xs_bufs := bufs_view nothing_left (adopt sid i t)\<rparr>"],
          unfold before)
        (simp_all add: exec_rel_def w(1) exec_relD(4) [OF r])
  qed
qed

text \<open>Fences.\<close>

lemma acquireFence_answered:
  assumes r: "exec_rel s a" and o: "lc_out s = []"
  shows "answered (AcquireFenceAvailable i f) a (onAcquireFenceAvailable i f s)"
proof (cases "oget (lc_buffers s) i")
  case None
  with exec_relD(3) [OF r] have "xs_bufs a i = None" by (simp add: bufs_view_apply)
  with None r o show ?thesis
    by (simp add: onAcquireFenceAvailable_def answered_def x_intents_def)
next
  case (Some b)
  note wf = exec_relD(1) [OF r]
  define b' where "b' = b\<lparr>br_pendingAcquireFence := (if f = NoFence then Implicit else f)\<rparr>"
  define is' where "is' = (if has_payload (br_pendingAcquireFence b)
    then [DiscardAcquireFence i (br_pendingAcquireFence b)] else [])"
  let ?t = "onAcquireFenceAvailable i f s"
  have t: "lc_buffers ?t = oset i b' (lc_buffers s)" "lc_surfaces ?t = lc_surfaces s" "lc_frame ?t = lc_frame s"
    "lc_out ?t = is'"
    using Some o
    by (cases "br_pendingAcquireFence b";
        simp add: onAcquireFenceAvailable_def discardPendingAcquireFence_def Let_def b'_def is'_def has_payload_def
          AList.update_conv' )+
  have "lc_wf (set_buffer i b' s)"
    using lc_wf_parts(4) [OF wf] Some by (intro set_buffer_wf [OF wf Some]) (auto simp: b'_def dead_ok_def)
  then have w: "lc_wf ?t" by (subst lc_wf_cong) (simp_all add: t)
  have v: "bufs_view nothing_left ?t = (bufs_view nothing_left s)(i \<mapsto> view b')"
    by (auto simp: bufs_view_def t)
  have a: "xs_bufs a i = Some (view b)" using Some exec_relD(3) [OF r] by (simp add: bufs_view_apply)
  have "x_intents a (AcquireFenceAvailable i f) is' =
      Some (a\<lparr>xs_bufs := (xs_bufs a)(i \<mapsto> view b')\<rparr>)"
    using a by (auto simp: x_intents_def is'_def b'_def view_def has_payload_def)
  then show ?thesis
    using r w unfolding answered_def t(4) by (auto simp: exec_rel_def v cur_rel_def t)
qed

text \<open>Frames.\<close>

lemma frameStart_answered:
  assumes r: "exec_rel s a" and o: "lc_out s = []" and t: "onFrameStart s = Inr s'"
  shows "answered FrameStart a s'"
proof -
  from t have s': "s' = s\<lparr>lc_frame := Some []\<rparr>" and n: "lc_frame s = None"
    by (auto simp: onFrameStart_def split: if_splits)
  have "xs_frame a = None" using exec_relD(4) [OF r] n by simp
  moreover have "lc_wf s'" using exec_relD(1) [OF r] by (simp add: s' lc_wf_def cur_ok_def dead_ok_def frame_ok_def)
  ultimately show ?thesis
    using r o by (simp add: answered_def x_intents_def s' exec_rel_def cur_rel_def bufs_view_def)
qed

lemma frameSampled_answered:
  assumes r: "exec_rel s a" and o: "lc_out s = []" and t: "onFrameSampled sid s = Inr s'"
  shows "answered (FrameSampled sid) a s'"
proof -
  note wf = exec_relD(1) [OF r]
  note c = exec_relD(2) [OF r]
  let ?i = "surface_current s sid"
  have cur: "x_current a sid = ?i" by (simp add: x_current_rel [OF c] surface_current_def)
  from t obtain sampled where fr: "lc_frame s = Some sampled"
    by (auto simp: onFrameSampled_def split: option.splits)
  have a: "xs_bufs a j = map_option view (oget (lc_buffers s) j)" for j
    using exec_relD(3) [OF r] by (simp add: bufs_view_apply)
  have af: "xs_frame a = Some (map snd sampled)" using exec_relD(4) [OF r] fr by simp
  show ?thesis
  proof (cases "?i \<noteq> 0 \<and> (\<exists>b. oget (lc_buffers s) ?i = Some b \<and> br_state b = Imported)")
    case False
    have "s' = s"
    proof (cases "oget (lc_surfaces s) sid")
      case None
      with t fr show ?thesis by (simp add: onFrameSampled_def)
    next
      case (Some q)
      then have i: "sr_currentBufferId q = ?i" by (simp add: surface_current_def)
      show ?thesis
      proof (cases "?i = 0 \<or> oget (lc_buffers s) ?i = None")
        case True
        with t fr Some i show ?thesis by (auto simp: onFrameSampled_def Let_def split: if_splits)
      next
        case nz: False
        then obtain b where b: "oget (lc_buffers s) ?i = Some b" by blast
        with False nz have "br_state b \<noteq> Imported" by auto
        with t fr Some i nz b show ?thesis by (cases "br_state b") (simp_all add: onFrameSampled_def Let_def)
      qed
    qed
    moreover have "x_intents a (FrameSampled sid) [] = Some a"
      using False by (auto simp: x_intents_def af a cur x_begun_def split: option.splits)
    ultimately show ?thesis using r o by (simp add: answered_def)
  next
    case True
    then obtain b where i: "?i \<noteq> 0" and b: "oget (lc_buffers s) ?i = Some b" "br_state b = Imported"
      by blast
    from i obtain q where q: "oget (lc_surfaces s) sid = Some q"
      by (cases "oget (lc_surfaces s) sid") (simp_all add: surface_current_def)
    then have q: "oget (lc_surfaces s) sid = Some q" "sr_currentBufferId q = ?i"
      by (simp_all add: surface_current_def)
    define b' where "b' = b\<lparr>br_pendingAcquireFence := NoFence, br_accessOpen := True\<rparr>"
    let ?s' = "emit (BeginAccess ?i sid (br_pendingAcquireFence b) (br_chainFence b))
        (set_buffer ?i b' (s\<lparr>lc_frame := Some (sampled @ [(sid, ?i)])\<rparr>))"
    have "onFrameSampled sid s =
        (if br_accessOpen b then Inl (SampledTwice ?i)
         else if is_syncobj (br_pendingAcquireFence b) then Inl SyncobjNotImplemented else Inr ?s')"
      using i b unfolding onFrameSampled_def fr q option.case Let_def b'_def by simp
    with t have open0: "\<not> br_accessOpen b" "\<not> is_syncobj (br_pendingAcquireFence b)" and s': "s' = ?s'"
      by (simp_all split: if_splits)
    have "?i \<notin> snd ` set sampled"
      using lc_wf_parts(5) [OF wf] fr b open0 by (auto simp: frame_ok_def)
    then have "frame_ok s'"
      using lc_wf_parts(5) [OF wf] fr by (auto simp: s' frame_ok_def b'_def)
    moreover have "cur_ok s'" "dead_ok s'"
      using lc_wf_parts(3,4) [OF wf] b by (fastforce simp: s' cur_ok_def b'_def dead_ok_def)+
    ultimately have w: "lc_wf s'" using lc_wf_parts [OF wf] by (simp add: lc_wf_def) (simp add: s')
    have curl: "oget (xs_cur a) sid = Some ?i" using c q by (simp add: cur_rel_def)
    have "x_intents a (FrameSampled sid) (lc_out s') =
        Some (a\<lparr>xs_bufs := (xs_bufs a)(?i \<mapsto> view b'), xs_frame := Some (map snd sampled @ [?i])\<rparr>)"
      using o b open0 curl by (simp add: s' x_intents_def a af cur x_begun_def) (simp add: view_def b'_def)
    then show ?thesis
      using r w by (auto simp: answered_def exec_rel_def) (simp_all add: s' cur_rel_def bufs_view_def fun_eq_iff)
  qed
qed

text \<open>The loops of \<open>onFrameAborted\<close> and \<open>onGpuCompleted\<close> update and flush one buffer at a time.\<close>

definition upd_flush ::
  "('fd buffer_rec \<Rightarrow> bool) \<Rightarrow> ('fd buffer_rec \<Rightarrow> 'fd buffer_rec) \<Rightarrow> nat \<Rightarrow> 'fd lifecycle \<Rightarrow> 'fd lifecycle" where
  "upd_flush c g i s =
     (case oget (lc_buffers s) i of
        None \<Rightarrow> s
      | Some b \<Rightarrow> if c b then maybeFlush i (set_buffer i (g b) s) else s)"

definition on_ids :: "nat list \<Rightarrow> ('x \<Rightarrow> 'x) \<Rightarrow> nat \<Rightarrow> 'x \<Rightarrow> 'x" where
  "on_ids ids F j x = (if j \<in> set ids then F x else x)"

lemma abort_loop_fold:
  "abort_loop sampled s = fold (upd_flush (\<lambda>_. True) (\<lambda>b. b\<lparr>br_accessOpen := False\<rparr>)) (map snd sampled) s"
proof (induction sampled arbitrary: s)
  case (Cons p sampled)
  obtain sid i where p: "p = (sid, i)" by (cases p)
  have "maybeFlush i (case oget (lc_buffers s) i of None \<Rightarrow> s | Some b \<Rightarrow> set_buffer i (b\<lparr>br_accessOpen := False\<rparr>) s)
      = upd_flush (\<lambda>_. True) (\<lambda>b. b\<lparr>br_accessOpen := False\<rparr>) i s"
    by (simp add: upd_flush_def maybeFlush_def split: option.splits)
  with Cons show ?case by (simp add: p)
qed simp

lemma completed_loop_fold:
  "completed_loop n ids s =
     fold (upd_flush (\<lambda>b. n \<in> set (br_inflightSerials b))
             (\<lambda>b. b\<lparr>br_inflightSerials := removeAll n (br_inflightSerials b)\<rparr>)) ids s"
  by (induction ids arbitrary: s) (simp_all add: upd_flush_def)

lemma fold_upd_flush:
  assumes g: "\<And>b. br_currentSurfaceId (g b) = br_currentSurfaceId b \<and> br_destroyed (g b) = br_destroyed b
      \<and> br_releaseOwed (g b) = br_releaseOwed b \<and> br_importOwed (g b) = br_importOwed b"
    and F: "\<And>b. F (view b) = (if c b then view (g b) else view b)"
    and op: "lc_frame s = None \<or> (\<forall>b. br_accessOpen (g b) = br_accessOpen b)"
    and wf: "lc_wf s" and cur: "cur_rel s cur" and d: "distinct ids"
  shows "lc_wf (fold (upd_flush c g) ids s)
    \<and> lc_surfaces (fold (upd_flush c g) ids s) = lc_surfaces s
    \<and> lc_frame (fold (upd_flush c g) ids s) = lc_frame s
    \<and> (\<exists>is. lc_out (fold (upd_flush c g) ids s) = lc_out s @ is
         \<and> x_allow_all e cur (bufs_view (on_ids ids F) s) is
             = Some (bufs_view nothing_left (fold (upd_flush c g) ids s)))"
  using op wf cur d
proof (induction ids arbitrary: s)
  case Nil
  then show ?case by (simp add: on_ids_def)
next
  case (Cons i ids)
  define t where "t = (case oget (lc_buffers s) i of None \<Rightarrow> s | Some b \<Rightarrow> if c b then set_buffer i (g b) s else s)"
  have tf: "lc_surfaces t = lc_surfaces s" "lc_frame t = lc_frame s" "lc_out t = lc_out s"
    by (simp_all add: t_def split: option.splits)
  have tw: "lc_wf t"
  proof (cases "oget (lc_buffers s) i")
    case (Some b)
    then show ?thesis
      using Cons.prems(1,2) g [of b] lc_wf_parts(4) [OF Cons.prems(2)]
      by (auto simp: t_def dead_ok_def intro!: set_buffer_wf [OF Cons.prems(2) Some])
  qed (simp add: t_def Cons.prems)
  have tv: "bufs_view (on_ids (i # ids) F) s = bufs_view (on_ids ids F) t"
  proof (rule ext)
    fix j
    show "bufs_view (on_ids (i # ids) F) s j = bufs_view (on_ids ids F) t j"
      using Cons.prems(4) F
      by (cases "oget (lc_buffers s) j"; cases "oget (lc_buffers s) i"; cases "j = i")
         (auto simp: t_def bufs_view_apply on_ids_def)
  qed
  have u: "upd_flush c g i s = maybeFlush i t \<or> upd_flush c g i s = t"
    by (auto simp: upd_flush_def t_def split: option.splits)
  define v where "v = upd_flush c g i s"
  have vf: "lc_surfaces v = lc_surfaces s" "lc_frame v = lc_frame s" "lc_wf v"
    using u tf tw by (auto simp: v_def intro: wf_intros)
  have ct: "cur_rel t cur" using Cons.prems(3) by (simp add: cur_rel_def tf)
  have "i \<notin> snd ` set cur \<and> \<not> br_destroyed b" if "oget (lc_buffers t) i = Some b" "br_releaseOwed b" for b
    using cur_rel_none [OF ct lc_wf_parts(3) [OF tw] that(1)] that lc_wf_parts(4) [OF tw] by (auto simp: dead_ok_def)
  then have "obeys e cur (on_ids ids F) t (maybeFlush i t)"
    using Cons.prems(4) by (intro maybeFlush_obeys) (auto simp: on_ids_def)
  then have ob: "obeys e cur (on_ids ids F) t v"
    using u by (auto simp: v_def intro: obeys_refl)
  have cv: "cur_rel v cur" using Cons.prems(3) by (simp add: cur_rel_def vf)
  from Cons.IH [of v] Cons.prems vf cv ob show ?case
    by (auto simp: v_def [symmetric] obeys_def tv tf x_allow_all_append)
qed

lemma frameAborted_answered:
  assumes r: "exec_rel s a" and o: "lc_out s = []"
  shows "answered FrameAborted a (onFrameAborted s)"
proof (cases "lc_frame s")
  case None
  with exec_relD(4) [OF r] show ?thesis
    by (simp add: onFrameAborted_def answered_nothing [OF r o])
next
  case (Some sampled)
  note wf = exec_relD(1) [OF r]
  let ?s = "s\<lparr>lc_frame := None\<rparr>"
  let ?ids = "map snd sampled"
  let ?F = "\<lambda>x :: 'a xbuf. x\<lparr>x_open := False\<rparr>"
  have w: "lc_wf ?s" using wf by (simp add: lc_wf_def cur_ok_def dead_ok_def frame_ok_def)
  have d: "distinct ?ids" using lc_wf_parts(5) [OF wf] Some by (simp add: frame_ok_def)
  have c: "cur_rel ?s (xs_cur a)" using exec_relD(2) [OF r] by (simp add: cur_rel_def)
  have g: "br_currentSurfaceId (b\<lparr>br_accessOpen := False\<rparr>) = br_currentSurfaceId b
    \<and> br_destroyed (b\<lparr>br_accessOpen := False\<rparr>) = br_destroyed b
    \<and> br_releaseOwed (b\<lparr>br_accessOpen := False\<rparr>) = br_releaseOwed b
    \<and> br_importOwed (b\<lparr>br_accessOpen := False\<rparr>) = br_importOwed b"
    "?F (view b) = (if True then view (b\<lparr>br_accessOpen := False\<rparr>) else view b)" for b :: "'a buffer_rec"
    by (simp_all add: view_def)
  define t where "t = onFrameAborted s"
  have t: "t = fold (upd_flush (\<lambda>_. True) (\<lambda>b. b\<lparr>br_accessOpen := False\<rparr>)) ?ids ?s"
    using Some by (simp add: t_def onFrameAborted_def abort_loop_fold)
  have "lc_wf t \<and> lc_surfaces t = lc_surfaces ?s \<and> lc_frame t = lc_frame ?s
    \<and> (\<exists>is. lc_out t = lc_out ?s @ is
         \<and> x_allow_all FrameAborted (xs_cur a) (bufs_view (on_ids ?ids ?F) ?s) is = Some (bufs_view nothing_left t))"
    unfolding t by (rule fold_upd_flush [OF g _ w c d]) simp
  moreover have "x_before FrameAborted a = a\<lparr>xs_frame := None, xs_bufs := bufs_view (on_ids ?ids ?F) ?s\<rparr>"
    using exec_relD(3,4) [OF r] Some
    by (auto simp: bufs_view_def on_ids_def fun_eq_iff option.map_comp comp_def)
  ultimately show ?thesis
    using o c unfolding t_def [symmetric]
    by (intro answered_intents [where a' = "a\<lparr>xs_frame := None, xs_bufs := bufs_view nothing_left t\<rparr>"])
       (auto simp: exec_rel_def cur_rel_def)
qed

lemma gpuCompleted_answered:
  assumes r: "exec_rel s a" and o: "lc_out s = []"
  shows "answered (GpuCompleted n) a (onGpuCompleted n s)"
proof -
  note wf = exec_relD(1) [OF r]
  let ?s = "s\<lparr>lc_pendingEndExports := odel n (lc_pendingEndExports s)\<rparr>"
  let ?ids = "okeys (lc_buffers s)"
  let ?F = "\<lambda>x :: 'a xbuf. x\<lparr>x_serials := removeAll n (x_serials x)\<rparr>"
  let ?c = "\<lambda>b :: 'a buffer_rec. n \<in> set (br_inflightSerials b)"
  let ?g = "\<lambda>b :: 'a buffer_rec. b\<lparr>br_inflightSerials := removeAll n (br_inflightSerials b)\<rparr>"
  have w: "lc_wf ?s" using wf by (subst lc_wf_cong [of _ s]) simp_all
  have c: "cur_rel ?s (xs_cur a)" using exec_relD(2) [OF r] by (simp add: cur_rel_def)
  have g: "br_currentSurfaceId (?g b) = br_currentSurfaceId b \<and> br_destroyed (?g b) = br_destroyed b
    \<and> br_releaseOwed (?g b) = br_releaseOwed b \<and> br_importOwed (?g b) = br_importOwed b"
    "?F (view b) = (if ?c b then view (?g b) else view b)" for b
    by (simp_all add: view_def)
  define t where "t = onGpuCompleted n s"
  have t: "t = fold (upd_flush ?c ?g) ?ids ?s" by (simp add: t_def onGpuCompleted_def completed_loop_fold)
  have "lc_wf t \<and> lc_surfaces t = lc_surfaces ?s \<and> lc_frame t = lc_frame ?s
    \<and> (\<exists>is. lc_out t = lc_out ?s @ is
         \<and> x_allow_all (GpuCompleted n) (xs_cur a) (bufs_view (on_ids ?ids ?F) ?s) is = Some (bufs_view nothing_left t))"
    unfolding t by (rule fold_upd_flush [OF g _ w c lc_wf_parts(1) [OF wf]]) simp
  moreover have "x_before (GpuCompleted n) a = a\<lparr>xs_bufs := bufs_view (on_ids ?ids ?F) ?s\<rparr>"
  proof -
    have "map_option ?F (xs_bufs a i) = bufs_view (on_ids ?ids ?F) ?s i" for i
      using exec_relD(3) [OF r] oget_Some_key [of "lc_buffers s" i]
      by (cases "oget (lc_buffers s) i") (simp_all add: bufs_view_apply on_ids_def)
    then show ?thesis by (simp add: fun_eq_iff)
  qed
  ultimately show ?thesis
    using o c exec_relD(4) [OF r] unfolding t_def [symmetric]
    by (intro answered_intents [where a' = "a\<lparr>xs_bufs := bufs_view nothing_left t\<rparr>"])
       (auto simp: exec_rel_def cur_rel_def)
qed

lemma submit_loop_spec:
  assumes "lc_frame s = None" "lc_wf s" "distinct (map snd sampled)"
    and "\<forall>i \<in> snd ` set sampled. \<exists>b. oget (lc_buffers s) i = Some b \<and> br_accessOpen b"
    and "submit_loop n sampled ended s = (ended', t)"
  shows "lc_wf t \<and> lc_surfaces t = lc_surfaces s \<and> lc_frame t = None \<and> ended' = ended @ map snd sampled
    \<and> lc_pendingEndExports t = lc_pendingEndExports s
    \<and> (\<forall>j. j \<notin> snd ` set sampled \<longrightarrow> oget (lc_buffers t) j = oget (lc_buffers s) j)
    \<and> (\<forall>j \<in> snd ` set sampled. \<exists>b. oget (lc_buffers t) j = Some b \<and> \<not> br_accessOpen b
         \<and> n \<in> set (br_inflightSerials b))
    \<and> obeys (Submitted n) cur nothing_left s t"
  using assms
proof (induction sampled arbitrary: s ended)
  case Nil
  then show ?case by (auto intro: obeys_refl)
next
  case (Cons p sampled)
  obtain sid i where p: "p = (sid, i)" by (cases p)
  from Cons.prems(4) p obtain b where b: "oget (lc_buffers s) i = Some b" "br_accessOpen b" by auto
  define b' where "b' = b\<lparr>br_accessOpen := False, br_inflightSerials := oset_add n (br_inflightSerials b)\<rparr>"
  define s1 where "s1 = emit (EndAccess i sid) (set_buffer i b' s)"
  have "lc_wf (set_buffer i b' s)"
    using lc_wf_parts(4) [OF Cons.prems(2)] b Cons.prems(1)
    by (intro set_buffer_wf [OF Cons.prems(2) b(1)]) (auto simp: b'_def dead_ok_def)
  then have w: "lc_wf s1" by (subst lc_wf_cong [of _ "set_buffer i b' s"]) (simp_all add: s1_def)
  have "x_allow_all (Submitted n) cur (bufs_view nothing_left s) [EndAccess i sid] = Some (bufs_view nothing_left s1)"
    using b bufs_view_cong [of s1 "set_buffer i b' s" nothing_left]
    by (simp add: bufs_view_apply s1_def) (simp add: b'_def view_def)
  then have ob: "obeys (Submitted n) cur nothing_left s s1" by (auto simp: obeys_def s1_def)
  have ni: "i \<notin> snd ` set sampled" using Cons.prems(3) by (simp add: p)
  have live: "\<forall>j \<in> snd ` set sampled. \<exists>b. oget (lc_buffers s1) j = Some b \<and> br_accessOpen b"
  proof
    fix j
    assume "j \<in> snd ` set sampled"
    then show "\<exists>b. oget (lc_buffers s1) j = Some b \<and> br_accessOpen b"
      using Cons.prems(4) ni by (cases "j = i") (auto simp: p s1_def)
  qed
  have "submit_loop n sampled (ended @ [i]) s1 = (ended', t)"
    using Cons.prems(5) b by (simp add: p s1_def b'_def)
  note ih = Cons.IH [OF _ w _ live this]
  have f: "lc_frame s1 = None" using Cons.prems(1) by (simp add: s1_def)
  have d: "distinct (map snd sampled)" using Cons.prems(3) by simp
  note ih = ih [OF f d]
  have "\<exists>b. oget (lc_buffers t) i = Some b \<and> \<not> br_accessOpen b \<and> n \<in> set (br_inflightSerials b)"
    using ih ni by (simp add: s1_def b'_def)
  then show ?case
    using ih ob by (auto simp: p s1_def intro: obeys_trans)
qed

lemma submitted_answered:
  assumes r: "exec_rel s a" and o: "lc_out s = []" and t: "onSubmitted n s = Inr s'"
  shows "answered (Submitted n) a s'"
proof -
  note wf = exec_relD(1) [OF r]
  from t obtain sampled where fr: "lc_frame s = Some sampled"
    by (auto simp: onSubmitted_def split: option.splits)
  let ?s = "s\<lparr>lc_frame := None\<rparr>"
  obtain ended u where u: "submit_loop n sampled [] ?s = (ended, u)" by (cases "submit_loop n sampled [] ?s")
  have w: "lc_wf ?s" using wf by (simp add: lc_wf_def cur_ok_def dead_ok_def frame_ok_def)
  have fo: "distinct (map snd sampled)"
    "\<forall>i \<in> snd ` set sampled. \<exists>b. oget (lc_buffers ?s) i = Some b \<and> br_accessOpen b"
    using lc_wf_parts(5) [OF wf] fr by (auto simp: frame_ok_def)
  note l = submit_loop_spec [OF _ w fo u, where cur = "xs_cur a", simplified]
  have s': "lc_buffers s' = lc_buffers u" "lc_surfaces s' = lc_surfaces u" "lc_frame s' = lc_frame u" "lc_out s' = lc_out u"
    using t fr u by (auto simp: onSubmitted_def split: if_splits)
  have w': "lc_wf s'" using l by (subst lc_wf_cong [of _ u]) (simp_all add: s')
  have v: "bufs_view nothing_left s' = bufs_view nothing_left u" by (rule bufs_view_cong) (simp add: s')
  have all: "x_allow_all (Submitted n) (xs_cur a) (xs_bufs a) (lc_out s') = Some (bufs_view nothing_left s')"
    using l o exec_relD(3) [OF r] bufs_view_cong [of ?s s nothing_left] by (auto simp: obeys_def s' v)
  have ends: "list_all (\<lambda>i. case bufs_view nothing_left s' i of None \<Rightarrow> False
      | Some x \<Rightarrow> \<not> x_open x \<and> n \<in> set (x_serials x)) (map snd sampled)"
    using l by (auto simp: list_all_iff bufs_view_apply s' split: option.splits)
  have "xs_frame a = Some (map snd sampled)" using exec_relD(4) [OF r] fr by simp
  with all ends show ?thesis
    using l w' exec_relD(2) [OF r]
    by (intro answered_intents [where a' = "a\<lparr>xs_frame := None, xs_bufs := bufs_view nothing_left s'\<rparr>"])
       (auto simp: exec_rel_def s' cur_rel_def)
qed

section \<open>The simulation\<close>

lemma exec_rel_out: "exec_rel (s\<lparr>lc_out := out\<rparr>) a \<longleftrightarrow> exec_rel s a"
proof -
  have "lc_wf (s\<lparr>lc_out := out\<rparr>) = lc_wf s" by (rule lc_wf_cong) simp_all
  then show ?thesis by (simp add: exec_rel_def cur_rel_def bufs_view_def)
qed

lemma dispatch_answered:
  assumes r: "exec_rel s a" and o: "lc_out s = []" and g: "exclusive_use s (Step e)"
    and t: "lc_dispatch e s = Inr s'"
  shows "answered e a s'"
  using t
proof (cases e)
  case (Commit sid i d)
  with t commit_answered [OF r o g [unfolded Commit]] show ?thesis by simp
qed (use r o in \<open>auto intro: touch_events bufferDestroyed_answered surfaceRemoved_answered acquireFence_answered
    frameStart_answered frameSampled_answered frameAborted_answered gpuCompleted_answered submitted_answered\<close>)

lemma dispatch_error_due:
  assumes r: "exec_rel s a" and t: "lc_dispatch e s = Inl err"
  shows "x_error_due a (Step e) err"
proof (cases e)
  case FrameStart
  with t exec_relD(4) [OF r] show ?thesis by (auto simp: onFrameStart_def split: if_splits)
next
  case (Submitted n)
  with t exec_relD(4) [OF r] show ?thesis by (auto simp: onSubmitted_def split: option.splits prod.splits)
next
  case (FrameSampled sid)
  have cur: "x_current a sid = surface_current s sid"
    by (simp add: x_current_rel [OF exec_relD(2) [OF r]] surface_current_def)
  have a: "xs_bufs a j = map_option view (oget (lc_buffers s) j)" for j
    using exec_relD(3) [OF r] by (simp add: bufs_view_apply)
  show ?thesis
  proof (cases "lc_frame s")
    case None
    with t FrameSampled exec_relD(4) [OF r] show ?thesis by (auto simp: onFrameSampled_def)
  next
    case (Some sampled)
    with t FrameSampled obtain q where q: "oget (lc_surfaces s) sid = Some q"
      by (cases "oget (lc_surfaces s) sid") (auto simp: onFrameSampled_def)
    then have c: "surface_current s sid = sr_currentBufferId q" by (simp add: surface_current_def)
    show ?thesis
      using t exec_relD(4) [OF r] unfolding FrameSampled
      by (auto simp: onFrameSampled_def Some q Let_def cur c a split: if_splits option.splits)
  qed
qed (use t in simp_all)

lemma take_answered:
  assumes r: "exec_rel s a"
  shows "\<exists>a'. x_spec a (TakeFence i) (snd (lc_do s (TakeFence i))) = Some a'
     \<and> exec_rel (fst (lc_do s (TakeFence i))) a'"
proof (cases "oget (lc_buffers s) i")
  case None
  with r show ?thesis by (simp add: takeAcquireFence_def exec_relD(3) [OF r] bufs_view_apply)
next
  case (Some b)
  note wf = exec_relD(1) [OF r]
  have a: "xs_bufs a i = Some (view b)" using Some by (simp add: exec_relD(3) [OF r] bufs_view_apply)
  let ?b = "b\<lparr>br_pendingAcquireFence := NoFence\<rparr>"
  have "view ?b = (view b)\<lparr>x_fence := NoFence\<rparr>" by (simp add: view_def)
  moreover have "lc_wf (set_buffer i ?b s)"
    using lc_wf_parts(4) [OF wf] Some by (intro set_buffer_wf [OF wf Some]) (auto simp: dead_ok_def)
  ultimately show ?thesis
    using r Some a by (auto simp: takeAcquireFence_def exec_rel_def)
qed

interpretation executor: monitored lc_do exclusive_use x_spec exec_rel
proof
  fix s :: "'a lifecycle" and a c s' r
  assume R: "exec_rel s a" and g: "exclusive_use s c" and t: "lc_do s c = (s', r)"
  show "\<exists>a'. x_spec a c r = Some a' \<and> exec_rel s' a'"
  proof (cases c)
    case (TakeFence i)
    with take_answered [OF R, of i] t show ?thesis by simp
  next
    case (Step e)
    let ?s = "s\<lparr>lc_out := []\<rparr>"
    from R have R0: "exec_rel ?s a" by (simp add: exec_rel_out)
    have g0: "exclusive_use ?s (Step e)" using g Step by (cases e) simp_all
    show ?thesis
    proof (cases "lc_dispatch e ?s")
      case (Inl err)
      with t Step dispatch_error_due [OF R0 Inl] R0 show ?thesis by (auto simp: lc_step_def)
    next
      case (Inr t')
      with t Step have "s' = t'" "r = Intents (lc_out t')" by (auto simp: lc_step_def)
      with dispatch_answered [OF R0 _ g0 Inr] Step show ?thesis by (auto simp: answered_def)
    qed
  qed
qed

section \<open>Progress\<close>

text \<open>
  Whatever the callers do (shared buffers included), every debt is paid as soon as it can be, an
  open bracket belongs to the open frame, and a serial in flight is one whose completion is still
  awaited. \<open>P\<close> are the buffers pinned by the frame, \<open>N i\<close> the serials buffer \<open>i\<close> may wait for.
\<close>

definition busy_ok :: "nat set \<Rightarrow> (nat \<Rightarrow> nat set) \<Rightarrow> nat \<Rightarrow> 'fd buffer_rec \<Rightarrow> bool" where
  "busy_ok P N i b \<longleftrightarrow> (br_accessOpen b \<longrightarrow> i \<in> P) \<and> set (br_inflightSerials b) \<subseteq> N i"

definition tidy_ok :: "nat set \<Rightarrow> (nat \<Rightarrow> nat set) \<Rightarrow> nat \<Rightarrow> 'fd buffer_rec \<Rightarrow> bool" where
  "tidy_ok P N i b \<longleftrightarrow> busy_ok P N i b \<and> (x_idle (view b) \<longrightarrow> \<not> br_releaseOwed b \<and> \<not> br_importOwed b)"

definition tidy :: "nat set \<Rightarrow> (nat \<Rightarrow> nat set) \<Rightarrow> 'fd lifecycle \<Rightarrow> bool" where
  "tidy P N s \<longleftrightarrow> distinct (okeys (lc_buffers s)) \<and> (\<forall>i b. oget (lc_buffers s) i = Some b \<longrightarrow> tidy_ok P N i b)"

definition pinned :: "'fd lifecycle \<Rightarrow> nat set" where
  "pinned s = (case lc_frame s of None \<Rightarrow> {} | Some sampled \<Rightarrow> snd ` set sampled)"

definition awaited :: "'fd lifecycle \<Rightarrow> nat \<Rightarrow> nat set" where
  "awaited s = (\<lambda>_. set (okeys (lc_pendingEndExports s)))"

definition lc_tidy :: "'fd lifecycle \<Rightarrow> bool" where
  "lc_tidy s \<longleftrightarrow> tidy (pinned s) (awaited s) s"

lemma tidy_set:
  "tidy P N s \<Longrightarrow> tidy_ok P N i b \<Longrightarrow> tidy P N (set_buffer i b s)"
  by (simp add: tidy_def)

lemma tidy_get: "tidy P N s \<Longrightarrow> oget (lc_buffers s) i = Some b \<Longrightarrow> tidy_ok P N i b"
  by (simp add: tidy_def)

lemma tidy_cong: "lc_buffers s = lc_buffers t \<Longrightarrow> tidy P N s = tidy P N t"
  by (simp add: tidy_def)

text \<open>A flush repairs the entry it is called for.\<close>

lemma flushed_tidy: "flushed b = Some b' \<Longrightarrow> busy_ok P N i b \<Longrightarrow> tidy_ok P N i b'"
  by (auto simp: flushed_def tidy_ok_def busy_ok_def x_idle_def split: if_splits)

lemma tidy_flush:
  assumes "tidy P N s" "busy_ok P N i b"
  shows "tidy P N (maybeFlush i (set_buffer i b s))"
  using assms flushed_tidy [OF _ assms(2)] by (simp add: tidy_def maybeFlush_get)

lemma tidy_mono: "tidy P N s \<Longrightarrow> P \<subseteq> P' \<Longrightarrow> (\<And>i. N i \<subseteq> N' i) \<Longrightarrow> tidy P' N' s"
  by (fastforce simp: tidy_def tidy_ok_def busy_ok_def)

lemma onCommit_tidy:
  assumes "tidy P N s"
  shows "tidy P N (onCommit sid i d s)"
proof -
  have k: "tidy P N (know_surface sid s)"
    using assms by (simp add: know_surface_def tidy_def split: option.splits)
  then have m: "tidy P N (import_first_sight sid i d (know_surface sid s))" (is "tidy P N ?s")
    by (auto simp: import_first_sight_def tidy_def tidy_ok_def busy_ok_def x_idle_def split: option.splits)
  have "tidy P N (markSupersededOnSurface j sid ?s)" for j
    using m tidy_get [OF m, of j]
    by (auto simp: markSupersededOnSurface_def Let_def tidy_ok_def busy_ok_def intro!: tidy_flush split: option.splits)
  moreover have "tidy P N (adopt sid i t)" if "tidy P N t" for t :: "'a lifecycle"
  proof (cases "oget (lc_buffers t) i")
    case (Some b)
    with tidy_get [OF that Some] that show ?thesis
      by (auto simp: adopt_def tidy_ok_def busy_ok_def tidy_def)
  qed (use that in \<open>simp add: adopt_def tidy_def\<close>)
  ultimately show ?thesis using m by (simp add: onCommit_phases Let_def)
qed

lemma onCommit_frame:
  "lc_frame (onCommit sid i d s) = lc_frame s"
  "lc_pendingEndExports (onCommit sid i d s) = lc_pendingEndExports s"
proof -
  have k: "lc_frame (know_surface sid t) = lc_frame t"
    "lc_pendingEndExports (know_surface sid t) = lc_pendingEndExports t"
    "lc_frame (import_first_sight sid i d t) = lc_frame t"
    "lc_pendingEndExports (import_first_sight sid i d t) = lc_pendingEndExports t"
    "lc_frame (adopt sid i t) = lc_frame t" "lc_pendingEndExports (adopt sid i t) = lc_pendingEndExports t"
    "lc_frame (markSupersededOnSurface j sid t) = lc_frame t"
    "lc_pendingEndExports (markSupersededOnSurface j sid t) = lc_pendingEndExports t" for j and t :: "'a lifecycle"
    by (simp_all add: know_surface_def import_first_sight_def adopt_def markSupersededOnSurface_def Let_def
        split: option.splits)
  show "lc_frame (onCommit sid i d s) = lc_frame s"
    "lc_pendingEndExports (onCommit sid i d s) = lc_pendingEndExports s"
    by (simp_all add: onCommit_phases Let_def k)
qed

lemma abort_loop_tidy:
  "tidy (snd ` set sampled) N s \<Longrightarrow> tidy {} N (abort_loop sampled s)
   \<and> lc_frame (abort_loop sampled s) = lc_frame s
   \<and> lc_pendingEndExports (abort_loop sampled s) = lc_pendingEndExports s"
proof (induction sampled arbitrary: s)
  case Nil
  then show ?case by simp
next
  case (Cons p sampled)
  obtain sid i where p: "p = (sid, i)" by (cases p)
  define t where "t = (case oget (lc_buffers s) i of None \<Rightarrow> s | Some b \<Rightarrow> set_buffer i (b\<lparr>br_accessOpen := False\<rparr>) s)"
  have tf: "lc_frame t = lc_frame s" "lc_pendingEndExports t = lc_pendingEndExports s"
    by (simp_all add: t_def split: option.splits)
  have "tidy_ok (snd ` set sampled) N j c \<or> j = i"
    if "oget (lc_buffers s) j = Some c" for j c
    using tidy_get [OF Cons.prems that] by (auto simp: tidy_ok_def busy_ok_def p)
  moreover have "busy_ok (snd ` set sampled) N i (c\<lparr>br_accessOpen := False\<rparr>)"
    if "oget (lc_buffers s) i = Some c" for c
    using tidy_get [OF Cons.prems that] by (auto simp: tidy_ok_def busy_ok_def)
  ultimately have "tidy (snd ` set sampled) N (maybeFlush i t)"
    using Cons.prems unfolding tidy_def maybeFlush_get t_def
    by (auto split: option.splits if_splits intro: flushed_tidy)
  from Cons.IH [OF this] show ?case by (simp add: p t_def [symmetric] tf)
qed

lemma submit_loop_tidy:
  "tidy (snd ` set sampled) (\<lambda>j. N \<union> (if j \<in> set ended then {n} else {})) s \<Longrightarrow>
   submit_loop n sampled ended s = (ended', t) \<Longrightarrow>
   tidy {} (\<lambda>j. N \<union> (if j \<in> set ended' then {n} else {})) t
   \<and> lc_frame t = lc_frame s \<and> lc_pendingEndExports t = lc_pendingEndExports s"
proof (induction sampled arbitrary: s ended)
  case Nil
  then show ?case by simp
next
  case (Cons p sampled)
  obtain sid i where p: "p = (sid, i)" by (cases p)
  show ?case
  proof (cases "oget (lc_buffers s) i")
    case None
    have "tidy (snd ` set sampled) (\<lambda>j. N \<union> (if j \<in> set ended then {n} else {})) s"
      using Cons.prems(1) None unfolding tidy_def by (fastforce simp: p tidy_ok_def busy_ok_def)
    from Cons.IH [OF this] Cons.prems(2) None show ?thesis by (simp add: p)
  next
    case (Some b)
    define b' where "b' = b\<lparr>br_accessOpen := False, br_inflightSerials := oset_add n (br_inflightSerials b)\<rparr>"
    define s1 where "s1 = emit (EndAccess i sid) (set_buffer i b' s)"
    have "tidy_ok (snd ` set sampled) (\<lambda>j. N \<union> (if j \<in> set (ended @ [i]) then {n} else {})) j c"
      if "oget (lc_buffers s1) j = Some c" for j c
    proof (cases "j = i")
      case True
      have "set (br_inflightSerials b) \<subseteq> N \<union> (if i \<in> set ended then {n} else {})"
        using tidy_get [OF Cons.prems(1) Some] by (simp add: tidy_ok_def busy_ok_def)
      then have "busy_ok (snd ` set sampled) (\<lambda>j. N \<union> (if j \<in> set (ended @ [i]) then {n} else {})) i b'"
        by (auto simp: b'_def busy_ok_def split: if_splits)
      moreover have "\<not> x_idle (view b')" by (auto simp: x_idle_def b'_def oset_add_def)
      ultimately show ?thesis using True that by (simp add: s1_def tidy_ok_def)
    next
      case False
      with that tidy_get [OF Cons.prems(1), of j c] show ?thesis
        by (auto simp: s1_def p tidy_ok_def busy_ok_def)
    qed
    then have "tidy (snd ` set sampled) (\<lambda>j. N \<union> (if j \<in> set (ended @ [i]) then {n} else {})) s1"
      using Cons.prems(1) by (simp add: tidy_def) (simp add: s1_def)
    from Cons.IH [OF this] Cons.prems(2) Some show ?thesis by (simp add: p s1_def b'_def)
  qed
qed

lemma completed_loop_tidy:
  "tidy P (\<lambda>j. N \<union> (if j \<in> set ids then {n} else {})) s \<Longrightarrow>
   tidy P (\<lambda>_. N) (completed_loop n ids s)
   \<and> lc_frame (completed_loop n ids s) = lc_frame s
   \<and> lc_pendingEndExports (completed_loop n ids s) = lc_pendingEndExports s"
proof (induction ids arbitrary: s)
  case Nil
  then show ?case by simp
next
  case (Cons i ids)
  let ?N = "\<lambda>j. N \<union> (if j \<in> set ids then {n} else {})"
  define t where "t = (case oget (lc_buffers s) i of
          None \<Rightarrow> s
        | Some b \<Rightarrow>
            if n \<in> set (br_inflightSerials b)
            then maybeFlush i (set_buffer i (b\<lparr>br_inflightSerials := removeAll n (br_inflightSerials b)\<rparr>) s)
            else s)"
  have keep: "tidy_ok P ?N j c" if "oget (lc_buffers s) j = Some c" "j = i \<Longrightarrow> n \<notin> set (br_inflightSerials c)" for j c
    using tidy_get [OF Cons.prems that(1)] that(2) by (auto simp: tidy_ok_def busy_ok_def split: if_splits)
  have "tidy P ?N t"
  proof (cases "\<exists>b. oget (lc_buffers s) i = Some b \<and> n \<in> set (br_inflightSerials b)")
    case False
    then have "t = s" by (auto simp: t_def split: option.splits)
    with keep False Cons.prems show ?thesis by (auto simp: tidy_def)
  next
    case True
    then obtain b where b: "oget (lc_buffers s) i = Some b" "n \<in> set (br_inflightSerials b)" by blast
    let ?b = "b\<lparr>br_inflightSerials := removeAll n (br_inflightSerials b)\<rparr>"
    have bo: "busy_ok P ?N i ?b"
      using tidy_get [OF Cons.prems b(1)] by (auto simp: tidy_ok_def busy_ok_def)
    show ?thesis
      using b keep Cons.prems flushed_tidy [OF _ bo]
      by (auto simp: t_def tidy_def maybeFlush_get split: if_splits)
  qed
  note ih = Cons.IH [OF this]
  have "lc_frame t = lc_frame s" "lc_pendingEndExports t = lc_pendingEndExports s"
    by (simp_all add: t_def split: option.splits)
  with ih show ?case by (simp add: t_def [symmetric])
qed

lemma lc_tidyI: "tidy (pinned s) (awaited s) t \<Longrightarrow> lc_frame t = lc_frame s \<Longrightarrow>
   lc_pendingEndExports t = lc_pendingEndExports s \<Longrightarrow> lc_tidy t"
  by (simp add: lc_tidy_def pinned_def awaited_def)

lemma touch_tidy:
  assumes "lc_tidy s"
    and "\<And>b. busy_ok P N i b \<Longrightarrow> busy_ok P N i (g b)"
    and "flush = maybeFlush i \<or> (flush = (\<lambda>x. x) \<and> (\<forall>b. x_idle (view (g b)) \<longrightarrow> x_idle (view b)
          \<and> br_releaseOwed (g b) = br_releaseOwed b \<and> br_importOwed (g b) = br_importOwed b))"
    and "P = pinned s" "N = awaited s"
    and "t = (case oget (lc_buffers s) i of None \<Rightarrow> s | Some b \<Rightarrow> if c b then flush (set_buffer i (g b) s) else s)"
  shows "lc_tidy t"
proof (cases "\<exists>b. oget (lc_buffers s) i = Some b \<and> c b")
  case False
  then have "t = s" by (auto simp: assms(6) split: option.splits)
  with assms(1) show ?thesis by simp
next
  case True
  then obtain b where b: "oget (lc_buffers s) i = Some b" "c b" by blast
  from assms(1,4,5) have s: "tidy P N s" by (simp add: lc_tidy_def)
  from tidy_get [OF s b(1)] have "busy_ok P N i (g b)" by (simp add: tidy_ok_def assms(2))
  from assms(3) show ?thesis
  proof
    assume f: "flush = maybeFlush i"
    with b assms(6) have t: "t = maybeFlush i (set_buffer i (g b) s)" by simp
    from tidy_flush [OF s \<open>busy_ok P N i (g b)\<close>] show ?thesis
      unfolding assms(4,5) t by (rule lc_tidyI) simp_all
  next
    assume f: "flush = (\<lambda>x. x) \<and> (\<forall>b. x_idle (view (g b)) \<longrightarrow> x_idle (view b)
          \<and> br_releaseOwed (g b) = br_releaseOwed b \<and> br_importOwed (g b) = br_importOwed b)"
    then have t: "t = set_buffer i (g b) s" using b by (simp add: assms(6))
    have "tidy_ok P N i (g b)"
      using f tidy_get [OF s b(1)] \<open>busy_ok P N i (g b)\<close> by (auto simp: tidy_ok_def)
    from tidy_set [OF s this] show ?thesis unfolding assms(4,5) t by (rule lc_tidyI) simp_all
  qed
qed

lemma commit_tidy: "lc_tidy s \<Longrightarrow> lc_tidy (onCommit sid i d s)"
  by (rule lc_tidyI [of s]) (simp_all add: onCommit_frame onCommit_tidy lc_tidy_def)

lemma acquireFence_tidy:
  assumes s: "lc_tidy s"
  shows "lc_tidy (onAcquireFenceAvailable i f s)" (is "lc_tidy ?t")
proof (cases "oget (lc_buffers s) i")
  case (Some b)
  define b' where "b' = b\<lparr>br_pendingAcquireFence := (if f = NoFence then Implicit else f)\<rparr>"
  have u: "lc_frame ?t = lc_frame s" "lc_pendingEndExports ?t = lc_pendingEndExports s"
    "lc_buffers ?t = lc_buffers (set_buffer i b' s)"
    using Some
    by (cases "br_pendingAcquireFence b";
        simp add: onAcquireFenceAvailable_def discardPendingAcquireFence_def Let_def b'_def)+
  have "tidy_ok (pinned s) (awaited s) i b'"
    using tidy_get [OF s [unfolded lc_tidy_def] Some] by (simp add: tidy_ok_def busy_ok_def x_idle_def b'_def)
  from tidy_set [OF s [unfolded lc_tidy_def] this] show ?thesis
    by (intro lc_tidyI [of s]) (simp_all only: u tidy_cong [OF u(3)])
qed (use s in \<open>simp add: onAcquireFenceAvailable_def\<close>)

lemma frameSampled_tidy:
  assumes s: "lc_tidy s" and t: "onFrameSampled sid s = Inr s'"
  shows "lc_tidy s'"
proof (cases "s' = s")
  case False
  have "\<exists>b i sampled f ch. oget (lc_buffers s) i = Some b \<and> lc_frame s = Some sampled
      \<and> s' = emit (BeginAccess i sid f ch)
          (set_buffer i (b\<lparr>br_pendingAcquireFence := NoFence, br_accessOpen := True\<rparr>)
            (s\<lparr>lc_frame := Some (sampled @ [(sid, i)])\<rparr>))"
    using t False
    by (simp add: onFrameSampled_def Let_def split: option.splits if_splits) blast
  then obtain b i sampled where b: "oget (lc_buffers s) i = Some b" "lc_frame s = Some sampled"
    and s': "lc_buffers s' = oset i (b\<lparr>br_pendingAcquireFence := NoFence, br_accessOpen := True\<rparr>) (lc_buffers s)"
      "lc_frame s' = Some (sampled @ [(sid, i)])" "lc_pendingEndExports s' = lc_pendingEndExports s" by auto
  from b have p: "pinned s' = insert i (pinned s)" by (simp add: pinned_def s')
  have w: "awaited s' = awaited s" by (simp add: awaited_def s')
  have m: "tidy (insert i (pinned s)) (awaited s) s"
    by (rule tidy_mono [OF s [unfolded lc_tidy_def]]) auto
  have "tidy_ok (insert i (pinned s)) (awaited s) i (b\<lparr>br_pendingAcquireFence := NoFence, br_accessOpen := True\<rparr>)"
    using tidy_get [OF m b(1)] by (simp add: tidy_ok_def busy_ok_def x_idle_def)
  with m show ?thesis by (simp add: lc_tidy_def p w tidy_def s')
qed (use s in simp)

lemma frameAborted_tidy:
  assumes s: "lc_tidy s"
  shows "lc_tidy (onFrameAborted s)"
proof (cases "lc_frame s")
  case (Some sampled)
  have "tidy (snd ` set sampled) (awaited s) (s\<lparr>lc_frame := None\<rparr>)"
    using s Some by (simp add: lc_tidy_def pinned_def tidy_def)
  from abort_loop_tidy [OF this] Some show ?thesis
    by (simp add: onFrameAborted_def lc_tidy_def pinned_def awaited_def)
qed (use s in \<open>simp add: onFrameAborted_def\<close>)

lemma submitted_tidy:
  assumes s: "lc_tidy s" and t: "onSubmitted n s = Inr s'"
  shows "lc_tidy s'"
proof -
  from t obtain sampled where fr: "lc_frame s = Some sampled"
    by (auto simp: onSubmitted_def split: option.splits)
  let ?s = "s\<lparr>lc_frame := None\<rparr>"
  obtain ended u where u: "submit_loop n sampled [] ?s = (ended, u)" by (cases "submit_loop n sampled [] ?s")
  let ?N = "set (okeys (lc_pendingEndExports s))"
  have "tidy (snd ` set sampled) (\<lambda>j. ?N \<union> (if j \<in> set [] then {n} else {})) ?s"
    using s fr by (simp add: lc_tidy_def pinned_def awaited_def tidy_def)
  note l = submit_loop_tidy [OF this u]
  show ?thesis
  proof (cases "ended = []")
    case True
    then have "s' = u" using t fr u by (simp add: onSubmitted_def)
    with True l show ?thesis by (simp add: lc_tidy_def pinned_def awaited_def)
  next
    case False
    then have s': "s' = u\<lparr>lc_pendingEndExports := oset n ended (lc_pendingEndExports u)\<rparr>"
      using t fr u by (simp add: onSubmitted_def)
    have "tidy {} (\<lambda>_. insert n ?N) u" by (rule tidy_mono [OF conjunct1 [OF l]]) auto
    then show ?thesis using l by (simp add: s' lc_tidy_def pinned_def awaited_def tidy_def)
  qed
qed

lemma gpuCompleted_tidy:
  assumes s: "lc_tidy s"
  shows "lc_tidy (onGpuCompleted n s)"
proof -
  let ?s = "s\<lparr>lc_pendingEndExports := odel n (lc_pendingEndExports s)\<rparr>"
  let ?N = "set (okeys (lc_pendingEndExports s)) - {n}"
  have "tidy_ok (pinned s) (\<lambda>j. ?N \<union> (if j \<in> set (okeys (lc_buffers s)) then {n} else {})) i b"
    if "oget (lc_buffers s) i = Some b" for i b
    using tidy_get [OF s [unfolded lc_tidy_def] that] oget_Some_key [OF that]
    by (auto simp: tidy_ok_def busy_ok_def awaited_def)
  then have "tidy (pinned s) (\<lambda>j. ?N \<union> (if j \<in> set (okeys (lc_buffers s)) then {n} else {})) ?s"
    using s by (simp add: lc_tidy_def tidy_def)
  from completed_loop_tidy [OF this] show ?thesis
    by (simp add: onGpuCompleted_def lc_tidy_def pinned_def awaited_def)
qed

lemma tidy_flush_same:
  assumes "tidy P N s"
  shows "tidy P N (maybeFlush i s)"
proof (cases "oget (lc_buffers s) i")
  case (Some b)
  from tidy_get [OF assms Some] have "busy_ok P N i b" by (simp add: tidy_ok_def)
  from flushed_tidy [OF _ this] assms Some show ?thesis by (simp add: tidy_def maybeFlush_get)
qed (use assms in \<open>simp add: maybeFlush_def\<close>)

lemma bufferDestroyed_tidy:
  assumes s: "lc_tidy s"
  shows "lc_tidy (onBufferDestroyed i s)"
proof (cases "oget (lc_buffers s) i")
  case (Some b)
  define s1 where "s1 = (if br_currentSurfaceId b \<noteq> 0
     then (case oget (lc_surfaces s) (br_currentSurfaceId b) of
             Some r \<Rightarrow> if sr_currentBufferId r = i
                 then s\<lparr>lc_surfaces := oset (br_currentSurfaceId b) \<lparr>sr_currentBufferId = 0\<rparr> (lc_surfaces s)\<rparr> else s
           | None \<Rightarrow> s) else s)"
  let ?b = "b\<lparr>br_destroyed := True, br_importOwed := True, br_currentSurfaceId := 0, br_releaseOwed := False\<rparr>"
  have f: "lc_buffers s1 = lc_buffers s" "lc_frame s1 = lc_frame s" "lc_pendingEndExports s1 = lc_pendingEndExports s"
    by (simp_all add: s1_def split: option.splits)
  have "tidy (pinned s) (awaited s) s1" using s by (simp add: lc_tidy_def tidy_cong [OF f(1)])
  moreover have "busy_ok (pinned s) (awaited s) i ?b"
    using tidy_get [OF s [unfolded lc_tidy_def] Some] by (simp add: tidy_ok_def busy_ok_def)
  ultimately have "tidy (pinned s) (awaited s) (maybeFlush i (set_buffer i ?b s1))" by (rule tidy_flush)
  moreover have "onBufferDestroyed i s = maybeFlush i (set_buffer i ?b s1)"
    using Some by (simp add: onBufferDestroyed_def Let_def s1_def)
  ultimately show ?thesis by (simp add: lc_tidyI [of s] f)
qed (use s in \<open>simp add: onBufferDestroyed_def\<close>)

lemma surfaceRemoved_tidy:
  assumes s: "lc_tidy s"
  shows "lc_tidy (onSurfaceRemoved sid s)"
proof (cases "oget (lc_surfaces s) sid")
  case (Some q)
  let ?i = "sr_currentBufferId q"
  let ?del = "\<lambda>t. t\<lparr>lc_surfaces := odel sid (lc_surfaces t)\<rparr>"
  have d: "tidy (pinned s) (awaited s) (?del s)" using s by (simp add: lc_tidy_def tidy_def)
  consider "?i = 0" | "?i \<noteq> 0" "\<not> (\<exists>b. oget (lc_buffers s) ?i = Some b \<and> br_currentSurfaceId b = sid)"
    | b where "?i \<noteq> 0" "oget (lc_buffers s) ?i = Some b" "br_currentSurfaceId b = sid" by blast
  then show ?thesis
  proof cases
    case 1
    with Some d show ?thesis by (simp add: onSurfaceRemoved_def Let_def lc_tidyI [of s])
  next
    case 2
    then have "onSurfaceRemoved sid s = maybeFlush ?i (?del s)"
      using Some by (auto simp: onSurfaceRemoved_def Let_def split: option.splits)
    with tidy_flush_same [OF d, of ?i] show ?thesis by (simp add: lc_tidyI [of s])
  next
    case 3
    let ?b = "b\<lparr>br_releaseOwed := (if br_destroyed b then br_releaseOwed b else True),
                br_importOwed := True, br_currentSurfaceId := 0\<rparr>"
    have "busy_ok (pinned s) (awaited s) ?i ?b"
      using tidy_get [OF s [unfolded lc_tidy_def] 3(2)] by (simp add: tidy_ok_def busy_ok_def)
    then have "tidy (pinned s) (awaited s) (maybeFlush ?i (set_buffer ?i ?b (?del s)))" by (rule tidy_flush [OF d])
    moreover have "set_buffer ?i ?b (?del s) = ?del (set_buffer ?i ?b s)" by (simp add: set_buffer_def)
    ultimately have "tidy (pinned s) (awaited s) (maybeFlush ?i (?del (set_buffer ?i ?b s)))" by simp
    moreover have "onSurfaceRemoved sid s = maybeFlush ?i (?del (set_buffer ?i ?b s))"
      using Some 3 by (simp add: onSurfaceRemoved_def Let_def)
    ultimately show ?thesis by (simp add: lc_tidyI [of s])
  qed
qed (use s in \<open>simp add: onSurfaceRemoved_def\<close>)

lemma touch_events_tidy:
  assumes s: "lc_tidy s"
  shows "lc_tidy (onImportCompleted i s)" "lc_tidy (onAccessFailed i s)" "lc_tidy (onScanoutRetired i s)"
    "lc_tidy (onScanoutPresented i s)" "lc_tidy (onEndAccessFenceExported i f s)"
proof -
  note touch = touch_tidy [OF s, where i = i, OF _ _ refl refl]
  show "lc_tidy (onImportCompleted i s)"
    by (rule touch [where c = "\<lambda>b. br_state b = Importing" and flush = "maybeFlush i" and g = "\<lambda>b. b\<lparr>br_state := Imported\<rparr>"])
       (auto simp: busy_ok_def onImportCompleted_def split: option.splits)
  show "lc_tidy (onAccessFailed i s)"
    by (rule touch [where c = "\<lambda>_. True" and flush = "maybeFlush i" and g = "\<lambda>b. b\<lparr>br_state := Poisoned\<rparr>"])
       (auto simp: busy_ok_def onAccessFailed_def split: option.splits)
  show "lc_tidy (onScanoutRetired i s)"
    by (rule touch [where c = br_scanoutHeld and flush = "maybeFlush i" and g = "\<lambda>b. b\<lparr>br_scanoutHeld := False\<rparr>"])
       (auto simp: busy_ok_def onScanoutRetired_def split: option.splits)
  show "lc_tidy (onScanoutPresented i s)"
    by (rule touch [where c = "\<lambda>_. True" and flush = "\<lambda>x. x" and g = "\<lambda>b. b\<lparr>br_scanoutHeld := True\<rparr>"])
       (auto simp: busy_ok_def x_idle_def onScanoutPresented_def split: option.splits)
  show "lc_tidy (onEndAccessFenceExported i f s)"
    by (rule touch [where c = "\<lambda>_. True" and flush = "\<lambda>x. x" and g = "\<lambda>b. b\<lparr>br_chainFence := f\<rparr>"])
       (auto simp: busy_ok_def x_idle_def onEndAccessFenceExported_def split: option.splits)
qed

lemma frameStart_tidy: "lc_tidy s \<Longrightarrow> onFrameStart s = Inr s' \<Longrightarrow> lc_tidy s'"
  by (auto simp: onFrameStart_def lc_tidy_def pinned_def awaited_def tidy_def split: if_splits)

lemmas handlers_tidy = commit_tidy acquireFence_tidy frameStart_tidy frameSampled_tidy frameAborted_tidy
  submitted_tidy gpuCompleted_tidy bufferDestroyed_tidy surfaceRemoved_tidy touch_events_tidy

lemma dispatch_tidy: "lc_tidy s \<Longrightarrow> lc_dispatch e s = Inr s' \<Longrightarrow> lc_tidy s'"
  by (cases e) (auto intro: handlers_tidy)

lemma takeAcquireFence_tidy:
  assumes "lc_tidy s"
  shows "lc_tidy (fst (takeAcquireFence s i))"
proof (cases "oget (lc_buffers s) i")
  case (Some b)
  let ?b = "b\<lparr>br_pendingAcquireFence := NoFence\<rparr>"
  have "tidy_ok (pinned s) (awaited s) i ?b"
    using tidy_get [OF assms [unfolded lc_tidy_def] Some] by (simp add: tidy_ok_def busy_ok_def x_idle_def)
  from tidy_set [OF assms [unfolded lc_tidy_def] this] assms Some show ?thesis
    by (simp add: takeAcquireFence_def lc_tidyI [of s])
qed (use assms in \<open>simp add: takeAcquireFence_def\<close>)

lemma lc_tidy_out: "lc_tidy (s\<lparr>lc_out := out\<rparr>) = lc_tidy s"
  by (simp add: lc_tidy_def pinned_def awaited_def tidy_def)

lemma lc_do_tidy:
  assumes "lc_tidy s"
  shows "lc_tidy (fst (lc_do s c))"
proof (cases c)
  case (Step e)
  from assms have "lc_tidy (s\<lparr>lc_out := []\<rparr>)" by (simp add: lc_tidy_out)
  with Step dispatch_tidy [OF this] show ?thesis
    by (auto simp: lc_step_def Let_def split: sum.splits)
next
  case (TakeFence i)
  with takeAcquireFence_tidy [OF assms, of i] show ?thesis by (auto split: prod.splits sum.splits)
qed

interpretation progress: step_invariant lc_do "\<lambda>_ _. True" lc_tidy
  by unfold_locales (rule lc_do_tidy)

section \<open>Properties\<close>

lemma exec_rel_new: "exec_rel lifecycle_new x_new"
  by (simp add: exec_rel_def lc_wf_def cur_ok_def dead_ok_def frame_ok_def cur_rel_def lifecycle_new_def
      x_new_def bufs_view_def)

lemma lc_tidy_new: "lc_tidy lifecycle_new"
  by (simp add: lc_tidy_def tidy_def lifecycle_new_def)

lemma tidy_debts:
  assumes "lc_tidy s" "oget (lc_buffers s) i = Some b" "x_idle (view b)"
  shows "\<not> br_releaseOwed b" "\<not> br_importOwed b"
  using tidy_get [OF assms(1) [unfolded lc_tidy_def] assms(2)] assms(3) by (auto simp: tidy_ok_def)

text \<open>The executor is owed nothing: a buffer that nobody reads has neither a release nor a teardown outstanding.\<close>

definition paid :: "'fd xstate \<Rightarrow> bool" where
  "paid a \<longleftrightarrow> (\<forall>i x. xs_bufs a i = Some x \<and> x_idle x \<longrightarrow> \<not> x_owed x \<and> \<not> x_doomed x)"

text \<open>
  C1: over every sequence of calls in which a buffer is current on one surface at a time and the id of a
  destroyed buffer is not committed again while its entry drains, the intents are accepted by the executor's
  own protocol: one import per live entry, begin and end strictly alternate and pair up per frame, a sampled
  buffer is imported and not poisoned, every begin carries the pending acquire fence once and the last
  exported fence, a release or an import teardown happens only when it is owed and no frame, bracket or display
  engine reads the buffer, never for a current or destroyed buffer, no fence is dropped, and the errors
  are the ones that are due. Conversely nothing that is due is left out: after the calls, and so after every
  prefix of them, no buffer that nobody reads has a release or a teardown outstanding by the protocol's own
  account.
\<close>

theorem lifecycle_obeys_executor_protocol:
  assumes "admissible lc_do exclusive_use lifecycle_new calls"
  shows "\<exists>a. monitor x_spec x_new (snd (run lc_do lifecycle_new calls)) = Some a \<and> paid a"
proof -
  obtain a where a: "monitor x_spec x_new (snd (run lc_do lifecycle_new calls)) = Some a"
    "exec_rel (fst (run lc_do lifecycle_new calls)) a"
    using executor.sim_run [OF exec_rel_new assms] by (metis prod.collapse)
  have "lc_tidy (fst (run lc_do lifecycle_new calls))" by (rule progress.inv_run [OF lc_tidy_new]) simp
  then have "paid a"
    unfolding paid_def exec_relD(3) [OF a(2)] by (auto simp: bufs_view_apply dest: tidy_debts)
  with a(1) show ?thesis by blast
qed

definition sample_dims :: dims where
  "sample_dims = \<lparr>dim_w = 64, dim_h = 32\<rparr>"

definition sample_calls :: "nat lc_call list" where
  "sample_calls =
     [Step (Commit 1 7 sample_dims), Step (AcquireFenceAvailable 7 (SyncFile 40)), Step FrameStart,
      Step (FrameSampled 1), Step FrameAborted, Step (ImportCompleted 7), Step FrameStart,
      Step (FrameSampled 1), Step (Submitted 100), Step (Commit 1 8 sample_dims),
      Step (GpuCompleted 100), Step FrameStart, Step FrameStart, TakeFence 8,
      Step (BufferDestroyed 7), Step (SurfaceRemoved 1), Step FrameAborted, Step (ImportCompleted 8)]"

theorem lifecycle_obeys_executor_protocol_witness:
  "\<exists>a. monitor x_spec x_new (snd (run lc_do lifecycle_new sample_calls)) = Some a \<and> paid a"
proof (rule lifecycle_obeys_executor_protocol)
  show "admissible lc_do exclusive_use lifecycle_new sample_calls" by code_simp
qed

text \<open>The entries that owe something and that nobody reads.\<close>

definition lingering :: "'fd lifecycle \<Rightarrow> (nat \<times> 'fd buffer_rec) list" where
  "lingering s = filter (\<lambda>(i, b). x_idle (view b) \<and> (br_releaseOwed b \<or> br_importOwed b)) (lc_buffers s)"

text \<open>
  C18: after any sequence of calls whatsoever (buffers shared between surfaces, errors and late
  reports included) no debt lingers: an entry that owes a release or a teardown is still being
  imported, open in the frame, in flight, or held by the display engine.
\<close>

theorem no_debt_lingers: "lingering (fst (run lc_do lifecycle_new calls)) = []"
proof -
  let ?s = "fst (run lc_do lifecycle_new calls)"
  have t: "lc_tidy ?s" by (rule progress.inv_run [OF lc_tidy_new]) simp
  have "\<not> (x_idle (view b) \<and> (br_releaseOwed b \<or> br_importOwed b))" if "(i, b) \<in> set (lc_buffers ?s)" for i b
  proof -
    from t that have "oget (lc_buffers ?s) i = Some b" by (simp add: lc_tidy_def tidy_def)
    with tidy_get [OF t [unfolded lc_tidy_def]] show ?thesis by (auto simp: tidy_ok_def)
  qed
  then show ?thesis by (auto simp: lingering_def filter_empty_conv)
qed

text \<open>
  C25: the machine drains: once the surfaces are gone, no frame is open, every submit has
  completed and each remaining buffer was destroyed or lost its surface, has finished importing
  and has left the display engine, nothing is left (\<open>isEmpty\<close>).
\<close>

theorem lifecycle_drains:
  assumes "s = fst (run lc_do lifecycle_new calls)"
    and "lc_surfaces s = []" "lc_frame s = None" "lc_pendingEndExports s = []"
    and "list_all (\<lambda>(i, b). br_importOwed b \<and> br_state b \<noteq> Importing \<and> \<not> br_scanoutHeld b) (lc_buffers s)"
  shows "lc_isEmpty s"
proof -
  have t: "tidy (pinned s) (awaited s) s"
    using progress.inv_run [OF lc_tidy_new, of calls] assms(1) by (simp add: lc_tidy_def)
  have "False" if "(i, b) \<in> set (lc_buffers s)" for i b
  proof -
    from t that have "oget (lc_buffers s) i = Some b" by (simp add: tidy_def)
    from tidy_get [OF t this] assms(3-5) that show False
      by (auto simp: tidy_ok_def busy_ok_def x_idle_def pinned_def awaited_def list_all_iff)
  qed
  then have "lc_buffers s = []" by (cases "lc_buffers s") auto
  with assms show ?thesis by (simp add: lc_isEmpty_def)
qed

theorem lifecycle_drains_witness: "lc_isEmpty (fst (run lc_do lifecycle_new sample_calls))"
  by (rule lifecycle_drains [OF refl, of sample_calls]) code_simp+

text \<open>
  outside exclusive use the machine releases a buffer that a surface still shows: buffer 7 is
  current on surfaces 1 and 2, surface 1 moves on to buffer 8, and the release of 7 is sent
  although 7 stays the current buffer of surface 2.
\<close>

lemma shared_buffer_released_while_current:
  "let (s, tr) = run lc_do (lifecycle_new :: nat lifecycle)
        [Step (Commit 1 7 sample_dims), Step (ImportCompleted 7), Step (Commit 2 7 sample_dims),
         Step (Commit 1 8 sample_dims)]
   in snd (last tr) = Intents [ImportBuffer 8 1 sample_dims, SendWlRelease 7]
      \<and> oget (lc_surfaces s) 2 = Some \<lparr>sr_currentBufferId = 7\<rparr>"
  by code_simp

end
