(* ===== verification/Workspace.thy ===== *)
theory Workspace
  imports Prelude
begin

text \<open>
  \<open>packages/plugin-workspace-default/src/registry.ts\<close>: the workspace registry, a state machine
  over five maps whose operations answer with the side effects the plugin wrapper carries out.
  A thrown \<open>Error\<close> is a value of \<open>ws_error\<close>; the ones the code calls internal are
  branches of the model, and the invariant shows that no reachable state takes them. JavaScript
  maps are insertion-ordered, since the loops over them produce effects.
\<close>

section \<open>Data\<close>

definition OUTPUT_DEFAULT :: nat where
  "OUTPUT_DEFAULT = 0"

record workspace =
  ws_handle :: nat
  ws_outputId :: nat
  ws_name :: "string option"
  ws_preferredOutputs :: "string list"
  ws_members :: "nat list"
  ws_urgent :: bool
  ws_persistent :: bool

record ws_state =
  byHandle :: "(nat, workspace) omap"
  positionsByOutput :: "(nat, nat list) omap"
  shownByOutput :: "(nat, nat) omap"
  surfaceToHandle :: "(nat, nat) omap"
  nextHandle :: nat
  lastActiveByOutputName :: "(string, nat) omap"

record workspace_snapshot =
  sn_handle :: nat
  sn_index :: int
  sn_name :: "string option"
  sn_outputId :: nat
  sn_members :: "nat list"
  sn_urgent :: bool
  sn_persistent :: bool

type_synonym renumber_change = "nat \<times> int \<times> int"

datatype ws_event =
    WsCreated nat int nat "string option"
  | WsShown nat int nat
  | WsHidden nat int nat
  | WsUrgencyChanged nat bool nat
  | WsDestroyed nat int nat
  | WsRenumbered nat "renumber_change list"
  | WsWindowMoved nat nat nat int int nat nat
  | WsRenamed nat int nat "string option"
  | WsMigrated nat nat nat

datatype side_effect =
    SetOutputStack nat "nat list"
  | SetStateBag nat nat
  | DeleteStateBag nat
  | RequestFocusDecision
  | Emit ws_event

datatype ws_error = NoWorkspaceAtIndex int nat | NotTracked nat | UnknownHandle nat | Internal

datatype insert_end = Head | Tail

datatype reorder_op = Promote | SwapNext | SwapPrev | MoveToIndex number

record create_spec =
  cs_name :: "string option"
  cs_outputId :: "nat option"
  cs_preferredOutputs :: "string list option"
  cs_persistent :: "bool option"

definition ws_empty :: ws_state where
  "ws_empty = \<lparr>byHandle = [], positionsByOutput = [], shownByOutput = [], surfaceToHandle = [],
     nextHandle = 1, lastActiveByOutputName = []\<rparr>"

section \<open>Lookups\<close>

definition positions_of :: "ws_state \<Rightarrow> nat \<Rightarrow> nat list" where
  "positions_of st outputId =
     (case oget (positionsByOutput st) outputId of None \<Rightarrow> [] | Some ps \<Rightarrow> ps)"

definition snapshotOf :: "ws_state \<Rightarrow> nat \<Rightarrow> ws_error + workspace_snapshot" where
  "snapshotOf st handle =
     (case oget (byHandle st) handle of
        None \<Rightarrow> Inl (UnknownHandle handle)
      | Some r \<Rightarrow>
          (case index_of handle (positions_of st (ws_outputId r)) of
             None \<Rightarrow> Inl Internal
           | Some idx0 \<Rightarrow>
               Inr \<lparr>sn_handle = handle, sn_index = int (idx0 + 1), sn_name = ws_name r,
                    sn_outputId = ws_outputId r, sn_members = ws_members r,
                    sn_urgent = ws_urgent r, sn_persistent = ws_persistent r\<rparr>))"

fun snapshots :: "ws_state \<Rightarrow> nat list \<Rightarrow> ws_error + workspace_snapshot list" where
  "snapshots st [] = Inr []"
| "snapshots st (h # hs) =
     (case snapshotOf st h of
        Inl err \<Rightarrow> Inl err
      | Inr s \<Rightarrow> (case snapshots st hs of Inl err \<Rightarrow> Inl err | Inr ss \<Rightarrow> Inr (s # ss)))"

definition snapshotsForOutput :: "ws_state \<Rightarrow> nat \<Rightarrow> ws_error + workspace_snapshot list" where
  "snapshotsForOutput st outputId = snapshots st (positions_of st outputId)"

definition findHandle :: "ws_state \<Rightarrow> int \<Rightarrow> nat \<Rightarrow> nat option" where
  "findHandle st index outputId =
     (let positions = positions_of st outputId; i = index - 1
      in if i < 0 \<or> i \<ge> int (length positions) then None else Some (positions ! nat i))"

definition findIndex :: "ws_state \<Rightarrow> nat \<Rightarrow> nat \<Rightarrow> int option" where
  "findIndex st handle outputId =
     map_option (\<lambda>i. int i + 1) (index_of handle (positions_of st outputId))"

fun name_index :: "ws_state \<Rightarrow> string \<Rightarrow> nat list \<Rightarrow> nat \<Rightarrow> int option" where
  "name_index st name [] i = None"
| "name_index st name (h # hs) i =
     (case oget (byHandle st) h of
        Some r \<Rightarrow> if ws_name r = Some name then Some (int i + 1) else name_index st name hs (i + 1)
      | None \<Rightarrow> name_index st name hs (i + 1))"

definition findIndexByName :: "ws_state \<Rightarrow> string \<Rightarrow> nat \<Rightarrow> int option" where
  "findIndexByName st name outputId = name_index st name (positions_of st outputId) 0"

definition stackFor :: "ws_state \<Rightarrow> nat \<Rightarrow> nat list" where
  "stackFor st outputId =
     (case oget (shownByOutput st) outputId of
        None \<Rightarrow> []
      | Some shown \<Rightarrow> (case oget (byHandle st) shown of None \<Rightarrow> [] | Some r \<Rightarrow> ws_members r))"

definition current :: "ws_state \<Rightarrow> nat \<Rightarrow> ws_error + workspace_snapshot option" where
  "current st outputId =
     (case oget (shownByOutput st) outputId of
        None \<Rightarrow> Inr None
      | Some handle \<Rightarrow> (case snapshotOf st handle of Inl err \<Rightarrow> Inl err | Inr s \<Rightarrow> Inr (Some s)))"

section \<open>Operations\<close>

definition set_record :: "nat \<Rightarrow> workspace \<Rightarrow> ws_state \<Rightarrow> ws_state" where
  "set_record h r st = st\<lparr>byHandle := oset h r (byHandle st)\<rparr>"

definition ensureOutput :: "ws_state \<Rightarrow> nat \<Rightarrow> string \<Rightarrow> ws_state \<times> side_effect list" where
  "ensureOutput st outputId seedName =
     (if length (positions_of st outputId) > 0 then (st, [])
      else
        (let handle = nextHandle st
         in (st\<lparr>byHandle := oset handle
                  \<lparr>ws_handle = handle, ws_outputId = outputId, ws_name = None,
                   ws_preferredOutputs = (if seedName \<noteq> '''' then [seedName] else []),
                   ws_members = [], ws_urgent = False, ws_persistent = False\<rparr> (byHandle st),
                positionsByOutput := oset outputId [handle] (positionsByOutput st),
                shownByOutput := oset outputId handle (shownByOutput st),
                nextHandle := nextHandle st + 1\<rparr>,
             [Emit (WsCreated handle 1 outputId None), Emit (WsShown handle 1 outputId)])))"

definition ws_init :: "string \<Rightarrow> ws_state \<times> side_effect list" where
  "ws_init bootOutputName =
     (let (st, fx) = ensureOutput ws_empty OUTPUT_DEFAULT bootOutputName
      in case oget (shownByOutput st) OUTPUT_DEFAULT of
           None \<Rightarrow> (st, fx)
         | Some shown \<Rightarrow>
             (if bootOutputName \<noteq> ''''
              then st\<lparr>lastActiveByOutputName := oset bootOutputName shown (lastActiveByOutputName st)\<rparr>
              else st, fx))"

fun first_live :: "(string, nat) omap \<Rightarrow> string list \<Rightarrow> nat option" where
  "first_live byName [] = None"
| "first_live byName (n # ns) = (case oget byName n of Some i \<Rightarrow> Some i | None \<Rightarrow> first_live byName ns)"

definition currentLiveOutput :: "workspace \<Rightarrow> (nat, string) omap \<Rightarrow> nat option" where
  "currentLiveOutput r liveOutputs =
     first_live (foldl (\<lambda>m (i, name). oset name i m) [] liveOutputs) (ws_preferredOutputs r)"

definition appendPreferredOutput :: "ws_state \<Rightarrow> nat \<Rightarrow> string \<Rightarrow> ws_state \<times> bool" where
  "appendPreferredOutput st handle name =
     (case oget (byHandle st) handle of
        None \<Rightarrow> (st, False)
      | Some r \<Rightarrow>
          if name \<in> set (ws_preferredOutputs r) then (st, False)
          else (set_record handle (r\<lparr>ws_preferredOutputs := ws_preferredOutputs r @ [name]\<rparr>) st, True))"

definition promotePreferredOutput :: "ws_state \<Rightarrow> nat \<Rightarrow> string \<Rightarrow> ws_state \<times> bool" where
  "promotePreferredOutput st handle name =
     (case oget (byHandle st) handle of
        None \<Rightarrow> (st, False)
      | Some r \<Rightarrow>
          (case index_of name (ws_preferredOutputs r) of
             None \<Rightarrow> (set_record handle (r\<lparr>ws_preferredOutputs := name # ws_preferredOutputs r\<rparr>) st, True)
           | Some idx \<Rightarrow>
               if idx = 0 then (st, False)
               else (set_record handle
                       (r\<lparr>ws_preferredOutputs := name # remove_at idx (ws_preferredOutputs r)\<rparr>) st, True)))"

fun find_named :: "string \<Rightarrow> (nat, workspace) omap \<Rightarrow> nat option" where
  "find_named n [] = None"
| "find_named n ((h, r) # rest) = (if ws_name r = Some n then Some h else find_named n rest)"

definition create ::
  "ws_state \<Rightarrow> create_spec \<Rightarrow> string \<Rightarrow> ws_error + (ws_state \<times> workspace_snapshot \<times> side_effect list)" where
  "create st spec outputName =
     (case (case cs_name spec of None \<Rightarrow> None | Some n \<Rightarrow> find_named n (byHandle st)) of
        Some handle \<Rightarrow>
          (case snapshotOf st handle of Inl err \<Rightarrow> Inl err | Inr s \<Rightarrow> Inr (st, s, []))
      | None \<Rightarrow>
          (let outputId = (case cs_outputId spec of None \<Rightarrow> OUTPUT_DEFAULT | Some i \<Rightarrow> i);
               (st1, fx) = ensureOutput st outputId outputName;
               handle = nextHandle st1;
               seed = (case cs_preferredOutputs spec of None \<Rightarrow> [outputName] | Some ps \<Rightarrow> ps);
               preferred = (if outputName \<in> set seed then seed else seed @ [outputName]);
               st2 = st1\<lparr>nextHandle := nextHandle st1 + 1,
                         byHandle := oset handle
                           \<lparr>ws_handle = handle, ws_outputId = outputId, ws_name = cs_name spec,
                            ws_preferredOutputs = preferred, ws_members = [], ws_urgent = False,
                            ws_persistent = (case cs_persistent spec of None \<Rightarrow> False | Some p \<Rightarrow> p)\<rparr>
                           (byHandle st1)\<rparr>
           in case oget (positionsByOutput st2) outputId of
                None \<Rightarrow> Inl Internal
              | Some positions \<Rightarrow>
                  (let positions' = positions @ [handle];
                       st3 = st2\<lparr>positionsByOutput := oset outputId positions' (positionsByOutput st2)\<rparr>;
                       fx' = fx @ [Emit (WsCreated handle (int (length positions')) outputId (cs_name spec))]
                   in case snapshotOf st3 handle of Inl err \<Rightarrow> Inl err | Inr s \<Rightarrow> Inr (st3, s, fx'))))"

fun relocate :: "nat list \<Rightarrow> nat \<Rightarrow> ws_state \<Rightarrow> ws_state \<times> side_effect list" where
  "relocate [] target st = (st, [])"
| "relocate (sid # sids) target st =
     (let st1 = (case oget (byHandle st) target of
                   None \<Rightarrow> st
                 | Some r \<Rightarrow>
                     if sid \<in> set (ws_members r) then st
                     else set_record target (r\<lparr>ws_members := ws_members r @ [sid]\<rparr>) st);
          st2 = st1\<lparr>surfaceToHandle := oset sid target (surfaceToHandle st1)\<rparr>;
          (st3, fx) = relocate sids target st2
      in (st3, SetStateBag sid target # fx))"

text \<open>
  Removing the position and the record, and picking the workspace that inherits: the one that
  took the position, else the new last, else a fresh one.
\<close>

definition pick_target ::
  "ws_state \<Rightarrow> nat \<Rightarrow> string \<Rightarrow> nat list \<Rightarrow> nat \<Rightarrow> ws_state \<times> nat \<times> bool \<times> side_effect list" where
  "pick_target st outputId outputName positions pos0 =
     (if length positions = 0
      then
        (let fresh = nextHandle st
         in (st\<lparr>nextHandle := nextHandle st + 1,
                byHandle := oset fresh
                  \<lparr>ws_handle = fresh, ws_outputId = outputId, ws_name = None,
                   ws_preferredOutputs = (if outputName \<noteq> '''' then [outputName] else []),
                   ws_members = [], ws_urgent = False, ws_persistent = False\<rparr> (byHandle st),
                positionsByOutput := oset outputId [fresh] (positionsByOutput st)\<rparr>,
             fresh, True, [Emit (WsCreated fresh 1 outputId None)]))
      else if pos0 < length positions then (st, positions ! pos0, False, [])
      else (st, positions ! (length positions - 1), False, []))"

definition destroy ::
  "ws_state \<Rightarrow> int \<Rightarrow> nat \<Rightarrow> string \<Rightarrow> ws_error + (ws_state \<times> side_effect list \<times> renumber_change list)" where
  "destroy st index outputId outputName =
     (case findHandle st index outputId of
        None \<Rightarrow> Inl (NoWorkspaceAtIndex index outputId)
      | Some handle \<Rightarrow>
     (case oget (byHandle st) handle of
        None \<Rightarrow> Inl Internal
      | Some r \<Rightarrow>
     (case oget (positionsByOutput st) outputId of
        None \<Rightarrow> Inl Internal
      | Some ps \<Rightarrow>
     (case index_of handle ps of
        None \<Rightarrow> Inl Internal
      | Some pos0 \<Rightarrow>
        (let positions = remove_at pos0 ps;
             wasShown = (oget (shownByOutput st) outputId = Some handle);
             st1 = st\<lparr>byHandle := odel handle (byHandle st),
                      positionsByOutput := oset outputId positions (positionsByOutput st)\<rparr>;
             (st2, target, createdFresh, fx1) = pick_target st1 outputId outputName positions pos0
         in if length (ws_members r) > 0 \<and> oget (byHandle st2) target = None then Inl Internal
            else
              (let (st3, fx2) = relocate (ws_members r) target st2;
                   st4 = (if wasShown then st3\<lparr>shownByOutput := oset outputId target (shownByOutput st3)\<rparr> else st3);
                   renumbered = (if createdFresh then []
                                 else map (\<lambda>i. (positions ! i, int i + 2, int i + 1)) [pos0..<length positions]);
                   fx3 = Emit (WsDestroyed handle (int pos0 + 1) outputId) #
                         (if length renumbered > 0 then [Emit (WsRenumbered outputId renumbered)] else []);
                   fx4 = (if wasShown then [SetOutputStack outputId (stackFor st4 outputId), RequestFocusDecision]
                          else if length (ws_members r) > 0 \<and> oget (shownByOutput st4) outputId = Some target
                          then [SetOutputStack outputId (stackFor st4 outputId)]
                          else [])
               in Inr (st4, fx1 @ fx2 @ fx3 @ fx4, renumbered)))))))"

definition reapIfEmpty :: "ws_state \<Rightarrow> nat \<Rightarrow> ws_error + (ws_state \<times> side_effect list) option" where
  "reapIfEmpty st handle =
     (case oget (byHandle st) handle of
        None \<Rightarrow> Inr None
      | Some r \<Rightarrow>
          if ws_persistent r \<or> length (ws_members r) > 0 then Inr None
          else if oget (shownByOutput st) (ws_outputId r) = Some handle then Inr None
          else
            (case findIndex st handle (ws_outputId r) of
               None \<Rightarrow> Inr None
             | Some idx \<Rightarrow>
                 (case destroy st idx (ws_outputId r) '''' of
                    Inl err \<Rightarrow> Inl err
                  | Inr (st', fx, _) \<Rightarrow> Inr (Some (st', fx)))))"

text \<open>Appending what a reap did to what the caller did.\<close>

definition then_reap ::
  "ws_state \<times> side_effect list \<Rightarrow> nat \<Rightarrow> ws_error + (ws_state \<times> side_effect list)" where
  "then_reap p handle =
     (case p of (st, fx) \<Rightarrow>
        (case reapIfEmpty st handle of
           Inl err \<Rightarrow> Inl err
         | Inr None \<Rightarrow> Inr (st, fx)
         | Inr (Some (st', fx')) \<Rightarrow> Inr (st', fx @ fx')))"

definition remember_active :: "string \<Rightarrow> nat \<Rightarrow> ws_state \<Rightarrow> ws_state" where
  "remember_active outputName handle st =
     (if outputName \<noteq> ''''
      then st\<lparr>lastActiveByOutputName := oset outputName handle (lastActiveByOutputName st)\<rparr> else st)"

definition ws_show :: "ws_state \<Rightarrow> int \<Rightarrow> nat \<Rightarrow> string \<Rightarrow> ws_error + (ws_state \<times> side_effect list)" where
  "ws_show st index outputId outputName =
     (case findHandle st index outputId of
        None \<Rightarrow> Inl (NoWorkspaceAtIndex index outputId)
      | Some handle \<Rightarrow>
          (let prev = oget (shownByOutput st) outputId
           in if prev = Some handle then Inr (remember_active outputName handle st, [])
              else
                (let st1 = remember_active outputName handle
                             (st\<lparr>shownByOutput := oset outputId handle (shownByOutput st)\<rparr>);
                     (st2, fx1) =
                       (case oget (byHandle st1) handle of
                          None \<Rightarrow> (st1, [])
                        | Some r \<Rightarrow>
                            if ws_urgent r
                            then (set_record handle (r\<lparr>ws_urgent := False\<rparr>) st1,
                                  [Emit (WsUrgencyChanged handle False outputId)])
                            else (st1, []));
                     fx2 = (case prev of
                              None \<Rightarrow> []
                            | Some p \<Rightarrow>
                                (case findIndex st2 p outputId of
                                   None \<Rightarrow> []
                                 | Some i \<Rightarrow> [Emit (WsHidden p i outputId)]));
                     fx = fx1 @ fx2 @ [Emit (WsShown handle index outputId),
                            SetOutputStack outputId (stackFor st2 outputId), RequestFocusDecision]
                 in case prev of None \<Rightarrow> Inr (st2, fx) | Some p \<Rightarrow> then_reap (st2, fx) p)))"

definition setUrgent :: "ws_state \<Rightarrow> int \<Rightarrow> bool \<Rightarrow> nat \<Rightarrow> ws_error + (ws_state \<times> side_effect list)" where
  "setUrgent st index urgent outputId =
     (case findHandle st index outputId of
        None \<Rightarrow> Inl (NoWorkspaceAtIndex index outputId)
      | Some handle \<Rightarrow>
          (case oget (byHandle st) handle of
             None \<Rightarrow> Inl Internal
           | Some r \<Rightarrow>
               if ws_urgent r = urgent then Inr (st, [])
               else Inr (set_record handle (r\<lparr>ws_urgent := urgent\<rparr>) st,
                         [Emit (WsUrgencyChanged handle urgent outputId)])))"

definition drop_member :: "nat \<Rightarrow> workspace \<Rightarrow> workspace" where
  "drop_member sid r =
     (case index_of sid (ws_members r) of
        None \<Rightarrow> r | Some i \<Rightarrow> r\<lparr>ws_members := remove_at i (ws_members r)\<rparr>)"

definition moveWindow ::
  "ws_state \<Rightarrow> nat \<Rightarrow> int \<Rightarrow> nat \<Rightarrow> string \<Rightarrow> ws_error + (ws_state \<times> side_effect list)" where
  "moveWindow st surfaceId targetIndex outputId outputName =
     (case findHandle st targetIndex outputId of
        None \<Rightarrow> Inl (NoWorkspaceAtIndex targetIndex outputId)
      | Some targetHandle \<Rightarrow>
     (case oget (surfaceToHandle st) surfaceId of
        None \<Rightarrow> Inl (NotTracked surfaceId)
      | Some fromHandle \<Rightarrow>
     if fromHandle = targetHandle then Inr (st, [])
     else
     (case (oget (byHandle st) fromHandle, oget (byHandle st) targetHandle) of
        (Some fromRec, Some targetRec) \<Rightarrow>
     (case findIndex st fromHandle (ws_outputId fromRec) of
        None \<Rightarrow> Inl Internal
      | Some fromIdx \<Rightarrow>
        (let fromOutputId = ws_outputId fromRec;
             st1 = set_record fromHandle (drop_member surfaceId fromRec) st;
             st2 = (if surfaceId \<in> set (ws_members targetRec) then st1
                    else set_record targetHandle
                           (targetRec\<lparr>ws_members := ws_members targetRec @ [surfaceId]\<rparr>) st1);
             st3 = st2\<lparr>surfaceToHandle := oset surfaceId targetHandle (surfaceToHandle st2)\<rparr>;
             st4 = (if outputId \<noteq> fromOutputId \<and> outputName \<noteq> ''''
                    then fst (promotePreferredOutput st3 targetHandle outputName) else st3);
             fx1 = [SetStateBag surfaceId targetHandle,
                    Emit (WsWindowMoved surfaceId fromHandle targetHandle fromIdx targetIndex
                            fromOutputId outputId)];
             shownOnFrom = oget (shownByOutput st4) fromOutputId;
             fx2 = (if shownOnFrom = Some fromHandle
                    then [SetOutputStack fromOutputId (stackFor st4 fromOutputId)] else []);
             fx3 = (if (outputId \<noteq> fromOutputId \<or> shownOnFrom \<noteq> Some fromHandle)
                       \<and> oget (shownByOutput st4) outputId = Some targetHandle
                    then [SetOutputStack outputId (stackFor st4 outputId)] else [])
         in then_reap (st4, fx1 @ fx2 @ fx3) fromHandle))
      | _ \<Rightarrow> Inl Internal)))"

definition swap_at :: "nat \<Rightarrow> nat \<Rightarrow> 'a list \<Rightarrow> 'a list" where
  "swap_at i j xs = xs[i := xs ! j, j := xs ! i]"

definition reorder_members :: "reorder_op \<Rightarrow> nat \<Rightarrow> nat \<Rightarrow> nat list \<Rightarrow> nat list option" where
  "reorder_members oper surfaceId i members =
     (case oper of
        MoveToIndex k \<Rightarrow>
          (let n = nat (max 0 (min (int (length members) - 1) (js_trunc k)))
           in if n = i then None else Some (insert_at n surfaceId (remove_at i members)))
      | Promote \<Rightarrow> if i = 0 then None else Some (surfaceId # remove_at i members)
      | SwapNext \<Rightarrow> if int i \<ge> int (length members) - 1 then None else Some (swap_at i (i + 1) members)
      | SwapPrev \<Rightarrow> if i = 0 then None else Some (swap_at i (i - 1) members))"

definition reorder ::
  "ws_state \<Rightarrow> nat \<Rightarrow> reorder_op \<Rightarrow> ws_error + (ws_state \<times> bool \<times> side_effect list)" where
  "reorder st surfaceId oper =
     (case oget (surfaceToHandle st) surfaceId of
        None \<Rightarrow> Inl (NotTracked surfaceId)
      | Some handle \<Rightarrow>
          (case oget (byHandle st) handle of
             None \<Rightarrow> Inl Internal
           | Some r \<Rightarrow>
               (case index_of surfaceId (ws_members r) of
                  None \<Rightarrow> Inr (st, False, [])
                | Some i \<Rightarrow>
                    (case reorder_members oper surfaceId i (ws_members r) of
                       None \<Rightarrow> Inr (st, False, [])
                     | Some members \<Rightarrow>
                         (let st1 = set_record handle (r\<lparr>ws_members := members\<rparr>) st
                          in Inr (st1, True,
                               if oget (shownByOutput st1) (ws_outputId r) = Some handle
                               then [SetOutputStack (ws_outputId r) (stackFor st1 (ws_outputId r))]
                               else []))))))"

definition setName :: "ws_state \<Rightarrow> int \<Rightarrow> string option \<Rightarrow> nat \<Rightarrow> ws_error + (ws_state \<times> side_effect list)" where
  "setName st index name outputId =
     (case findHandle st index outputId of
        None \<Rightarrow> Inl (NoWorkspaceAtIndex index outputId)
      | Some handle \<Rightarrow>
          (case oget (byHandle st) handle of
             None \<Rightarrow> Inl Internal
           | Some r \<Rightarrow>
               if ws_name r = name then Inr (st, [])
               else Inr (set_record handle (r\<lparr>ws_name := name\<rparr>) st,
                         [Emit (WsRenamed handle index outputId name)])))"

definition insertMember :: "workspace \<Rightarrow> nat \<Rightarrow> insert_end \<Rightarrow> workspace" where
  "insertMember r surfaceId insertAt =
     (if surfaceId \<in> set (ws_members r) then r
      else if insertAt = Tail then r\<lparr>ws_members := ws_members r @ [surfaceId]\<rparr>
      else r\<lparr>ws_members := surfaceId # ws_members r\<rparr>)"

definition applyMap ::
  "ws_state \<Rightarrow> nat \<Rightarrow> nat \<Rightarrow> string \<Rightarrow> insert_end \<Rightarrow> ws_error + (ws_state \<times> side_effect list)" where
  "applyMap st surfaceId outputId outputName insertAt =
     (if oget (surfaceToHandle st) surfaceId \<noteq> None then Inr (st, [])
      else
        (let (st1, fx) = ensureOutput st outputId outputName
         in case oget (shownByOutput st1) outputId of
              None \<Rightarrow> Inl Internal
            | Some shown \<Rightarrow>
                (case oget (byHandle st1) shown of
                   None \<Rightarrow> Inl Internal
                 | Some r \<Rightarrow>
                     (let st2 = set_record shown (insertMember r surfaceId insertAt) st1;
                          st3 = st2\<lparr>surfaceToHandle := oset surfaceId shown (surfaceToHandle st2)\<rparr>
                      in Inr (st3, fx @ [SetStateBag surfaceId shown,
                                         SetOutputStack outputId (stackFor st3 outputId)])))))"

definition applyMapAt ::
  "ws_state \<Rightarrow> nat \<Rightarrow> nat \<Rightarrow> insert_end \<Rightarrow> ws_error + (ws_state \<times> side_effect list)" where
  "applyMapAt st surfaceId handle insertAt =
     (if oget (surfaceToHandle st) surfaceId \<noteq> None then Inr (st, [])
      else
        (case oget (byHandle st) handle of
           None \<Rightarrow> Inl (UnknownHandle handle)
         | Some r \<Rightarrow>
             (let st1 = set_record handle (insertMember r surfaceId insertAt) st;
                  st2 = st1\<lparr>surfaceToHandle := oset surfaceId handle (surfaceToHandle st1)\<rparr>
              in Inr (st2, SetStateBag surfaceId handle #
                   (if oget (shownByOutput st2) (ws_outputId r) = Some handle
                    then [SetOutputStack (ws_outputId r) (stackFor st2 (ws_outputId r))] else [])))))"

definition applyUnmap :: "ws_state \<Rightarrow> nat \<Rightarrow> ws_error + (ws_state \<times> side_effect list)" where
  "applyUnmap st surfaceId =
     (case oget (surfaceToHandle st) surfaceId of
        None \<Rightarrow> Inr (st, [])
      | Some handle \<Rightarrow>
          (case oget (byHandle st) handle of
             None \<Rightarrow> Inr (st\<lparr>surfaceToHandle := odel surfaceId (surfaceToHandle st)\<rparr>, [])
           | Some r \<Rightarrow>
               (let st1 = set_record handle (drop_member surfaceId r) st;
                    st2 = st1\<lparr>surfaceToHandle := odel surfaceId (surfaceToHandle st1)\<rparr>
                in if oget (shownByOutput st2) (ws_outputId r) = Some handle
                   then Inr (st2, [DeleteStateBag surfaceId,
                                   SetOutputStack (ws_outputId r) (stackFor st2 (ws_outputId r))])
                   else then_reap (st2, [DeleteStateBag surfaceId]) handle)))"

section \<open>Hotplug\<close>

text \<open>Steps 1 and 2 of \<open>recomputeOutputs\<close>: one workspace's new home, and the move there.\<close>

definition new_home ::
  "ws_state \<Rightarrow> nat \<Rightarrow> workspace \<Rightarrow> (nat, string) omap \<Rightarrow> nat list \<Rightarrow> nat \<Rightarrow> string \<Rightarrow> ws_state \<times> nat" where
  "new_home st handle r liveOutputs liveOutputIds fallbackOutputId fallbackOutputName =
     (case currentLiveOutput r liveOutputs of
        Some resolved \<Rightarrow> (st, resolved)
      | None \<Rightarrow>
          (case liveOutputIds of
             lowest # _ \<Rightarrow>
               (case oget liveOutputs lowest of
                  None \<Rightarrow> (st, lowest)
                | Some name \<Rightarrow> (fst (appendPreferredOutput st handle name), lowest))
           | [] \<Rightarrow>
               (if fallbackOutputName \<noteq> ''''
                then fst (appendPreferredOutput st handle fallbackOutputName) else st,
                fallbackOutputId)))"

definition move_workspace :: "ws_state \<Rightarrow> nat \<Rightarrow> nat \<Rightarrow> nat \<Rightarrow> ws_state" where
  "move_workspace st handle oldOutputId newOutputId =
     (let st1 = (case oget (positionsByOutput st) oldOutputId of
                   None \<Rightarrow> st
                 | Some ps \<Rightarrow>
                     (case index_of handle ps of
                        None \<Rightarrow> st
                      | Some idx \<Rightarrow>
                          st\<lparr>positionsByOutput := oset oldOutputId (remove_at idx ps) (positionsByOutput st)\<rparr>));
          st2 = st1\<lparr>positionsByOutput :=
                      oset newOutputId (positions_of st1 newOutputId @ [handle]) (positionsByOutput st1)\<rparr>;
          st3 = (if oget (shownByOutput st2) oldOutputId = Some handle
                 then st2\<lparr>shownByOutput := odel oldOutputId (shownByOutput st2)\<rparr> else st2)
      in (case oget (byHandle st3) handle of
            None \<Rightarrow> st3
          | Some r \<Rightarrow> set_record handle (r\<lparr>ws_outputId := newOutputId\<rparr>) st3))"

type_synonym migration = "nat \<times> nat \<times> nat"

fun migrate_loop ::
  "(nat, string) omap \<Rightarrow> nat list \<Rightarrow> nat \<Rightarrow> string \<Rightarrow> nat list \<Rightarrow> ws_state \<Rightarrow> migration list
     \<Rightarrow> ws_state \<times> migration list" where
  "migrate_loop live ids fb fbName [] st ms = (st, ms)"
| "migrate_loop live ids fb fbName (handle # hs) st ms =
     (case oget (byHandle st) handle of
        None \<Rightarrow> migrate_loop live ids fb fbName hs st ms
      | Some r \<Rightarrow>
          (let oldOutputId = ws_outputId r;
               (st1, newOutputId) = new_home st handle r live ids fb fbName
           in if newOutputId = oldOutputId then migrate_loop live ids fb fbName hs st1 ms
              else migrate_loop live ids fb fbName hs (move_workspace st1 handle oldOutputId newOutputId)
                     (ms @ [(handle, oldOutputId, newOutputId)])))"

text \<open>Step 3: a fresh workspace for every live output left without one.\<close>

fun replenish_loop ::
  "(nat, string) omap \<Rightarrow> nat list \<Rightarrow> ws_state \<Rightarrow> ws_state \<times> side_effect list" where
  "replenish_loop live [] st = (st, [])"
| "replenish_loop live (liveId # ids) st =
     (if length (positions_of st liveId) > 0 then replenish_loop live ids st
      else
        (case oget live liveId of
           None \<Rightarrow> replenish_loop live ids st
         | Some name \<Rightarrow>
             (let fresh = nextHandle st;
                  st1 = st\<lparr>nextHandle := nextHandle st + 1,
                           byHandle := oset fresh
                             \<lparr>ws_handle = fresh, ws_outputId = liveId, ws_name = None,
                              ws_preferredOutputs = [name], ws_members = [], ws_urgent = False,
                              ws_persistent = False\<rparr> (byHandle st),
                           positionsByOutput :=
                             oset liveId (positions_of st liveId @ [fresh]) (positionsByOutput st)\<rparr>;
                  (st2, fx) = replenish_loop live ids st1
              in (st2, Emit (WsCreated fresh 1 liveId None) # fx))))"

text \<open>Step 4: every output with workspaces and no shown one gets the remembered one, else the first.\<close>

definition durable_name :: "(nat, string) omap \<Rightarrow> nat \<Rightarrow> string \<Rightarrow> nat \<Rightarrow> string" where
  "durable_name live fb fbName outputId =
     (if outputId = fb then fbName
      else (case oget live outputId of None \<Rightarrow> '''' | Some n \<Rightarrow> n))"

definition restore_choice :: "ws_state \<Rightarrow> string \<Rightarrow> nat list \<Rightarrow> nat \<times> bool" where
  "restore_choice st durableName positions =
     (case (if durableName \<noteq> '''' then oget (lastActiveByOutputName st) durableName else None) of
        Some remembered \<Rightarrow>
          if remembered \<in> set positions then (remembered, True) else (hd positions, False)
      | None \<Rightarrow> (hd positions, False))"

fun restore_loop :: "(nat, string) omap \<Rightarrow> nat \<Rightarrow> string \<Rightarrow> nat list \<Rightarrow> ws_state \<Rightarrow> ws_state" where
  "restore_loop live fb fbName [] st = st"
| "restore_loop live fb fbName (outputId # os) st =
     (let positions = positions_of st outputId
      in if length positions = 0 \<or> oget (shownByOutput st) outputId \<noteq> None
         then restore_loop live fb fbName os st
         else
           (let durableName = durable_name live fb fbName outputId;
                (chosen, fromRemembered) = restore_choice st durableName positions;
                st1 = st\<lparr>shownByOutput := oset outputId chosen (shownByOutput st)\<rparr>;
                st2 = (if fromRemembered \<and> durableName \<noteq> ''''
                       then st1\<lparr>lastActiveByOutputName :=
                                  oset durableName chosen (lastActiveByOutputName st1)\<rparr> else st1)
            in restore_loop live fb fbName os st2))"

text \<open>Step 5: the effects of every output whose shown workspace changed.\<close>

definition shown_diff :: "ws_state \<Rightarrow> nat \<times> nat option \<Rightarrow> side_effect list" where
  "shown_diff st p =
     (case p of (outputId, before) \<Rightarrow>
        (let after = oget (shownByOutput st) outputId
         in if before = after then []
            else
              (case before of
                 None \<Rightarrow> []
               | Some b \<Rightarrow>
                   (let formerIdx = (case oget (byHandle st) b of
                                       None \<Rightarrow> None
                                     | Some r \<Rightarrow>
                                         if ws_outputId r = outputId then findIndex st b outputId else None)
                    in [Emit (WsHidden b (case formerIdx of None \<Rightarrow> 0 | Some i \<Rightarrow> i) outputId)])) @
              (case after of
                 None \<Rightarrow> [SetOutputStack outputId []]
               | Some a \<Rightarrow>
                   [Emit (WsShown a (case findIndex st a outputId of None \<Rightarrow> 1 | Some i \<Rightarrow> i) outputId),
                    SetOutputStack outputId (stackFor st outputId)])))"

definition outputs_to_check :: "ws_state \<Rightarrow> (nat, string) omap \<Rightarrow> nat \<Rightarrow> nat list" where
  "outputs_to_check st live fb =
     oset_add fb (foldl (\<lambda>s i. oset_add i s) (foldl (\<lambda>s i. oset_add i s) [] (okeys (positionsByOutput st))) (okeys live))"

definition recomputeOutputs ::
  "ws_state \<Rightarrow> (nat, string) omap \<Rightarrow> nat \<Rightarrow> string \<Rightarrow> ws_state \<times> side_effect list \<times> migration list" where
  "recomputeOutputs st liveOutputs fallbackOutputId fallbackOutputName =
     (let shownBefore = map (\<lambda>i. (i, oget (shownByOutput st) i))
                          (outputs_to_check st liveOutputs fallbackOutputId);
          liveOutputIds = sort (okeys liveOutputs);
          (st1, migrations) = migrate_loop liveOutputs liveOutputIds fallbackOutputId
                                fallbackOutputName (okeys (byHandle st)) st [];
          (st2, fx1) = replenish_loop liveOutputs liveOutputIds st1;
          st3 = restore_loop liveOutputs fallbackOutputId fallbackOutputName
                  (okeys (positionsByOutput st2)) st2;
          fx2 = concat (map (shown_diff st3) shownBefore);
          anyShownChanged = list_ex (\<lambda>(i, before). before \<noteq> oget (shownByOutput st3) i) shownBefore;
          fx3 = map (\<lambda>(h, a, b). Emit (WsMigrated h a b)) migrations;
          st4 = st3\<lparr>positionsByOutput := filter (\<lambda>(_, ps). length ps > 0) (positionsByOutput st3)\<rparr>
      in (st4, fx1 @ fx2 @ fx3 @ (if anyShownChanged then [RequestFocusDecision] else []), migrations))"

section \<open>Commands and reachable states\<close>

datatype ws_cmd =
    CEnsure nat string
  | CCreate create_spec string
  | CDestroy int nat string
  | CShow int nat string
  | CSetUrgent int bool nat
  | CMove nat int nat string
  | CReorder nat reorder_op
  | CSetName int "string option" nat
  | CMap nat nat string insert_end
  | CMapAt nat nat insert_end
  | CUnmap nat
  | CRecompute "(nat, string) omap" nat string

fun ws_exec :: "ws_state \<Rightarrow> ws_cmd \<Rightarrow> ws_error + (ws_state \<times> side_effect list)" where
  "ws_exec st (CEnsure outputId name) = Inr (ensureOutput st outputId name)"
| "ws_exec st (CCreate spec name) =
     (case create st spec name of Inl err \<Rightarrow> Inl err | Inr (st', _, fx) \<Rightarrow> Inr (st', fx))"
| "ws_exec st (CDestroy index outputId name) =
     (case destroy st index outputId name of Inl err \<Rightarrow> Inl err | Inr (st', fx, _) \<Rightarrow> Inr (st', fx))"
| "ws_exec st (CShow index outputId name) = ws_show st index outputId name"
| "ws_exec st (CSetUrgent index urgent outputId) = setUrgent st index urgent outputId"
| "ws_exec st (CMove sid index outputId name) = moveWindow st sid index outputId name"
| "ws_exec st (CReorder sid oper) =
     (case reorder st sid oper of Inl err \<Rightarrow> Inl err | Inr (st', _, fx) \<Rightarrow> Inr (st', fx))"
| "ws_exec st (CSetName index name outputId) = setName st index name outputId"
| "ws_exec st (CMap sid outputId name insertAt) = applyMap st sid outputId name insertAt"
| "ws_exec st (CMapAt sid handle insertAt) = applyMapAt st sid handle insertAt"
| "ws_exec st (CUnmap sid) = applyUnmap st sid"
| "ws_exec st (CRecompute live fb fbName) =
     (case recomputeOutputs st live fb fbName of (st', fx, _) \<Rightarrow> Inr (st', fx))"

text \<open>A JavaScript map has one entry per key.\<close>

fun cmd_ok :: "ws_cmd \<Rightarrow> bool" where
  "cmd_ok (CRecompute live fb fbName) = distinct (okeys live)"
| "cmd_ok _ = True"

inductive ws_run :: "side_effect list \<Rightarrow> ws_state \<Rightarrow> bool" where
  boot: "ws_init name = (st, fx) \<Longrightarrow> ws_run fx st"
| cmd: "ws_run fx st \<Longrightarrow> cmd_ok c \<Longrightarrow> ws_exec st c = Inr (st', fx') \<Longrightarrow> ws_run (fx @ fx') st'"

section \<open>The invariant\<close>

definition ws_core :: "ws_state \<Rightarrow> bool" where
  "ws_core st \<longleftrightarrow>
     distinct (okeys (byHandle st)) \<and> distinct (okeys (positionsByOutput st))
     \<and> distinct (okeys (shownByOutput st)) \<and> distinct (okeys (surfaceToHandle st))
     \<and> (\<forall>h r. oget (byHandle st) h = Some r \<longrightarrow> ws_handle r = h \<and> h < nextHandle st
           \<and> distinct (ws_members r) \<and> h \<in> set (positions_of st (ws_outputId r)))
     \<and> (\<forall>o'. distinct (positions_of st o') \<and> (\<forall>h \<in> set (positions_of st o').
           \<exists>r. oget (byHandle st) h = Some r \<and> ws_outputId r = o'))
     \<and> (\<forall>o' h. oget (shownByOutput st) o' = Some h \<longrightarrow> h \<in> set (positions_of st o'))
     \<and> (\<forall>s h. oget (surfaceToHandle st) s = Some h \<longleftrightarrow>
           (\<exists>r. oget (byHandle st) h = Some r \<and> s \<in> set (ws_members r)))"

text \<open>In between the steps of a hotplug an output may be without workspaces or without a shown one.\<close>

definition ws_wf :: "ws_state \<Rightarrow> bool" where
  "ws_wf st \<longleftrightarrow> ws_core st \<and> (\<forall>o' ps. oget (positionsByOutput st) o' = Some ps \<longrightarrow>
     ps \<noteq> [] \<and> oget (shownByOutput st) o' \<noteq> None)"

lemma ws_coreD:
  assumes "ws_core st"
  shows "distinct (okeys (byHandle st))" "distinct (okeys (positionsByOutput st))"
    "distinct (okeys (shownByOutput st))" "distinct (okeys (surfaceToHandle st))"
    "oget (byHandle st) h = Some r \<Longrightarrow> ws_handle r = h"
    "oget (byHandle st) h = Some r \<Longrightarrow> h < nextHandle st"
    "oget (byHandle st) h = Some r \<Longrightarrow> distinct (ws_members r)"
    "oget (byHandle st) h = Some r \<Longrightarrow> h \<in> set (positions_of st (ws_outputId r))"
    "distinct (positions_of st o')"
    "h \<in> set (positions_of st o') \<Longrightarrow> \<exists>r. oget (byHandle st) h = Some r \<and> ws_outputId r = o'"
    "oget (shownByOutput st) o' = Some h \<Longrightarrow> h \<in> set (positions_of st o')"
    "oget (surfaceToHandle st) s = Some h \<longleftrightarrow> (\<exists>r. oget (byHandle st) h = Some r \<and> s \<in> set (ws_members r))"
  using assms unfolding ws_core_def by blast+

lemma ws_wfD:
  assumes "ws_wf st"
  shows "ws_core st" "oget (positionsByOutput st) o' = Some ps \<Longrightarrow> ps \<noteq> []"
    "oget (positionsByOutput st) o' = Some ps \<Longrightarrow> oget (shownByOutput st) o' \<noteq> None"
  using assms by (auto simp: ws_wf_def)

lemma shown_record:
  assumes "ws_core st" "oget (shownByOutput st) o' = Some h"
  obtains r where "oget (byHandle st) h = Some r" "ws_outputId r = o'"
  using ws_coreD(10) [OF assms(1) ws_coreD(11) [OF assms]] by blast

lemma same_surface:
  assumes "ws_core st" "oget (byHandle st) h = Some r" "s \<in> set (ws_members r)"
    "oget (byHandle st) k = Some q" "s \<in> set (ws_members q)"
  shows "h = k"
  using ws_coreD(12) [OF assms(1), of s h] ws_coreD(12) [OF assms(1), of s k] assms(2-5) by auto

text \<open>Records are updated in place: same handles, same outputs.\<close>

definition same_place :: "(nat, workspace) omap \<Rightarrow> (nat, workspace) omap \<Rightarrow> bool" where
  "same_place bh bh' \<longleftrightarrow> (\<forall>h. map_option (\<lambda>r. (ws_handle r, ws_outputId r)) (oget bh h)
     = map_option (\<lambda>r. (ws_handle r, ws_outputId r)) (oget bh' h))"

lemma same_placeD:
  assumes "same_place bh bh'"
  shows "oget bh' h = Some r' \<Longrightarrow> \<exists>r. oget bh h = Some r \<and> ws_handle r = ws_handle r' \<and> ws_outputId r = ws_outputId r'"
    and "oget bh h = Some r \<Longrightarrow> \<exists>r'. oget bh' h = Some r' \<and> ws_handle r = ws_handle r' \<and> ws_outputId r = ws_outputId r'"
  using assms [unfolded same_place_def, rule_format, of h]
  by (cases "oget bh h"; cases "oget bh' h"; simp)+

lemma positions_of_byHandle [simp]:
  "positions_of (st\<lparr>byHandle := bh\<rparr>) o' = positions_of st o'"
  "positions_of (st\<lparr>surfaceToHandle := sh\<rparr>) o' = positions_of st o'"
  "positions_of (st\<lparr>shownByOutput := sb\<rparr>) o' = positions_of st o'"
  "positions_of (st\<lparr>nextHandle := n\<rparr>) o' = positions_of st o'"
  "positions_of (st\<lparr>lastActiveByOutputName := la\<rparr>) o' = positions_of st o'"
  "positions_of (set_record h r st) o' = positions_of st o'"
  by (simp_all add: positions_of_def set_record_def)

lemma set_record_simps:
  "byHandle (set_record h r st) = oset h r (byHandle st)"
  "positionsByOutput (set_record h r st) = positionsByOutput st"
  "shownByOutput (set_record h r st) = shownByOutput st"
  "surfaceToHandle (set_record h r st) = surfaceToHandle st"
  "nextHandle (set_record h r st) = nextHandle st"
  "lastActiveByOutputName (set_record h r st) = lastActiveByOutputName st"
  by (simp_all add: set_record_def)

lemma core_update:
  assumes c: "ws_core st" and d: "distinct (okeys bh)" "distinct (okeys sh)"
    and p: "same_place (byHandle st) bh"
    and m: "\<And>h r. oget bh h = Some r \<Longrightarrow> distinct (ws_members r)"
    and s: "\<And>s h. oget sh s = Some h \<longleftrightarrow> (\<exists>r. oget bh h = Some r \<and> s \<in> set (ws_members r))"
  shows "ws_core (st\<lparr>byHandle := bh, surfaceToHandle := sh\<rparr>)"
  unfolding ws_core_def
proof (intro conjI allI impI ballI)
  fix h r
  assume "oget (byHandle (st\<lparr>byHandle := bh, surfaceToHandle := sh\<rparr>)) h = Some r"
  then have r: "oget bh h = Some r" by simp
  from same_placeD(1) [OF p r] obtain r0 where r0: "oget (byHandle st) h = Some r0"
    "ws_handle r0 = ws_handle r" "ws_outputId r0 = ws_outputId r" by blast
  from ws_coreD(5-8) [OF c r0(1)] r0 m [OF r] show "ws_handle r = h"
    "h < nextHandle (st\<lparr>byHandle := bh, surfaceToHandle := sh\<rparr>)" "distinct (ws_members r)"
    "h \<in> set (positions_of (st\<lparr>byHandle := bh, surfaceToHandle := sh\<rparr>) (ws_outputId r))"
    by simp_all
next
  fix o' h
  assume "h \<in> set (positions_of (st\<lparr>byHandle := bh, surfaceToHandle := sh\<rparr>) o')"
  then obtain r where "oget (byHandle st) h = Some r" "ws_outputId r = o'"
    using ws_coreD(10) [OF c] by auto
  with same_placeD(2) [OF p] show
    "\<exists>r. oget (byHandle (st\<lparr>byHandle := bh, surfaceToHandle := sh\<rparr>)) h = Some r \<and> ws_outputId r = o'"
    by fastforce
qed (use c d s ws_coreD in simp_all)

lemma wf_update:
  assumes "ws_wf st" "ws_core st'" "positionsByOutput st' = positionsByOutput st"
    "\<And>o'. oget (shownByOutput st) o' \<noteq> None \<Longrightarrow> oget (shownByOutput st') o' \<noteq> None"
  shows "ws_wf st'"
  using assms by (simp add: ws_wf_def)

text \<open>An update of one record that keeps the members.\<close>

lemma core_set_record:
  assumes c: "ws_core st" and r: "oget (byHandle st) h = Some r"
    and r': "ws_handle r' = ws_handle r" "ws_outputId r' = ws_outputId r" "ws_members r' = ws_members r"
  shows "ws_core (set_record h r' st)"
proof -
  have "ws_core (st\<lparr>byHandle := oset h r' (byHandle st), surfaceToHandle := surfaceToHandle st\<rparr>)"
    by (rule core_update [OF c])
       (use c r r' ws_coreD(1,4,7,12) [OF c] in \<open>auto simp: same_place_def split: if_splits\<close>)
  then show ?thesis by (simp add: set_record_def)
qed

lemma wf_set_record:
  assumes "ws_wf st" "oget (byHandle st) h = Some r"
    "ws_handle r' = ws_handle r" "ws_outputId r' = ws_outputId r" "ws_members r' = ws_members r"
  shows "ws_wf (set_record h r' st)"
  by (rule wf_update [OF assms(1) core_set_record [OF ws_wfD(1) [OF assms(1)] assms(2-5)]])
     (simp_all add: set_record_def)

text \<open>An update of one record's members together with the reverse index.\<close>

lemma core_set_members:
  assumes c: "ws_core st" and r: "oget (byHandle st) h = Some r"
    and r': "ws_handle r' = ws_handle r" "ws_outputId r' = ws_outputId r" "distinct (ws_members r')"
    and d: "distinct (okeys sh)"
    and s: "\<And>s k. oget sh s = Some k \<longleftrightarrow>
      (if k = h then s \<in> set (ws_members r') else oget (surfaceToHandle st) s = Some k)"
  shows "ws_core ((set_record h r' st)\<lparr>surfaceToHandle := sh\<rparr>)"
proof -
  have "ws_core (st\<lparr>byHandle := oset h r' (byHandle st), surfaceToHandle := sh\<rparr>)"
  proof (rule core_update [OF c])
    show "oget sh s' = Some k \<longleftrightarrow>
      (\<exists>q. oget (oset h r' (byHandle st)) k = Some q \<and> s' \<in> set (ws_members q))" for s' k
      unfolding s by (cases "k = h") (auto simp: ws_coreD(12) [OF c])
  qed (use r r' d ws_coreD(1,7) [OF c] in \<open>auto simp: same_place_def split: if_splits\<close>)
  then show ?thesis by (simp add: set_record_def)
qed

section \<open>What the compositor sees\<close>

text \<open>
  Carrying out the effects in order: the draw stack set per output, the workspace noted in each
  surface's state bag. The other effects leave these alone.
\<close>

type_synonym mirror = "(nat \<Rightarrow> nat list) \<times> (nat \<Rightarrow> nat option)"

fun apply_effect :: "side_effect \<Rightarrow> mirror \<Rightarrow> mirror" where
  "apply_effect (SetOutputStack o' ids) (stacks, bags) = (stacks(o' := ids), bags)"
| "apply_effect (SetStateBag s h) (stacks, bags) = (stacks, bags(s \<mapsto> h))"
| "apply_effect (DeleteStateBag s) (stacks, bags) = (stacks, bags(s := None))"
| "apply_effect _ m = m"

definition replay :: "side_effect list \<Rightarrow> mirror \<Rightarrow> mirror" where
  "replay fx m = fold apply_effect fx m"

definition mirror_of :: "ws_state \<Rightarrow> mirror" where
  "mirror_of st = (stackFor st, oget (surfaceToHandle st))"

lemma replay_simps [simp]:
  "replay [] m = m" "replay (e # fx) m = replay fx (apply_effect e m)"
  "replay (fx @ fx') m = replay fx' (replay fx m)"
  by (simp_all add: replay_def)

text \<open>What every operation owes: the invariant, and effects that bring the mirror up to date.\<close>

definition good_step :: "ws_state \<Rightarrow> ws_state \<times> side_effect list \<Rightarrow> bool" where
  "good_step st p \<longleftrightarrow> ws_wf (fst p) \<and> replay (snd p) (mirror_of st) = mirror_of (fst p)"

lemma good_stepI: "ws_wf st' \<Longrightarrow> replay fx (mirror_of st) = mirror_of st' \<Longrightarrow> good_step st (st', fx)"
  by (simp add: good_step_def)

lemma good_step_refl: "ws_wf st \<Longrightarrow> good_step st (st, [])"
  by (simp add: good_step_def)

lemma good_step_trans:
  "good_step st (st', fx) \<Longrightarrow> good_step st' (st'', fx') \<Longrightarrow> good_step st (st'', fx @ fx')"
  by (simp add: good_step_def)

lemma stackFor_update:
  assumes c: "ws_core st" and r: "oget (byHandle st) h = Some r" "ws_outputId r' = ws_outputId r"
    and t: "byHandle t = oset h r' (byHandle st)" "shownByOutput t = shownByOutput st"
  shows "stackFor t = (if oget (shownByOutput st) (ws_outputId r) = Some h
     then (stackFor st)(ws_outputId r := ws_members r') else stackFor st)"
proof (rule ext)
  fix o'
  show "stackFor t o' = (if oget (shownByOutput st) (ws_outputId r) = Some h
     then (stackFor st)(ws_outputId r := ws_members r') else stackFor st) o'"
  proof (cases "oget (shownByOutput st) o' = Some h")
    case True
    from shown_record [OF c True] r have "o' = ws_outputId r" by auto
    with True show ?thesis by (simp add: stackFor_def t)
  next
    case False
    then show ?thesis by (auto simp: stackFor_def t split: option.splits)
  qed
qed

lemma stackFor_same_members:
  assumes "ws_core st" "oget (byHandle st) h = Some r" "ws_outputId r' = ws_outputId r" "ws_members r' = ws_members r"
  shows "stackFor (set_record h r' st) = stackFor st"
proof -
  have "stackFor st (ws_outputId r) = ws_members r" if "oget (shownByOutput st) (ws_outputId r) = Some h"
    using that assms(2) by (simp add: stackFor_def)
  then show ?thesis
    by (subst stackFor_update [OF assms(1-3)]) (auto simp: set_record_def assms(4))
qed

lemma stackFor_cong: "byHandle s = byHandle t \<Longrightarrow> shownByOutput s = shownByOutput t \<Longrightarrow> stackFor s = stackFor t"
  by (rule ext) (simp only: stackFor_def)

lemma stackFor_shown_at: "oget (shownByOutput st) o' = Some h \<Longrightarrow> oget (byHandle st) h = Some r \<Longrightarrow>
   stackFor st o' = ws_members r"
  by (simp add: stackFor_def)

text \<open>The updates that change no member: name, urgency, preferences.\<close>

lemma good_set_record:
  assumes wf: "ws_wf st" and r: "oget (byHandle st) h = Some r"
    "ws_handle r' = ws_handle r" "ws_outputId r' = ws_outputId r" "ws_members r' = ws_members r"
    and fx: "\<And>m. replay fx m = m"
  shows "good_step st (set_record h r' st, fx)"
  using wf_set_record [OF wf r] stackFor_same_members [OF ws_wfD(1) [OF wf] r(1,3,4)]
  by (simp add: good_step_def fx mirror_of_def) (simp add: set_record_def)

lemma core_last: "ws_core (st\<lparr>lastActiveByOutputName := la\<rparr>) = ws_core st"
  by (simp add: ws_core_def)

lemma wf_last: "ws_wf (st\<lparr>lastActiveByOutputName := la\<rparr>) = ws_wf st"
  by (simp add: ws_wf_def core_last)

lemma mirror_last: "mirror_of (st\<lparr>lastActiveByOutputName := la\<rparr>) = mirror_of st"
  using stackFor_cong [of "st\<lparr>lastActiveByOutputName := la\<rparr>" st] by (simp add: mirror_of_def)

lemma remember_active_same [simp]:
  "ws_wf (remember_active n h st) = ws_wf st" "ws_core (remember_active n h st) = ws_core st"
  "mirror_of (remember_active n h st) = mirror_of st"
  "byHandle (remember_active n h st) = byHandle st" "shownByOutput (remember_active n h st) = shownByOutput st"
  "positionsByOutput (remember_active n h st) = positionsByOutput st"
  "surfaceToHandle (remember_active n h st) = surfaceToHandle st"
  by (simp_all add: remember_active_def wf_last core_last mirror_last)

text \<open>Choosing another shown workspace on an output.\<close>

lemma core_shown:
  assumes "ws_core st" "h \<in> set (positions_of st o')"
  shows "ws_core (st\<lparr>shownByOutput := oset o' h (shownByOutput st)\<rparr>)"
  using assms by (auto simp: ws_core_def)

lemma wf_shown:
  assumes "ws_wf st" "h \<in> set (positions_of st o')"
  shows "ws_wf (st\<lparr>shownByOutput := oset o' h (shownByOutput st)\<rparr>)"
  by (rule wf_update [OF assms(1) core_shown [OF ws_wfD(1) [OF assms(1)] assms(2)]]) simp_all

lemma stackFor_shown:
  "stackFor (st\<lparr>shownByOutput := oset o' h (shownByOutput st)\<rparr>) =
     (stackFor st)(o' := stackFor (st\<lparr>shownByOutput := oset o' h (shownByOutput st)\<rparr>) o')"
  by (rule ext) (simp add: stackFor_def split: option.splits)

text \<open>A new workspace at the end of an output's list.\<close>

definition add_workspace :: "nat \<Rightarrow> workspace \<Rightarrow> ws_state \<Rightarrow> ws_state" where
  "add_workspace o' r st =
     st\<lparr>nextHandle := nextHandle st + 1,
        byHandle := oset (nextHandle st) r (byHandle st),
        positionsByOutput := oset o' (positions_of st o' @ [nextHandle st]) (positionsByOutput st)\<rparr>"

lemma positions_of_oset:
  "positions_of (st\<lparr>positionsByOutput := oset o' ps (positionsByOutput st)\<rparr>) = (positions_of st)(o' := ps)"
  by (rule ext) (simp add: positions_of_def)

lemma positions_of_add: "positions_of (add_workspace o' r st) = (positions_of st)(o' := positions_of st o' @ [nextHandle st])"
  by (rule ext) (simp add: positions_of_def add_workspace_def)

lemma core_fresh:
  assumes "ws_core st"
  shows "oget (byHandle st) (nextHandle st) = None" "nextHandle st \<notin> set (positions_of st o')"
    "oget (shownByOutput st) o' \<noteq> Some (nextHandle st)" "oget (surfaceToHandle st) s \<noteq> Some (nextHandle st)"
proof -
  show f: "oget (byHandle st) (nextHandle st) = None"
    using ws_coreD(6) [OF assms, of "nextHandle st"] by (cases "oget (byHandle st) (nextHandle st)") auto
  with ws_coreD(10) [OF assms, of "nextHandle st" o'] show n: "nextHandle st \<notin> set (positions_of st o')" by auto
  with ws_coreD(11) [OF assms] show "oget (shownByOutput st) o' \<noteq> Some (nextHandle st)" by auto
  from f ws_coreD(12) [OF assms] show "oget (surfaceToHandle st) s \<noteq> Some (nextHandle st)" by simp
qed

lemma core_add:
  assumes c: "ws_core st" and r: "ws_handle r = nextHandle st" "ws_outputId r = o'" "ws_members r = []"
  shows "ws_core (add_workspace o' r st)"
proof -
  note f = core_fresh [OF c]
  show ?thesis
    unfolding ws_core_def positions_of_add
  proof (intro conjI allI impI ballI)
    fix h q
    assume "oget (byHandle (add_workspace o' r st)) h = Some q"
    then have "h = nextHandle st \<and> q = r \<or> h \<noteq> nextHandle st \<and> oget (byHandle st) h = Some q"
      by (simp add: add_workspace_def split: if_splits)
    then show "ws_handle q = h" "h < nextHandle (add_workspace o' r st)" "distinct (ws_members q)"
      "h \<in> set (((positions_of st)(o' := positions_of st o' @ [nextHandle st])) (ws_outputId q))"
      using r ws_coreD(5-8) [OF c, of h q] by (auto simp: add_workspace_def)
  next
    fix o2 h
    assume "h \<in> set (((positions_of st)(o' := positions_of st o' @ [nextHandle st])) o2)"
    then show "\<exists>q. oget (byHandle (add_workspace o' r st)) h = Some q \<and> ws_outputId q = o2"
      using r ws_coreD(10) [OF c, of h o2] f(2) by (auto simp: add_workspace_def split: if_splits)
  next
    fix s h
    show "oget (surfaceToHandle (add_workspace o' r st)) s = Some h \<longleftrightarrow>
      (\<exists>q. oget (byHandle (add_workspace o' r st)) h = Some q \<and> s \<in> set (ws_members q))"
      using r f(4) ws_coreD(12) [OF c, of s h] by (auto simp: add_workspace_def)
  qed (use c ws_coreD f(2) in \<open>auto simp: add_workspace_def\<close>)
qed

lemma stackFor_add:
  assumes "ws_core st"
  shows "stackFor (add_workspace o' r st) = stackFor st"
  using core_fresh(3) [OF assms] by (auto simp: stackFor_def add_workspace_def fun_eq_iff split: option.splits)

section \<open>The operations\<close>

text \<open>Creating: \<open>ensureOutput\<close> and \<open>create\<close>.\<close>

lemma positions_nonempty:
  assumes "ws_wf st"
  shows "positions_of st o' = [] \<longleftrightarrow> oget (positionsByOutput st) o' = None"
  using ws_wfD(2) [OF assms, of o'] by (auto simp: positions_of_def split: option.splits)

lemma shown_none:
  assumes "ws_core st" "positions_of st o' = []"
  shows "oget (shownByOutput st) o' = None"
  using ws_coreD(11) [OF assms(1), of o'] assms(2) by (cases "oget (shownByOutput st) o'") auto

lemma ensureOutput_good:
  assumes wf: "ws_wf st"
  shows "good_step st (ensureOutput st o' name)"
    "oget (shownByOutput (fst (ensureOutput st o' name))) o' \<noteq> None"
    "surfaceToHandle (fst (ensureOutput st o' name)) = surfaceToHandle st"
proof -
  show "surfaceToHandle (fst (ensureOutput st o' name)) = surfaceToHandle st"
    by (simp add: ensureOutput_def Let_def)
  show shown: "oget (shownByOutput (fst (ensureOutput st o' name))) o' \<noteq> None"
    using ws_wfD(3) [OF wf, of o'] positions_nonempty [OF wf, of o']
    by (auto simp: ensureOutput_def Let_def positions_of_def split: option.splits)
  show "good_step st (ensureOutput st o' name)"
  proof (cases "positions_of st o' = []")
    case False
    then show ?thesis by (simp add: ensureOutput_def good_step_refl wf)
  next
    case True
    note c = ws_wfD(1) [OF wf]
    let ?r = "\<lparr>ws_handle = nextHandle st, ws_outputId = o', ws_name = None,
                   ws_preferredOutputs = (if name \<noteq> '''' then [name] else []),
                   ws_members = [], ws_urgent = False, ws_persistent = False\<rparr>"
    define st1 where "st1 = add_workspace o' ?r st"
    define st2 where "st2 = st1\<lparr>shownByOutput := oset o' (nextHandle st) (shownByOutput st1)\<rparr>"
    have e: "ensureOutput st o' name = (st2, [Emit (WsCreated (nextHandle st) 1 o' None), Emit (WsShown (nextHandle st) 1 o')])"
      using True by (cases st) (simp add: ensureOutput_def Let_def st2_def st1_def add_workspace_def)
    have c1: "ws_core st1" unfolding st1_def by (rule core_add [OF c]) simp_all
    have c2: "ws_core st2"
      unfolding st2_def by (rule core_shown [OF c1]) (simp add: st1_def positions_of_add)
    have "stackFor st2 o' = []" by (simp add: stackFor_def st2_def st1_def add_workspace_def)
    moreover have "stackFor st o' = []" using shown_none [OF c True] by (simp add: stackFor_def)
    ultimately have s: "stackFor st2 = stackFor st"
      using stackFor_shown [where st = st1 and o' = o' and h = "nextHandle st"] stackFor_add [OF c, of o' ?r]
      by (simp add: st2_def [symmetric] st1_def [symmetric] fun_upd_idem)
    have "ws_wf st2"
      using c2 ws_wfD(2,3) [OF wf] by (auto simp: ws_wf_def st2_def st1_def add_workspace_def)
    with s show ?thesis
      by (simp add: e good_step_def mirror_of_def) (simp add: st2_def st1_def add_workspace_def)
  qed
qed

lemma find_named_Some: "find_named n m = Some h \<Longrightarrow> h \<in> fst ` set m"
  by (induction m) (auto split: if_splits)

lemma snapshotOf_some:
  assumes "ws_core st" "oget (byHandle st) h = Some r"
  shows "\<exists>s. snapshotOf st h = Inr s"
  using index_of_in [OF ws_coreD(8) [OF assms]] assms(2) by (auto simp: snapshotOf_def)

lemma create_good:
  assumes wf: "ws_wf st"
  shows "\<exists>st' s fx. create st spec name = Inr (st', s, fx) \<and> good_step st (st', fx)"
proof (cases "case cs_name spec of None \<Rightarrow> None | Some n \<Rightarrow> find_named n (byHandle st)")
  case (Some h)
  then have "h \<in> set (okeys (byHandle st))" by (auto split: option.splits dest: find_named_Some)
  then obtain r where "oget (byHandle st) h = Some r" by (metis oget_None_key not_None_eq)
  from snapshotOf_some [OF ws_wfD(1) [OF wf] this] Some show ?thesis
    by (auto simp: create_def good_step_refl wf)
next
  case None
  define o' where "o' = (case cs_outputId spec of None \<Rightarrow> OUTPUT_DEFAULT | Some i \<Rightarrow> i)"
  obtain st1 fx where e: "ensureOutput st o' name = (st1, fx)" by (cases "ensureOutput st o' name")
  with ensureOutput_good(1) [OF wf, of o' name] have g: "good_step st (st1, fx)" by simp
  then have wf1: "ws_wf st1" by (simp add: good_step_def)
  note c1 = ws_wfD(1) [OF wf1]
  define seed where "seed = (case cs_preferredOutputs spec of None \<Rightarrow> [name] | Some ps \<Rightarrow> ps)"
  let ?r = "\<lparr>ws_handle = nextHandle st1, ws_outputId = o', ws_name = cs_name spec,
    ws_preferredOutputs = (if name \<in> set seed then seed else seed @ [name]), ws_members = [],
    ws_urgent = False, ws_persistent = (case cs_persistent spec of None \<Rightarrow> False | Some p \<Rightarrow> p)\<rparr>"
  have "oget (shownByOutput st1) o' \<noteq> None" using ensureOutput_good(2) [OF wf, of o' name] e by simp
  then obtain ps where ps: "oget (positionsByOutput st1) o' = Some ps"
    using shown_none [OF c1, of o'] by (cases "oget (positionsByOutput st1) o'") (auto simp: positions_of_def)
  define st3 where "st3 = add_workspace o' ?r st1"
  have c3: "ws_core st3" unfolding st3_def by (rule core_add [OF c1]) simp_all
  have "oget (byHandle st3) (nextHandle st1) = Some ?r" by (simp add: st3_def add_workspace_def)
  from snapshotOf_some [OF c3 this] obtain s where s: "snapshotOf st3 (nextHandle st1) = Inr s" by blast
  have w3: "ws_wf st3"
    using c3 ws_wfD(2,3) [OF wf1] ps by (auto simp: ws_wf_def st3_def add_workspace_def)
  have "good_step st1 (st3, [Emit (WsCreated (nextHandle st1) (int (length ps + 1)) o' (cs_name spec))])"
    using w3 stackFor_add [OF c1, of o' ?r]
    by (simp add: good_step_def mirror_of_def st3_def [symmetric]) (simp add: st3_def add_workspace_def)
  moreover have "create st spec name =
      Inr (st3, s, fx @ [Emit (WsCreated (nextHandle st1) (int (length ps + 1)) o' (cs_name spec))])"
    using None e ps s unfolding create_def
    by (cases st1) (simp add: o'_def [symmetric] seed_def [symmetric] st3_def add_workspace_def positions_of_def)
  ultimately show ?thesis using good_step_trans [OF g] by blast
qed

text \<open>Naming, urgency, reordering.\<close>

lemma findHandle_in: "findHandle st index o' = Some h \<Longrightarrow> h \<in> set (positions_of st o')"
  by (auto simp: findHandle_def Let_def split: if_splits)

lemma findHandle_record:
  assumes "ws_core st" "findHandle st index o' = Some h"
  obtains r where "oget (byHandle st) h = Some r" "ws_outputId r = o'"
  using ws_coreD(10) [OF assms(1) findHandle_in [OF assms(2)]] by blast

lemma setUrgent_good:
  assumes wf: "ws_wf st"
  shows "setUrgent st index u o' = Inl (NoWorkspaceAtIndex index o')
    \<or> (\<exists>p. setUrgent st index u o' = Inr p \<and> good_step st p)"
proof (cases "findHandle st index o'")
  case (Some h)
  from findHandle_record [OF ws_wfD(1) [OF wf] Some] obtain r where r: "oget (byHandle st) h = Some r" by blast
  with Some show ?thesis
    using good_set_record [OF wf r, of "r\<lparr>ws_urgent := u\<rparr>" "[Emit (WsUrgencyChanged h u o')]"]
    by (auto simp: setUrgent_def good_step_refl wf)
qed (simp add: setUrgent_def)

lemma setName_good:
  assumes wf: "ws_wf st"
  shows "setName st index n o' = Inl (NoWorkspaceAtIndex index o')
    \<or> (\<exists>p. setName st index n o' = Inr p \<and> good_step st p)"
proof (cases "findHandle st index o'")
  case (Some h)
  from findHandle_record [OF ws_wfD(1) [OF wf] Some] obtain r where r: "oget (byHandle st) h = Some r" by blast
  with Some show ?thesis
    using good_set_record [OF wf r, of "r\<lparr>ws_name := n\<rparr>" "[Emit (WsRenamed h index o' n)]"]
    by (auto simp: setName_def good_step_refl wf)
qed (simp add: setName_def)

text \<open>The invariant and the mirror read the maps by lookup only.\<close>

definition same_lookups :: "ws_state \<Rightarrow> ws_state \<Rightarrow> bool" where
  "same_lookups s t \<longleftrightarrow> oget (byHandle s) = oget (byHandle t)
     \<and> oget (positionsByOutput s) = oget (positionsByOutput t)
     \<and> oget (shownByOutput s) = oget (shownByOutput t)
     \<and> oget (surfaceToHandle s) = oget (surfaceToHandle t) \<and> nextHandle s = nextHandle t"

definition distinct_keys :: "ws_state \<Rightarrow> bool" where
  "distinct_keys s \<longleftrightarrow> distinct (okeys (byHandle s)) \<and> distinct (okeys (positionsByOutput s))
     \<and> distinct (okeys (shownByOutput s)) \<and> distinct (okeys (surfaceToHandle s))"

lemma core_keys: "ws_core s \<Longrightarrow> distinct_keys s"
  by (simp add: distinct_keys_def ws_coreD)

lemma positions_of_same: "same_lookups s t \<Longrightarrow> positions_of s = positions_of t"
  by (rule ext) (simp add: same_lookups_def positions_of_def)

lemma core_same:
  assumes "same_lookups s t" "distinct_keys t" "ws_core s"
  shows "ws_core t"
  using assms positions_of_same [OF assms(1)]
  unfolding ws_core_def same_lookups_def distinct_keys_def by simp

lemma mirror_same: "same_lookups s t \<Longrightarrow> mirror_of s = mirror_of t"
  by (auto simp: same_lookups_def mirror_of_def stackFor_def fun_eq_iff split: option.splits)

lemma wf_same:
  assumes "same_lookups s t" "distinct_keys t" "ws_wf s"
  shows "ws_wf t"
  using assms core_same [OF assms(1,2)] by (simp add: ws_wf_def same_lookups_def)

lemma core_remove:
  assumes c: "ws_core st" and r: "oget (byHandle st) h = Some r" "ws_members r = []"
    and s: "oget (shownByOutput st) (ws_outputId r) \<noteq> Some h"
    and p: "set ps' = set (positions_of st (ws_outputId r)) - {h}" "distinct ps'"
  shows "ws_core (st\<lparr>byHandle := odel h (byHandle st),
            positionsByOutput := oset (ws_outputId r) ps' (positionsByOutput st)\<rparr>)" (is "ws_core ?t")
proof -
  have pos: "positions_of ?t = (positions_of st)(ws_outputId r := ps')"
    by (rule ext) (simp add: positions_of_def)
  show ?thesis
    unfolding ws_core_def pos
  proof (intro conjI allI impI ballI)
    fix k q
    assume "oget (byHandle ?t) k = Some q"
    then have q: "oget (byHandle st) k = Some q" "k \<noteq> h" by (auto split: if_splits)
    from ws_coreD(5-7) [OF c q(1)] show "ws_handle q = k" "k < nextHandle ?t" "distinct (ws_members q)"
      by simp_all
    from ws_coreD(8) [OF c q(1)] q(2) p(1)
    show "k \<in> set (((positions_of st)(ws_outputId r := ps')) (ws_outputId q))"
      by (cases "ws_outputId q = ws_outputId r") simp_all
  next
    fix o2
    show "distinct (((positions_of st)(ws_outputId r := ps')) o2)" using p ws_coreD(9) [OF c] by simp
  next
    fix o2 k
    assume k: "k \<in> set (((positions_of st)(ws_outputId r := ps')) o2)"
    have "k \<noteq> h"
    proof
      assume "k = h"
      with k p r ws_coreD(10) [OF c, of k o2] show False by (auto split: if_splits)
    qed
    with k p ws_coreD(10) [OF c, of k o2] show "\<exists>q. oget (byHandle ?t) k = Some q \<and> ws_outputId q = o2"
      by (auto split: if_splits)
  next
    fix o2 k
    assume "oget (shownByOutput ?t) o2 = Some k"
    then have k: "oget (shownByOutput st) o2 = Some k" by simp
    with s have "o2 = ws_outputId r \<Longrightarrow> k \<noteq> h" by auto
    with ws_coreD(11) [OF c k] p show "k \<in> set (((positions_of st)(ws_outputId r := ps')) o2)" by auto
  next
    fix s k
    show "oget (surfaceToHandle ?t) s = Some k \<longleftrightarrow> (\<exists>q. oget (byHandle ?t) k = Some q \<and> s \<in> set (ws_members q))"
      using r ws_coreD(12) [OF c, of s k] by auto
  qed (use ws_coreD(1-4) [OF c] in simp_all)
qed

lemma core_transfer:
  assumes c: "ws_core st" and r: "oget (byHandle st) h = Some r" and t: "oget (byHandle st) target = Some rt" "target \<noteq> h"
    and d: "distinct (okeys sh)"
    and sh: "\<And>s. oget sh s = (if s \<in> set (ws_members r) then Some target else oget (surfaceToHandle st) s)"
  shows "ws_core (st\<lparr>byHandle := oset h (r\<lparr>ws_members := []\<rparr>)
            (oset target (rt\<lparr>ws_members := ws_members rt @ ws_members r\<rparr>) (byHandle st)), surfaceToHandle := sh\<rparr>)"
proof (rule core_update [OF c])
  let ?bh = "oset h (r\<lparr>ws_members := []\<rparr>) (oset target (rt\<lparr>ws_members := ws_members rt @ ws_members r\<rparr>) (byHandle st))"
  show "distinct (okeys ?bh)" using ws_coreD(1) [OF c] by simp
  show "same_place (byHandle st) ?bh" using r t by (simp add: same_place_def)
  have disj: "set (ws_members rt) \<inter> set (ws_members r) = {}"
    using same_surface [OF c r _ t(1)] t(2) by auto
  then show "distinct (ws_members q)" if "oget ?bh k = Some q" for k q
    using that ws_coreD(7) [OF c] r t by (auto split: if_splits)
  show "oget sh s = Some k \<longleftrightarrow> (\<exists>q. oget ?bh k = Some q \<and> s \<in> set (ws_members q))" for s k
  proof (cases "s \<in> set (ws_members r)")
    case True
    then have "oget (byHandle st) k = Some q \<Longrightarrow> s \<in> set (ws_members q) \<Longrightarrow> k = h" for q
      using same_surface [OF c r True] by simp
    with True t show ?thesis by (auto simp: sh)
  next
    case False
    then show ?thesis using r t ws_coreD(12) [OF c, of s k] by (auto simp: sh)
  qed
qed (rule d)

lemma relocate_spec:
  assumes "oget (byHandle st) target = Some rt" "distinct ms" "set ms \<inter> set (ws_members rt) = {}"
    "distinct_keys st"
  shows "\<exists>st'. relocate ms target st = (st', map (\<lambda>s. SetStateBag s target) ms) \<and> distinct_keys st'
    \<and> oget (byHandle st') = (oget (byHandle st))(target \<mapsto> rt\<lparr>ws_members := ws_members rt @ ms\<rparr>)
    \<and> positionsByOutput st' = positionsByOutput st \<and> shownByOutput st' = shownByOutput st
    \<and> nextHandle st' = nextHandle st \<and> lastActiveByOutputName st' = lastActiveByOutputName st
    \<and> (\<forall>s. oget (surfaceToHandle st') s = (if s \<in> set ms then Some target else oget (surfaceToHandle st) s))"
  using assms
proof (induction ms arbitrary: st rt)
  case Nil
  then show ?case by (simp add: fun_upd_idem)
next
  case (Cons s ms)
  let ?rt = "rt\<lparr>ws_members := ws_members rt @ [s]\<rparr>"
  define st2 where "st2 = (set_record target ?rt st)\<lparr>surfaceToHandle := oset s target (surfaceToHandle st)\<rparr>"
  have g: "oget (byHandle st2) target = Some ?rt" by (simp add: st2_def set_record_def)
  have k: "distinct_keys st2" using Cons.prems(4) by (simp add: distinct_keys_def st2_def set_record_def)
  have "set ms \<inter> set (ws_members ?rt) = {}" using Cons.prems(2,3) by auto
  moreover have "distinct ms" using Cons.prems(2) by simp
  ultimately obtain st' where ih: "relocate ms target st2 = (st', map (\<lambda>s. SetStateBag s target) ms)"
    "distinct_keys st'" "oget (byHandle st') = (oget (byHandle st2))(target \<mapsto> ?rt\<lparr>ws_members := ws_members ?rt @ ms\<rparr>)"
    "positionsByOutput st' = positionsByOutput st2" "shownByOutput st' = shownByOutput st2"
    "nextHandle st' = nextHandle st2" "lastActiveByOutputName st' = lastActiveByOutputName st2"
    "\<forall>s. oget (surfaceToHandle st') s = (if s \<in> set ms then Some target else oget (surfaceToHandle st2) s)"
    using Cons.IH [OF g _ _ k] by blast
  have "relocate (s # ms) target st = (st', map (\<lambda>s. SetStateBag s target) (s # ms))"
    using Cons.prems(1,3) ih(1) by (simp add: st2_def set_record_def)
  with ih show ?case by (auto simp: st2_def set_record_def)
qed

text \<open>
  Destroying, in the order that keeps the invariant: find or add the heir, hand over the members,
  show the heir if needed, drop the emptied workspace. The code's final state has the same lookups.
\<close>

definition heir_state :: "ws_state \<Rightarrow> nat \<Rightarrow> string \<Rightarrow> nat list \<Rightarrow> ws_state" where
  "heir_state st o' name positions =
     (if positions = []
      then add_workspace o' \<lparr>ws_handle = nextHandle st, ws_outputId = o', ws_name = None,
             ws_preferredOutputs = (if name \<noteq> '''' then [name] else []),
             ws_members = [], ws_urgent = False, ws_persistent = False\<rparr> st
      else st)"

definition heir :: "ws_state \<Rightarrow> nat list \<Rightarrow> nat \<Rightarrow> nat" where
  "heir st positions pos0 =
     (if positions = [] then nextHandle st
      else if pos0 < length positions then positions ! pos0 else positions ! (length positions - 1))"

definition heir_positions :: "ws_state \<Rightarrow> nat list \<Rightarrow> nat list" where
  "heir_positions st positions = (if positions = [] then [nextHandle st] else positions)"

lemma heir_facts:
  assumes c: "ws_core st" and r: "oget (byHandle st) h = Some r" "ws_outputId r = o'"
    and ps: "oget (positionsByOutput st) o' = Some ps" "index_of h ps = Some pos0"
    and P: "positions = remove_at pos0 ps"
  shows "ws_core (heir_state st o' name positions)"
    "\<exists>rt. oget (byHandle (heir_state st o' name positions)) (heir st positions pos0) = Some rt \<and> ws_outputId rt = o'"
    "heir st positions pos0 \<noteq> h" "heir st positions pos0 \<in> set (heir_positions st positions)"
    "distinct (heir_positions st positions)"
    "set (heir_positions st positions) = set (positions_of (heir_state st o' name positions) o') - {h}"
    "heir st positions pos0 \<in> set (positions_of (heir_state st o' name positions) o')"
    "oget (byHandle (heir_state st o' name positions)) h = Some r"
    "mirror_of (heir_state st o' name positions) = mirror_of st"
    "shownByOutput (heir_state st o' name positions) = shownByOutput st"
    "surfaceToHandle (heir_state st o' name positions) = surfaceToHandle st"
proof -
  have pos: "positions_of st o' = ps" using ps by (simp add: positions_of_def)
  have d: "distinct ps" using ws_coreD(9) [OF c, of o'] by (simp add: pos)
  have set_P: "set positions = set ps - {h}" using set_remove_at [OF d ps(2)] P by simp
  have dP: "distinct positions" using d P by simp
  have hp: "h \<in> set ps" using ps(2) by (rule index_of_Some_in)
  note f = core_fresh [OF c]
  have nh: "nextHandle st \<noteq> h" using f(1) r by auto
  show c': "ws_core (heir_state st o' name positions)"
    by (simp add: heir_state_def c core_add)
  show mem: "heir st positions pos0 \<in> set (heir_positions st positions)"
    by (auto simp: heir_def heir_positions_def)
  show "distinct (heir_positions st positions)" using dP by (simp add: heir_positions_def)
  show eq: "set (heir_positions st positions) = set (positions_of (heir_state st o' name positions) o') - {h}"
  proof (cases "positions = []")
    case True
    with set_P hp have "set ps = {h}" by auto
    moreover have "set (positions_of (heir_state st o' name positions) o') = set ps \<union> {nextHandle st}"
      "set (heir_positions st positions) = {nextHandle st}"
      using True by (simp_all add: heir_positions_def heir_state_def positions_of_add pos)
    ultimately show ?thesis using nh by auto
  qed (simp add: heir_positions_def heir_state_def pos set_P)
  with mem show "heir st positions pos0 \<noteq> h"
    and mem2: "heir st positions pos0 \<in> set (positions_of (heir_state st o' name positions) o')"
    by blast+
  show "\<exists>rt. oget (byHandle (heir_state st o' name positions)) (heir st positions pos0) = Some rt \<and> ws_outputId rt = o'"
    by (rule ws_coreD(10) [OF c' mem2])
  show "oget (byHandle (heir_state st o' name positions)) h = Some r"
    using r nh by (simp add: heir_state_def add_workspace_def)
  show "shownByOutput (heir_state st o' name positions) = shownByOutput st"
    "surfaceToHandle (heir_state st o' name positions) = surfaceToHandle st"
    by (simp_all add: heir_state_def add_workspace_def)
  then show "mirror_of (heir_state st o' name positions) = mirror_of st"
    using stackFor_add [OF c] by (simp add: mirror_of_def heir_state_def)
qed

text \<open>The final state, and its invariant.\<close>

definition destroyed_state :: "ws_state \<Rightarrow> nat \<Rightarrow> workspace \<Rightarrow> nat \<Rightarrow> workspace \<Rightarrow> nat list \<Rightarrow> (nat, nat) omap \<Rightarrow> ws_state" where
  "destroyed_state t h r target rt ps' sh =
     (let t2 = t\<lparr>byHandle := oset h (r\<lparr>ws_members := []\<rparr>)
                (oset target (rt\<lparr>ws_members := ws_members rt @ ws_members r\<rparr>) (byHandle t)), surfaceToHandle := sh\<rparr>;
          t3 = (if oget (shownByOutput t2) (ws_outputId r) = Some h
                then t2\<lparr>shownByOutput := oset (ws_outputId r) target (shownByOutput t2)\<rparr> else t2)
      in t3\<lparr>byHandle := odel h (byHandle t3), positionsByOutput := oset (ws_outputId r) ps' (positionsByOutput t3)\<rparr>)"

lemma destroyed_lookups:
  "oget (byHandle (destroyed_state t h r target rt ps' sh)) =
     (oget (byHandle t))(target \<mapsto> rt\<lparr>ws_members := ws_members rt @ ws_members r\<rparr>, h := None)"
  "oget (positionsByOutput (destroyed_state t h r target rt ps' sh)) = (oget (positionsByOutput t))(ws_outputId r \<mapsto> ps')"
  "oget (shownByOutput (destroyed_state t h r target rt ps' sh)) =
     (if oget (shownByOutput t) (ws_outputId r) = Some h then (oget (shownByOutput t))(ws_outputId r \<mapsto> target)
      else oget (shownByOutput t))"
  "surfaceToHandle (destroyed_state t h r target rt ps' sh) = sh"
  "nextHandle (destroyed_state t h r target rt ps' sh) = nextHandle t"
  by (auto simp: destroyed_state_def Let_def fun_eq_iff)

lemma destroyed_core:
  assumes c: "ws_core t" and r: "oget (byHandle t) h = Some r" and rt: "oget (byHandle t) target = Some rt" "target \<noteq> h"
    and o': "target \<in> set (positions_of t (ws_outputId r))"
    and ps: "set ps' = set (positions_of t (ws_outputId r)) - {h}" "distinct ps'"
    and sh: "distinct (okeys sh)" "\<And>s. oget sh s = (if s \<in> set (ws_members r) then Some target else oget (surfaceToHandle t) s)"
  shows "ws_core (destroyed_state t h r target rt ps' sh)"
proof -
  define t2 where "t2 = t\<lparr>byHandle := oset h (r\<lparr>ws_members := []\<rparr>)
                (oset target (rt\<lparr>ws_members := ws_members rt @ ws_members r\<rparr>) (byHandle t)), surfaceToHandle := sh\<rparr>"
  define t3 where "t3 = (if oget (shownByOutput t2) (ws_outputId r) = Some h
                then t2\<lparr>shownByOutput := oset (ws_outputId r) target (shownByOutput t2)\<rparr> else t2)"
  have c2: "ws_core t2" unfolding t2_def by (rule core_transfer [OF c r rt sh])
  have p2: "positions_of t2 = positions_of t" by (rule ext) (simp add: t2_def)
  have c3: "ws_core t3"
    unfolding t3_def using core_shown [OF c2, of target "ws_outputId r"] o' by (simp add: c2 p2)
  have p3: "positions_of t3 = positions_of t" by (rule ext) (simp add: t3_def p2)
  have "ws_core (t3\<lparr>byHandle := odel h (byHandle t3),
            positionsByOutput := oset (ws_outputId (r\<lparr>ws_members := []\<rparr>)) ps' (positionsByOutput t3)\<rparr>)"
  proof (rule core_remove [OF c3])
    show "oget (byHandle t3) h = Some (r\<lparr>ws_members := []\<rparr>)" by (simp add: t3_def t2_def)
    show "oget (shownByOutput t3) (ws_outputId (r\<lparr>ws_members := []\<rparr>)) \<noteq> Some h"
      using rt(2) by (simp add: t3_def)
  qed (use ps in \<open>simp_all add: p3\<close>)
  then show ?thesis by (simp add: destroyed_state_def Let_def t2_def [symmetric] t3_def [symmetric])
qed

lemma destroyed_mirror:
  assumes c: "ws_core t" and r: "oget (byHandle t) h = Some r" and rt: "oget (byHandle t) target = Some rt" "target \<noteq> h"
    and o': "ws_outputId rt = ws_outputId r"
    and k: "\<not> (oget (shownByOutput t) (ws_outputId r) = Some h)"
      "\<not> (ws_members r \<noteq> [] \<and> oget (shownByOutput t) (ws_outputId r) = Some target)"
  shows "stackFor (destroyed_state t h r target rt ps' sh) = stackFor t"
proof (rule ext)
  fix o2
  show "stackFor (destroyed_state t h r target rt ps' sh) o2 = stackFor t o2"
  proof (cases "oget (shownByOutput t) o2")
    case None
    then show ?thesis using k by (simp add: stackFor_def destroyed_lookups)
  next
    case (Some k')
    from shown_record [OF c Some] obtain q where q: "oget (byHandle t) k' = Some q" "ws_outputId q = o2" by blast
    have "k' \<noteq> h" using k(1) q r Some by auto
    moreover have "ws_members r = [] \<or> k' \<noteq> target" using k(2) q rt o' Some by auto
    ultimately show ?thesis using k(1) Some q rt by (auto simp: stackFor_def destroyed_lookups)
  qed
qed

lemma destroyed_stack_other:
  assumes c: "ws_core t" and r: "oget (byHandle t) h = Some r" and rt: "oget (byHandle t) target = Some rt"
    and o': "ws_outputId rt = ws_outputId r" "o2 \<noteq> ws_outputId r"
  shows "stackFor (destroyed_state t h r target rt ps' sh) o2 = stackFor t o2"
proof (cases "oget (shownByOutput t) o2")
  case None
  with o' show ?thesis by (simp add: stackFor_def destroyed_lookups)
next
  case (Some k)
  from shown_record [OF c Some] obtain q where "oget (byHandle t) k = Some q" "ws_outputId q = o2" by blast
  with o' r rt Some show ?thesis by (auto simp: stackFor_def destroyed_lookups)
qed

lemma replay_bags: "replay (map (\<lambda>s. SetStateBag s h) ms) (stacks, bags) =
   (stacks, \<lambda>s. if s \<in> set ms then Some h else bags s)"
  by (induction ms arbitrary: bags) (auto simp: fun_eq_iff)

lemma destroy_good:
  assumes wf: "ws_wf st" and fh: "findHandle st index o' = Some h"
  shows "\<exists>st' fx ren. destroy st index o' name = Inr (st', fx, ren) \<and> good_step st (st', fx)"
proof -
  note c = ws_wfD(1) [OF wf]
  from findHandle_record [OF c fh] obtain r where r: "oget (byHandle st) h = Some r" "ws_outputId r = o'" by blast
  from findHandle_in [OF fh] obtain ps where ps: "oget (positionsByOutput st) o' = Some ps" "h \<in> set ps"
    by (cases "oget (positionsByOutput st) o'") (simp_all add: positions_of_def)
  from index_of_in [OF ps(2)] obtain pos0 where pos0: "index_of h ps = Some pos0" by blast
  define positions where "positions = remove_at pos0 ps"
  define t where "t = heir_state st o' name positions"
  define target where "target = heir st positions pos0"
  define ps' where "ps' = heir_positions st positions"
  have hf: "ws_core t" "\<exists>rt. oget (byHandle t) target = Some rt \<and> ws_outputId rt = o'" "target \<noteq> h"
    "target \<in> set ps'" "distinct ps'" "set ps' = set (positions_of t o') - {h}"
    "target \<in> set (positions_of t o')" "oget (byHandle t) h = Some r" "mirror_of t = mirror_of st"
    "shownByOutput t = shownByOutput st" "surfaceToHandle t = surfaceToHandle st"
    unfolding t_def target_def ps'_def by (rule heir_facts [OF c r ps(1) pos0 positions_def])+
  from hf(2) obtain rt where rt: "oget (byHandle t) target = Some rt" "ws_outputId rt = o'" by blast
  define st1 where "st1 = st\<lparr>byHandle := odel h (byHandle st),
                      positionsByOutput := oset o' positions (positionsByOutput st)\<rparr>"
  obtain st2 fresh fx1 where pt: "pick_target st1 o' name positions pos0 = (st2, target, fresh, fx1)"
    and fx1: "\<And>m. replay fx1 m = m"
    by (cases "positions = []"; cases "pos0 < length positions")
       (simp_all add: pick_target_def Let_def target_def heir_def st1_def)
  have nh: "nextHandle st \<noteq> h" using core_fresh(1) [OF c] r by auto
  have st2: "oget (byHandle st2) = (oget (byHandle t))(h := None)"
    "oget (positionsByOutput st2) = (oget (positionsByOutput t))(o' \<mapsto> ps')"
    "shownByOutput st2 = shownByOutput t" "surfaceToHandle st2 = surfaceToHandle t" "nextHandle st2 = nextHandle t"
    "distinct_keys st2"
    using pt core_keys [OF c] nh
    by (auto simp: pick_target_def Let_def st1_def t_def heir_state_def ps'_def heir_positions_def
        add_workspace_def distinct_keys_def fun_eq_iff split: if_splits)
  have rt2: "oget (byHandle st2) target = Some rt" using rt hf(3) by (simp add: st2)
  have "set (ws_members r) \<inter> set (ws_members rt) = {}"
    using same_surface [OF hf(1) hf(8) _ rt(1)] hf(3) by auto
  with relocate_spec [OF rt2 ws_coreD(7) [OF c r(1)] _ st2(6)] obtain st3 where
    rel: "relocate (ws_members r) target st2 = (st3, map (\<lambda>s. SetStateBag s target) (ws_members r))"
    and st3: "distinct_keys st3"
      "oget (byHandle st3) = (oget (byHandle st2))(target \<mapsto> rt\<lparr>ws_members := ws_members rt @ ws_members r\<rparr>)"
      "positionsByOutput st3 = positionsByOutput st2" "shownByOutput st3 = shownByOutput st2"
      "nextHandle st3 = nextHandle st2"
      "\<And>s. oget (surfaceToHandle st3) s = (if s \<in> set (ws_members r) then Some target else oget (surfaceToHandle st2) s)"
    by blast
  define wasShown where "wasShown \<longleftrightarrow> oget (shownByOutput st) o' = Some h"
  define st4 where "st4 = (if wasShown then st3\<lparr>shownByOutput := oset o' target (shownByOutput st3)\<rparr> else st3)"
  define u where "u = destroyed_state t h r target rt ps' (surfaceToHandle st3)"
  have same: "same_lookups u st4"
    using hf(3) r(2)
    by (auto simp: same_lookups_def u_def destroyed_lookups st4_def st3 st2 wasShown_def hf(10) fun_eq_iff)
  have dk: "distinct_keys st4" using st3(1) by (simp add: st4_def distinct_keys_def)
  have sh: "distinct (okeys (surfaceToHandle st3))" using st3(1) by (simp add: distinct_keys_def)
  have c4: "ws_core st4"
  proof (rule core_same [OF same dk], unfold u_def, rule destroyed_core [OF hf(1,8) rt(1) hf(3)])
    show "target \<in> set (positions_of t (ws_outputId r))" using hf(7) r(2) by simp
  qed (use hf(5,6) r(2) sh st3(6) st2(4) in simp_all)
  have "ws_wf st4"
    using c4 ws_wfD(2,3) [OF wf] wasShown_def ps(1)
    by (auto simp: ws_wf_def st4_def st3 st2 hf(10) ps'_def heir_positions_def t_def heir_state_def
        add_workspace_def split: if_splits)
  moreover
  define renumbered where "renumbered = (if fresh then []
                                 else map (\<lambda>i. (positions ! i, int i + 2, int i + 1)) [pos0..<length positions])"
  define fx3 where "fx3 = Emit (WsDestroyed h (int pos0 + 1) o') #
                         (if length renumbered > 0 then [Emit (WsRenumbered o' renumbered)] else [])"
  define fx4 where "fx4 = (if wasShown then [SetOutputStack o' (stackFor st4 o'), RequestFocusDecision]
                          else if length (ws_members r) > 0 \<and> oget (shownByOutput st4) o' = Some target
                          then [SetOutputStack o' (stackFor st4 o')] else [])"
  have "destroy st index o' name = Inr (st4, fx1 @ map (\<lambda>s. SetStateBag s target) (ws_members r) @ fx3 @ fx4, renumbered)"
    unfolding destroy_def fh r(1) ps(1) pos0 option.case Let_def positions_def [symmetric]
      wasShown_def [symmetric] st1_def [symmetric] pt prod.case rel st4_def [symmetric]
      renumbered_def fx3_def fx4_def
    by (simp only: rt2 option.distinct simp_thms if_False)
  moreover have "replay (fx1 @ map (\<lambda>s. SetStateBag s target) (ws_members r) @ fx3 @ fx4) (mirror_of st) = mirror_of st4"
  proof -
    have bags: "(\<lambda>s. if s \<in> set (ws_members r) then Some target else oget (surfaceToHandle st) s) = oget (surfaceToHandle st4)"
      by (auto simp: st4_def st3 st2 hf(11) fun_eq_iff)
    have fx3: "replay fx3 m = m" for m by (simp add: fx3_def)
    have su: "stackFor st4 = stackFor u" using mirror_same [OF same] by (simp add: mirror_of_def)
    have tt: "stackFor t = stackFor st" using hf(9) by (simp add: mirror_of_def)
    have other: "stackFor st4 o2 = stackFor st o2" if "o2 \<noteq> o'" for o2
      using destroyed_stack_other [OF hf(1,8) rt(1), of o2] that r(2) rt(2) by (simp add: su u_def tt)
    have "replay fx4 (stackFor st, b) = (stackFor st4, b)" for b
    proof (cases "wasShown \<or> (ws_members r \<noteq> [] \<and> oget (shownByOutput st4) o' = Some target)")
      case True
      then have "replay fx4 (stackFor st, b) = ((stackFor st)(o' := stackFor st4 o'), b)"
        by (auto simp: fx4_def)
      also have "(stackFor st)(o' := stackFor st4 o') = stackFor st4" using other by (auto simp: fun_eq_iff)
      finally show ?thesis .
    next
      case False
      have "stackFor u = stackFor t"
        unfolding u_def
        by (rule destroyed_mirror [OF hf(1,8) rt(1) hf(3)])
           (use False r(2) rt(2) in \<open>auto simp: hf(10) wasShown_def st4_def st3 st2\<close>)
      then have "stackFor st4 = stackFor st" by (simp add: su tt)
      with False show ?thesis by (auto simp: fx4_def)
    qed
    then show ?thesis by (simp add: fx1 mirror_of_def replay_bags fx3 bags)
  qed
  ultimately show ?thesis by (auto intro: good_stepI)
qed

text \<open>Evaporation, showing, and the window operations.\<close>

lemma findHandle_index:
  assumes "ws_core st" "h \<in> set (positions_of st o')"
  shows "\<exists>i. findIndex st h o' = Some i \<and> findHandle st i o' = Some h"
proof -
  from index_of_in [OF assms(2)] obtain i where i: "index_of h (positions_of st o') = Some i" by blast
  from index_of_Some_nth [OF i] show ?thesis
    by (auto simp: findIndex_def findHandle_def Let_def i)
qed

lemma then_reap_good:
  assumes g: "good_step st (st1, fx)"
  shows "\<exists>p. then_reap (st1, fx) h = Inr p \<and> good_step st p"
proof -
  from g have wf: "ws_wf st1" by (simp add: good_step_def)
  have "reapIfEmpty st1 h = Inr None \<or> (\<exists>st2 fx2. reapIfEmpty st1 h = Inr (Some (st2, fx2)) \<and> good_step st1 (st2, fx2))"
  proof (cases "oget (byHandle st1) h")
    case None
    then show ?thesis by (simp add: reapIfEmpty_def)
  next
    case (Some r)
    from findHandle_index [OF ws_wfD(1) [OF wf] ws_coreD(8) [OF ws_wfD(1) [OF wf] Some]] obtain i where
      i: "findIndex st1 h (ws_outputId r) = Some i" "findHandle st1 i (ws_outputId r) = Some h" by blast
    from destroy_good [OF wf i(2), of "''''"] Some i(1) show ?thesis by (auto simp: reapIfEmpty_def)
  qed
  then show ?thesis using g by (auto simp: then_reap_def intro: good_step_trans)
qed

lemma show_good:
  assumes wf: "ws_wf st"
  shows "ws_show st index o' name = Inl (NoWorkspaceAtIndex index o')
    \<or> (\<exists>p. ws_show st index o' name = Inr p \<and> good_step st p)"
proof (cases "findHandle st index o'")
  case None
  then show ?thesis by (simp add: ws_show_def)
next
  case (Some h)
  note c = ws_wfD(1) [OF wf]
  show ?thesis
  proof (cases "oget (shownByOutput st) o' = Some h")
    case True
    with Some wf show ?thesis by (simp add: ws_show_def good_step_def)
  next
    case False
    define st0 where "st0 = st\<lparr>shownByOutput := oset o' h (shownByOutput st)\<rparr>"
    define st1 where "st1 = remember_active name h st0"
    have w0: "ws_wf st0" unfolding st0_def by (rule wf_shown [OF wf findHandle_in [OF Some]])
    then have w1: "ws_wf st1" by (simp add: st1_def)
    from findHandle_record [OF c Some] obtain r where "oget (byHandle st) h = Some r" by blast
    then have r: "oget (byHandle st1) h = Some r" by (simp add: st1_def st0_def)
    define p2 where "p2 = (if ws_urgent r then (set_record h (r\<lparr>ws_urgent := False\<rparr>) st1, [Emit (WsUrgencyChanged h False o')]) else (st1, []))"
    obtain st2 fx1 where p2: "p2 = (st2, fx1)" by (cases p2)
    have g2: "good_step st1 (st2, fx1)"
      using good_set_record [OF w1 r, of "r\<lparr>ws_urgent := False\<rparr>" "[Emit (WsUrgencyChanged h False o')]"] w1
      by (simp add: p2 [symmetric] p2_def good_step_refl)
    have fx1: "replay fx1 m = m" for m using p2 by (auto simp: p2_def split: if_splits)
    define fx2 where "fx2 = (case oget (shownByOutput st) o' of
                              None \<Rightarrow> []
                            | Some p \<Rightarrow>
                                (case findIndex st2 p o' of
                                   None \<Rightarrow> []
                                 | Some i \<Rightarrow> [Emit (WsHidden p i o')]))"
    have fx2: "replay fx2 m = m" for m by (simp add: fx2_def split: option.splits)
    define fx where "fx = fx1 @ fx2 @ [Emit (WsShown h index o'), SetOutputStack o' (stackFor st2 o'), RequestFocusDecision]"
    have s2: "stackFor st2 = stackFor st0" "surfaceToHandle st2 = surfaceToHandle st"
    proof -
      have "mirror_of st2 = mirror_of st1" using g2 by (simp add: good_step_def fx1)
      then have "mirror_of st2 = mirror_of st0" by (simp add: st1_def)
      then show "stackFor st2 = stackFor st0" by (simp add: mirror_of_def)
      show "surfaceToHandle st2 = surfaceToHandle st"
        using p2 by (auto simp: p2_def set_record_def st1_def st0_def split: if_splits)
    qed
    have "(stackFor st)(o' := stackFor st0 o') = stackFor st0"
      using stackFor_shown [of o' h st] by (simp add: st0_def)
    then have "good_step st (st2, fx)"
      using g2 by (simp add: good_step_def fx_def fx1 fx2 mirror_of_def s2)
    moreover have "ws_show st index o' name =
        (case oget (shownByOutput st) o' of None \<Rightarrow> Inr (st2, fx) | Some p \<Rightarrow> then_reap (st2, fx) p)"
      using r p2 unfolding ws_show_def Some option.case Let_def if_not_P [OF False] st0_def [symmetric] st1_def [symmetric]
      by (simp only: option.case p2_def [symmetric] prod.case fx2_def [symmetric] fx_def [symmetric] append_assoc)
    ultimately show ?thesis
      using then_reap_good [of st st2 fx] by (auto split: option.splits)
  qed
qed

lemma reorder_members_perm:
  assumes "reorder_members oper s i ms = Some ms'" "index_of s ms = Some i"
  shows "mset ms' = mset ms"
proof -
  from index_of_Some_nth [OF assms(2)] have i: "i < length ms" "ms ! i = s" by auto
  note rm = mset_remove_at [OF i(1)]
  show ?thesis
    using assms(1) rm i
    by (cases oper)
       (auto simp: reorder_members_def Let_def swap_at_def mset_swap split: if_splits)
qed

lemma good_members:
  assumes wf: "ws_wf st" and r: "oget (byHandle st) h = Some r"
    and r': "ws_handle r' = ws_handle r" "ws_outputId r' = ws_outputId r" "distinct (ws_members r')"
    and sh: "distinct (okeys sh)" "\<And>s k. oget sh s = Some k \<longleftrightarrow>
      (if k = h then s \<in> set (ws_members r') else oget (surfaceToHandle st) s = Some k)"
    and st': "st' = (set_record h r' st)\<lparr>surfaceToHandle := sh\<rparr>"
    and fx: "\<And>stacks. replay fx (stacks, oget (surfaceToHandle st)) =
      (if oget (shownByOutput st) (ws_outputId r) = Some h then stacks(ws_outputId r := ws_members r') else stacks, oget sh)"
  shows "good_step st (st', fx)"
proof -
  note c = ws_wfD(1) [OF wf]
  have "ws_core st'" unfolding st' by (rule core_set_members [OF c r r' sh])
  then have "ws_wf st'" by (rule wf_update [OF wf]) (simp_all add: st' set_record_def)
  moreover have "stackFor st' = (if oget (shownByOutput st) (ws_outputId r) = Some h
     then (stackFor st)(ws_outputId r := ws_members r') else stackFor st)"
    by (rule stackFor_update [OF c r r'(2)]) (simp_all add: st' set_record_def)
  ultimately show ?thesis
    by (simp add: good_step_def mirror_of_def fx) (simp add: st')
qed

lemma reorder_good:
  assumes wf: "ws_wf st"
  shows "reorder st s oper = Inl (NotTracked s)
    \<or> (\<exists>st' b fx. reorder st s oper = Inr (st', b, fx) \<and> good_step st (st', fx))"
proof (cases "oget (surfaceToHandle st) s")
  case None
  then show ?thesis by (simp add: reorder_def)
next
  case (Some h)
  note c = ws_wfD(1) [OF wf]
  from ws_coreD(12) [OF c, of s h] Some obtain r where r: "oget (byHandle st) h = Some r" "s \<in> set (ws_members r)" by blast
  from index_of_in [OF r(2)] obtain i where i: "index_of s (ws_members r) = Some i" by blast
  show ?thesis
  proof (cases "reorder_members oper s i (ws_members r)")
    case None
    with Some r i have "reorder st s oper = Inr (st, False, [])" by (simp add: reorder_def)
    with good_step_refl [OF wf] show ?thesis by blast
  next
    case (Some ms)
    define st1 where "st1 = set_record h (r\<lparr>ws_members := ms\<rparr>) st"
    define fx where "fx = (if oget (shownByOutput st1) (ws_outputId r) = Some h
      then [SetOutputStack (ws_outputId r) (stackFor st1 (ws_outputId r))] else [])"
    note p = reorder_members_perm [OF Some i]
    have e: "reorder st s oper = Inr (st1, True, fx)"
      using \<open>oget (surfaceToHandle st) s = Some h\<close> r i Some by (simp add: reorder_def st1_def fx_def Let_def)
    have "good_step st (st1, fx)"
    proof (rule good_members [OF wf r(1), where r' = "r\<lparr>ws_members := ms\<rparr>" and sh = "surfaceToHandle st"])
      show "distinct (ws_members (r\<lparr>ws_members := ms\<rparr>))"
        using mset_eq_imp_distinct_iff [OF p] ws_coreD(7) [OF c r(1)] by simp
      have "set ms = set (ws_members r)" using p by (rule mset_eq_setD)
      then show "oget (surfaceToHandle st) s' = Some k \<longleftrightarrow> (if k = h then s' \<in> set (ws_members (r\<lparr>ws_members := ms\<rparr>))
        else oget (surfaceToHandle st) s' = Some k)" for s' k
        using ws_coreD(12) [OF c, of s' h] r(1) by simp
    qed (use ws_coreD(4) [OF c] in \<open>auto simp: fx_def st1_def set_record_def stackFor_def\<close>)
    with e show ?thesis by blast
  qed
qed

lemma member_of_record:
  assumes "ws_core st" "oget (surfaceToHandle st) s = None" "oget (byHandle st) h = Some r"
  shows "s \<notin> set (ws_members r)"
  using ws_coreD(12) [OF assms(1), of s h] assms(2,3) by auto

lemma insertMember_simps:
  "ws_handle (insertMember r s e) = ws_handle r" "ws_outputId (insertMember r s e) = ws_outputId r"
  "set (ws_members (insertMember r s e)) = insert s (set (ws_members r))"
  "s \<notin> set (ws_members r) \<Longrightarrow> distinct (ws_members r) \<Longrightarrow> distinct (ws_members (insertMember r s e))"
  by (auto simp: insertMember_def)

lemma insert_good:
  assumes wf: "ws_wf st" and n: "oget (surfaceToHandle st) s = None" and r: "oget (byHandle st) h = Some r"
    and st': "st' = (set_record h (insertMember r s e) st)\<lparr>surfaceToHandle := oset s h (surfaceToHandle st)\<rparr>"
    and fx: "fx = SetStateBag s h # (if oget (shownByOutput st') (ws_outputId r) = Some h
       then [SetOutputStack (ws_outputId r) (stackFor st' (ws_outputId r))] else [])"
  shows "good_step st (st', fx)"
proof (rule good_members [OF wf r, where r' = "insertMember r s e" and sh = "oset s h (surfaceToHandle st)"])
  note c = ws_wfD(1) [OF wf]
  note m = member_of_record [OF c n r]
  show "distinct (ws_members (insertMember r s e))" using m ws_coreD(7) [OF c r] by (simp add: insertMember_simps)
  show "oget (oset s h (surfaceToHandle st)) s' = Some k \<longleftrightarrow>
      (if k = h then s' \<in> set (ws_members (insertMember r s e)) else oget (surfaceToHandle st) s' = Some k)" for s' k
    using ws_coreD(12) [OF c, of s' h] r n by (auto simp: insertMember_simps)
qed (use ws_coreD(4) [OF ws_wfD(1) [OF wf]] in \<open>auto simp: insertMember_simps st' fx set_record_def stackFor_def\<close>)

lemma applyMapAt_good:
  assumes wf: "ws_wf st"
  shows "applyMapAt st s h e = Inl (UnknownHandle h) \<or> (\<exists>p. applyMapAt st s h e = Inr p \<and> good_step st p)"
proof (cases "oget (surfaceToHandle st) s")
  case None
  show ?thesis
  proof (cases "oget (byHandle st) h")
    case (Some r)
    let ?t = "(set_record h (insertMember r s e) st)\<lparr>surfaceToHandle := oset s h (surfaceToHandle st)\<rparr>"
    from insert_good [OF wf None Some refl refl, of e] show ?thesis
      using None Some by (auto simp: applyMapAt_def Let_def set_record_simps)
  qed (use None in \<open>simp add: applyMapAt_def\<close>)
qed (use wf in \<open>simp add: applyMapAt_def good_step_refl\<close>)

lemma applyMap_good:
  assumes wf: "ws_wf st"
  shows "\<exists>p. applyMap st s o' name e = Inr p \<and> good_step st p"
proof (cases "oget (surfaceToHandle st) s")
  case None
  obtain st1 fx where e: "ensureOutput st o' name = (st1, fx)" by (cases "ensureOutput st o' name")
  note g = ensureOutput_good [OF wf, of o' name, unfolded e fst_conv]
  then have wf1: "ws_wf st1" by (simp add: good_step_def)
  from g(2) obtain h where h: "oget (shownByOutput st1) o' = Some h" by blast
  from shown_record [OF ws_wfD(1) [OF wf1] h] obtain r where r: "oget (byHandle st1) h = Some r" "ws_outputId r = o'" by blast
  have n: "oget (surfaceToHandle st1) s = None" using None g(3) by simp
  let ?t = "(set_record h (insertMember r s e) st1)\<lparr>surfaceToHandle := oset s h (surfaceToHandle st1)\<rparr>"
  have s: "oget (shownByOutput ?t) (ws_outputId r) = Some h" using h r by (simp add: set_record_def)
  have "good_step st1 (?t, [SetStateBag s h, SetOutputStack o' (stackFor ?t o')])"
    by (rule insert_good [OF wf1 n r(1) refl]) (simp add: set_record_simps h r(2))
  from good_step_trans [OF g(1) this] show ?thesis
    using None e h r(1) by (simp add: applyMap_def Let_def set_record_simps)
qed (use wf in \<open>simp add: applyMap_def good_step_refl\<close>)

lemma drop_member_simps:
  "ws_handle (drop_member s r) = ws_handle r" "ws_outputId (drop_member s r) = ws_outputId r"
  "distinct (ws_members r) \<Longrightarrow> set (ws_members (drop_member s r)) = set (ws_members r) - {s}"
  "distinct (ws_members r) \<Longrightarrow> distinct (ws_members (drop_member s r))"
  by (auto simp: drop_member_def set_remove_at split: option.splits)

lemma drop_good:
  assumes wf: "ws_wf st" and s: "oget (surfaceToHandle st) s = Some h" and r: "oget (byHandle st) h = Some r"
    and st': "st' = (set_record h (drop_member s r) st)\<lparr>surfaceToHandle := odel s (surfaceToHandle st)\<rparr>"
    and fx: "fx = DeleteStateBag s # (if oget (shownByOutput st') (ws_outputId r) = Some h
       then [SetOutputStack (ws_outputId r) (stackFor st' (ws_outputId r))] else [])"
  shows "good_step st (st', fx)"
proof (rule good_members [OF wf r, where r' = "drop_member s r" and sh = "odel s (surfaceToHandle st)"])
  note c = ws_wfD(1) [OF wf]
  show "distinct (ws_members (drop_member s r))" using ws_coreD(7) [OF c r] by (simp add: drop_member_simps)
  show "oget (odel s (surfaceToHandle st)) s' = Some k \<longleftrightarrow>
      (if k = h then s' \<in> set (ws_members (drop_member s r)) else oget (surfaceToHandle st) s' = Some k)" for s' k
    using ws_coreD(12) [OF c, of s' h] ws_coreD(7) [OF c r] r s by (auto simp: drop_member_simps)
qed (use ws_coreD(4) [OF ws_wfD(1) [OF wf]] in \<open>auto simp: drop_member_simps st' fx set_record_def stackFor_def\<close>)

lemma tracked_record:
  assumes "ws_core st" "oget (surfaceToHandle st) s = Some h"
  obtains r where "oget (byHandle st) h = Some r" "s \<in> set (ws_members r)"
  using ws_coreD(12) [OF assms(1), of s h] assms(2) by blast

lemma applyUnmap_good:
  assumes wf: "ws_wf st"
  shows "\<exists>p. applyUnmap st s = Inr p \<and> good_step st p"
proof (cases "oget (surfaceToHandle st) s")
  case (Some h)
  from tracked_record [OF ws_wfD(1) [OF wf] Some] obtain r where r: "oget (byHandle st) h = Some r" by blast
  define t where "t = (set_record h (drop_member s r) st)\<lparr>surfaceToHandle := odel s (surfaceToHandle st)\<rparr>"
  note g = drop_good [OF wf Some r t_def refl]
  have e: "applyUnmap st s = (if oget (shownByOutput t) (ws_outputId r) = Some h
      then Inr (t, [DeleteStateBag s, SetOutputStack (ws_outputId r) (stackFor t (ws_outputId r))])
      else then_reap (t, [DeleteStateBag s]) h)"
    using Some r by (simp add: applyUnmap_def Let_def t_def set_record_simps)
  show ?thesis
  proof (cases "oget (shownByOutput t) (ws_outputId r) = Some h")
    case True
    with g show ?thesis by (simp add: e)
  next
    case False
    with g have "good_step st (t, [DeleteStateBag s])" by simp
    from then_reap_good [OF this] False show ?thesis by (simp add: e)
  qed
qed (use wf in \<open>simp add: applyUnmap_def good_step_refl\<close>)

text \<open>
  A move is an unmap from one record and a map into the other; the reverse index is updated once.
\<close>

lemma promote_good:
  assumes wf: "ws_wf st"
  shows "good_step st (fst (promotePreferredOutput st h name), [])"
    "shownByOutput (fst (promotePreferredOutput st h name)) = shownByOutput st"
proof -
  have "good_step st (set_record h (r\<lparr>ws_preferredOutputs := ps\<rparr>) st, [])"
    if "oget (byHandle st) h = Some r" for r ps
    by (rule good_set_record [OF wf that]) simp_all
  then show "good_step st (fst (promotePreferredOutput st h name), [])"
    using good_step_refl [OF wf] by (auto simp: promotePreferredOutput_def split: option.splits)
  show "shownByOutput (fst (promotePreferredOutput st h name)) = shownByOutput st"
    by (simp add: promotePreferredOutput_def set_record_simps split: option.splits)
qed

lemma move_good:
  assumes wf: "ws_wf st"
  shows "moveWindow st s index o' name \<in> {Inl (NoWorkspaceAtIndex index o'), Inl (NotTracked s)}
    \<or> (\<exists>p. moveWindow st s index o' name = Inr p \<and> good_step st p)"
proof (cases "findHandle st index o'")
  case None
  then show ?thesis by (simp add: moveWindow_def)
next
  case (Some target)
  note fh = Some
  note c = ws_wfD(1) [OF wf]
  show ?thesis
  proof (cases "oget (surfaceToHandle st) s")
    case None
    with Some show ?thesis by (simp add: moveWindow_def)
  next
    case (Some src)
    show ?thesis
    proof (cases "src = target")
      case True
      with Some fh wf show ?thesis by (simp add: moveWindow_def good_step_refl)
    next
      case False
      from tracked_record [OF c Some] obtain f where f: "oget (byHandle st) src = Some f" "s \<in> set (ws_members f)" by blast
      from findHandle_record [OF c fh] obtain r where r: "oget (byHandle st) target = Some r" "ws_outputId r = o'" by blast
      have nt: "s \<notin> set (ws_members r)" using same_surface [OF c f _] r(1) False by blast
      from findHandle_index [OF c ws_coreD(8) [OF c f(1)]] obtain fi where fi: "findIndex st src (ws_outputId f) = Some fi" by blast
      define A where "A = (set_record src (drop_member s f) st)\<lparr>surfaceToHandle := odel s (surfaceToHandle st)\<rparr>"
      define B where "B = (set_record target (insertMember r s Tail) A)\<lparr>surfaceToHandle := oset s target (surfaceToHandle A)\<rparr>"
      define fromStack where "fromStack = (if oget (shownByOutput st) (ws_outputId f) = Some src
        then [SetOutputStack (ws_outputId f) (stackFor A (ws_outputId f))] else [])"
      define toStack where "toStack = (if oget (shownByOutput st) o' = Some target
        then [SetOutputStack o' (stackFor B o')] else [])"
      have gA: "good_step st (A, DeleteStateBag s # fromStack)"
        by (rule drop_good [OF wf Some f(1) A_def]) (simp add: fromStack_def A_def set_record_simps)
      then have wA: "ws_wf A" by (simp add: good_step_def)
      have rA: "oget (byHandle A) target = Some r" using r False by (simp add: A_def set_record_simps)
      have gB: "good_step A (B, SetStateBag s target # toStack)"
        by (rule insert_good [OF wA _ rA B_def])
           (use r(2) in \<open>simp_all add: toStack_def A_def B_def set_record_simps\<close>)
      define st3 where "st3 = (set_record target (r\<lparr>ws_members := ws_members r @ [s]\<rparr>)
          (set_record src (drop_member s f) st))\<lparr>surfaceToHandle := oset s target (surfaceToHandle st)\<rparr>"
      have same: "same_lookups B st3"
        using nt by (auto simp: same_lookups_def st3_def B_def A_def set_record_simps insertMember_def fun_eq_iff)
      have "distinct_keys st3"
        using core_keys [OF c] by (simp add: distinct_keys_def st3_def set_record_simps)
      with same gB have w3: "ws_wf st3" by (auto simp: good_step_def intro: wf_same)
      define st4 where "st4 = (if o' \<noteq> ws_outputId f \<and> name \<noteq> ''''
                    then fst (promotePreferredOutput st3 target name) else st3)"
      have g4: "good_step st3 (st4, [])" using promote_good [OF w3] good_step_refl [OF w3] by (simp add: st4_def)
      have m4: "mirror_of st4 = mirror_of B" using g4 mirror_same [OF same] by (simp add: good_step_def)
      have sh4: "shownByOutput st4 = shownByOutput st"
        using promote_good(2) [OF w3] by (simp add: st4_def) (simp add: st3_def set_record_simps)
      let ?fx1 = "[SetStateBag s target, Emit (WsWindowMoved s src target fi index (ws_outputId f) o')]"
      let ?fx2 = "if oget (shownByOutput st4) (ws_outputId f) = Some src
        then [SetOutputStack (ws_outputId f) (stackFor st4 (ws_outputId f))] else []"
      let ?fx3 = "if (o' \<noteq> ws_outputId f \<or> oget (shownByOutput st4) (ws_outputId f) \<noteq> Some src)
          \<and> oget (shownByOutput st4) o' = Some target then [SetOutputStack o' (stackFor st4 o')] else []"
      have e: "moveWindow st s index o' name = then_reap (st4, ?fx1 @ ?fx2 @ ?fx3) src"
        using fh Some False f r fi nt by (simp add: moveWindow_def Let_def st4_def st3_def set_record_simps)
      have B: "mirror_of B = replay (SetStateBag s target # toStack) (replay (DeleteStateBag s # fromStack) (mirror_of st))"
        using gA gB by (simp add: good_step_def)
      have "stackFor B (ws_outputId f) = stackFor A (ws_outputId f)"
        if "oget (shownByOutput st) (ws_outputId f) = Some src"
        using that False by (simp add: stackFor_def A_def B_def set_record_simps)
      then have "replay (?fx1 @ ?fx2 @ ?fx3) (mirror_of st) = mirror_of st4"
        using m4 False unfolding B sh4
        by (auto simp: mirror_of_def fromStack_def toStack_def fun_eq_iff)
      moreover have "ws_wf st4" using g4 by (simp add: good_step_def)
      ultimately have "good_step st (st4, ?fx1 @ ?fx2 @ ?fx3)" by (rule good_stepI [rotated])
      from then_reap_good [OF this] show ?thesis unfolding e by blast
    qed
  qed
qed

end
