(* ===== verification/Workspace_Hotplug.thy ===== *)
theory Workspace_Hotplug
  imports Workspace
begin

text \<open>
  The output reconfiguration of the workspace registry, \<open>recomputeOutputs\<close>: what its loops do,
  where every workspace ends up, and the theorems about whole runs of the registry.
\<close>

section \<open>Hotplug keeps the invariant\<close>

text \<open>The outputs a workspace can be sent to.\<close>

lemma byName_values:
  "oget (foldl (\<lambda>m (i, name). oset name i m) acc live) n = Some i \<Longrightarrow>
     i \<in> set (okeys live) \<or> oget acc n = Some i"
proof (induction live arbitrary: acc)
  case (Cons p live)
  obtain j name where p: "p = (j, name)" by (cases p)
  from Cons.IH [of "oset name j acc"] Cons.prems show ?case by (auto simp: p split: if_splits)
qed simp

lemma first_live_Some: "first_live m ns = Some i \<Longrightarrow> \<exists>n \<in> set ns. oget m n = Some i"
  by (induction ns) (auto split: option.splits)

lemma currentLiveOutput_live: "currentLiveOutput r live = Some i \<Longrightarrow> i \<in> set (okeys live)"
  unfolding currentLiveOutput_def by (auto dest!: first_live_Some byName_values)

text \<open>The state between the steps, against the state \<open>st0\<close> the recompute started from.\<close>

definition hotplug_inv :: "nat set \<Rightarrow> ws_state \<Rightarrow> ws_state \<Rightarrow> bool" where
  "hotplug_inv K st0 st \<longleftrightarrow> ws_core st \<and> surfaceToHandle st = surfaceToHandle st0
     \<and> set (okeys (positionsByOutput st)) \<subseteq> K
     \<and> (\<forall>h r. oget (byHandle st0) h = Some r \<longrightarrow> (\<exists>r'. oget (byHandle st) h = Some r' \<and> ws_members r' = ws_members r))"

lemma hotplug_inv_record:
  assumes i: "hotplug_inv K st0 st" and r: "oget (byHandle st) h = Some r"
    and r': "ws_handle r' = ws_handle r" "ws_outputId r' = ws_outputId r" "ws_members r' = ws_members r"
  shows "hotplug_inv K st0 (set_record h r' st)"
  unfolding hotplug_inv_def
proof (intro conjI allI impI)
  show "ws_core (set_record h r' st)"
    using i core_set_record [OF _ r r'] by (simp add: hotplug_inv_def)
  fix k q
  assume "oget (byHandle st0) k = Some q"
  with i obtain q' where "oget (byHandle st) k = Some q'" "ws_members q' = ws_members q"
    unfolding hotplug_inv_def by blast
  with r r' show "\<exists>r''. oget (byHandle (set_record h r' st)) k = Some r'' \<and> ws_members r'' = ws_members q"
    by (auto simp: set_record_simps)
qed (use i in \<open>simp_all add: hotplug_inv_def set_record_simps\<close>)

text \<open>A record that only remembers more outputs.\<close>

definition remembers_more :: "workspace \<Rightarrow> workspace \<Rightarrow> bool" where
  "remembers_more r r' \<longleftrightarrow> (\<exists>ns. r' = r\<lparr>ws_preferredOutputs := ws_preferredOutputs r @ ns\<rparr>)"

lemma remembers_more_refl: "remembers_more r r"
  unfolding remembers_more_def by (rule exI [of _ "[]"]) simp

lemma remembers_moreD:
  assumes "remembers_more r r'"
  shows "ws_handle r' = ws_handle r" "ws_outputId r' = ws_outputId r" "ws_members r' = ws_members r"
    "\<exists>ns. ws_preferredOutputs r' = ws_preferredOutputs r @ ns"
  using assms by (auto simp: remembers_more_def)

lemma appendPreferred_record:
  assumes "oget (byHandle st) h = Some r"
  shows "\<exists>r'. remembers_more r r' \<and> (fst (appendPreferredOutput st h name) = st \<and> r' = r \<or>
     fst (appendPreferredOutput st h name) = set_record h r' st)"
proof (cases "name \<in> set (ws_preferredOutputs r)")
  case True
  with assms show ?thesis by (auto simp: appendPreferredOutput_def intro: remembers_more_refl)
next
  case False
  have "remembers_more r (r\<lparr>ws_preferredOutputs := ws_preferredOutputs r @ [name]\<rparr>)"
    by (auto simp: remembers_more_def)
  with False assms show ?thesis by (auto simp: appendPreferredOutput_def)
qed

lemma hotplug_inv_append:
  assumes "hotplug_inv K st0 st" "oget (byHandle st) h = Some r"
  shows "hotplug_inv K st0 (fst (appendPreferredOutput st h name))"
proof -
  from appendPreferred_record [OF assms(2), of name] obtain r' where "remembers_more r r'"
    "fst (appendPreferredOutput st h name) = st \<and> r' = r \<or> fst (appendPreferredOutput st h name) = set_record h r' st"
    by blast
  with assms hotplug_inv_record [OF assms remembers_moreD(1-3) [of r r']] show ?thesis by auto
qed

lemma new_home_facts:
  assumes i: "hotplug_inv K st0 st" and r: "oget (byHandle st) h = Some r"
    and n: "new_home st h r live (sort (okeys live)) fb fbName = (st', home)"
  shows "hotplug_inv K st0 st'" "home \<in> insert fb (set (okeys live))"
    "\<exists>r'. remembers_more r r' \<and> oget (byHandle st') = (oget (byHandle st))(h \<mapsto> r')"
proof -
  have "(st' = st \<or> (\<exists>name. st' = fst (appendPreferredOutput st h name))) \<and> home \<in> insert fb (set (okeys live))"
  proof (cases "currentLiveOutput r live")
    case (Some i)
    with n show ?thesis using currentLiveOutput_live [OF Some] by (auto simp: new_home_def)
  next
    case None
    show ?thesis
    proof (cases "sort (okeys live)")
      case Nil
      with None n show ?thesis by (auto simp: new_home_def split: if_splits)
    next
      case (Cons lowest rest)
      then have "lowest \<in> set (okeys live)" by (metis list.set_intros(1) set_sort)
      with None n Cons show ?thesis by (auto simp: new_home_def split: option.splits)
    qed
  qed
  then consider "st' = st" "home \<in> insert fb (set (okeys live))"
    | name where "st' = fst (appendPreferredOutput st h name)" "home \<in> insert fb (set (okeys live))" by blast
  then have "hotplug_inv K st0 st' \<and> home \<in> insert fb (set (okeys live))
     \<and> (\<exists>r'. remembers_more r r' \<and> oget (byHandle st') = (oget (byHandle st))(h \<mapsto> r'))"
  proof cases
    case 1
    moreover have "oget (byHandle st) = (oget (byHandle st))(h \<mapsto> r)" using r by (simp add: fun_upd_idem)
    ultimately show ?thesis using i remembers_more_refl [of r] by blast
  next
    case 2
    from appendPreferred_record [OF r, of name] obtain r' where r': "remembers_more r r'"
      "st' = st \<and> r' = r \<or> st' = set_record h r' st" using 2 by blast
    then have "oget (byHandle st') = (oget (byHandle st))(h \<mapsto> r')"
      using r by (auto simp: set_record_simps fun_upd_idem)
    moreover have "hotplug_inv K st0 st'" using hotplug_inv_append [OF i r, of name] 2(1) by simp
    ultimately show ?thesis using r'(1) 2(2) by metis
  qed
  then show "hotplug_inv K st0 st'" "home \<in> insert fb (set (okeys live))"
    "\<exists>r'. remembers_more r r' \<and> oget (byHandle st') = (oget (byHandle st))(h \<mapsto> r')" by blast+
qed

lemma core_move:
  assumes c: "ws_core st" and r: "oget (byHandle st) h = Some r" "ws_outputId r = old" and n: "new \<noteq> old"
  shows "ws_core (move_workspace st h old new)"
    "surfaceToHandle (move_workspace st h old new) = surfaceToHandle st"
    "set (okeys (positionsByOutput (move_workspace st h old new))) \<subseteq> insert new (set (okeys (positionsByOutput st)))"
    "oget (byHandle (move_workspace st h old new)) = (oget (byHandle st))(h \<mapsto> r\<lparr>ws_outputId := new\<rparr>)"
proof -
  have hin: "h \<in> set (positions_of st old)" using ws_coreD(8) [OF c r(1)] r(2) by simp
  then obtain ps where ps: "oget (positionsByOutput st) old = Some ps" "h \<in> set ps"
    by (cases "oget (positionsByOutput st) old") (simp_all add: positions_of_def)
  from index_of_in [OF ps(2)] obtain idx where idx: "index_of h ps = Some idx" by blast
  have pos: "positions_of st old = ps" using ps by (simp add: positions_of_def)
  have d: "distinct ps" using ws_coreD(9) [OF c, of old] pos by simp
  define ps' where "ps' = remove_at idx ps"
  have sp: "set ps' = set ps - {h}" "distinct ps'"
    using set_remove_at [OF d idx] d by (simp_all add: ps'_def)
  let ?t = "move_workspace st h old new"
  have t: "byHandle ?t = oset h (r\<lparr>ws_outputId := new\<rparr>) (byHandle st)"
    "positionsByOutput ?t = oset new (positions_of st new @ [h]) (oset old ps' (positionsByOutput st))"
    "shownByOutput ?t = (if oget (shownByOutput st) old = Some h then odel old (shownByOutput st) else shownByOutput st)"
    "surfaceToHandle ?t = surfaceToHandle st" "nextHandle ?t = nextHandle st"
    using ps idx r n
    by (auto simp: move_workspace_def Let_def ps'_def positions_of_def set_record_simps)
  have pt: "positions_of ?t = (positions_of st)(old := ps', new := positions_of st new @ [h])"
    by (rule ext) (simp add: positions_of_def t)
  have nin: "h \<notin> set (positions_of st new)"
    using ws_coreD(10) [OF c, of h new] r n by auto
  show "surfaceToHandle ?t = surfaceToHandle st" by (rule t)
  show "oget (byHandle ?t) = (oget (byHandle st))(h \<mapsto> r\<lparr>ws_outputId := new\<rparr>)" by (auto simp: t fun_eq_iff)
  show "set (okeys (positionsByOutput ?t)) \<subseteq> insert new (set (okeys (positionsByOutput st)))"
    using oget_Some_key [OF ps(1)] by (auto simp: t)
  show "ws_core ?t"
    unfolding ws_core_def pt
  proof (intro conjI allI impI ballI)
    fix k q
    assume "oget (byHandle ?t) k = Some q"
    then consider "k = h" "q = r\<lparr>ws_outputId := new\<rparr>" | "k \<noteq> h" "oget (byHandle st) k = Some q"
      by (auto simp: t split: if_splits)
    then have "ws_handle q = k \<and> k < nextHandle ?t \<and> distinct (ws_members q)
      \<and> k \<in> set (((positions_of st)(old := ps', new := positions_of st new @ [h])) (ws_outputId q))"
    proof cases
      case 1
      with ws_coreD(5-7) [OF c r(1)] show ?thesis by (simp add: t(5))
    next
      case 2
      with ws_coreD(5-8) [OF c 2(2)] sp(1) pos n show ?thesis
        by (cases "ws_outputId q = old"; cases "ws_outputId q = new") (simp_all add: t(5))
    qed
    then show "ws_handle q = k" "k < nextHandle ?t" "distinct (ws_members q)"
      "k \<in> set (((positions_of st)(old := ps', new := positions_of st new @ [h])) (ws_outputId q))" by blast+
  next
    fix o2
    show "distinct (((positions_of st)(old := ps', new := positions_of st new @ [h])) o2)"
      using sp nin ws_coreD(9) [OF c] by simp
  next
    fix o2 k
    assume k: "k \<in> set (((positions_of st)(old := ps', new := positions_of st new @ [h])) o2)"
    have "h \<notin> set (positions_of st o2)" if "o2 \<noteq> old"
      using that r ws_coreD(10) [OF c, of h o2] by auto
    with k sp pos have "k = h \<and> o2 = new \<or> k \<noteq> h \<and> k \<in> set (positions_of st o2)"
      by (cases "o2 = new"; cases "o2 = old") auto
    then show "\<exists>q. oget (byHandle ?t) k = Some q \<and> ws_outputId q = o2"
      using ws_coreD(10) [OF c, of k o2] by (auto simp: t)
  next
    fix o2 k
    assume "oget (shownByOutput ?t) o2 = Some k"
    then have k: "oget (shownByOutput st) o2 = Some k" "o2 \<noteq> old \<or> k \<noteq> h"
      by (auto simp: t split: if_splits)
    then show "k \<in> set (((positions_of st)(old := ps', new := positions_of st new @ [h])) o2)"
      using ws_coreD(11) [OF c k(1)] sp pos by auto
  next
    fix s k
    show "oget (surfaceToHandle ?t) s = Some k \<longleftrightarrow> (\<exists>q. oget (byHandle ?t) k = Some q \<and> s \<in> set (ws_members q))"
      using ws_coreD(12) [OF c, of s k] r by (auto simp: t)
  qed (use ws_coreD(1-4) [OF c] in \<open>simp_all add: t\<close>)
qed

text \<open>The loops.\<close>

lemma hotplug_inv_move:
  assumes i: "hotplug_inv K st0 st" and r: "oget (byHandle st) h = Some r" "ws_outputId r = old"
    and n: "new \<noteq> old" "new \<in> K"
  shows "hotplug_inv K st0 (move_workspace st h old new)"
  unfolding hotplug_inv_def
proof (intro conjI allI impI)
  from i have c: "ws_core st" by (simp add: hotplug_inv_def)
  note m = core_move [OF c r n(1)]
  show "ws_core (move_workspace st h old new)" by (rule m)
  show "surfaceToHandle (move_workspace st h old new) = surfaceToHandle st0" using i m(2) by (simp add: hotplug_inv_def)
  show "set (okeys (positionsByOutput (move_workspace st h old new))) \<subseteq> K"
    using i m(3) n(2) unfolding hotplug_inv_def by blast
  fix k q
  assume "oget (byHandle st0) k = Some q"
  with i obtain q' where "oget (byHandle st) k = Some q'" "ws_members q' = ws_members q"
    unfolding hotplug_inv_def by blast
  with r show "\<exists>r'. oget (byHandle (move_workspace st h old new)) k = Some r' \<and> ws_members r' = ws_members q"
    by (auto simp: m(4))
qed

text \<open>
  What the first loop does to the workspaces: the listed ones sit where \<open>new_home\<close> sends them and
  remember at least what they remembered, the others are untouched.
\<close>

definition sent_home :: "(nat, string) omap \<Rightarrow> nat \<Rightarrow> workspace \<Rightarrow> workspace \<Rightarrow> bool" where
  "sent_home live fb r r' \<longleftrightarrow> (\<exists>r1. remembers_more r r1 \<and> r' = r1\<lparr>ws_outputId := ws_outputId r'\<rparr>
     \<and> (case currentLiveOutput r live of
          Some o' \<Rightarrow> ws_outputId r' = o'
        | None \<Rightarrow>
            (case sort (okeys live) of
               [] \<Rightarrow> ws_outputId r' = fb
             | lowest # _ \<Rightarrow> ws_outputId r' = lowest
                 \<and> (\<forall>n. oget live lowest = Some n \<longrightarrow> n \<in> set (ws_preferredOutputs r')))))"

lemma appendPreferred_mem:
  assumes "oget (byHandle st) h = Some r" "oget (byHandle (fst (appendPreferredOutput st h n))) h = Some r'"
  shows "n \<in> set (ws_preferredOutputs r')"
  using assms by (auto simp: appendPreferredOutput_def set_record_simps split: if_splits)

lemma new_home_sent:
  assumes r: "oget (byHandle st) h = Some r"
    and n: "new_home st h r live (sort (okeys live)) fb fbName = (st', home)"
    and r': "oget (byHandle st') h = Some r1" "remembers_more r r1"
  shows "sent_home live fb r (r1\<lparr>ws_outputId := home\<rparr>)"
proof (cases "currentLiveOutput r live")
  case (Some i)
  with n r' show ?thesis by (auto simp: sent_home_def new_home_def)
next
  case None
  show ?thesis
  proof (cases "sort (okeys live)")
    case Nil
    with None n r' show ?thesis by (auto simp: sent_home_def new_home_def split: if_splits)
  next
    case (Cons lowest rest)
    have home: "home = lowest" using None n Cons by (simp add: new_home_def split: option.splits)
    have "m \<in> set (ws_preferredOutputs r1)" if "oget live lowest = Some m" for m
      using None n Cons that appendPreferred_mem [OF r, of m r1] r'(1) by (auto simp: new_home_def)
    with None Cons home r'(2) show ?thesis by (auto simp: sent_home_def)
  qed
qed

lemma migrate_loop_inv:
  assumes "hotplug_inv K st0 st" "insert fb (set (okeys live)) \<subseteq> K" "distinct hs"
    and "migrate_loop live (sort (okeys live)) fb fbName hs st ms = (st', ms')"
  shows "hotplug_inv K st0 st' \<and> nextHandle st' = nextHandle st
    \<and> lastActiveByOutputName st' = lastActiveByOutputName st
    \<and> dom (oget (byHandle st')) = dom (oget (byHandle st))
    \<and> (\<forall>h r. oget (byHandle st) h = Some r \<longrightarrow> (\<exists>r'. oget (byHandle st') h = Some r' \<and>
         (if h \<in> set hs then sent_home live fb r r' else r' = r)))"
  using assms
proof (induction hs arbitrary: st ms)
  case Nil
  then show ?case by simp
next
  case (Cons h hs)
  show ?case
  proof (cases "oget (byHandle st) h")
    case None
    with Cons.prems have "migrate_loop live (sort (okeys live)) fb fbName hs st ms = (st', ms')" by simp
    note ih = Cons.IH [OF Cons.prems(1,2) _ this]
    have d: "distinct hs" using Cons.prems(3) by simp
    have "\<exists>r'. oget (byHandle st') k = Some r' \<and> (if k \<in> set (h # hs) then sent_home live fb q r' else r' = q)"
      if k: "oget (byHandle st) k = Some q" for k q
    proof -
      from k None have "k \<in> set (h # hs) \<longleftrightarrow> k \<in> set hs" by auto
      with ih [OF d] k show ?thesis by simp
    qed
    with ih [OF d] show ?thesis by simp
  next
    case (Some r)
    obtain st1 home where n: "new_home st h r live (sort (okeys live)) fb fbName = (st1, home)"
      by (cases "new_home st h r live (sort (okeys live)) fb fbName")
    note nf = new_home_facts [OF Cons.prems(1) Some n]
    from nf(3) obtain r1 where r1: "remembers_more r r1" "oget (byHandle st1) = (oget (byHandle st))(h \<mapsto> r1)" by blast
    have s1: "nextHandle st1 = nextHandle st" "lastActiveByOutputName st1 = lastActiveByOutputName st"
      using n by (auto simp: new_home_def appendPreferredOutput_def set_record_simps
          split: option.splits list.splits if_splits)
    have sent: "sent_home live fb r (r1\<lparr>ws_outputId := home\<rparr>)"
      by (rule new_home_sent [OF Some n _ r1(1)]) (simp add: r1)
    define t where "t = (if home = ws_outputId r then st1 else move_workspace st1 h (ws_outputId r) home)"
    define ms1 where "ms1 = (if home = ws_outputId r then ms else ms @ [(h, ws_outputId r, home)])"
    have o1: "ws_outputId r1 = ws_outputId r" using r1(1) by (rule remembers_moreD)
    have r1g: "oget (byHandle st1) h = Some r1" by (simp add: r1)
    have "home \<in> K" using nf(2) Cons.prems(2) by blast
    then have ti: "hotplug_inv K st0 t"
      using hotplug_inv_move [OF nf(1) r1g o1] nf(1) by (simp add: t_def)
    have c1: "ws_core st1" using nf(1) by (simp add: hotplug_inv_def)
    have tb: "oget (byHandle t) = (oget (byHandle st))(h \<mapsto> r1\<lparr>ws_outputId := home\<rparr>)"
    proof -
      have "r1\<lparr>ws_outputId := ws_outputId r\<rparr> = r1" using o1 by (cases r1) simp
      then show ?thesis using core_move(4) [OF c1 r1g o1] by (auto simp: t_def r1 fun_eq_iff)
    qed
    have tn: "nextHandle t = nextHandle st" "lastActiveByOutputName t = lastActiveByOutputName st"
      using s1 by (auto simp: t_def move_workspace_def Let_def set_record_simps split: option.splits)
    have "migrate_loop live (sort (okeys live)) fb fbName hs t ms1 = (st', ms')"
      using Cons.prems(4) Some n by (simp add: t_def ms1_def Let_def split: if_splits)
    note ih = Cons.IH [OF ti Cons.prems(2) _ this]
    have d: "distinct hs" "h \<notin> set hs" using Cons.prems(3) by simp_all
    have dm: "dom (oget (byHandle t)) = dom (oget (byHandle st))"
      using Some unfolding tb dom_def by auto
    have "\<exists>r'. oget (byHandle st') k = Some r' \<and> (if k \<in> set (h # hs) then sent_home live fb q r' else r' = q)"
      if k: "oget (byHandle st) k = Some q" for k q
    proof (cases "k = h")
      case True
      have "oget (byHandle t) h = Some (r1\<lparr>ws_outputId := home\<rparr>)" by (simp add: tb)
      with ih [OF d(1)] d(2) have "oget (byHandle st') h = Some (r1\<lparr>ws_outputId := home\<rparr>)" by metis
      with True k Some sent show ?thesis by simp
    next
      case False
      with k have "oget (byHandle t) k = Some q" by (simp add: tb)
      with ih [OF d(1)] False show ?thesis by simp
    qed
    with ih [OF d(1)] tn dm show ?thesis by simp
  qed
qed

lemma replenish_loop_inv:
  assumes "hotplug_inv K st0 st" "set (okeys live) \<subseteq> K" "set ids \<subseteq> set (okeys live)"
    and "replenish_loop live ids st = (st', fx)"
  shows "hotplug_inv K st0 st' \<and> (\<forall>m. replay fx m = m)
    \<and> (\<forall>h r. oget (byHandle st) h = Some r \<longrightarrow> oget (byHandle st') h = Some r)
    \<and> (\<forall>h r. oget (byHandle st') h = Some r \<longrightarrow> oget (byHandle st) h = Some r
         \<or> (ws_outputId r \<in> set ids \<and> (\<exists>n. oget live (ws_outputId r) = Some n \<and> ws_preferredOutputs r = [n])))
    \<and> (\<forall>i \<in> set ids. positions_of st' i \<noteq> []) \<and> (\<forall>i. positions_of st i \<noteq> [] \<longrightarrow> positions_of st' i \<noteq> [])
    \<and> stackFor st' = stackFor st \<and> shownByOutput st' = shownByOutput st"
  using assms
proof (induction ids arbitrary: st fx)
  case Nil
  then show ?case by simp
next
  case (Cons i ids)
  from Cons.prems(3) have i: "i \<in> set (okeys live)" and ids: "set ids \<subseteq> set (okeys live)" by auto
  then obtain name where name: "oget live i = Some name" by (metis oget_None_key not_None_eq)
  show ?case
  proof (cases "positions_of st i = []")
    case False
    then have "replenish_loop live ids st = (st', fx)" using Cons.prems(4) by simp
    from Cons.IH [OF Cons.prems(1,2) ids this] False show ?thesis by auto
  next
    case True
    define r where "r = \<lparr>ws_handle = nextHandle st, ws_outputId = i, ws_name = None,
      ws_preferredOutputs = [name], ws_members = [], ws_urgent = False, ws_persistent = False\<rparr>"
    define t where "t = add_workspace i r st"
    from Cons.prems(1) have c: "ws_core st" by (simp add: hotplug_inv_def)
    have ct: "ws_core t" unfolding t_def by (rule core_add [OF c]) (simp_all add: r_def)
    have fresh: "oget (byHandle st) (nextHandle st) = None" by (rule core_fresh [OF c])
    have K: "set (okeys (positionsByOutput t)) \<subseteq> K"
      using Cons.prems(1,2) i by (auto simp: hotplug_inv_def t_def add_workspace_def)
    have "\<exists>r'. oget (byHandle t) h = Some r' \<and> ws_members r' = ws_members q" if "oget (byHandle st0) h = Some q" for h q
    proof -
      from Cons.prems(1) that obtain r' where r': "oget (byHandle st) h = Some r'" "ws_members r' = ws_members q"
        unfolding hotplug_inv_def by blast
      with fresh show ?thesis by (auto simp: t_def add_workspace_def)
    qed
    with Cons.prems(1) ct K have ti: "hotplug_inv K st0 t"
      by (simp add: hotplug_inv_def) (simp add: t_def add_workspace_def)
    obtain fx' where l: "replenish_loop live ids t = (st', fx')" and fx: "fx = Emit (WsCreated (nextHandle st) 1 i None) # fx'"
      using Cons.prems(4) True name by (auto simp: t_def add_workspace_def r_def Let_def split: prod.splits)
    have pt: "positions_of t = (positions_of st)(i := positions_of st i @ [nextHandle st])"
      unfolding t_def by (rule positions_of_add)
    have bt: "oget (byHandle t) = (oget (byHandle st))(nextHandle st \<mapsto> r)" by (auto simp: t_def add_workspace_def)
    have st: "stackFor t = stackFor st" unfolding t_def by (rule stackFor_add [OF c])
    have sh: "shownByOutput t = shownByOutput st" by (simp add: t_def add_workspace_def)
    note ih = Cons.IH [OF ti Cons.prems(2) ids l]
    have "positions_of t i \<noteq> []" by (simp add: pt)
    with ih have pi: "positions_of st' i \<noteq> []" by blast
    have old: "oget (byHandle st') h = Some q" if "oget (byHandle st) h = Some q" for h q
    proof -
      have "h \<noteq> nextHandle st" using that fresh by auto
      with that have "oget (byHandle t) h = Some q" by (simp add: bt)
      with ih show ?thesis by blast
    qed
    have new: "oget (byHandle st) h = Some q \<or> (ws_outputId q \<in> set (i # ids)
        \<and> (\<exists>n. oget live (ws_outputId q) = Some n \<and> ws_preferredOutputs q = [n]))"
      if "oget (byHandle st') h = Some q" for h q
    proof -
      from ih that have "oget (byHandle t) h = Some q \<or> (ws_outputId q \<in> set ids
        \<and> (\<exists>n. oget live (ws_outputId q) = Some n \<and> ws_preferredOutputs q = [n]))" by blast
      with name show ?thesis by (auto simp: bt r_def split: if_splits)
    qed
    from ih pt have "\<forall>j. positions_of st j \<noteq> [] \<longrightarrow> positions_of st' j \<noteq> []" by (auto split: if_splits)
    with ih pi old new st sh fx show ?thesis by simp
  qed
qed

lemma restore_loop_inv:
  assumes "hotplug_inv K st0 st" "restore_loop live fb fbName os st = st'"
  shows "hotplug_inv K st0 st' \<and> byHandle st' = byHandle st \<and> positionsByOutput st' = positionsByOutput st
    \<and> (\<forall>o'. oget (shownByOutput st') o' = None \<longleftrightarrow>
         oget (shownByOutput st) o' = None \<and> (o' \<in> set os \<longrightarrow> positions_of st o' = []))
    \<and> (\<forall>o'. oget (shownByOutput st) o' \<noteq> None \<longrightarrow> oget (shownByOutput st') o' = oget (shownByOutput st) o')"
  using assms
proof (induction os arbitrary: st)
  case Nil
  then show ?case by simp
next
  case (Cons x os)
  show ?case
  proof (cases "positions_of st x = [] \<or> oget (shownByOutput st) x \<noteq> None")
    case True
    then have "restore_loop live fb fbName os st = st'" using Cons.prems(2) by (auto simp: Let_def)
    from Cons.IH [OF Cons.prems(1) this] True show ?thesis by auto
  next
    case False
    obtain chosen rem where ch: "restore_choice st (durable_name live fb fbName x) (positions_of st x) = (chosen, rem)"
      by (cases "restore_choice st (durable_name live fb fbName x) (positions_of st x)")
    then have mem: "chosen \<in> set (positions_of st x)"
      using False by (auto simp: restore_choice_def split: option.splits if_splits)
    define t1 where "t1 = st\<lparr>shownByOutput := oset x chosen (shownByOutput st)\<rparr>"
    define t where "t = (if rem \<and> durable_name live fb fbName x \<noteq> ''''
      then t1\<lparr>lastActiveByOutputName := oset (durable_name live fb fbName x) chosen (lastActiveByOutputName t1)\<rparr> else t1)"
    have l: "restore_loop live fb fbName os t = st'"
      using Cons.prems(2) False ch
      by (cases "rem \<and> durable_name live fb fbName x \<noteq> ''''") (auto simp: t_def t1_def Let_def)
    have "ws_core t1" unfolding t1_def by (rule core_shown [OF _ mem]) (use Cons.prems(1) in \<open>simp add: hotplug_inv_def\<close>)
    then have "ws_core t" by (simp add: t_def core_last)
    moreover have tf: "byHandle t = byHandle st" "positionsByOutput t = positionsByOutput st"
      "surfaceToHandle t = surfaceToHandle st" "shownByOutput t = oset x chosen (shownByOutput st)"
      by (simp_all add: t_def t1_def)
    ultimately have ti: "hotplug_inv K st0 t" using Cons.prems(1) by (simp add: hotplug_inv_def)
    have pt: "positions_of t = positions_of st" by (rule ext) (simp add: positions_of_def tf)
    from Cons.IH [OF ti l] False show ?thesis by (auto simp: tf pt)
  qed
qed

text \<open>The diff of the shown workspaces brings every changed stack up to date.\<close>

lemma replay_shown_diff:
  "replay (shown_diff st (i, before)) (stacks, bags) =
     (if before = oget (shownByOutput st) i then stacks else stacks(i := stackFor st i), bags)"
  by (cases before; cases "oget (shownByOutput st) i")
     (simp_all add: shown_diff_def Let_def stackFor_def)

lemma replay_shown_diffs:
  "replay (concat (map (shown_diff st) (map (\<lambda>i. (i, b i)) ids))) (stacks, bags) =
     ((\<lambda>i. if i \<in> set ids \<and> b i \<noteq> oget (shownByOutput st) i then stackFor st i else stacks i), bags)"
proof (induction ids arbitrary: stacks)
  case Nil
  then show ?case by simp
next
  case (Cons x ids)
  have e: "replay (concat (map (shown_diff st) (map (\<lambda>i. (i, b i)) (x # ids)))) (stacks, bags) =
     replay (concat (map (shown_diff st) (map (\<lambda>i. (i, b i)) ids)))
       (if b x = oget (shownByOutput st) x then stacks else stacks(x := stackFor st x), bags)"
    by (simp add: replay_shown_diff)
  show ?case unfolding e Cons.IH by (auto simp: fun_eq_iff)
qed

lemma foldl_oset_add: "set (foldl (\<lambda>s i. oset_add i s) acc xs) = set acc \<union> set xs"
  by (induction xs arbitrary: acc) auto

lemma outputs_to_check_set:
  "set (outputs_to_check st live fb) = insert fb (set (okeys (positionsByOutput st)) \<union> set (okeys live))"
  by (auto simp: outputs_to_check_def foldl_oset_add)

text \<open>Output lists that ended empty are dropped.\<close>

lemma oget_filter:
  "distinct (okeys m) \<Longrightarrow> oget (filter (\<lambda>(_, v). P v) m) k =
     (case oget m k of None \<Rightarrow> None | Some v \<Rightarrow> if P v then Some v else None)"
proof (induction m)
  case (Cons p m)
  obtain k' v where p: "p = (k', v)" by (cases p)
  have "k \<notin> set (okeys m) \<Longrightarrow> oget (filter (\<lambda>(_, v). P v) m) k = None"
    by (auto simp: oget_None_key)
  with Cons show ?case by (auto simp: p oget_None_key split: option.splits)
qed simp

definition drop_empty :: "ws_state \<Rightarrow> ws_state" where
  "drop_empty st = st\<lparr>positionsByOutput := filter (\<lambda>(_, ps). length ps > 0) (positionsByOutput st)\<rparr>"

lemma drop_empty_positions:
  assumes "distinct (okeys (positionsByOutput st))"
  shows "positions_of (drop_empty st) = positions_of st"
  using assms by (auto simp: positions_of_def drop_empty_def oget_filter fun_eq_iff split: option.splits)

lemma drop_empty_core:
  assumes "ws_core st"
  shows "ws_core (drop_empty st)"
proof -
  have "distinct (okeys (positionsByOutput (drop_empty st)))"
    using ws_coreD(2) [OF assms] by (simp add: drop_empty_def distinct_map_filter)
  with assms drop_empty_positions [OF ws_coreD(2) [OF assms]] show ?thesis
    by (simp add: ws_core_def) (simp add: drop_empty_def)
qed

lemma drop_empty_wf:
  assumes "ws_core st" "\<And>o'. positions_of st o' \<noteq> [] \<Longrightarrow> oget (shownByOutput st) o' \<noteq> None"
  shows "ws_wf (drop_empty st)"
  unfolding ws_wf_def
proof (intro conjI allI impI)
  fix o' ps
  assume "oget (positionsByOutput (drop_empty st)) o' = Some ps"
  with ws_coreD(2) [OF assms(1)] have "oget (positionsByOutput st) o' = Some ps" "ps \<noteq> []"
    by (auto simp: drop_empty_def oget_filter split: option.splits if_splits)
  with assms(2) [of o'] show "ps \<noteq> []" "oget (shownByOutput (drop_empty st)) o' \<noteq> None"
    by (simp_all add: positions_of_def drop_empty_def)
qed (rule drop_empty_core [OF assms(1)])

text \<open>A shown workspace that stays shown keeps its stack: no window changed workspace.\<close>

lemma hotplug_stack_same:
  assumes c: "ws_core st0" and i: "hotplug_inv K st0 st"
    and s: "oget (shownByOutput st0) o' = oget (shownByOutput st) o'"
  shows "stackFor st o' = stackFor st0 o'"
proof (cases "oget (shownByOutput st0) o'")
  case None
  with s show ?thesis by (simp add: stackFor_def)
next
  case (Some h)
  from shown_record [OF c Some] obtain r where r: "oget (byHandle st0) h = Some r" by blast
  with i obtain r' where "oget (byHandle st) h = Some r'" "ws_members r' = ws_members r"
    unfolding hotplug_inv_def by blast
  with r Some s show ?thesis by (simp add: stackFor_def)
qed

lemma hotplug_outside:
  assumes c: "ws_core st" and k: "set (okeys (positionsByOutput st)) \<subseteq> K" and n: "o' \<notin> K"
  shows "oget (shownByOutput st) o' = None"
proof -
  from k n have "o' \<notin> set (okeys (positionsByOutput st))" by blast
  then have "oget (positionsByOutput st) o' = None" using oget_None_key by metis
  then have "positions_of st o' = []" by (simp add: positions_of_def)
  with ws_coreD(11) [OF c, of o'] show ?thesis by (cases "oget (shownByOutput st) o'") auto
qed

lemma recompute_parts:
  assumes wf: "ws_wf st" and d: "distinct (okeys live)"
    and e: "recomputeOutputs st live fb fbName = (st', fx, ms)"
  obtains st1 st2 st3 fx1 where
    "migrate_loop live (sort (okeys live)) fb fbName (okeys (byHandle st)) st [] = (st1, ms)"
    "replenish_loop live (sort (okeys live)) st1 = (st2, fx1)"
    "restore_loop live fb fbName (okeys (positionsByOutput st2)) st2 = st3"
    "st' = drop_empty st3"
    "\<forall>m. replay fx m = replay (concat (map (shown_diff st3) (map (\<lambda>i. (i, oget (shownByOutput st) i))
        (outputs_to_check st live fb)))) (replay fx1 m)"
proof -
  obtain st1 ms1 where 1: "migrate_loop live (sort (okeys live)) fb fbName (okeys (byHandle st)) st [] = (st1, ms1)"
    by (cases "migrate_loop live (sort (okeys live)) fb fbName (okeys (byHandle st)) st []")
  obtain st2 fx1 where 2: "replenish_loop live (sort (okeys live)) st1 = (st2, fx1)"
    by (cases "replenish_loop live (sort (okeys live)) st1")
  have mig: "replay (map (\<lambda>(h, a, b). Emit (WsMigrated h a b)) xs) m = m" for xs m
    by (induction xs arbitrary: m) (auto simp: replay_def)
  have foc: "replay (if b then [RequestFocusDecision] else []) m = m" for b m
    by (cases m) simp
  define st3 where "st3 = restore_loop live fb fbName (okeys (positionsByOutput st2)) st2"
  show thesis
  proof (rule that [of st1 st2 fx1 st3])
    show "migrate_loop live (sort (okeys live)) fb fbName (okeys (byHandle st)) st [] = (st1, ms)"
      using e 1 2 by (simp add: recomputeOutputs_def Let_def)
    show "st' = drop_empty st3"
      using e 1 2 by (simp add: recomputeOutputs_def Let_def drop_empty_def st3_def)
    have "fx = fx1 @ concat (map (shown_diff st3) (map (\<lambda>i. (i, oget (shownByOutput st) i))
        (outputs_to_check st live fb))) @ map (\<lambda>(h, a, b). Emit (WsMigrated h a b)) ms
        @ (if list_ex (\<lambda>(i, before). before \<noteq> oget (shownByOutput st3) i) (map (\<lambda>i. (i, oget (shownByOutput st) i))
        (outputs_to_check st live fb)) then [RequestFocusDecision] else [])"
      using e 1 2 by (auto simp: recomputeOutputs_def Let_def st3_def split del: if_split)
    then show "\<forall>m. replay fx m = replay (concat (map (shown_diff st3) (map (\<lambda>i. (i, oget (shownByOutput st) i))
        (outputs_to_check st live fb)))) (replay fx1 m)"
      by (simp add: mig foc del: map_map split del: if_split)
  qed (rule 2, rule st3_def [symmetric])
qed

lemma recompute_spec:
  assumes wf: "ws_wf st" and d: "distinct (okeys live)"
    and e: "recomputeOutputs st live fb fbName = (st', fx, ms)"
  shows "good_step st (st', fx)"
    "\<And>h r. oget (byHandle st) h = Some r \<Longrightarrow> \<exists>r'. oget (byHandle st') h = Some r' \<and> sent_home live fb r r'"
    "\<And>i. i \<in> set (okeys live) \<Longrightarrow> positions_of st' i \<noteq> []"
    "\<And>h r. oget (byHandle st') h = Some r \<Longrightarrow> oget (byHandle st) h = None \<Longrightarrow> ws_outputId r \<in> set (okeys live)"
proof -
  obtain st1 st2 st3 fx1 where
    1: "migrate_loop live (sort (okeys live)) fb fbName (okeys (byHandle st)) st [] = (st1, ms)"
    and 2: "replenish_loop live (sort (okeys live)) st1 = (st2, fx1)"
    and 3: "restore_loop live fb fbName (okeys (positionsByOutput st2)) st2 = st3"
    and st': "st' = drop_empty st3"
    and fx: "\<forall>m. replay fx m = replay (concat (map (shown_diff st3) (map (\<lambda>i. (i, oget (shownByOutput st) i))
        (outputs_to_check st live fb)))) (replay fx1 m)"
    by (rule recompute_parts [OF wf d e]) (rule that)
  define K where "K = set (outputs_to_check st live fb)"
  have K: "insert fb (set (okeys live)) \<subseteq> K" "set (okeys (positionsByOutput st)) \<subseteq> K"
    by (auto simp: K_def outputs_to_check_set)
  have c: "ws_core st" by (rule ws_wfD(1) [OF wf])
  have i0: "hotplug_inv K st st" using c K by (simp add: hotplug_inv_def)
  note m1 = migrate_loop_inv [OF i0 K(1) ws_coreD(1) [OF c] 1]
  from m1 have i1: "hotplug_inv K st st1" by blast
  have live: "set (okeys live) \<subseteq> K" "set (sort (okeys live)) \<subseteq> set (okeys live)" using K(1) by simp_all
  note m2 = replenish_loop_inv [OF i1 live 2]
  from m2 have i2: "hotplug_inv K st st2" by blast
  note m3 = restore_loop_inv [OF i2 3]
  from m3 have i3: "hotplug_inv K st st3" by blast
  then have c3: "ws_core st3" and bags: "surfaceToHandle st3 = surfaceToHandle st"
    and k3: "set (okeys (positionsByOutput st3)) \<subseteq> K" by (simp_all add: hotplug_inv_def)
  from m3 have p3: "positions_of st3 = positions_of st2" by (auto simp: positions_of_def fun_eq_iff)
  have shown: "oget (shownByOutput st3) o' \<noteq> None" if "positions_of st3 o' \<noteq> []" for o'
  proof -
    from that p3 have ne: "positions_of st2 o' \<noteq> []" by simp
    then have "oget (positionsByOutput st2) o' \<noteq> None"
      by (cases "oget (positionsByOutput st2) o'") (simp_all add: positions_of_def)
    then have "o' \<in> set (okeys (positionsByOutput st2))" using oget_None_key by metis
    with m3 ne show ?thesis by blast
  qed
  have wf': "ws_wf st'" unfolding st' by (rule drop_empty_wf [OF c3 shown])
  have same: "stackFor st3 o' = stackFor st o'" if "o' \<notin> K \<or> oget (shownByOutput st) o' = oget (shownByOutput st3) o'" for o'
    using that hotplug_stack_same [OF c i3, of o'] hotplug_outside [OF c K(2), of o'] hotplug_outside [OF c3 k3, of o']
    by auto
  have mir: "mirror_of st' = (stackFor st3, oget (surfaceToHandle st))"
    using stackFor_cong [of st' st3] by (simp add: st' drop_empty_def mirror_of_def bags)
  have "replay fx1 (mirror_of st) = mirror_of st" using m2 by blast
  then have "replay fx (mirror_of st) = mirror_of st'"
    unfolding mir fx [rule_format] using same
    by (auto simp: mirror_of_def replay_shown_diffs K_def fun_eq_iff simp del: map_map)
  with wf' show "good_step st (st', fx)" by (rule good_stepI)
  have b: "byHandle st' = byHandle st2" using m3 by (simp add: st' drop_empty_def)
  show "\<exists>r'. oget (byHandle st') h = Some r' \<and> sent_home live fb r r'" if h: "oget (byHandle st) h = Some r" for h r
  proof -
    from oget_Some_key [OF h] m1 h obtain r' where "oget (byHandle st1) h = Some r'" "sent_home live fb r r'" by metis
    with m2 show ?thesis by (auto simp: b)
  qed
  show "positions_of st' i \<noteq> []" if "i \<in> set (okeys live)" for i
  proof -
    from that m2 have "positions_of st2 i \<noteq> []" by (metis set_sort)
    then show ?thesis using p3 drop_empty_positions [OF ws_coreD(2) [OF c3]] by (simp add: st')
  qed
  show "ws_outputId r \<in> set (okeys live)" if "oget (byHandle st') h = Some r" "oget (byHandle st) h = None" for h r
  proof -
    from m1 that(2) have "oget (byHandle st1) h = None" by (metis domIff)
    moreover from that(1) have "oget (byHandle st2) h = Some r" by (simp add: b)
    ultimately show ?thesis using m2 by (metis option.simps(3) set_sort)
  qed
qed

section \<open>Every command\<close>

definition refused :: "ws_error + 'a \<Rightarrow> bool" where
  "refused x \<longleftrightarrow> (case x of Inl err \<Rightarrow> err \<noteq> Internal | Inr _ \<Rightarrow> False)"

lemma exec_good:
  assumes wf: "ws_wf st" and ok: "cmd_ok c"
  shows "refused (ws_exec st c) \<or> (\<exists>p. ws_exec st c = Inr p \<and> good_step st p)"
proof (cases c)
  case (CEnsure o' name)
  then show ?thesis using ensureOutput_good(1) [OF wf] by simp
next
  case (CCreate spec name)
  then show ?thesis using create_good [OF wf, of spec name] by auto
next
  case (CDestroy index o' name)
  then show ?thesis using destroy_good [OF wf, of index o' _ name]
    by (cases "findHandle st index o'") (fastforce simp: destroy_def refused_def)+
next
  case (CShow index o' name)
  then show ?thesis using show_good [OF wf, of index o' name] by (auto simp: refused_def)
next
  case (CSetUrgent index u o')
  then show ?thesis using setUrgent_good [OF wf, of index u o'] by (auto simp: refused_def)
next
  case (CMove s index o' name)
  then show ?thesis using move_good [OF wf, of s index o' name] by (auto simp: refused_def)
next
  case (CReorder s oper)
  then show ?thesis using reorder_good [OF wf, of s oper] by (auto simp: refused_def)
next
  case (CSetName index name o')
  then show ?thesis using setName_good [OF wf, of index name o'] by (auto simp: refused_def)
next
  case (CMap s o' name e)
  then show ?thesis using applyMap_good [OF wf, of s o' name e] by auto
next
  case (CMapAt s h e)
  then show ?thesis using applyMapAt_good [OF wf, of s h e] by (auto simp: refused_def)
next
  case (CUnmap s)
  then show ?thesis using applyUnmap_good [OF wf, of s] by auto
next
  case (CRecompute live fb fbName)
  obtain st' fx ms where e: "recomputeOutputs st live fb fbName = (st', fx, ms)"
    by (cases "recomputeOutputs st live fb fbName")
  from recompute_spec(1) [OF wf _ e] ok CRecompute e show ?thesis by simp
qed

inductive_cases ws_runE: "ws_run fx st"

lemma init_good: "good_step ws_empty (fst (ws_init name), snd (ws_init name))"
proof -
  have w: "ws_wf ws_empty"
    by (simp add: ws_wf_def ws_core_def ws_empty_def positions_of_def)
  obtain s1 f1 where e: "ensureOutput ws_empty OUTPUT_DEFAULT name = (s1, f1)"
    by (cases "ensureOutput ws_empty OUTPUT_DEFAULT name")
  with ensureOutput_good(1) [OF w, of OUTPUT_DEFAULT name] have g: "good_step ws_empty (s1, f1)" by simp
  show ?thesis
    using g by (auto simp: ws_init_def e good_step_def wf_last mirror_last split: option.splits)
qed

lemma run_good:
  assumes "ws_run fx st"
  shows "good_step ws_empty (st, fx)"
  using assms
proof induction
  case (boot name st fx)
  with init_good [of name] show ?case by simp
next
  case (cmd fx st c st' fx')
  from cmd.IH have "ws_wf st" by (simp add: good_step_def)
  from exec_good [OF this cmd.hyps(2)] cmd.hyps(3) have "good_step st (st', fx')"
    by (auto simp: refused_def)
  with cmd.IH show ?case by (rule good_step_trans)
qed

section \<open>Outputs are never forgotten\<close>

text \<open>
  A workspace that survives remembers at least the outputs it remembered. \<open>kept_or_fresh\<close> also
  says that the handle of a workspace is never given to another one.
\<close>

definition kept_or_fresh :: "ws_state \<Rightarrow> ws_state \<Rightarrow> bool" where
  "kept_or_fresh st st' \<longleftrightarrow> nextHandle st \<le> nextHandle st' \<and>
     (\<forall>h r'. oget (byHandle st') h = Some r' \<longrightarrow>
        (\<exists>r. oget (byHandle st) h = Some r \<and> set (ws_preferredOutputs r) \<subseteq> set (ws_preferredOutputs r'))
        \<or> nextHandle st \<le> h)"

lemma kept_refl: "kept_or_fresh st st"
  by (auto simp: kept_or_fresh_def)

lemma kept_trans:
  assumes a: "kept_or_fresh st st'" and b: "kept_or_fresh st' st''"
  shows "kept_or_fresh st st''"
  unfolding kept_or_fresh_def
proof (intro conjI allI impI)
  show "nextHandle st \<le> nextHandle st''" using a b by (simp add: kept_or_fresh_def)
  fix h r''
  assume "oget (byHandle st'') h = Some r''"
  with b consider r' where "oget (byHandle st') h = Some r'" "set (ws_preferredOutputs r') \<subseteq> set (ws_preferredOutputs r'')"
    | "nextHandle st' \<le> h" unfolding kept_or_fresh_def by blast
  then show "(\<exists>r. oget (byHandle st) h = Some r \<and> set (ws_preferredOutputs r) \<subseteq> set (ws_preferredOutputs r''))
    \<or> nextHandle st \<le> h"
  proof cases
    case 1
    with a consider r where "oget (byHandle st) h = Some r" "set (ws_preferredOutputs r) \<subseteq> set (ws_preferredOutputs r')"
      | "nextHandle st \<le> h" unfolding kept_or_fresh_def by blast
    then show ?thesis using 1(2) by cases auto
  next
    case 2
    with a show ?thesis by (simp add: kept_or_fresh_def)
  qed
qed

lemma kept_set_record:
  assumes "oget (byHandle st) h = Some r" "set (ws_preferredOutputs r) \<subseteq> set (ws_preferredOutputs r')"
  shows "kept_or_fresh st (set_record h r' st)"
  using assms by (auto simp: kept_or_fresh_def set_record_simps)

text \<open>The maps the lookups do not involve.\<close>

lemma kept_other:
  assumes "byHandle t = byHandle t'" "nextHandle t = nextHandle t'"
  shows "kept_or_fresh st t = kept_or_fresh st t'"
  using assms by (simp add: kept_or_fresh_def)

lemma kept_fresh:
  assumes "byHandle st' = oset (nextHandle st) r (byHandle st)" "nextHandle st' = nextHandle st + 1"
  shows "kept_or_fresh st st'"
  using assms by (auto simp: kept_or_fresh_def)

lemma kept_delete:
  assumes "byHandle st' = odel h (byHandle st)" "nextHandle st' = nextHandle st"
  shows "kept_or_fresh st st'"
  using assms by (auto simp: kept_or_fresh_def)

lemma kept_ensure: "kept_or_fresh st (fst (ensureOutput st o' name))"
  unfolding ensureOutput_def Let_def
  by (auto simp: kept_refl intro!: kept_fresh)

lemma kept_relocate: "kept_or_fresh st (fst (relocate ms target st))"
proof (induction ms arbitrary: st)
  case Nil
  then show ?case by (simp add: kept_refl)
next
  case (Cons s ms)
  define st1 where "st1 = (case oget (byHandle st) target of None \<Rightarrow> st
     | Some r \<Rightarrow> if s \<in> set (ws_members r) then st
                 else set_record target (r\<lparr>ws_members := ws_members r @ [s]\<rparr>) st)"
  have "kept_or_fresh st st1"
    by (auto simp: st1_def kept_refl intro: kept_set_record split: option.splits)
  then have "kept_or_fresh st (st1\<lparr>surfaceToHandle := oset s target (surfaceToHandle st1)\<rparr>)"
    by (simp add: kept_or_fresh_def)
  moreover have "fst (relocate (s # ms) target st) =
      fst (relocate ms target (st1\<lparr>surfaceToHandle := oset s target (surfaceToHandle st1)\<rparr>))"
    by (simp add: st1_def Let_def split_def)
  ultimately show ?case using kept_trans Cons.IH by metis
qed

lemma kept_destroy:
  assumes "destroy st index o' name = Inr (st', fx, ren)"
  shows "kept_or_fresh st st'"
proof -
  from assms obtain h r ps pos0 where h: "findHandle st index o' = Some h" "oget (byHandle st) h = Some r"
    "oget (positionsByOutput st) o' = Some ps" "index_of h ps = Some pos0"
    by (auto simp: destroy_def split: option.splits)
  define st1 where "st1 = st\<lparr>byHandle := odel h (byHandle st),
    positionsByOutput := oset o' (remove_at pos0 ps) (positionsByOutput st)\<rparr>"
  obtain st2 target fr fx1 where p: "pick_target st1 o' name (remove_at pos0 ps) pos0 = (st2, target, fr, fx1)"
    by (cases "pick_target st1 o' name (remove_at pos0 ps) pos0")
  obtain st3 fx2 where rel: "relocate (ws_members r) target st2 = (st3, fx2)"
    by (cases "relocate (ws_members r) target st2")
  have 1: "kept_or_fresh st st1" by (rule kept_delete) (simp_all add: st1_def)
  have 2: "kept_or_fresh st1 st2"
    using p by (auto simp: pick_target_def Let_def kept_refl intro!: kept_fresh split: if_splits)
  have 3: "kept_or_fresh st2 st3" using kept_relocate [of st2 "ws_members r" target] rel by simp
  have "byHandle st' = byHandle st3 \<and> nextHandle st' = nextHandle st3"
    using assms h p rel by (auto simp: destroy_def Let_def st1_def split: if_splits prod.splits)
  with kept_trans [OF kept_trans [OF 1 2] 3] kept_other [of st' st3 st] show ?thesis by simp
qed

lemma kept_then_reap:
  assumes "then_reap (st1, fx) h = Inr (st', fx')" "kept_or_fresh st st1"
  shows "kept_or_fresh st st'"
proof -
  from assms(1) consider "st' = st1" | index o' name fx2 ren where "destroy st1 index o' name = Inr (st', fx2, ren)"
    by (auto simp: then_reap_def reapIfEmpty_def split: option.splits if_splits sum.splits prod.splits)
  then show ?thesis
    using assms(2) by cases (auto intro: kept_trans kept_destroy)
qed

lemma kept_promote: "kept_or_fresh st (fst (promotePreferredOutput st h name))"
proof (cases "oget (byHandle st) h")
  case None
  then show ?thesis by (simp add: promotePreferredOutput_def kept_refl)
next
  case (Some r)
  have "set (ws_preferredOutputs r) \<subseteq> set (name # remove_at i (ws_preferredOutputs r))"
    if "index_of name (ws_preferredOutputs r) = Some i" for i
    by (auto simp: remove_at_remove1 [OF that]) (metis in_set_remove1)
  with Some show ?thesis
    by (auto simp: promotePreferredOutput_def kept_refl intro!: kept_set_record split: option.splits)
qed

text \<open>A record whose members changed, with the reverse index.\<close>

lemma kept_members:
  assumes "oget (byHandle st) h = Some r" "ws_preferredOutputs r' = ws_preferredOutputs r"
  shows "kept_or_fresh st ((set_record h r' st)\<lparr>surfaceToHandle := sh\<rparr>)"
  using kept_set_record [OF assms(1), of r'] assms(2) by (simp add: kept_or_fresh_def)

lemma insertMember_preferred [simp]: "ws_preferredOutputs (insertMember r s e) = ws_preferredOutputs r"
  by (simp add: insertMember_def)

lemma drop_member_preferred [simp]: "ws_preferredOutputs (drop_member s r) = ws_preferredOutputs r"
  by (simp add: drop_member_def split: option.splits)

lemma kept_map:
  assumes "applyMap st s o' name e = Inr (st', fx)"
  shows "kept_or_fresh st st'"
proof -
  obtain st1 fx1 where en: "ensureOutput st o' name = (st1, fx1)" by (cases "ensureOutput st o' name")
  have "st' = st \<or> kept_or_fresh st1 st'"
    using assms en by (auto simp: applyMap_def Let_def kept_members split: option.splits if_splits)
  with kept_ensure [of st o' name] en show ?thesis by (auto intro: kept_refl kept_trans)
qed

lemma kept_unmap:
  assumes "applyUnmap st s = Inr (st', fx)"
  shows "kept_or_fresh st st'"
proof (cases "oget (surfaceToHandle st) s")
  case None
  with assms show ?thesis by (simp add: applyUnmap_def kept_refl)
next
  case (Some h)
  note sh = Some
  show ?thesis
  proof (cases "oget (byHandle st) h")
    case None
    with sh assms show ?thesis by (auto simp: applyUnmap_def kept_or_fresh_def)
  next
    case (Some r)
    define st2 where "st2 = (set_record h (drop_member s r) st)\<lparr>surfaceToHandle := odel s (surfaceToHandle st)\<rparr>"
    have k: "kept_or_fresh st st2" unfolding st2_def by (rule kept_members [OF Some]) simp
    from assms Some sh have "st' = st2 \<or> (\<exists>f. then_reap (st2, f) h = Inr (st', fx))"
      by (auto simp: applyUnmap_def Let_def st2_def set_record_simps split: if_splits)
    with k show ?thesis by (blast intro: kept_then_reap)
  qed
qed

lemma kept_move:
  assumes "moveWindow st s index o' name = Inr (st', fx)"
  shows "kept_or_fresh st st'"
proof -
  from assms consider "st' = st" | src target f r fi where "findHandle st index o' = Some target"
    "oget (surfaceToHandle st) s = Some src" "src \<noteq> target" "oget (byHandle st) src = Some f"
    "oget (byHandle st) target = Some r" "findIndex st src (ws_outputId f) = Some fi"
    by (auto simp: moveWindow_def split: option.splits if_splits)
  then show ?thesis
  proof cases
    case 1
    then show ?thesis by (simp add: kept_refl)
  next
    case 2
    define st1 where "st1 = set_record src (drop_member s f) st"
    define st2 where "st2 = (if s \<in> set (ws_members r) then st1
      else set_record target (r\<lparr>ws_members := ws_members r @ [s]\<rparr>) st1)"
    define st3 where "st3 = st2\<lparr>surfaceToHandle := oset s target (surfaceToHandle st2)\<rparr>"
    define st4 where "st4 = (if o' \<noteq> ws_outputId f \<and> name \<noteq> ''''
      then fst (promotePreferredOutput st3 target name) else st3)"
    have 1: "kept_or_fresh st st1" unfolding st1_def by (rule kept_set_record [OF 2(4)]) simp
    have "oget (byHandle st1) target = Some r" using 2 by (simp add: st1_def set_record_simps)
    then have b2: "kept_or_fresh st1 st2" by (auto simp: st2_def kept_refl intro: kept_set_record)
    have 3: "kept_or_fresh st2 st3" by (auto simp: kept_or_fresh_def st3_def)
    have 4: "kept_or_fresh st3 st4" by (simp add: st4_def kept_promote kept_refl)
    from assms 2 have "\<exists>f'. then_reap (st4, f') src = Inr (st', fx)"
      by (auto simp: moveWindow_def Let_def st4_def st3_def st2_def st1_def)
    with kept_trans [OF kept_trans [OF kept_trans [OF 1 b2] 3] 4] show ?thesis by (blast intro: kept_then_reap)
  qed
qed

lemma replenish_next:
  "replenish_loop live ids st = (st', fx) \<Longrightarrow> nextHandle st \<le> nextHandle st'
     \<and> (\<forall>h r. oget (byHandle st') h = Some r \<longrightarrow> oget (byHandle st) h = None \<longrightarrow> nextHandle st \<le> h)"
proof (induction ids arbitrary: st fx)
  case Nil
  then show ?case by simp
next
  case (Cons i ids)
  show ?case
  proof (cases "positions_of st i \<noteq> [] \<or> oget live i = None")
    case True
    with Cons show ?thesis by (auto split: if_splits)
  next
    case False
    then obtain name where name: "oget live i = Some name" by auto
    define t where "t = add_workspace i \<lparr>ws_handle = nextHandle st, ws_outputId = i, ws_name = None,
      ws_preferredOutputs = [name], ws_members = [], ws_urgent = False, ws_persistent = False\<rparr> st"
    obtain fx' where "replenish_loop live ids t = (st', fx')"
      using Cons.prems False name by (auto simp: t_def add_workspace_def Let_def split: prod.splits)
    from Cons.IH [OF this] have ih: "nextHandle t \<le> nextHandle st'"
      "\<And>h r. oget (byHandle st') h = Some r \<Longrightarrow> oget (byHandle t) h = None \<Longrightarrow> nextHandle t \<le> h" by blast+
    have n: "nextHandle t = nextHandle st + 1" by (simp add: t_def add_workspace_def)
    have "nextHandle st \<le> h" if h: "oget (byHandle st') h = Some r" "oget (byHandle st) h = None" for h r
    proof (cases "h = nextHandle st")
      case False
      with that have "oget (byHandle t) h = None" by (simp add: t_def add_workspace_def)
      with ih(2) [OF h(1)] n show ?thesis by simp
    qed simp
    with ih(1) n show ?thesis by auto
  qed
qed

lemma restore_next: "nextHandle (restore_loop live fb fbName os st) = nextHandle st"
  by (induction os arbitrary: st) (auto simp: Let_def split: prod.splits)

lemma recompute_fresh:
  assumes wf: "ws_wf st" and d: "distinct (okeys live)"
    and e: "recomputeOutputs st live fb fbName = (st', fx, ms)"
  shows "nextHandle st \<le> nextHandle st'"
    "oget (byHandle st') h = Some r \<Longrightarrow> oget (byHandle st) h = None \<Longrightarrow> nextHandle st \<le> h"
proof -
  obtain st1 st2 st3 fx1 where
    1: "migrate_loop live (sort (okeys live)) fb fbName (okeys (byHandle st)) st [] = (st1, ms)"
    and 2: "replenish_loop live (sort (okeys live)) st1 = (st2, fx1)"
    and 3: "restore_loop live fb fbName (okeys (positionsByOutput st2)) st2 = st3"
    and st': "st' = drop_empty st3"
    by (rule recompute_parts [OF wf d e]) (rule that)
  define K where "K = set (outputs_to_check st live fb)"
  have K: "insert fb (set (okeys live)) \<subseteq> K" "set (okeys (positionsByOutput st)) \<subseteq> K"
    by (auto simp: K_def outputs_to_check_set)
  have c: "ws_core st" by (rule ws_wfD(1) [OF wf])
  have i0: "hotplug_inv K st st" using c K by (simp add: hotplug_inv_def)
  note m1 = migrate_loop_inv [OF i0 K(1) ws_coreD(1) [OF c] 1]
  from m1 have i1: "hotplug_inv K st st1" by blast
  have live: "set (okeys live) \<subseteq> K" "set (sort (okeys live)) \<subseteq> set (okeys live)" using K(1) by simp_all
  from replenish_loop_inv [OF i1 live 2] have i2: "hotplug_inv K st st2" by blast
  have b: "byHandle st' = byHandle st2" "nextHandle st' = nextHandle st2"
    using restore_loop_inv [OF i2 3] restore_next [of live fb fbName "okeys (positionsByOutput st2)" st2] 3
    by (simp_all add: st' drop_empty_def)
  note r = replenish_next [OF 2]
  show "nextHandle st \<le> nextHandle st'" using m1 r b by simp
  assume h: "oget (byHandle st') h = Some r" "oget (byHandle st) h = None"
  from m1 h(2) have "oget (byHandle st1) h = None" by (metis domIff)
  with r h(1) m1 show "nextHandle st \<le> h" unfolding b by metis
qed

lemma kept_recompute:
  assumes wf: "ws_wf st" and d: "distinct (okeys live)"
    and e: "recomputeOutputs st live fb fbName = (st', fx, ms)"
  shows "kept_or_fresh st st'"
  unfolding kept_or_fresh_def
proof (intro conjI allI impI)
  have dom: "h < nextHandle st'" if "oget (byHandle st) h = Some r" for h r
  proof -
    from recompute_spec(2) [OF wf d e that] obtain r' where "oget (byHandle st') h = Some r'" by blast
    moreover have "ws_core st'" using recompute_spec(1) [OF wf d e] by (simp add: good_step_def ws_wfD)
    ultimately show ?thesis using ws_coreD(6) by blast
  qed
  show "nextHandle st \<le> nextHandle st'" by (rule recompute_fresh(1) [OF wf d e])
  fix h r'
  assume h: "oget (byHandle st') h = Some r'"
  show "(\<exists>r. oget (byHandle st) h = Some r \<and> set (ws_preferredOutputs r) \<subseteq> set (ws_preferredOutputs r')) \<or> nextHandle st \<le> h"
  proof (cases "oget (byHandle st) h")
    case None
    with recompute_fresh(2) [OF wf d e h] show ?thesis by simp
  next
    case (Some r)
    with recompute_spec(2) [OF wf d e Some] h obtain r1 where r1: "remembers_more r r1" "r' = r1\<lparr>ws_outputId := ws_outputId r'\<rparr>"
      by (auto simp: sent_home_def)
    have "ws_preferredOutputs r' = ws_preferredOutputs r1" 
      by (subst r1(2)) simp
    with Some remembers_moreD(4) [OF r1(1)] show ?thesis by auto
  qed
qed

lemma exec_kept:
  assumes wf: "ws_wf st" and ok: "cmd_ok c" and x: "ws_exec st c = Inr (st', fx)"
  shows "kept_or_fresh st st'"
proof (cases c)
  case (CEnsure o' name)
  with x kept_ensure [of st o' name] show ?thesis by simp
next
  case (CCreate spec name)
  define o' where "o' = (case cs_outputId spec of None \<Rightarrow> OUTPUT_DEFAULT | Some i \<Rightarrow> i)"
  obtain st1 fx1 where en: "ensureOutput st o' name = (st1, fx1)" by (cases "ensureOutput st o' name")
  have "kept_or_fresh st st' \<or> (\<exists>r. byHandle st' = oset (nextHandle st1) r (byHandle st1) \<and> nextHandle st' = nextHandle st1 + 1)"
    using x CCreate en
    by (auto simp: create_def o'_def Let_def kept_refl split: option.splits sum.splits prod.splits)
  moreover have "kept_or_fresh st st1" using kept_ensure [of st o' name] en by simp
  ultimately show ?thesis using kept_trans kept_fresh by blast
next
  case (CDestroy index o' name)
  with x show ?thesis by (auto split: sum.splits intro: kept_destroy)
next
  case (CShow index o' name)
  note s = CShow
  show ?thesis
  proof (cases "findHandle st index o'")
    case None
    with x s show ?thesis by (simp add: ws_show_def)
  next
    case (Some h)
    define st1 where "st1 = remember_active name h (st\<lparr>shownByOutput := oset o' h (shownByOutput st)\<rparr>)"
    define st2 where "st2 = (case oget (byHandle st1) h of None \<Rightarrow> st1
      | Some r \<Rightarrow> if ws_urgent r then set_record h (r\<lparr>ws_urgent := False\<rparr>) st1 else st1)"
    have n: "nextHandle (remember_active name h t) = nextHandle t" for t by (simp add: remember_active_def)
    have 1: "kept_or_fresh st st1" "kept_or_fresh st (remember_active name h st)"
      by (simp_all add: kept_or_fresh_def st1_def n)
    have "kept_or_fresh st1 st2"
      by (auto simp: st2_def kept_refl intro: kept_set_record split: option.splits)
    with 1 have 2: "kept_or_fresh st st2" by (blast intro: kept_trans)
    from x s Some have "st' = remember_active name h st \<or> st' = st2 \<or> (\<exists>fx2 p. then_reap (st2, fx2) p = Inr (st', fx))"
      by (auto simp: ws_show_def Let_def st1_def st2_def split: option.splits if_splits)
    then show ?thesis using 1 2 kept_then_reap by blast
  qed
next
  case (CSetUrgent index u o')
  with x show ?thesis by (auto simp: setUrgent_def kept_refl split: option.splits if_splits intro!: kept_set_record)
next
  case (CMove s index o' name)
  show ?thesis using x CMove by (auto intro: kept_move)
next
  case (CReorder s oper)
  with x show ?thesis
    by (auto simp: reorder_def Let_def kept_refl split: option.splits sum.splits prod.splits intro!: kept_set_record)
next
  case (CSetName index name o')
  with x show ?thesis by (auto simp: setName_def kept_refl split: option.splits if_splits intro!: kept_set_record)
next
  case (CMap s o' name e)
  show ?thesis using x CMap by (auto intro: kept_map)
next
  case (CMapAt s h e)
  with x show ?thesis by (auto simp: applyMapAt_def Let_def kept_refl insertMember_def kept_members split: option.splits if_splits)
next
  case (CUnmap s)
  with x show ?thesis by (auto intro: kept_unmap)
next
  case (CRecompute live fb fbName)
  with x ok show ?thesis by (auto split: prod.splits intro: kept_recompute [OF wf])
qed

section \<open>Windows are never lost\<close>

definition no_delete :: "side_effect list \<Rightarrow> bool" where
  "no_delete fx \<longleftrightarrow> (\<forall>e \<in> set fx. \<forall>s. e \<noteq> DeleteStateBag s)"

lemma no_delete_simps [simp]:
  "no_delete []" "no_delete (e # fx) \<longleftrightarrow> (\<forall>s. e \<noteq> DeleteStateBag s) \<and> no_delete fx"
  "no_delete (fx @ fx') \<longleftrightarrow> no_delete fx \<and> no_delete fx'"
  by (auto simp: no_delete_def)

lemma no_delete_if [simp]: "no_delete (if b then fx else fx') \<longleftrightarrow> (if b then no_delete fx else no_delete fx')"
  by simp

lemma replay_no_delete:
  "no_delete fx \<Longrightarrow> snd m s \<noteq> None \<Longrightarrow> snd (replay fx m) s \<noteq> None"
proof (induction fx arbitrary: m)
  case Nil
  then show ?case by simp
next
  case (Cons e fx)
  have "snd (apply_effect e m) s \<noteq> None"
    using Cons.prems by (cases m; cases e) auto
  with Cons show ?case by simp
qed

lemma no_delete_relocate: "no_delete (snd (relocate ms target st))"
proof (induction ms arbitrary: st)
  case (Cons s ms)
  then show ?case by (simp add: Let_def split_def)
qed simp

lemma no_delete_ensure: "no_delete (snd (ensureOutput st o' name))"
  by (simp add: ensureOutput_def Let_def)

lemma no_delete_destroy:
  assumes "destroy st index o' name = Inr (st', fx, ren)"
  shows "no_delete fx"
proof -
  from assms obtain h r ps pos0 where h: "findHandle st index o' = Some h" "oget (byHandle st) h = Some r"
    "oget (positionsByOutput st) o' = Some ps" "index_of h ps = Some pos0"
    by (auto simp: destroy_def split: option.splits)
  define st1 where "st1 = st\<lparr>byHandle := odel h (byHandle st),
    positionsByOutput := oset o' (remove_at pos0 ps) (positionsByOutput st)\<rparr>"
  obtain st2 target fr fx1 where p: "pick_target st1 o' name (remove_at pos0 ps) pos0 = (st2, target, fr, fx1)"
    by (cases "pick_target st1 o' name (remove_at pos0 ps) pos0")
  obtain st3 fx2 where rel: "relocate (ws_members r) target st2 = (st3, fx2)"
    by (cases "relocate (ws_members r) target st2")
  have "no_delete fx1" using p by (auto simp: pick_target_def Let_def split: if_splits)
  moreover have "no_delete fx2" using no_delete_relocate [of "ws_members r" target st2] rel by simp
  ultimately show ?thesis
    using assms h p rel by (auto simp: destroy_def Let_def st1_def split: if_splits)
qed

lemma no_delete_reap:
  assumes "then_reap (st1, fx) h = Inr (st', fx')" "no_delete fx"
  shows "no_delete fx'"
  using assms
  by (auto simp: then_reap_def reapIfEmpty_def split: option.splits if_splits sum.splits prod.splits
      dest: no_delete_destroy)

lemma no_delete_replenish: "no_delete (snd (replenish_loop live ids st))"
proof (induction ids arbitrary: st)
  case (Cons i ids)
  then show ?case by (simp add: Let_def split_def split: option.splits)
qed simp

lemma no_delete_diffs: "no_delete (concat (map (shown_diff st) ps))"
  by (induction ps) (auto simp: shown_diff_def Let_def split: prod.splits option.splits)

lemma no_delete_recompute: "no_delete (fst (snd (recomputeOutputs st live fb fbName)))"
proof -
  have m: "no_delete (map (\<lambda>(h, a, b). Emit (WsMigrated h a b)) ms)" for ms
    by (induction ms) auto
  have r: "replenish_loop live ids t = (t', fx) \<Longrightarrow> no_delete fx" for ids t t' fx
    using no_delete_replenish [of live ids t] by simp
  show ?thesis
    by (auto simp: recomputeOutputs_def Let_def m r no_delete_diffs split: prod.splits simp del: map_map)
qed

lemma no_delete_exec:
  assumes x: "ws_exec st c = Inr (st', fx)" and c: "\<forall>s. c \<noteq> CUnmap s"
  shows "no_delete fx"
proof (cases c)
  case (CEnsure o' name)
  with x no_delete_ensure [of st o' name] show ?thesis by simp
next
  case (CCreate spec name)
  have "no_delete f" if "ensureOutput st o' name = (t, f)" for o' t f
    using no_delete_ensure [of st o' name] that by simp
  with x CCreate show ?thesis
    by (auto simp: create_def Let_def split: option.splits sum.splits prod.splits)
next
  case (CDestroy index o' name)
  with x show ?thesis by (auto split: sum.splits intro: no_delete_destroy)
next
  case (CShow index o' name)
  with x show ?thesis
    by (auto simp: ws_show_def Let_def split: option.splits if_splits prod.splits elim!: no_delete_reap)
next
  case (CSetUrgent index u o')
  with x show ?thesis by (auto simp: setUrgent_def split: option.splits if_splits)
next
  case (CMove s index o' name)
  with x show ?thesis
    by (auto simp: moveWindow_def Let_def split: option.splits if_splits elim!: no_delete_reap)
next
  case (CReorder s oper)
  with x show ?thesis by (auto simp: reorder_def Let_def split: option.splits sum.splits prod.splits)
next
  case (CSetName index name o')
  with x show ?thesis by (auto simp: setName_def split: option.splits if_splits)
next
  case (CMap s o' name e)
  have "no_delete f" if "ensureOutput st o' name = (t, f)" for t f
    using no_delete_ensure [of st o' name] that by simp
  with CMap x show ?thesis by (auto simp: applyMap_def Let_def split: option.splits if_splits prod.splits)
next
  case (CMapAt s h e)
  with x show ?thesis by (auto simp: applyMapAt_def Let_def split: option.splits if_splits)
next
  case (CUnmap s)
  with c show ?thesis by simp
next
  case (CRecompute live fb fbName)
  with x no_delete_recompute [of st live fb fbName] show ?thesis by (auto split: prod.splits)
qed

section \<open>Reordering\<close>

definition reorder_target :: "reorder_op \<Rightarrow> nat \<Rightarrow> nat \<Rightarrow> nat" where
  "reorder_target oper i n =
     (case oper of
        Promote \<Rightarrow> 0
      | SwapNext \<Rightarrow> if i + 1 < n then i + 1 else i
      | SwapPrev \<Rightarrow> i - 1
      | MoveToIndex k \<Rightarrow> nat (max 0 (min (int n - 1) (js_trunc k))))"

lemma index_of_middle: "s \<notin> set a \<Longrightarrow> index_of s (a @ s # b) = Some (length a)"
  by (induction a) auto

lemma insert_at_split: "insert_at (length a) s (a @ b) = a @ s # b"
  by (simp add: insert_at_def)

lemma index_of_insert_at: "s \<notin> set ms \<Longrightarrow> n \<le> length ms \<Longrightarrow> index_of s (insert_at n s ms) = Some n"
  using index_of_middle [of s "take n ms" "drop n ms"] in_set_takeD [of s n ms]
  by (cases "length ms = n") (auto simp: insert_at_def)

lemma remove1_insert_at: "s \<notin> set ms \<Longrightarrow> remove1 s (insert_at n s ms) = ms"
  using in_set_takeD [of s n ms] by (auto simp: insert_at_def remove1_append)

lemma swap_at_adjacent: "swap_at (length a) (Suc (length a)) (a @ x # y # b) = a @ y # x # b"
  by (simp add: swap_at_def list_update_append nth_append)

lemma swap_at_back: "swap_at (Suc (length a)) (length a) (a @ x # y # b) = a @ y # x # b"
  by (simp add: swap_at_def list_update_append nth_append)

lemma reorder_members_spec:
  assumes d: "distinct ms" and i: "index_of s ms = Some i"
  shows "case reorder_members oper s i ms of
      None \<Rightarrow> reorder_target oper i (length ms) = i
    | Some ms' \<Rightarrow> reorder_target oper i (length ms) \<noteq> i \<and> remove1 s ms' = remove1 s ms
        \<and> index_of s ms' = Some (reorder_target oper i (length ms))"
proof -
  have l: "i < length ms" "ms ! i = s" using index_of_Some_nth [OF i] by auto
  define a b where "a = take i ms" and "b = drop (Suc i) ms"
  have ms: "ms = a @ s # b" using id_take_nth_drop [OF l(1)] l(2) by (simp only: a_def b_def)
  have la: "length a = i" using l(1) by (simp add: a_def)
  have ns: "s \<notin> set a" "s \<notin> set b" using d by (auto simp: ms)
  have rem: "remove_at i ms = a @ b" "remove1 s ms = a @ b"
    using remove_at_remove1 [OF i] ns by (simp_all add: ms remove1_append)
  show ?thesis
  proof (cases oper)
    case Promote
    with ns la show ?thesis by (auto simp: reorder_members_def reorder_target_def rem)
  next
    case SwapNext
    show ?thesis
    proof (cases b)
      case Nil
      with SwapNext la show ?thesis by (simp add: reorder_members_def reorder_target_def ms)
    next
      case (Cons y b')
      have "index_of s (a @ y # s # b') = Some (Suc (length a))"
        using index_of_middle [of s "a @ [y]" b'] ns Cons by auto
      with SwapNext la ns show ?thesis
        using swap_at_adjacent [of a s y b'] rem(2)
        by (simp add: reorder_members_def reorder_target_def ms Cons remove1_append)
    qed
  next
    case SwapPrev
    show ?thesis
    proof (cases a rule: rev_cases)
      case Nil
      with SwapPrev la show ?thesis by (simp add: reorder_members_def reorder_target_def)
    next
      case (snoc a' y)
      with la have i': "i = Suc (length a')" by simp
      have "index_of s (a' @ s # y # b) = Some (length a')"
        using index_of_middle ns snoc by auto
      with SwapPrev i' ns show ?thesis
        using swap_at_back [of a' y s b] rem(2)
        by (auto simp: reorder_members_def reorder_target_def ms snoc remove1_append)
    qed
  next
    case (MoveToIndex k)
    define n where "n = nat (max 0 (min (int (length ms) - 1) (js_trunc k)))"
    have "n \<le> length (a @ b)" unfolding n_def using l(1) by (simp add: ms)
    with ns have "index_of s (insert_at n s (a @ b)) = Some n" "remove1 s (insert_at n s (a @ b)) = a @ b"
      by (simp_all add: index_of_insert_at remove1_insert_at)
    with MoveToIndex show ?thesis
      by (simp add: reorder_members_def reorder_target_def Let_def n_def [symmetric] rem)
  qed
qed

section \<open>The registry's properties\<close>

text \<open>A session as the plugin drives it: boot, then commands, none refused.\<close>

fun ws_script :: "side_effect list \<Rightarrow> ws_state \<Rightarrow> ws_cmd list \<Rightarrow> (side_effect list \<times> ws_state) option" where
  "ws_script fx st [] = Some (fx, st)"
| "ws_script fx st (c # cs) =
     (if cmd_ok c then (case ws_exec st c of Inl _ \<Rightarrow> None | Inr (st', fx') \<Rightarrow> ws_script (fx @ fx') st' cs)
      else None)"

lemma ws_script_run: "ws_run fx st \<Longrightarrow> ws_script fx st cs = Some (fx', st') \<Longrightarrow> ws_run fx' st'"
  by (induction cs arbitrary: fx st) (auto split: if_splits sum.splits prod.splits intro: ws_run.cmd)

text \<open>Two outputs, a second workspace on the first, three windows, one of them moved.\<close>

definition sample_cmds :: "ws_cmd list" where
  "sample_cmds = [CEnsure 1 ''B'', CMap 10 0 ''A'' Tail, CMap 11 0 ''A'' Head, CMap 12 1 ''B'' Tail,
     CCreate \<lparr>cs_name = Some ''web'', cs_outputId = Some 0, cs_preferredOutputs = None,
       cs_persistent = None\<rparr> ''A'', CMove 11 2 0 ''A'', CReorder 10 Promote]"

definition sample_session :: "side_effect list \<times> ws_state" where
  "sample_session = (case ws_script (snd (ws_init ''A'')) (fst (ws_init ''A'')) sample_cmds of
     None \<Rightarrow> ([], ws_empty) | Some p \<Rightarrow> p)"

lemma sample_run: "ws_run (fst sample_session) (snd sample_session)"
proof -
  have b: "ws_run (snd (ws_init ''A'')) (fst (ws_init ''A''))" by (rule ws_run.boot [of "''A''"]) simp
  have "ws_script (snd (ws_init ''A'')) (fst (ws_init ''A'')) sample_cmds = Some sample_session"
    by code_simp
  then show ?thesis by (intro ws_script_run [OF b, of sample_cmds]) simp
qed

text \<open>
  C3: In every state the registry reaches, handles, positions, shown workspaces and window
  membership agree: each workspace is listed exactly once on its own output, every output with
  workspaces shows one of its own, and every tracked window is in exactly one workspace.
\<close>

theorem reachable_registry_consistent:
  assumes "ws_run fx st"
  shows "ws_wf st"
  using run_good [OF assms] by (simp add: good_step_def)

theorem reachable_registry_consistent_witness:
  "ws_wf (snd sample_session) \<and> okeys (byHandle (snd sample_session)) = [1, 2, 3]"
  by (rule conjI, rule reachable_registry_consistent [OF sample_run]) code_simp

text \<open>C26: No reachable state takes a branch the code calls internal; a refusal names its cause.\<close>

theorem no_internal_error:
  assumes "ws_run fx st" "cmd_ok c"
  shows "ws_exec st c \<noteq> Inl Internal"
proof -
  have "ws_wf st" using run_good [OF assms(1)] by (simp add: good_step_def)
  from exec_good [OF this assms(2)] show ?thesis by (auto simp: refused_def)
qed

theorem no_internal_error_witness:
  "ws_exec (snd sample_session) (CDestroy 1 0 ''A'') \<noteq> Inl Internal"
  by (rule no_internal_error [OF sample_run]) simp

text \<open>
  C2: Carrying out the effects of a whole session in order leaves the compositor with exactly the
  registry's view: on every output the windows of the shown workspace, and in every window's state
  bag the workspace it belongs to.
\<close>

theorem effects_mirror_registry:
  assumes "ws_run fx st"
  shows "replay fx (\<lambda>_. [], Map.empty) = (stackFor st, oget (surfaceToHandle st))"
proof -
  have "mirror_of ws_empty = (\<lambda>_. [], Map.empty)"
    by (auto simp: mirror_of_def ws_empty_def stackFor_def)
  with run_good [OF assms] show ?thesis by (simp add: good_step_def mirror_of_def)
qed

theorem effects_mirror_registry_witness:
  "fst (replay (fst sample_session) (\<lambda>_. [], Map.empty)) 0 = [10]"
proof -
  have "stackFor (snd sample_session) 0 = [10]" by code_simp
  then show ?thesis using effects_mirror_registry [OF sample_run] by simp
qed

lemma sort_hd_Min: "sort xs = x # ys \<Longrightarrow> x = Min (set xs)" for xs :: "nat list"
  by (metis Min_eqI List.finite_set list.set_intros(1) set_sort sorted_simps(2) set_ConsD order_refl sorted_sort)

lemma sent_home_case:
  assumes "sent_home live fb r r'"
  shows "case currentLiveOutput r live of Some o' \<Rightarrow> ws_outputId r' = o'
    | None \<Rightarrow> (case sort (okeys live) of [] \<Rightarrow> ws_outputId r' = fb
        | lowest # _ \<Rightarrow> ws_outputId r' = lowest \<and> (\<forall>n. oget live lowest = Some n \<longrightarrow> n \<in> set (ws_preferredOutputs r')))"
  using assms unfolding sent_home_def by (elim exE conjE)

lemma sent_home_spec:
  assumes "sent_home live fb r r'"
  shows "ws_members r' = ws_members r \<and> (\<exists>ns. ws_preferredOutputs r' = ws_preferredOutputs r @ ns)
    \<and> ws_outputId r' = (case currentLiveOutput r live of Some o' \<Rightarrow> o'
        | None \<Rightarrow> if live = [] then fb else Min (set (okeys live)))"
proof -
  from assms obtain r1 o1 where r1: "remembers_more r r1" "r' = r1\<lparr>ws_outputId := o1\<rparr>"
    unfolding sent_home_def by blast
  have "ws_outputId r' = (case currentLiveOutput r live of Some o' \<Rightarrow> o'
        | None \<Rightarrow> if live = [] then fb else Min (set (okeys live)))"
  proof (cases "currentLiveOutput r live")
    case None
    show ?thesis
    proof (cases "sort (okeys live)")
      case Nil
      then have "live = []" by (metis Nil_is_map_conv length_0_conv length_sort)
      with None Nil sent_home_case [OF assms] show ?thesis by simp
    next
      case (Cons lowest rest)
      then have "live \<noteq> []" by auto
      with None Cons sent_home_case [OF assms] sort_hd_Min [OF Cons] show ?thesis by simp
    qed
  qed (use sent_home_case [OF assms] in simp)
  with r1 remembers_moreD(3,4) [OF r1(1)] show ?thesis by simp
qed

text \<open>The first remembered output that is live, read off the two lists.\<close>

lemma by_name: "oget (foldl (\<lambda>m (i, name). oset name i m) [] live) n = map_option fst (find (\<lambda>(i, m). m = n) (rev live))"
  by (induction live rule: rev_induct) (auto split: prod.split)

lemma first_live_at:
  "first_live m ns = Some i \<longleftrightarrow> (\<exists>k < length ns. oget m (ns ! k) = Some i \<and> (\<forall>j < k. oget m (ns ! j) = None))"
proof (induction ns)
  case (Cons n ns)
  show ?case
  proof (cases "oget m n")
    case None
    then show ?thesis by (simp add: Cons.IH Ex_less_Suc2 All_less_Suc2)
  next
    case (Some l)
    then show ?thesis by (simp add: Ex_less_Suc2 All_less_Suc2)
  qed
qed simp

lemma first_live_nowhere: "first_live m ns = None \<longleftrightarrow> (\<forall>n \<in> set ns. oget m n = None)"
  by (induction ns) (auto split: option.split)

lemma name_not_live: "map_option fst (find (\<lambda>(i, m). m = n) (rev live)) = None \<longleftrightarrow> n \<notin> snd ` set live"
  by (force simp: find_None_iff image_iff)

lemma find_holds: "find P xs = Some x \<Longrightarrow> P x"
  by (induction xs) (auto split: if_splits)

lemma by_name_holds: "map_option fst (find (\<lambda>(i, m). m = n) (rev live)) = Some home
    \<longleftrightarrow> find (\<lambda>(i, m). m = n) (rev live) = Some (home, n)"
  by (auto dest: find_holds)

lemma current_live_output:
  "currentLiveOutput r live = Some home \<longleftrightarrow>
     (\<exists>k < length (ws_preferredOutputs r).
        find (\<lambda>(i, n). n = ws_preferredOutputs r ! k) (rev live) = Some (home, ws_preferredOutputs r ! k)
        \<and> (\<forall>j < k. ws_preferredOutputs r ! j \<notin> snd ` set live))"
  "currentLiveOutput r live = None \<longleftrightarrow> set (ws_preferredOutputs r) \<inter> snd ` set live = {}"
proof -
  show "currentLiveOutput r live = Some home \<longleftrightarrow>
     (\<exists>k < length (ws_preferredOutputs r).
        find (\<lambda>(i, n). n = ws_preferredOutputs r ! k) (rev live) = Some (home, ws_preferredOutputs r ! k)
        \<and> (\<forall>j < k. ws_preferredOutputs r ! j \<notin> snd ` set live))"
    unfolding currentLiveOutput_def first_live_at by_name name_not_live by_name_holds ..
  show "currentLiveOutput r live = None \<longleftrightarrow> set (ws_preferredOutputs r) \<inter> snd ` set live = {}"
    unfolding currentLiveOutput_def first_live_nowhere by_name name_not_live by blast
qed

text \<open>
  C4: After an output reconfiguration every workspace that existed keeps its windows, remembers its
  outputs in the order it had them, and sits on the live output named by the first name it remembers that
  any live output has (the last such output, should two share the name); with none of its names
  live, on the lowest live output, and with no output at all on the fallback.
\<close>

theorem hotplug_places_every_workspace:
  assumes run: "ws_run fx st" and d: "distinct (okeys live)"
    and e: "recomputeOutputs st live fb fbName = (st', fx', ms)" and r: "oget (byHandle st) h = Some r"
  shows "\<exists>r'. oget (byHandle st') h = Some r' \<and> ws_members r' = ws_members r
    \<and> (\<exists>ns. ws_preferredOutputs r' = ws_preferredOutputs r @ ns)
    \<and> ((\<exists>k < length (ws_preferredOutputs r).
          find (\<lambda>(i, n). n = ws_preferredOutputs r ! k) (rev live) = Some (ws_outputId r', ws_preferredOutputs r ! k)
          \<and> (\<forall>j < k. ws_preferredOutputs r ! j \<notin> snd ` set live))
       \<or> set (ws_preferredOutputs r) \<inter> snd ` set live = {}
          \<and> ws_outputId r' = (if live = [] then fb else Min (set (okeys live))))"
proof -
  have "ws_wf st" using run_good [OF run] by (simp add: good_step_def)
  from recompute_spec(2) [OF this d e r] obtain r' where r': "oget (byHandle st') h = Some r'" "sent_home live fb r r'" by blast
  show ?thesis
  proof (cases "currentLiveOutput r live")
    case None
    then have "set (ws_preferredOutputs r) \<inter> snd ` set live = {}" unfolding current_live_output .
    with sent_home_spec [OF r'(2)] None r'(1) show ?thesis by auto
  next
    case (Some home)
    then have "ws_outputId r' = home" using sent_home_spec [OF r'(2)] by simp
    with Some have "currentLiveOutput r live = Some (ws_outputId r')" by simp
    then have "\<exists>k < length (ws_preferredOutputs r).
          find (\<lambda>(i, n). n = ws_preferredOutputs r ! k) (rev live) = Some (ws_outputId r', ws_preferredOutputs r ! k)
          \<and> (\<forall>j < k. ws_preferredOutputs r ! j \<notin> snd ` set live)" unfolding current_live_output .
    with sent_home_spec [OF r'(2)] r'(1) show ?thesis by blast
  qed
qed

theorem hotplug_places_every_workspace_witness:
  "\<exists>st' fx' ms r'. recomputeOutputs (snd sample_session) [(0, ''A'')] 9 ''H'' = (st', fx', ms)
     \<and> oget (byHandle st') 2 = Some r' \<and> ws_members r' = [12] \<and> ws_outputId r' = 0"
proof -
  obtain st' fx' ms where e: "recomputeOutputs (snd sample_session) [(0, ''A'')] 9 ''H'' = (st', fx', ms)"
    by (metis prod_cases3)
  define r where "r = \<lparr>ws_handle = 2, ws_outputId = 1, ws_name = None, ws_preferredOutputs = [''B''],
    ws_members = [12], ws_urgent = False, ws_persistent = False\<rparr>"
  have r: "oget (byHandle (snd sample_session)) 2 = Some r" unfolding r_def by code_simp
  from hotplug_places_every_workspace [OF sample_run _ e r] e show ?thesis by (auto simp: r_def)
qed

text \<open>C27: Every live output ends an output reconfiguration with a workspace shown on it.\<close>

theorem live_outputs_show_a_workspace:
  assumes run: "ws_run fx st" and d: "distinct (okeys live)"
    and e: "recomputeOutputs st live fb fbName = (st', fx', ms)" and i: "i \<in> set (okeys live)"
  shows "\<exists>h r. oget (shownByOutput st') i = Some h \<and> oget (byHandle st') h = Some r \<and> ws_outputId r = i"
proof -
  have wf: "ws_wf st" using run_good [OF run] by (simp add: good_step_def)
  have wf': "ws_wf st'" using recompute_spec(1) [OF wf d e] by (simp add: good_step_def)
  from recompute_spec(3) [OF wf d e i] obtain ps where "oget (positionsByOutput st') i = Some ps"
    by (cases "oget (positionsByOutput st') i") (simp_all add: positions_of_def)
  from ws_wfD(3) [OF wf' this] obtain h where h: "oget (shownByOutput st') i = Some h" by auto
  from shown_record [OF ws_wfD(1) [OF wf'] h] h show ?thesis by blast
qed

theorem live_outputs_show_a_workspace_witness:
  "\<exists>st' fx' ms h. recomputeOutputs (snd sample_session) [(4, ''D'')] 9 ''H'' = (st', fx', ms)
     \<and> oget (shownByOutput st') 4 = Some h"
proof -
  obtain st' fx' ms where e: "recomputeOutputs (snd sample_session) [(4, ''D'')] 9 ''H'' = (st', fx', ms)"
    by (metis prod_cases3)
  from live_outputs_show_a_workspace [OF sample_run _ e, of 4] e show ?thesis by auto
qed

text \<open>A sequence of output reconfigurations, each with its live outputs and the fallback.\<close>

type_synonym output_change = "(nat, string) omap \<times> nat \<times> string"

fun recomputes :: "ws_state \<Rightarrow> output_change list \<Rightarrow> ws_state" where
  "recomputes st [] = st"
| "recomputes st ((live, fb, fbName) # cs) = recomputes (fst (recomputeOutputs st live fb fbName)) cs"

lemma recomputes_kept:
  assumes "ws_wf st" "\<forall>(live, fb, fbName) \<in> set cs. distinct (okeys live)" "oget (byHandle st) h = Some r"
  shows "ws_wf (recomputes st cs) \<and> (\<exists>r' ns. oget (byHandle (recomputes st cs)) h = Some r'
    \<and> ws_members r' = ws_members r \<and> ws_preferredOutputs r' = ws_preferredOutputs r @ ns)"
  using assms
proof (induction cs arbitrary: st r)
  case Nil
  then show ?case by simp
next
  case (Cons c cs)
  obtain live fb fbName where c: "c = (live, fb, fbName)" by (cases c)
  obtain st' fx ms where e: "recomputeOutputs st live fb fbName = (st', fx, ms)"
    by (cases "recomputeOutputs st live fb fbName")
  from Cons.prems(2) have d: "distinct (okeys live)" by (simp add: c)
  have wf: "ws_wf st'" using recompute_spec(1) [OF Cons.prems(1) d e] by (simp add: good_step_def)
  from recompute_spec(2) [OF Cons.prems(1) d e Cons.prems(3)] obtain r1 where
    r1: "oget (byHandle st') h = Some r1" "sent_home live fb r r1" by blast
  from Cons.IH [OF wf _ r1(1)] Cons.prems(2) sent_home_spec [OF r1(2)] show ?case
    by (auto simp: c e)
qed

lemma recomputes_append: "recomputes st (cs @ cs') = recomputes (recomputes st cs) cs'"
  by (induction st cs rule: recomputes.induct) auto

lemma first_live_append: "first_live m ns = Some i \<Longrightarrow> first_live m (ns @ ns') = Some i"
  by (induction ns) (auto split: option.splits)

text \<open>
  C17: Unplugging and plugging back: whatever outputs come and go in between, once the outputs of
  the start are back, every workspace that sat on its preferred output sits there again, with the
  same windows.
\<close>

theorem unplug_replug_restores:
  assumes run: "ws_run fx st" and cs: "\<forall>(live, fb, fbName) \<in> set cs. distinct (okeys live)"
    and d: "distinct (okeys live)" and r: "oget (byHandle st) h = Some r"
    and home: "currentLiveOutput r live = Some (ws_outputId r)"
  shows "\<exists>r'. oget (byHandle (recomputes st (cs @ [(live, fb, fbName)]))) h = Some r'
    \<and> ws_outputId r' = ws_outputId r \<and> ws_members r' = ws_members r"
proof -
  have "ws_wf st" using run_good [OF run] by (simp add: good_step_def)
  from recomputes_kept [OF this cs r] obtain r1 ns where wf: "ws_wf (recomputes st cs)"
    and r1: "oget (byHandle (recomputes st cs)) h = Some r1" "ws_members r1 = ws_members r"
      "ws_preferredOutputs r1 = ws_preferredOutputs r @ ns" by blast
  obtain st' fx' ms where e: "recomputeOutputs (recomputes st cs) live fb fbName = (st', fx', ms)"
    by (cases "recomputeOutputs (recomputes st cs) live fb fbName")
  from recompute_spec(2) [OF wf d e r1(1)] obtain r' where
    r': "oget (byHandle st') h = Some r'" "sent_home live fb r1 r'" by blast
  have "currentLiveOutput r1 live = Some (ws_outputId r)"
    using first_live_append home r1(3) by (simp add: currentLiveOutput_def)
  with sent_home_spec [OF r'(2)] r' r1 show ?thesis by (simp add: recomputes_append e)
qed

theorem unplug_replug_restores_witness:
  "\<exists>r'. oget (byHandle (recomputes (snd sample_session) [([(0, ''A'')], 9, ''H''), ([], 9, ''H''),
      ([(0, ''A''), (1, ''B'')], 9, ''H'')])) 2 = Some r' \<and> ws_outputId r' = 1 \<and> ws_members r' = [12]"
proof -
  define r where "r = \<lparr>ws_handle = 2, ws_outputId = 1, ws_name = None, ws_preferredOutputs = [''B''],
    ws_members = [12], ws_urgent = False, ws_persistent = False\<rparr>"
  have r: "oget (byHandle (snd sample_session)) 2 = Some r" unfolding r_def by code_simp
  have h: "currentLiveOutput r [(0, ''A''), (1, ''B'')] = Some (ws_outputId r)" unfolding r_def by code_simp
  from unplug_replug_restores [OF sample_run _ _ r h, of "[([(0, ''A'')], 9, ''H''), ([], 9, ''H'')]" 9 "''H''"]
  show ?thesis by (simp add: r_def)
qed

text \<open>
  The outputs a workspace remembers never shrink: no command makes a workspace that survives it
  forget an output.
\<close>

lemma preferred_outputs_never_shrink:
  assumes "ws_run fx st" "cmd_ok c" "ws_exec st c = Inr (st', fx')"
    and "oget (byHandle st) h = Some r" "oget (byHandle st') h = Some r'"
  shows "set (ws_preferredOutputs r) \<subseteq> set (ws_preferredOutputs r')"
proof -
  have wf: "ws_wf st" using run_good [OF assms(1)] by (simp add: good_step_def)
  then have "h < nextHandle st" using ws_coreD(6) [OF ws_wfD(1) assms(4)] by blast
  moreover have "(\<exists>q. oget (byHandle st) h = Some q \<and> set (ws_preferredOutputs q) \<subseteq> set (ws_preferredOutputs r'))
      \<or> nextHandle st \<le> h"
    using exec_kept [OF wf assms(2,3)] assms(5) unfolding kept_or_fresh_def by blast
  ultimately show ?thesis using assms(4) by auto
qed

lemma preferred_outputs_never_shrink_witness:
  "\<exists>st' fx' r'. ws_exec (snd sample_session) (CMove 10 1 1 ''X'') = Inr (st', fx')
     \<and> oget (byHandle st') 2 = Some r' \<and> {''B''} \<subseteq> set (ws_preferredOutputs r')"
proof -
  define r where "r = \<lparr>ws_handle = 2, ws_outputId = 1, ws_name = None, ws_preferredOutputs = [''B''],
    ws_members = [12], ws_urgent = False, ws_persistent = False\<rparr>"
  define r' where "r' = \<lparr>ws_handle = 2, ws_outputId = 1, ws_name = None, ws_preferredOutputs = [''X'', ''B''],
    ws_members = [12, 10], ws_urgent = False, ws_persistent = False\<rparr>"
  have r: "oget (byHandle (snd sample_session)) 2 = Some r" unfolding r_def by code_simp
  have "(case ws_exec (snd sample_session) (CMove 10 1 1 ''X'') of Inl _ \<Rightarrow> None
      | Inr (s, _) \<Rightarrow> oget (byHandle s) 2) = Some r'" unfolding r'_def by code_simp
  then obtain st' fx' where "ws_exec (snd sample_session) (CMove 10 1 1 ''X'') = Inr (st', fx')"
    "oget (byHandle st') 2 = Some r'" by (auto split: sum.splits prod.splits)
  with preferred_outputs_never_shrink [OF sample_run _ this(1) r this(2)] show ?thesis by (auto simp: r_def)
qed

text \<open>C20: Only the unmapping of a window takes it out of the registry; every other command keeps it.\<close>

theorem no_window_is_lost:
  assumes "ws_run fx st" "cmd_ok c" "ws_exec st c = Inr (st', fx')" "\<forall>s'. c \<noteq> CUnmap s'"
    and "oget (surfaceToHandle st) s \<noteq> None"
  shows "\<exists>h r. oget (byHandle st') h = Some r \<and> s \<in> set (ws_members r)"
proof -
  have wf: "ws_wf st" using run_good [OF assms(1)] by (simp add: good_step_def)
  from exec_good [OF this assms(2)] assms(3) have g: "good_step st (st', fx')" by (auto simp: refused_def)
  have "snd (mirror_of st) s \<noteq> None" using assms(5) by (simp add: mirror_of_def)
  from replay_no_delete [OF no_delete_exec [OF assms(3,4)] this] g obtain h where "oget (surfaceToHandle st') s = Some h"
    by (auto simp: good_step_def mirror_of_def)
  moreover have "ws_core st'" using g by (simp add: good_step_def ws_wfD)
  ultimately show ?thesis using ws_coreD(12) by blast
qed

theorem no_window_is_lost_witness:
  "\<exists>st' fx' h r. ws_exec (snd sample_session) (CDestroy 1 1 ''B'') = Inr (st', fx')
     \<and> oget (byHandle st') h = Some r \<and> 12 \<in> set (ws_members r)"
proof -
  have "(case ws_exec (snd sample_session) (CDestroy 1 1 ''B'') of Inl _ \<Rightarrow> False | Inr _ \<Rightarrow> True)" by code_simp
  then obtain st' fx' where e: "ws_exec (snd sample_session) (CDestroy 1 1 ''B'') = Inr (st', fx')"
    by (auto split: sum.splits)
  have "oget (surfaceToHandle (snd sample_session)) 12 = Some 2" by code_simp
  with no_window_is_lost [OF sample_run _ e, of 12] e show ?thesis by auto
qed

text \<open>
  Reordering a tracked window moves it to the place the operation names, clamped to the list,
  keeps the other windows in their order, answers whether it moved, and touches no other workspace.
\<close>

theorem reorder_moves_one_window:
  assumes run: "ws_run fx st" and s: "oget (surfaceToHandle st) s = Some h" and r: "oget (byHandle st) h = Some r"
  shows "\<exists>st' changed fx' r' i. reorder st s oper = Inr (st', changed, fx')
    \<and> index_of s (ws_members r) = Some i \<and> oget (byHandle st') = (oget (byHandle st))(h \<mapsto> r')
    \<and> remove1 s (ws_members r') = remove1 s (ws_members r)
    \<and> index_of s (ws_members r') = Some (reorder_target oper i (length (ws_members r)))
    \<and> (changed \<longleftrightarrow> reorder_target oper i (length (ws_members r)) \<noteq> i)"
proof -
  have "ws_wf st" using run_good [OF run] by (simp add: good_step_def)
  note c = ws_wfD(1) [OF this]
  from ws_coreD(12) [OF c] s r have "s \<in> set (ws_members r)" by auto
  then obtain i where i: "index_of s (ws_members r) = Some i" using index_of_in by metis
  note spec = reorder_members_spec [OF ws_coreD(7) [OF c r] i, of oper]
  have idem: "oget (byHandle st) = (oget (byHandle st))(h \<mapsto> r)" using r by (simp add: fun_upd_idem)
  show ?thesis
  proof (cases "reorder_members oper s i (ws_members r)")
    case None
    with s r i have "reorder st s oper = Inr (st, False, [])" by (simp add: reorder_def)
    with spec None i idem show ?thesis by auto
  next
    case (Some ms)
    then obtain fx' where "reorder st s oper = Inr (set_record h (r\<lparr>ws_members := ms\<rparr>) st, True, fx')"
      using s r i by (simp add: reorder_def Let_def)
    moreover have "oget (byHandle (set_record h (r\<lparr>ws_members := ms\<rparr>) st)) = (oget (byHandle st))(h \<mapsto> r\<lparr>ws_members := ms\<rparr>)"
      unfolding set_record_simps by (rule oget_oset)
    ultimately show ?thesis using spec Some i by fastforce
  qed
qed

theorem reorder_moves_one_window_witness:
  "\<exists>st' changed fx' r'. reorder (snd sample_session) 11 (MoveToIndex (7 / 2)) = Inr (st', changed, fx')
     \<and> oget (byHandle st') 3 = Some r' \<and> index_of 11 (ws_members r') = Some 0 \<and> \<not> changed"
proof -
  define r where "r = \<lparr>ws_handle = 3, ws_outputId = 0, ws_name = Some ''web'', ws_preferredOutputs = [''A''],
    ws_members = [11], ws_urgent = False, ws_persistent = False\<rparr>"
  have s: "oget (surfaceToHandle (snd sample_session)) 11 = Some 3" by code_simp
  have r: "oget (byHandle (snd sample_session)) 3 = Some r" unfolding r_def by code_simp
  show ?thesis
    using reorder_moves_one_window [OF sample_run s r, of "MoveToIndex (7 / 2)"]
    by (auto simp: r_def reorder_target_def js_trunc_def)
qed

definition shown_events :: "side_effect list \<Rightarrow> (nat \<times> nat) list" where
  "shown_events fx = concat (map (\<lambda>e. case e of Emit (WsShown h _ o') \<Rightarrow> [(o', h)] | _ \<Rightarrow> []) fx)"

text \<open>
  Destroying the workspace an output shows moves the view to another workspace without a
  \<open>workspace.shown\<close> event: of the events of such a step none names the workspace now shown.
\<close>

lemma destroy_shown_is_silent:
  "case destroy (snd sample_session) 1 0 ''A'' of Inl _ \<Rightarrow> False
   | Inr (st', fx, _) \<Rightarrow> oget (shownByOutput (snd sample_session)) 0 = Some 1
       \<and> oget (shownByOutput st') 0 = Some 3 \<and> shown_events fx = []"
  by code_simp

end
