(* ===== verification/Keyspec.thy ===== *)
theory Keyspec
  imports Prelude "HOL-Library.Word"
begin

unbundle bit_operations_syntax

text \<open>
  \<open>packages/core/src/input/keysyms.ts\<close> and \<open>keyspec.ts\<close>: the table of key names, the parser of
  binding specifications ("Mod+Shift+Return") and the printer of steps and chords. Strings are lists
  of Latin-1 characters. A lookup in a plain JavaScript object also finds the properties it inherits
  from \<open>Object.prototype\<close>; the ones a lower-cased name can reach are \<open>constructor\<close> and
  \<open>__proto__\<close>, so \<open>js_lookup\<close> answers \<open>Inherited\<close> for them.
\<close>

section \<open>Text\<close>

definition code_of :: "char \<Rightarrow> int" where
  "code_of c = of_char c"

definition is_space :: "char \<Rightarrow> bool" where
  "is_space c \<longleftrightarrow> code_of c \<in> {9, 10, 11, 12, 13, 32, 160}"

definition lower_char :: "char \<Rightarrow> char" where
  "lower_char c = (let n = code_of c
     in if (65 \<le> n \<and> n \<le> 90) \<or> (192 \<le> n \<and> n \<le> 222 \<and> n \<noteq> 215) then char_of (n + 32) else c)"

definition lower :: "string \<Rightarrow> string" where
  "lower s = map lower_char s"

definition trim :: "string \<Rightarrow> string" where
  "trim s = rev (dropWhile is_space (rev (dropWhile is_space s)))"

fun split_by :: "('a \<Rightarrow> bool) \<Rightarrow> 'a list \<Rightarrow> 'a list list" where
  "split_by P [] = [[]]"
| "split_by P (x # xs) =
     (if P x then [] # split_by P xs
      else (case split_by P xs of [] \<Rightarrow> [[x]] | t # ts \<Rightarrow> (x # t) # ts))"

fun join :: "'a list \<Rightarrow> 'a list list \<Rightarrow> 'a list" where
  "join sep [] = []"
| "join sep [t] = t"
| "join sep (t # u # ts) = t @ sep @ join sep (u # ts)"

definition digit :: "int \<Rightarrow> char" where
  "digit d = (if d < 10 then char_of (48 + d) else char_of (87 + d))"

text \<open>\<open>n.toString(base)\<close> for the bases 10 and 16.\<close>

function to_base :: "int \<Rightarrow> int \<Rightarrow> string" where
  "to_base b n = (if b < 2 \<or> n < b then [digit n] else to_base b (n div b) @ [digit (n mod b)])"
  by pat_completeness auto
termination
  by (relation "measure (\<lambda>(_, n). nat n)") (auto simp: int_div_less_self nat_less_eq_zless)

declare to_base.simps [simp del]

text \<open>\<open>Number(s)\<close> on a string of decimal digits.\<close>

definition of_dec :: "string \<Rightarrow> int" where
  "of_dec s = foldl (\<lambda>n c. 10 * n + (code_of c - 48)) 0 s"

lemma split_by_nonempty: "split_by P xs \<noteq> []"
  by (induction xs) (auto split: list.splits)

lemma split_by_none: "list_all (\<lambda>x. \<not> P x) t \<Longrightarrow> split_by P t = [t]"
  by (induction t) auto

lemma split_by_step:
  "list_all (\<lambda>x. \<not> P x) t \<Longrightarrow> P x \<Longrightarrow> split_by P (t @ x # xs) = t # split_by P xs"
  by (induction t) (auto split: list.splits)

lemma split_by_join:
  "ts \<noteq> [] \<Longrightarrow> list_all (list_all (\<lambda>x. \<not> P x)) ts \<Longrightarrow> P x \<Longrightarrow> split_by P (join [x] ts) = ts"
  by (induction "[x]" ts rule: join.induct) (auto simp: split_by_none split_by_step)

lemma join_chars: "list_all (list_all Q) ts \<Longrightarrow> list_all Q sep \<Longrightarrow> list_all Q (join sep ts)"
  by (induction sep ts rule: join.induct) auto

lemma join_nil: "ts \<noteq> [] \<Longrightarrow> list_all (\<lambda>t. t \<noteq> []) ts \<Longrightarrow> join sep ts \<noteq> []"
  by (induction sep ts rule: join.induct) auto

datatype 'v js_prop = Own 'v | Inherited string

definition inherited_names :: "string list" where
  "inherited_names = [''constructor'', ''__proto__'']"

definition js_lookup :: "(string, 'v) omap \<Rightarrow> string \<Rightarrow> 'v js_prop option" where
  "js_lookup tbl name =
     (case oget tbl name of
        Some v \<Rightarrow> Some (Own v)
      | None \<Rightarrow> if name \<in> set inherited_names then Some (Inherited name) else None)"

section \<open>Key names\<close>

definition SYMS_named :: "(string, int) omap" where
  "SYMS_named =
    [(''Return'', 0xff0d), (''Enter'', 0xff0d), (''Escape'', 0xff1b), (''Tab'', 0xff09),
     (''BackSpace'', 0xff08), (''Backspace'', 0xff08), (''Delete'', 0xffff), (''Space'', 0x20),
     (''space'', 0x20), (''Left'', 0xff51), (''Up'', 0xff52), (''Right'', 0xff53), (''Down'', 0xff54),
     (''Home'', 0xff50), (''End'', 0xff57), (''Page_Up'', 0xff55), (''PageUp'', 0xff55),
     (''Page_Down'', 0xff56), (''PageDown'', 0xff56), (''Insert'', 0xff63),
     (''F1'', 0xffbe), (''F2'', 0xffbf), (''F3'', 0xffc0), (''F4'', 0xffc1), (''F5'', 0xffc2),
     (''F6'', 0xffc3), (''F7'', 0xffc4), (''F8'', 0xffc5), (''F9'', 0xffc6), (''F10'', 0xffc7),
     (''F11'', 0xffc8), (''F12'', 0xffc9), (''comma'', 0x2c), (''period'', 0x2e), (''slash'', 0x2f),
     (''semicolon'', 0x3b), (''apostrophe'', 0x27), (''grave'', 0x60), (''bracketleft'', 0x5b),
     (''bracketright'', 0x5d), (''backslash'', 0x5c), (''minus'', 0x2d), (''equal'', 0x3d),
     (''plus'', 0x2b), (''Caps_Lock'', 0xffe5), (''Num_Lock'', 0xff7f), (''Scroll_Lock'', 0xff14),
     (''Print'', 0xff61), (''Menu'', 0xff67), (''Pause'', 0xff13), (''XF86AudioMute'', 0x1008ff12),
     (''XF86AudioLowerVolume'', 0x1008ff11), (''XF86AudioRaiseVolume'', 0x1008ff13),
     (''XF86AudioMicMute'', 0x1008ffb2), (''XF86AudioPlay'', 0x1008ff14),
     (''XF86AudioPause'', 0x1008ff31), (''XF86AudioStop'', 0x1008ff15),
     (''XF86AudioPrev'', 0x1008ff16), (''XF86AudioNext'', 0x1008ff17),
     (''XF86MonBrightnessUp'', 0x1008ff02), (''XF86MonBrightnessDown'', 0x1008ff03)]"

definition letter_syms :: "(string, int) omap" where
  "letter_syms = concat (map (\<lambda>c. [([char_of c], c), ([char_of (c - 0x20)], c)]) [0x61..0x7a])"

definition digit_syms :: "(string, int) omap" where
  "digit_syms = map (\<lambda>c. ([char_of c], c)) [0x30..0x39]"

text \<open>\<open>Object.entries\<close> lists integer-like keys first, then the others as inserted.\<close>

definition SYMS :: "(string, int) omap" where
  "SYMS = digit_syms @ SYMS_named @ letter_syms"

definition CI :: "(string, int) omap" where
  "CI = foldl (\<lambda>m (k, v). oset (lower k) v m) [] SYMS"

definition NAMES :: "(int, string) omap" where
  "NAMES = foldl (\<lambda>m (k, v). if oget m v = None then oset v k m else m) [] SYMS"

definition isModifierKeysym :: "int \<Rightarrow> bool" where
  "isModifierKeysym key \<longleftrightarrow> (key \<ge> 0xffe1 \<and> key \<le> 0xffee) \<or> key = 0xfe03 \<or> key = 0xfe11
     \<or> key = 0xff7e \<or> key = 0xff7f"

definition keysymOf :: "string \<Rightarrow> int js_prop option" where
  "keysymOf name = (if name = [] then None else js_lookup CI (lower name))"

definition keysymName :: "int \<Rightarrow> string" where
  "keysymName key = (case oget NAMES key of Some n \<Rightarrow> n | None \<Rightarrow> ''0x'' @ to_base 16 key)"

section \<open>Steps\<close>

type_synonym mods = "32 word"

definition MOD_SHIFT :: mods where "MOD_SHIFT = 0x01"
definition MOD_LOCK :: mods where "MOD_LOCK = 0x02"
definition MOD_CTRL :: mods where "MOD_CTRL = 0x04"
definition MOD_MOD1 :: mods where "MOD_MOD1 = 0x08"
definition MOD_MOD2 :: mods where "MOD_MOD2 = 0x10"
definition MOD_MOD3 :: mods where "MOD_MOD3 = 0x20"
definition MOD_MOD4 :: mods where "MOD_MOD4 = 0x40"
definition MOD_MOD5 :: mods where "MOD_MOD5 = 0x80"

lemmas mod_bits = MOD_SHIFT_def MOD_LOCK_def MOD_CTRL_def MOD_MOD1_def MOD_MOD2_def MOD_MOD3_def
  MOD_MOD4_def MOD_MOD5_def

datatype input_step =
    KeyStep (step_mods: mods) int
  | ButtonStep (step_mods: mods) int
  | ScrollStep (step_mods: mods) int

definition BUTTON_ALIASES :: "(string, int) omap" where
  "BUTTON_ALIASES = [(''button1'', 0x110), (''button2'', 0x112), (''button3'', 0x111),
     (''button4'', 0x113), (''button5'', 0x114), (''button6'', 0x115), (''button7'', 0x116),
     (''button8'', 0x117)]"

definition SCROLL_ALIASES :: "(string, int) omap" where
  "SCROLL_ALIASES = [(''scroll_up'', 0), (''scroll_down'', 1), (''scroll_left'', 2),
     (''scroll_right'', 3), (''mouse_up'', 0), (''mouse_down'', 1)]"

definition SCROLL_DIR_NAMES :: "string list" where
  "SCROLL_DIR_NAMES = [''scroll_up'', ''scroll_down'', ''scroll_left'', ''scroll_right'']"

definition MOD_ALIASES :: "(string, mods) omap" where
  "MOD_ALIASES = [(''shift'', MOD_SHIFT), (''ctrl'', MOD_CTRL), (''control'', MOD_CTRL),
     (''alt'', MOD_MOD1), (''mod1'', MOD_MOD1), (''mod2'', MOD_MOD2), (''mod3'', MOD_MOD3),
     (''mod'', MOD_MOD4), (''super'', MOD_MOD4), (''logo'', MOD_MOD4), (''mod4'', MOD_MOD4),
     (''mod5'', MOD_MOD5), (''altgr'', MOD_MOD5)]"

fun isButtonStep :: "input_step \<Rightarrow> bool" where
  "isButtonStep (ButtonStep _ _) = True"
| "isButtonStep _ = False"

fun isScrollStep :: "input_step \<Rightarrow> bool" where
  "isScrollStep (ScrollStep _ _) = True"
| "isScrollStep _ = False"

fun stepsEqual :: "input_step \<Rightarrow> input_step \<Rightarrow> bool" where
  "stepsEqual (ButtonStep m b) (ButtonStep m' b') = (m = m' \<and> b = b')"
| "stepsEqual (ScrollStep m d) (ScrollStep m' d') = (m = m' \<and> d = d')"
| "stepsEqual (KeyStep m k) (KeyStep m' k') = (m = m' \<and> k = k')"
| "stepsEqual _ _ = False"

section \<open>Parsing\<close>

datatype spec_error =
    EmptySpec | EmptyToken string | UnknownModifier string string | DuplicateModifier string string
  | UnknownKey string string | EmptyChord

text \<open>An inherited property is truthy and not a number: as a bit mask it is 0, as a button it stays.\<close>

datatype parsed = Parsed input_step | InheritedButton mods string

fun parse_mods :: "string \<Rightarrow> mods \<Rightarrow> string list \<Rightarrow> spec_error + mods" where
  "parse_mods spec mods [] = Inr mods"
| "parse_mods spec mods (m # ms) =
     (case js_lookup MOD_ALIASES (lower m) of
        None \<Rightarrow> Inl (UnknownModifier m spec)
      | Some p \<Rightarrow>
          (let bit = (case p of Own b \<Rightarrow> b | Inherited _ \<Rightarrow> 0)
           in if mods AND bit \<noteq> 0 then Inl (DuplicateModifier m spec)
              else parse_mods spec (mods OR bit) ms))"

text \<open>The last token: a button alias first, then a scroll direction, then a key name.\<close>

definition parse_last :: "string \<Rightarrow> mods \<Rightarrow> string \<Rightarrow> spec_error + parsed" where
  "parse_last spec mods lastToken =
     (case js_lookup BUTTON_ALIASES (lower lastToken) of
        Some (Own b) \<Rightarrow> Inr (Parsed (ButtonStep mods b))
      | Some (Inherited n) \<Rightarrow> Inr (InheritedButton mods n)
      | None \<Rightarrow>
          (case js_lookup SCROLL_ALIASES (lower lastToken) of
             Some (Own d) \<Rightarrow> Inr (Parsed (ScrollStep mods d))
           | Some (Inherited n) \<Rightarrow> Inr (InheritedButton mods n)
           | None \<Rightarrow>
               (case keysymOf lastToken of
                  Some (Own k) \<Rightarrow> Inr (Parsed (KeyStep mods k))
                | Some (Inherited n) \<Rightarrow> Inr (InheritedButton mods n)
                | None \<Rightarrow> Inl (UnknownKey lastToken spec))))"

definition parseSpec :: "string \<Rightarrow> spec_error + parsed" where
  "parseSpec spec =
     (let trimmed = trim spec
      in if length trimmed = 0 then Inl EmptySpec
         else
           (let tokens = map trim (split_by (\<lambda>c. c = CHR ''+'') trimmed)
            in if list_ex (\<lambda>t. length t = 0) tokens then Inl (EmptyToken spec)
               else
                 (let lastToken = last tokens; modTokens = butlast tokens
                  in case parse_mods spec 0 modTokens of
                       Inl err \<Rightarrow> Inl err
                     | Inr mods \<Rightarrow> parse_last spec mods lastToken)))"

fun parse_all :: "string list \<Rightarrow> spec_error + parsed list" where
  "parse_all [] = Inr []"
| "parse_all (s # ss) =
     (case parseSpec s of
        Inl err \<Rightarrow> Inl err
      | Inr p \<Rightarrow> (case parse_all ss of Inl err \<Rightarrow> Inl err | Inr ps \<Rightarrow> Inr (p # ps)))"

text \<open>The string form; splitting at runs of separators leaves the same non-empty parts.\<close>

definition parseChord :: "string \<Rightarrow> spec_error + parsed list" where
  "parseChord input =
     (let parts = filter (\<lambda>s. length s > 0) (split_by (\<lambda>c. c = CHR '','' \<or> is_space c) input)
      in if length parts = 0 then Inl EmptyChord else parse_all parts)"

text \<open>The array form: strings and steps mixed.\<close>

datatype chord_entry = SpecEntry string | StepEntry input_step

fun parse_entries :: "chord_entry list \<Rightarrow> spec_error + parsed list" where
  "parse_entries [] = Inr []"
| "parse_entries (StepEntry s # es) =
     (case parse_entries es of Inl err \<Rightarrow> Inl err | Inr ps \<Rightarrow> Inr (Parsed s # ps))"
| "parse_entries (SpecEntry s # es) =
     (case parseSpec s of
        Inl err \<Rightarrow> Inl err
      | Inr p \<Rightarrow> (case parse_entries es of Inl err \<Rightarrow> Inl err | Inr ps \<Rightarrow> Inr (p # ps)))"

definition parseChordArray :: "chord_entry list \<Rightarrow> spec_error + parsed list" where
  "parseChordArray input = (if length input = 0 then Inl EmptyChord else parse_entries input)"

section \<open>Printing\<close>

text \<open>The modifiers in the order they are printed.\<close>

definition mod_print_order :: "(mods \<times> string) list" where
  "mod_print_order = [(MOD_CTRL, ''Ctrl''), (MOD_MOD1, ''Alt''), (MOD_SHIFT, ''Shift''),
     (MOD_MOD4, ''Mod''), (MOD_MOD2, ''Mod2''), (MOD_MOD3, ''Mod3''), (MOD_MOD5, ''Mod5''),
     (MOD_LOCK, ''Lock'')]"

definition mod_names :: "mods \<Rightarrow> string list" where
  "mod_names mods = map snd (filter (\<lambda>(bit, _). mods AND bit \<noteq> 0) mod_print_order)"

definition buttonName :: "int \<Rightarrow> string" where
  "buttonName button =
     (case filter (\<lambda>(_, code). code = button) BUTTON_ALIASES of
        (name, _) # _ \<Rightarrow> name
      | [] \<Rightarrow> ''button(0x'' @ to_base 16 button @ '')'')"

fun code_name :: "input_step \<Rightarrow> string" where
  "code_name (ButtonStep _ b) = buttonName b"
| "code_name (ScrollStep _ d) = (if 0 \<le> d \<and> d < 4 then SCROLL_DIR_NAMES ! nat d else '''')"
| "code_name (KeyStep _ k) = keysymName k"

definition formatStep :: "input_step \<Rightarrow> string" where
  "formatStep step = join ''+'' (mod_names (step_mods step) @ [code_name step])"

definition formatChord :: "input_step list \<Rightarrow> string" where
  "formatChord steps = join '', '' (map formatStep steps)"

section \<open>The tables\<close>

text \<open>The lower-cased names: each stands for one key, and none is a button or scroll token.\<close>

definition lower_syms :: "(string, int) omap" where
  "lower_syms =
    [(''0'', 48), (''1'', 49), (''2'', 50), (''3'', 51), (''4'', 52), (''5'', 53), (''6'', 54),
     (''7'', 55), (''8'', 56), (''9'', 57), (''return'', 65293), (''enter'', 65293),
     (''escape'', 65307), (''tab'', 65289), (''backspace'', 65288), (''delete'', 65535),
     (''space'', 32), (''left'', 65361), (''up'', 65362), (''right'', 65363), (''down'', 65364),
     (''home'', 65360), (''end'', 65367), (''page_up'', 65365), (''pageup'', 65365),
     (''page_down'', 65366), (''pagedown'', 65366), (''insert'', 65379), (''f1'', 65470),
     (''f2'', 65471), (''f3'', 65472), (''f4'', 65473), (''f5'', 65474), (''f6'', 65475),
     (''f7'', 65476), (''f8'', 65477), (''f9'', 65478), (''f10'', 65479), (''f11'', 65480),
     (''f12'', 65481), (''comma'', 44), (''period'', 46), (''slash'', 47), (''semicolon'', 59),
     (''apostrophe'', 39), (''grave'', 96), (''bracketleft'', 91), (''bracketright'', 93),
     (''backslash'', 92), (''minus'', 45), (''equal'', 61), (''plus'', 43),
     (''caps_lock'', 65509), (''num_lock'', 65407), (''scroll_lock'', 65300), (''print'', 65377),
     (''menu'', 65383), (''pause'', 65299), (''xf86audiomute'', 269025042),
     (''xf86audiolowervolume'', 269025041), (''xf86audioraisevolume'', 269025043),
     (''xf86audiomicmute'', 269025202), (''xf86audioplay'', 269025044),
     (''xf86audiopause'', 269025073), (''xf86audiostop'', 269025045),
     (''xf86audioprev'', 269025046), (''xf86audionext'', 269025047),
     (''xf86monbrightnessup'', 269025026), (''xf86monbrightnessdown'', 269025027), (''a'', 97),
     (''b'', 98), (''c'', 99), (''d'', 100), (''e'', 101), (''f'', 102), (''g'', 103),
     (''h'', 104), (''i'', 105), (''j'', 106), (''k'', 107), (''l'', 108), (''m'', 109),
     (''n'', 110), (''o'', 111), (''p'', 112), (''q'', 113), (''r'', 114), (''s'', 115),
     (''t'', 116), (''u'', 117), (''v'', 118), (''w'', 119), (''x'', 120), (''y'', 121),
     (''z'', 122)]"

lemma lower_syms_table: "remdups (map (\<lambda>(k, v). (lower k, v)) SYMS) = lower_syms"
  by code_simp

lemma lower_syms_distinct: "distinct (okeys lower_syms)"
  by code_simp

lemma lower_syms_apart:
  "list_all (\<lambda>(l, _). l \<notin> set inherited_names \<and> oget BUTTON_ALIASES l = None \<and> oget SCROLL_ALIASES l = None)
     lower_syms"
  by code_simp

text \<open>A token that survives trimming and splitting.\<close>

definition token_char :: "char \<Rightarrow> bool" where
  "token_char c \<longleftrightarrow> c \<noteq> CHR ''+'' \<and> c \<noteq> CHR '','' \<and> \<not> is_space c"

definition token_ok :: "string \<Rightarrow> bool" where
  "token_ok t \<longleftrightarrow> t \<noteq> [] \<and> list_all token_char t"

lemma syms_tokens: "list_all (\<lambda>(n, _). token_ok n) SYMS"
  by code_simp

lemma lower_sym_in: "(n, k) \<in> set SYMS \<Longrightarrow> (lower n, k) \<in> set lower_syms"
  unfolding lower_syms_table [symmetric] by force

lemma foldl_oset_lookup:
  "oget (foldl (\<lambda>m (k, v). oset (f k) v m) [] xs) l = map_of (rev (map (\<lambda>(k, v). (f k, v)) xs)) l"
  by (induction xs rule: rev_induct) (auto split: prod.splits)

lemma foldl_first_lookup:
  "oget (foldl (\<lambda>m (k, v). if oget m v = None then oset v k m else m) [] xs) v = map_of (map prod.swap xs) v"
  by (induction xs rule: rev_induct) (auto simp: map_of_append map_add_def split: prod.splits option.splits)

lemma CI_lookup:
  assumes "(n, k) \<in> set SYMS"
  shows "oget CI (lower n) = Some k"
proof -
  let ?xs = "rev (map (\<lambda>(k, v). (lower k, v)) SYMS)"
  have s: "set ?xs = set lower_syms" unfolding lower_syms_table [symmetric] by auto
  with lower_sym_in [OF assms] have "lower n \<in> fst ` set ?xs" by force
  then obtain v where v: "map_of ?xs (lower n) = Some v" by (metis map_of_eq_None_iff not_None_eq)
  then have "(lower n, v) \<in> set lower_syms" using map_of_SomeD s by metis
  with lower_sym_in [OF assms] lower_syms_distinct have "v = k"
    by (metis in_set_oget option.inject)
  with v show ?thesis by (simp add: CI_def foldl_oset_lookup)
qed

lemma NAMES_lookup:
  assumes "k \<in> snd ` set SYMS"
  obtains n where "oget NAMES k = Some n" "(n, k) \<in> set SYMS"
proof -
  have e: "oget NAMES k = map_of (map prod.swap SYMS) k" by (simp add: NAMES_def foldl_first_lookup)
  have "k \<in> fst ` set (map prod.swap SYMS)" using assms by force
  then obtain n where "map_of (map prod.swap SYMS) k = Some n" by (metis map_of_eq_None_iff not_None_eq)
  moreover from map_of_SomeD [OF this] have "(n, k) \<in> set SYMS" by auto
  ultimately show thesis using e that by simp
qed

lemma keysym_token:
  assumes "k \<in> snd ` set SYMS"
  shows "token_ok (keysymName k)" "keysymOf (keysymName k) = Some (Own k)"
    "js_lookup BUTTON_ALIASES (lower (keysymName k)) = None" "js_lookup SCROLL_ALIASES (lower (keysymName k)) = None"
proof -
  from NAMES_lookup [OF assms] obtain n where n: "oget NAMES k = Some n" "(n, k) \<in> set SYMS" by blast
  have nm: "keysymName k = n" by (simp add: keysymName_def n)
  show t: "token_ok (keysymName k)" using syms_tokens n(2) by (auto simp: nm list_all_iff)
  then show "keysymOf (keysymName k) = Some (Own k)"
    using CI_lookup [OF n(2)] by (simp add: nm keysymOf_def js_lookup_def token_ok_def)
  from lower_sym_in [OF n(2)] lower_syms_apart have "lower n \<notin> set inherited_names \<and>
      oget BUTTON_ALIASES (lower n) = None \<and> oget SCROLL_ALIASES (lower n) = None" by (auto simp: list_all_iff)
  then show "js_lookup BUTTON_ALIASES (lower (keysymName k)) = None"
    "js_lookup SCROLL_ALIASES (lower (keysymName k)) = None" by (simp_all add: nm js_lookup_def)
qed

lemma button_token:
  assumes "b \<in> snd ` set BUTTON_ALIASES"
  shows "token_ok (buttonName b) \<and> js_lookup BUTTON_ALIASES (lower (buttonName b)) = Some (Own b)"
proof -
  have "list_all (\<lambda>b. token_ok (buttonName b) \<and> js_lookup BUTTON_ALIASES (lower (buttonName b)) = Some (Own b))
    (map snd BUTTON_ALIASES)" by code_simp
  with assms show ?thesis by (auto simp: list_all_iff)
qed

lemma scroll_token:
  assumes "0 \<le> d" "d < 4"
  shows "token_ok (SCROLL_DIR_NAMES ! nat d) \<and> js_lookup BUTTON_ALIASES (lower (SCROLL_DIR_NAMES ! nat d)) = None
    \<and> js_lookup SCROLL_ALIASES (lower (SCROLL_DIR_NAMES ! nat d)) = Some (Own d)"
proof -
  have "list_all (\<lambda>d. token_ok (SCROLL_DIR_NAMES ! nat d) \<and> js_lookup BUTTON_ALIASES (lower (SCROLL_DIR_NAMES ! nat d)) = None
    \<and> js_lookup SCROLL_ALIASES (lower (SCROLL_DIR_NAMES ! nat d)) = Some (Own d)) [0, 1, 2, 3]" by code_simp
  moreover have "d \<in> set [0, 1, 2, 3]" using assms by auto
  ultimately show ?thesis unfolding list_all_iff by blast
qed

section \<open>Splitting and joining\<close>

lemma trim_token: "list_all (\<lambda>c. \<not> is_space c) t \<Longrightarrow> trim t = t"
proof -
  assume a: "list_all (\<lambda>c. \<not> is_space c) t"
  have d: "dropWhile is_space u = u" if "list_all (\<lambda>c. \<not> is_space c) u" for u
    using that by (cases u) auto
  show ?thesis using a d [of t] d [of "rev t"] by (simp add: trim_def list_all_rev)
qed

text \<open>The parser on a specification put together from tokens.\<close>

lemma parseSpec_tokens:
  assumes "list_all token_ok ts" "token_ok t"
  shows "trim (join ''+'' (ts @ [t])) = join ''+'' (ts @ [t])" "join ''+'' (ts @ [t]) \<noteq> []"
    "map trim (split_by (\<lambda>c. c = CHR ''+'') (join ''+'' (ts @ [t]))) = ts @ [t]"
proof -
  let ?all = "ts @ [t]"
  have ok: "list_all token_ok ?all" using assms by simp
  have np: "list_all (list_all (\<lambda>c. \<not> c = CHR ''+'')) ?all"
    using ok by (auto simp: list_all_iff token_ok_def token_char_def)
  have ns: "list_all (list_all (\<lambda>c. \<not> is_space c)) ?all"
    using ok by (auto simp: list_all_iff token_ok_def token_char_def)
  have "\<not> is_space (CHR ''+'')" by code_simp
  then have "list_all (\<lambda>c. \<not> is_space c) (join ''+'' ?all)" using join_chars [OF ns] by simp
  then show "trim (join ''+'' ?all) = join ''+'' ?all" by (rule trim_token)
  show "join ''+'' ?all \<noteq> []" using join_nil [of ?all] ok by (auto simp: list_all_iff token_ok_def)
  have "split_by (\<lambda>c. c = CHR ''+'') (join ''+'' ?all) = ?all"
    by (rule split_by_join) (use np in simp_all)
  moreover have "map trim ?all = ?all"
    using ns by (intro map_idI) (auto simp: list_all_iff intro!: trim_token)
  ultimately show "map trim (split_by (\<lambda>c. c = CHR ''+'') (join ''+'' ?all)) = ?all" by simp
qed

section \<open>Modifiers\<close>

text \<open>A mask of single, pairwise distinct bits is read back from their names.\<close>

lemma parse_mods_names:
  assumes "\<forall>(b, n) \<in> set L. js_lookup MOD_ALIASES (lower n) = Some (Own b)"
    and "\<forall>(b, n) \<in> set L. acc AND b = 0"
    and "\<forall>i < length L. \<forall>j < length L. i \<noteq> j \<longrightarrow> fst (L ! i) AND fst (L ! j) = 0"
  shows "parse_mods spec acc (map snd (filter (\<lambda>(b, _). m AND b \<noteq> 0) L))
    = Inr (foldl (\<lambda>a (b, _). if m AND b \<noteq> 0 then a OR b else a) acc L)"
  using assms
proof (induction L arbitrary: acc)
  case Nil
  then show ?case by simp
next
  case (Cons p L)
  obtain b n where p: "p = (b, n)" by (cases p)
  have rest: "\<forall>i < length L. \<forall>j < length L. i \<noteq> j \<longrightarrow> fst (L ! i) AND fst (L ! j) = 0"
  proof (intro allI impI)
    fix i j assume "i < length L" "j < length L" "i \<noteq> j"
    with Cons.prems(3) [rule_format, of "Suc i" "Suc j"] show "fst (L ! i) AND fst (L ! j) = 0" by simp
  qed
  have d: "b AND b' = 0" if "(b', n') \<in> set L" for b' n'
  proof -
    from that obtain j where "j < length L" "L ! j = (b', n')" by (auto simp: in_set_conv_nth)
    with Cons.prems(3) [rule_format, of 0 "Suc j"] show ?thesis by (simp add: p)
  qed
  have acc: "\<forall>(b', n') \<in> set L. (acc OR b) AND b' = 0" "\<forall>(b', n') \<in> set L. acc AND b' = 0"
    using d Cons.prems(2) by (auto simp: bit.conj_disj_distrib2 p)
  show ?case
    using Cons.IH [OF _ acc(1) rest] Cons.IH [OF _ acc(2) rest] Cons.prems(1,2) by (auto simp: p)
qed

text \<open>The modifiers a specification can name: all but \<open>Lock\<close>.\<close>

definition nameable_mods :: mods where
  "nameable_mods = 0xFD"

lemma and_single_bit: "(m :: mods) AND 2 ^ k = 0 \<or> m AND 2 ^ k = 2 ^ k"
proof (cases "bit m k")
  case True
  then have "m AND 2 ^ k = 2 ^ k"
    by (intro bit_word_eqI) (auto simp: bit_exp_iff bit_and_iff simp del: power_numeral)
  then show ?thesis by simp
next
  case False
  then have "m AND 2 ^ k = 0"
    by (intro bit_word_eqI) (auto simp: bit_exp_iff bit_and_iff simp del: power_numeral)
  then show ?thesis by simp
qed

lemma or_single_bit:
  "b = 2 ^ k \<Longrightarrow> (if (m :: mods) AND b \<noteq> 0 then a OR b else a) = a OR (m AND b)"
  using and_single_bit [of m k] by auto

lemma parse_mods_roundtrip:
  assumes "m AND NOT nameable_mods = 0"
  shows "parse_mods spec 0 (mod_names m) = Inr m"
proof -
  define L where "L = butlast mod_print_order"
  have m: "m AND nameable_mods = m" using assms
    by (metis bit.conj_cancel_right bit.conj_disj_distrib bit.disj_cancel_right bit.disj_zero_right and.right_neutral)
  have "(m AND nameable_mods) AND MOD_LOCK = 0" by (simp add: and.assoc mod_bits nameable_mods_def)
  then have "m AND MOD_LOCK = 0" by (simp only: m)
  then have names: "mod_names m = map snd (filter (\<lambda>(b, _). m AND b \<noteq> 0) L)"
    by (simp add: mod_names_def L_def mod_print_order_def)
  have 1: "\<forall>(b, n) \<in> set L. js_lookup MOD_ALIASES (lower n) = Some (Own b)"
  proof -
    have "list_all (\<lambda>(b, n). js_lookup MOD_ALIASES (lower n) = Some (Own b)) (butlast mod_print_order)" by code_simp
    then show ?thesis by (auto simp: L_def list_all_iff)
  qed
  have 2: "\<forall>i < length L. \<forall>j < length L. i \<noteq> j \<longrightarrow> fst (L ! i) AND fst (L ! j) = 0"
  proof -
    have "list_all (\<lambda>i. list_all (\<lambda>j. i \<noteq> j \<longrightarrow> fst (butlast mod_print_order ! i) AND fst (butlast mod_print_order ! j) = 0)
      [0..<7]) [0..<7]" by code_simp
    moreover have "length L = 7" by (simp add: L_def mod_print_order_def)
    ultimately show ?thesis unfolding L_def list_all_iff by auto
  qed
  have bits: "(if m AND 1 \<noteq> 0 then a OR 1 else a) = a OR (m AND 1)"
    "(if m AND 4 \<noteq> 0 then a OR 4 else a) = a OR (m AND 4)"
    "(if m AND 8 \<noteq> 0 then a OR 8 else a) = a OR (m AND 8)"
    "(if m AND 16 \<noteq> 0 then a OR 16 else a) = a OR (m AND 16)"
    "(if m AND 32 \<noteq> 0 then a OR 32 else a) = a OR (m AND 32)"
    "(if m AND 64 \<noteq> 0 then a OR 64 else a) = a OR (m AND 64)"
    "(if m AND 128 \<noteq> 0 then a OR 128 else a) = a OR (m AND 128)" for a
    by (rule or_single_bit [of _ 0] or_single_bit [of _ 2] or_single_bit [of _ 3] or_single_bit [of _ 4]
        or_single_bit [of _ 5] or_single_bit [of _ 6] or_single_bit [of _ 7]; simp; fail)+
  have L: "L = [(4, ''Ctrl''), (8, ''Alt''), (1, ''Shift''), (64, ''Mod''), (16, ''Mod2''), (32, ''Mod3''), (128, ''Mod5'')]"
    by (simp add: L_def mod_print_order_def mod_bits)
  have "foldl (\<lambda>a (b, _). if m AND b \<noteq> 0 then a OR b else a) 0 L =
      ((((((0 OR m AND 4) OR m AND 8) OR m AND 1) OR m AND 64) OR m AND 16) OR m AND 32) OR m AND 128"
    by (simp only: L foldl.simps prod.case bits)
  also have "\<dots> = m AND nameable_mods"
    by (simp only: or.left_neutral bit.conj_disj_distrib [symmetric] nameable_mods_def) simp
  finally have "foldl (\<lambda>a (b, _). if m AND b \<noteq> 0 then a OR b else a) 0 L = m AND nameable_mods" .
  with parse_mods_names [OF 1 _ 2, of 0 spec m] names m show ?thesis by simp
qed

section \<open>Printing and parsing back\<close>

text \<open>The steps with a name: a known key, button or scroll direction, and nameable modifiers.\<close>

fun named_step :: "input_step \<Rightarrow> bool" where
  "named_step (KeyStep m k) = (m AND NOT nameable_mods = 0 \<and> k \<in> set (map snd SYMS))"
| "named_step (ButtonStep m b) = (m AND NOT nameable_mods = 0 \<and> b \<in> set (map snd BUTTON_ALIASES))"
| "named_step (ScrollStep m d) = (m AND NOT nameable_mods = 0 \<and> 0 \<le> d \<and> d < 4)"

lemma mod_names_tokens: "list_all token_ok (mod_names m)"
proof -
  have "list_all (\<lambda>(_, n). token_ok n) mod_print_order" by code_simp
  then show ?thesis by (auto simp: mod_names_def list_all_iff)
qed

lemma formatStep_token:
  assumes "named_step s"
  shows "token_ok (code_name s)" "parseSpec (formatStep s) = Inr (Parsed s)"
proof -
  let ?ts = "mod_names (step_mods s)"
  show t: "token_ok (code_name s)"
    using assms by (cases s) (auto simp: keysym_token button_token scroll_token)
  note tok = parseSpec_tokens [OF mod_names_tokens t, of "step_mods s"]
  have "m AND NOT nameable_mods = 0" if "m = step_mods s" for m using assms that by (cases s) simp_all
  then have pm: "parse_mods (formatStep s) 0 ?ts = Inr (step_mods s)" by (intro parse_mods_roundtrip) simp
  have ne: "\<not> list_ex (\<lambda>t. length t = 0) (?ts @ [code_name s])"
    using mod_names_tokens [of "step_mods s"] t by (auto simp: list_ex_iff list_all_iff token_ok_def)
  have lk: "parse_last (formatStep s) (step_mods s) (code_name s) = Inr (Parsed s)"
    using assms by (cases s) (auto simp: parse_last_def keysym_token button_token scroll_token)
  have "parseSpec (formatStep s) = (case parse_mods (formatStep s) 0 ?ts of
      Inl err \<Rightarrow> Inl err | Inr mods \<Rightarrow> parse_last (formatStep s) mods (code_name s))"
    unfolding parseSpec_def Let_def formatStep_def tok last_snoc butlast_snoc using tok(2) ne by simp
  with lk pm show "parseSpec (formatStep s) = Inr (Parsed s)" by simp
qed

lemma formatStep_chars:
  assumes "named_step s"
  shows "list_all (\<lambda>c. \<not> (c = CHR '','' \<or> is_space c)) (formatStep s)" "formatStep s \<noteq> []"
proof -
  have ok: "list_all token_ok (mod_names (step_mods s) @ [code_name s])"
    using mod_names_tokens formatStep_token(1) [OF assms] by simp
  have "\<not> (CHR ''+'' = CHR '','' \<or> is_space (CHR ''+''))" by code_simp
  moreover have "list_all (list_all (\<lambda>c. \<not> (c = CHR '','' \<or> is_space c))) (mod_names (step_mods s) @ [code_name s])"
    using ok by (auto simp: list_all_iff token_ok_def token_char_def)
  ultimately show "list_all (\<lambda>c. \<not> (c = CHR '','' \<or> is_space c)) (formatStep s)"
    unfolding formatStep_def by (intro join_chars) simp_all
  show "formatStep s \<noteq> []"
    using parseSpec_tokens(2) [OF mod_names_tokens formatStep_token(1) [OF assms]] by (simp add: formatStep_def)
qed

lemma chord_parts:
  assumes "list_all (\<lambda>t. t \<noteq> [] \<and> list_all (\<lambda>c. \<not> P c) t) ts" "P x" "P y"
  shows "filter (\<lambda>s. length s > 0) (split_by P (join [x, y] ts)) = ts"
  using assms
proof (induction "[x, y]" ts rule: join.induct)
  case (2 t)
  then show ?case by (simp add: split_by_none)
next
  case (3 t u ts)
  then show ?case by (simp add: split_by_step)
qed simp

lemma parse_all_map: "list_all (\<lambda>s. parseSpec (f s) = Inr (g s)) ss \<Longrightarrow> parse_all (map f ss) = Inr (map g ss)"
  by (induction ss) auto

text \<open>
  C31: Every non-empty chord of steps that have a name is printed as a specification that parses
  back to the same steps.
\<close>

theorem chord_print_parse:
  assumes "steps \<noteq> []" "list_all named_step steps"
  shows "parseChord (formatChord steps) = Inr (map Parsed steps)"
proof -
  have sp: "is_space (CHR '' '')" by code_simp
  have "list_all (\<lambda>t. t \<noteq> [] \<and> list_all (\<lambda>c. \<not> (c = CHR '','' \<or> is_space c)) t) (map formatStep steps)"
    using assms(2) formatStep_chars by (auto simp: list_all_iff)
  from chord_parts [OF this, of "CHR '',''" "CHR '' ''"] sp
  have "filter (\<lambda>s. length s > 0) (split_by (\<lambda>c. c = CHR '','' \<or> is_space c) (formatChord steps)) = map formatStep steps"
    by (simp add: formatChord_def)
  moreover have "parse_all (map formatStep steps) = Inr (map Parsed steps)"
    by (rule parse_all_map) (use assms(2) formatStep_token(2) in \<open>auto simp: list_all_iff\<close>)
  ultimately show ?thesis using assms(1) by (simp add: parseChord_def)
qed

theorem chord_print_parse_witness:
  "parseChord (formatChord [KeyStep (MOD_MOD4 OR MOD_SHIFT) 0xff0d, ButtonStep MOD_CTRL 0x112, ScrollStep 0 1])
     = Inr (map Parsed [KeyStep (MOD_MOD4 OR MOD_SHIFT) 0xff0d, ButtonStep MOD_CTRL 0x112, ScrollStep 0 1])"
proof -
  have "list_all named_step [KeyStep (MOD_MOD4 OR MOD_SHIFT) 0xff0d, ButtonStep MOD_CTRL 0x112, ScrollStep 0 1]"
    by code_simp
  from chord_print_parse [OF _ this] show ?thesis by simp
qed

text \<open>
  A specification that ends in \<open>constructor\<close>, a name no table lists, is accepted as a button
  step whose button is the inherited property, and as a modifier it is accepted and ignored.
\<close>

lemma inherited_names_accepted:
  "parseSpec ''Mod+Constructor'' = Inr (InheritedButton MOD_MOD4 ''constructor'')
   \<and> parseSpec ''constructor+a'' = Inr (Parsed (KeyStep 0 97))"
  by code_simp

end
