(* ===== verification/Binding_Chain.thy ===== *)
theory Binding_Chain
  imports Keyspec "HOL-Library.Sublist"
begin

unbundle bit_operations_syntax

declare map_of_eq_Some_iff [simp del] Some_eq_map_of_iff [simp del]

text \<open>
  \<open>packages/core/src/input/binding-chain.ts\<close>: the seat's key bindings, one trie of chords per mode
  and a stack of active modes. Handlers and callbacks are opaque numbers; calling them is an effect.
  Mode definitions are objects the frames share, so they live in a store \<open>ch_defs\<close> and frames and
  the map of modes hold their address. A frame's path pointer is the list of keys from its root: the
  pointer of the top frame is reset whenever a node of its trie is removed, the pointers of lower
  frames are reset before they are read again. The stack is never empty, so its top is a field of
  its own. The listener is taken not to call back into the chain.
\<close>

section \<open>Data\<close>

record binding =
  bd_id :: nat
  bd_steps :: "input_step list"
  bd_handler :: nat
  bd_release :: "nat option"
  bd_priority :: number
  bd_mode :: string

datatype trie = Node (node_binding: "binding option") (node_children: "(string \<times> trie) list")

record mode_def =
  md_name :: string
  md_root :: trie
  md_exitOnEscape :: bool

record mode_frame =
  fr_def :: nat
  fr_path :: "string list"

record held_instance =
  hi_binding :: binding
  hi_triggerStep :: input_step
  hi_heldMods :: mods
  hi_triggerHeld :: bool

datatype chain_event =
    ModePushed string "string list"
  | ModePopped string "string list"
  | ChordEntered string string
  | ChordCancelled string string
  | ChordMatched string string

datatype chain_effect =
    Notify chain_event
  | CallHandler nat input_step "input_step list"
  | CallRelease nat "input_step list"

record chain =
  ch_modes :: "(string, nat) omap"
  ch_defs :: "nat \<Rightarrow> mode_def"
  ch_top :: mode_frame
  ch_below :: "mode_frame list"
  ch_listener :: bool
  ch_held :: "held_instance list"
  ch_next :: nat

datatype chain_error =
    EmptyModeName | BuiltinMode | ModeAlreadyDefined string | ModeNotDefined string
  | EmptySteps | ReleaseOnChord | PointerStepMidChord
  | MaskedBy string string string | DuplicateBinding string string | WouldMask string string

record bind_spec =
  bs_steps :: "input_step list"
  bs_mode :: "string option"
  bs_handler :: nat
  bs_release :: "nat option"
  bs_priority :: "number option"

definition ESCAPE_KEYSYM :: int where
  "ESCAPE_KEYSYM = 0xff1b"

definition IGNORED_MODS :: mods where
  "IGNORED_MODS = MOD_LOCK OR MOD_MOD2"

definition newNode :: trie where
  "newNode = Node None []"

section \<open>Keys of steps\<close>

fun step_code :: "input_step \<Rightarrow> int" where
  "step_code (KeyStep _ k) = k"
| "step_code (ButtonStep _ b) = b"
| "step_code (ScrollStep _ d) = d"

fun step_kind :: "input_step \<Rightarrow> string" where
  "step_kind (KeyStep _ _) = ''k''"
| "step_kind (ButtonStep _ _) = ''b''"
| "step_kind (ScrollStep _ _) = ''s''"

definition stepKey :: "input_step \<Rightarrow> string" where
  "stepKey step = to_base 10 (uint (step_mods step)) @ '':'' @ step_kind step @ '':'' @ to_base 10 (step_code step)"

definition parseStepKey :: "string \<Rightarrow> input_step" where
  "parseStepKey key =
     (case split_by (\<lambda>c. c = CHR '':'') key of
        modsStr # kindChar # codeStr # _ \<Rightarrow>
          (let mods = of_int (of_dec modsStr); code = of_dec codeStr
           in if kindChar = ''b'' then ButtonStep mods code
              else if kindChar = ''s'' then ScrollStep mods code
              else KeyStep mods code)
      | _ \<Rightarrow> KeyStep 0 0)"

fun with_mods :: "mods \<Rightarrow> input_step \<Rightarrow> input_step" where
  "with_mods m (KeyStep _ k) = KeyStep m k"
| "with_mods m (ButtonStep _ b) = ButtonStep m b"
| "with_mods m (ScrollStep _ d) = ScrollStep m d"

section \<open>Tries\<close>

fun node_at :: "trie \<Rightarrow> string list \<Rightarrow> trie option" where
  "node_at t [] = Some t"
| "node_at (Node b ch) (k # ks) = (case oget ch k of None \<Rightarrow> None | Some t \<Rightarrow> node_at t ks)"

datatype bind_conflict = Masked binding | Duplicate | Masking

text \<open>
  The walk of \<open>bind\<close>: creating nodes on the way, refusing to pass a binding, then placing the leaf.
  A refusal happens before a node is created.
\<close>

fun trie_bind :: "binding \<Rightarrow> string list \<Rightarrow> trie \<Rightarrow> bind_conflict + trie" where
  "trie_bind b [] (Node b' ch) =
     (if b' \<noteq> None then Inl Duplicate else if length ch > 0 then Inl Masking else Inr (Node (Some b) ch))"
| "trie_bind b (k # ks) (Node b' ch) =
     (case b' of
        Some existing \<Rightarrow> Inl (Masked existing)
      | None \<Rightarrow>
          (case trie_bind b ks (case oget ch k of None \<Rightarrow> newNode | Some t \<Rightarrow> t) of
             Inl err \<Rightarrow> Inl err
           | Inr t \<Rightarrow> Inr (Node None (oset k t ch))))"

text \<open>Dropping a leaf's binding and pruning the nodes left empty, bottom up.\<close>

fun trie_unbind :: "string list \<Rightarrow> trie \<Rightarrow> trie" where
  "trie_unbind [] (Node b ch) = Node None ch"
| "trie_unbind (k # ks) (Node b ch) =
     (case oget ch k of
        None \<Rightarrow> Node b ch
      | Some t \<Rightarrow>
          (let t' = trie_unbind ks t
           in if length (node_children t') = 0 \<and> node_binding t' = None then Node b (odel k ch)
              else Node b (oset k t' ch)))"

section \<open>Operations\<close>

definition chain_new :: chain where
  "chain_new = \<lparr>ch_modes = [(''default'', 0)],
     ch_defs = (\<lambda>_. \<lparr>md_name = ''default'', md_root = newNode, md_exitOnEscape = False\<rparr>),
     ch_top = \<lparr>fr_def = 0, fr_path = []\<rparr>, ch_below = [], ch_listener = False, ch_held = [], ch_next = 1\<rparr>"

definition setListener :: "chain \<Rightarrow> bool \<Rightarrow> chain" where
  "setListener c on = c\<lparr>ch_listener := on\<rparr>"

definition emit :: "chain \<Rightarrow> chain_event \<Rightarrow> chain_effect list" where
  "emit c ev = (if ch_listener c then [Notify ev] else [])"

definition def_of :: "chain \<Rightarrow> mode_frame \<Rightarrow> mode_def" where
  "def_of c f = ch_defs c (fr_def f)"

definition set_root :: "chain \<Rightarrow> nat \<Rightarrow> trie \<Rightarrow> chain" where
  "set_root c d t = c\<lparr>ch_defs := (ch_defs c)(d := (ch_defs c d)\<lparr>md_root := t\<rparr>)\<rparr>"

definition set_path :: "chain \<Rightarrow> string list \<Rightarrow> chain" where
  "set_path c p = c\<lparr>ch_top := (ch_top c)\<lparr>fr_path := p\<rparr>\<rparr>"

definition stackNames :: "chain \<Rightarrow> string list" where
  "stackNames c = map (\<lambda>f. md_name (def_of c f)) (rev (ch_top c # ch_below c))"

definition defineMode :: "chain \<Rightarrow> string \<Rightarrow> bool option \<Rightarrow> chain_error + chain" where
  "defineMode c name exitOnEscape =
     (if length name = 0 then Inl EmptyModeName
      else if name = ''default'' then Inl BuiltinMode
      else if oget (ch_modes c) name \<noteq> None then Inl (ModeAlreadyDefined name)
      else Inr (c\<lparr>ch_defs := (ch_defs c)(ch_next c := \<lparr>md_name = name, md_root = newNode,
                    md_exitOnEscape = (case exitOnEscape of None \<Rightarrow> True | Some e \<Rightarrow> e)\<rparr>),
                  ch_modes := oset name (ch_next c) (ch_modes c), ch_next := ch_next c + 1\<rparr>))"

definition pushMode :: "chain \<Rightarrow> string \<Rightarrow> chain_error + (chain \<times> chain_effect list)" where
  "pushMode c name =
     (case oget (ch_modes c) name of
        None \<Rightarrow> Inl (ModeNotDefined name)
      | Some d \<Rightarrow>
          if fr_def (ch_top c) = d then Inr (c, [])
          else
            (let c1 = c\<lparr>ch_top := \<lparr>fr_def = d, fr_path = []\<rparr>, ch_below := ch_top c # ch_below c\<rparr>
             in Inr (c1, emit c1 (ModePushed name (stackNames c1)))))"

definition popMode :: "chain \<Rightarrow> chain \<times> chain_effect list" where
  "popMode c =
     (case ch_below c of
        [] \<Rightarrow> (c, [])
      | newTop # rest \<Rightarrow>
          (let top = ch_top c;
               c1 = c\<lparr>ch_top := newTop\<lparr>fr_path := []\<rparr>, ch_below := rest\<rparr>
           in (c1, emit c1 (ModePopped (md_name (def_of c top)) (stackNames c1)))))"

function pop_frames :: "nat \<Rightarrow> chain \<Rightarrow> chain \<times> chain_effect list" where
  "pop_frames d c =
     (if length (ch_below c) + 1 > 1 \<and> fr_def (ch_top c) = d
      then (let (c1, fx1) = popMode c; (c2, fx2) = pop_frames d c1 in (c2, fx1 @ fx2))
      else (c, []))"
  by pat_completeness auto
termination
  by (relation "measure (\<lambda>(_, c). length (ch_below c))") (auto simp: popMode_def Let_def split: list.splits)

declare pop_frames.simps [simp del]

definition undefineMode :: "chain \<Rightarrow> string \<Rightarrow> chain \<times> chain_effect list" where
  "undefineMode c name =
     (case oget (ch_modes c) name of
        None \<Rightarrow> (c, [])
      | Some d \<Rightarrow>
          (let (c1, fx) = pop_frames d c in (c1\<lparr>ch_modes := odel name (ch_modes c1)\<rparr>, fx)))"

definition conflict_error :: "binding \<Rightarrow> string \<Rightarrow> bind_conflict \<Rightarrow> chain_error" where
  "conflict_error b modeName conflict =
     (case conflict of
        Masked existing \<Rightarrow> MaskedBy (formatChord (bd_steps b)) (formatChord (bd_steps existing)) modeName
      | Duplicate \<Rightarrow> DuplicateBinding (formatChord (bd_steps b)) modeName
      | Masking \<Rightarrow> WouldMask (formatChord (bd_steps b)) modeName)"

definition bind_keys :: "chain \<Rightarrow> bind_spec \<Rightarrow> chain_error + chain" where
  "bind_keys c spec =
     (if length (bs_steps spec) = 0 then Inl EmptySteps
      else if bs_release spec \<noteq> None \<and> length (bs_steps spec) > 1 then Inl ReleaseOnChord
      else if list_ex (\<lambda>s. isButtonStep s \<or> isScrollStep s) (butlast (bs_steps spec)) then Inl PointerStepMidChord
      else
        (let modeName = (case bs_mode spec of None \<Rightarrow> ''default'' | Some m \<Rightarrow> m)
         in case oget (ch_modes c) modeName of
              None \<Rightarrow> Inl (ModeNotDefined modeName)
            | Some d \<Rightarrow>
                (let b = \<lparr>bd_id = ch_next c, bd_steps = bs_steps spec, bd_handler = bs_handler spec,
                          bd_release = bs_release spec,
                          bd_priority = (case bs_priority spec of None \<Rightarrow> 0 | Some p \<Rightarrow> p), bd_mode = modeName\<rparr>
                 in case trie_bind b (map stepKey (bd_steps b)) (md_root (ch_defs c d)) of
                      Inl conflict \<Rightarrow> Inl (conflict_error b modeName conflict)
                    | Inr t \<Rightarrow> Inr ((set_root c d t)\<lparr>ch_next := ch_next c + 1\<rparr>))))"

text \<open>The handle \<open>bind\<close> returns remembers the mode's name and the steps.\<close>

definition unbindLeaf :: "chain \<Rightarrow> string \<Rightarrow> input_step list \<Rightarrow> chain" where
  "unbindLeaf c modeName steps =
     (case oget (ch_modes c) modeName of
        None \<Rightarrow> c
      | Some d \<Rightarrow>
          (case node_at (md_root (ch_defs c d)) (map stepKey steps) of
             None \<Rightarrow> c
           | Some node \<Rightarrow>
               (case node_binding node of
                  None \<Rightarrow> c
                | Some b \<Rightarrow>
                    (let c1 = c\<lparr>ch_held := filter (\<lambda>h. bd_id (hi_binding h) \<noteq> bd_id b) (ch_held c)\<rparr>;
                         c2 = set_root c1 d (trie_unbind (map stepKey steps) (md_root (ch_defs c1 d)))
                     in if fr_def (ch_top c2) = d then set_path c2 [] else c2))))"

text \<open>The steps of the path pointer: the pointer is the path itself.\<close>

definition pathToSteps :: "string list \<Rightarrow> input_step list" where
  "pathToSteps path = map parseStepKey path"

definition currentPath :: "chain \<Rightarrow> input_step list" where
  "currentPath c = pathToSteps (fr_path (ch_top c))"

record press_result =
  pr_consume :: bool
  pr_matched :: bool

definition children_of :: "chain \<Rightarrow> (string \<times> trie) list" where
  "children_of c =
     (case node_at (md_root (def_of c (ch_top c))) (fr_path (ch_top c)) of
        None \<Rightarrow> [] | Some node \<Rightarrow> node_children node)"

definition is_key_step :: "input_step \<Rightarrow> bool" where
  "is_key_step s \<longleftrightarrow> \<not> isButtonStep s \<and> \<not> isScrollStep s"

definition fire :: "chain \<Rightarrow> binding \<Rightarrow> input_step \<Rightarrow> input_step \<Rightarrow> chain \<times> chain_effect list" where
  "fire c b step compareStep =
     (let c1 = set_path c [];
          c2 = (if bd_release b \<noteq> None
                then c1\<lparr>ch_held := ch_held c1 @ [\<lparr>hi_binding = b, hi_triggerStep = compareStep,
                       hi_heldMods = step_mods compareStep, hi_triggerHeld = True\<rparr>]\<rparr>
                else c1)
      in (c2, emit c (ChordMatched (md_name (def_of c (ch_top c))) (formatChord (bd_steps b)))
              @ [CallHandler (bd_handler b) step (bd_steps b)]))"

definition dispatchPress :: "chain \<Rightarrow> input_step \<Rightarrow> chain \<times> chain_effect list \<times> press_result" where
  "dispatchPress c step =
     (let compareStep = with_mods (step_mods step AND NOT IGNORED_MODS) step;
          key = stepKey compareStep;
          topDef = def_of c (ch_top c);
          path = fr_path (ch_top c)
      in case oget (children_of c) key of
           Some next \<Rightarrow>
             (case node_binding next of
                Some b \<Rightarrow> (let (c1, fx) = fire c b step compareStep
                            in (c1, fx, \<lparr>pr_consume = True, pr_matched = True\<rparr>))
              | None \<Rightarrow>
                  (let c1 = set_path c (path @ [key])
                   in (c1, emit c1 (ChordEntered (md_name topDef) (formatChord (pathToSteps (path @ [key])))),
                       \<lparr>pr_consume = True, pr_matched = False\<rparr>)))
         | None \<Rightarrow>
             if is_key_step compareStep \<and> isModifierKeysym (step_code compareStep)
             then (c, [], \<lparr>pr_consume = length (ch_below c) > 0, pr_matched = False\<rparr>)
             else if length (ch_below c) > 0 \<and> md_exitOnEscape topDef \<and> path = [] \<and> is_key_step compareStep
                     \<and> step_code compareStep = ESCAPE_KEYSYM \<and> step_mods compareStep = 0
             then (let (c1, fx) = popMode c in (c1, fx, \<lparr>pr_consume = True, pr_matched = False\<rparr>))
             else
               (let (c1, fx) = (if path \<noteq> []
                                then (set_path c [], emit c (ChordCancelled (md_name topDef) (formatStep compareStep)))
                                else (c, []))
                in (c1, fx, \<lparr>pr_consume = (length (ch_below c) > 0 \<and> is_key_step compareStep),
                             pr_matched = False\<rparr>)))"

datatype release_event = KeyUp int | ButtonUp int | ModUp mods

definition participate :: "release_event \<Rightarrow> held_instance \<Rightarrow> held_instance option" where
  "participate ev h =
     (case ev of
        ModUp m \<Rightarrow>
          if hi_heldMods h AND m \<noteq> 0 then Some (h\<lparr>hi_heldMods := hi_heldMods h AND NOT m\<rparr>) else None
      | KeyUp k \<Rightarrow>
          if hi_triggerHeld h \<and> is_key_step (hi_triggerStep h) \<and> step_code (hi_triggerStep h) = k
          then Some (h\<lparr>hi_triggerHeld := False\<rparr>) else None
      | ButtonUp b \<Rightarrow>
          if hi_triggerHeld h \<and> isButtonStep (hi_triggerStep h) \<and> step_code (hi_triggerStep h) = b
          then Some (h\<lparr>hi_triggerHeld := False\<rparr>) else None)"

definition spent :: "held_instance \<Rightarrow> bool" where
  "spent h \<longleftrightarrow> hi_heldMods h = 0 \<and> \<not> hi_triggerHeld h"

text \<open>The loop over the instances, newest first: those that stay, those drained, whether any took part.\<close>

fun release_loop :: "release_event \<Rightarrow> held_instance list \<Rightarrow> held_instance list \<times> held_instance list \<times> bool" where
  "release_loop ev [] = ([], [], False)"
| "release_loop ev (h # hs) =
     (let (keep, drained, anyPart) = release_loop ev hs
      in case participate ev h of
           None \<Rightarrow> (h # keep, drained, anyPart)
         | Some h' \<Rightarrow> if spent h' then (keep, h' # drained, True) else (h' # keep, drained, True))"

definition dispatchRelease :: "chain \<Rightarrow> release_event \<Rightarrow> chain \<times> chain_effect list \<times> bool" where
  "dispatchRelease c ev =
     (if length (ch_held c) = 0 then (c, [], False)
      else
        (let (keep, drained, anyParticipated) = release_loop ev (rev (ch_held c))
         in (c\<lparr>ch_held := rev keep\<rparr>,
             concat (map (\<lambda>h. case bd_release (hi_binding h) of
                None \<Rightarrow> [] | Some r \<Rightarrow> [CallRelease r (bd_steps (hi_binding h))]) drained),
             anyParticipated)))"

definition heldCount :: "chain \<Rightarrow> nat" where
  "heldCount c = length (ch_held c)"

section \<open>Tries as finite maps\<close>

definition bound :: "trie \<Rightarrow> string list \<Rightarrow> binding option" where
  "bound t ks = (case node_at t ks of None \<Rightarrow> None | Some n \<Rightarrow> node_binding n)"

definition bare :: "trie \<Rightarrow> bool" where
  "bare t \<longleftrightarrow> node_binding t = None \<and> node_children t = []"

text \<open>A node with a binding has no children, and no child is bare.\<close>

inductive trie_ok :: "trie \<Rightarrow> bool" where
  node: "distinct (okeys ch) \<Longrightarrow> b \<noteq> None \<longrightarrow> ch = [] \<Longrightarrow>
    \<forall>k t. oget ch k = Some t \<longrightarrow> trie_ok t \<and> \<not> bare t \<Longrightarrow> trie_ok (Node b ch)"

inductive_simps trie_ok_Node [simp]: "trie_ok (Node b ch)"

lemma bare_Node [simp]: "bare (Node b ch) \<longleftrightarrow> b = None \<and> ch = []"
  by (simp add: bare_def)

lemma trie_ok_new [simp]: "trie_ok newNode"
  by (simp add: newNode_def)

lemma bound_simps [simp]:
  "bound (Node b ch) [] = b"
  "bound (Node b ch) (k # ks) = (case oget ch k of None \<Rightarrow> None | Some t \<Rightarrow> bound t ks)"
  by (simp_all add: bound_def split: option.splits)

lemma bound_new [simp]: "bound newNode ks = None"
  by (cases ks) (simp_all add: newNode_def)

lemma node_at_append:
  "node_at t (ks @ ks') = (case node_at t ks of None \<Rightarrow> None | Some u \<Rightarrow> node_at u ks')"
  by (induction t ks rule: node_at.induct) (auto split: option.splits)

lemma bound_append: "node_at t ks = Some u \<Longrightarrow> bound t (ks @ ks') = bound u ks'"
  by (simp add: bound_def node_at_append)

lemma bound_node: "bound t (ks @ ks') = Some b \<Longrightarrow> \<exists>n. node_at t ks = Some n"
  by (auto simp: bound_def node_at_append split: option.splits)

lemma node_at_ok: "trie_ok t \<Longrightarrow> node_at t ks = Some u \<Longrightarrow> trie_ok u"
  by (induction t ks rule: node_at.induct) (auto split: option.splits)

lemma node_at_not_bare: "trie_ok t \<Longrightarrow> node_at t (k # ks) = Some u \<Longrightarrow> \<not> bare u"
proof (induction ks arbitrary: t k)
  case Nil
  then show ?case by (cases t) (auto split: option.splits)
next
  case (Cons k' ks)
  obtain b ch where t: "t = Node b ch" by (cases t)
  from Cons.prems obtain v where v: "oget ch k = Some v" "node_at v (k' # ks) = Some u"
    by (auto simp: t split: option.splits)
  with Cons.prems(1) have "trie_ok v" by (auto simp: t)
  from Cons.IH [OF this v(2)] show ?case .
qed

lemma child_size: "oget ch k = Some t \<Longrightarrow> size t < size (Node b ch)"
proof (induction ch)
  case (Cons p ch)
  then show ?case by (cases p) (auto split: if_splits)
qed simp

text \<open>Every node that is not bare leads to a binding.\<close>

lemma bound_somewhere: "trie_ok t \<Longrightarrow> \<not> bare t \<Longrightarrow> \<exists>ks b. bound t ks = Some b"
proof (induction rule: trie_ok.induct)
  case (node ch b)
  show ?case
  proof (cases b)
    case (Some x)
    then have "bound (Node b ch) [] = Some x" by simp
    then show ?thesis by blast
  next
    case None
    with node.prems obtain p ch' where ch: "ch = p # ch'" by (cases ch) auto
    obtain k t where p: "p = (k, t)" by (cases p)
    have "oget ch k = Some t" by (simp add: ch p)
    with node.IH obtain ks x where "bound t ks = Some x" by blast
    then have "bound (Node b ch) (k # ks) = Some x" by (simp add: ch p)
    then show ?thesis by blast
  qed
qed

text \<open>Chords are prefix-free.\<close>

lemma bound_leaf:
  assumes "trie_ok t" "bound t ks = Some b" "node_at t (ks @ ks') = Some u"
  shows "ks' = []"
proof -
  from assms(2) obtain v where v: "node_at t ks = Some v" "node_binding v = Some b"
    by (auto simp: bound_def split: option.splits)
  with node_at_ok [OF assms(1) v(1)] assms(3) show ?thesis
    by (cases v; cases ks') (auto simp: node_at_append)
qed

lemma bound_prefix_free:
  assumes "trie_ok t" "bound t ks \<noteq> None" "bound t (ks @ ks') \<noteq> None"
  shows "ks' = []"
proof -
  from assms(2) obtain b where "bound t ks = Some b" by blast
  moreover from assms(3) obtain u where "node_at t (ks @ ks') = Some u" by (auto simp: bound_def split: option.splits)
  ultimately show ?thesis by (rule bound_leaf [OF assms(1)])
qed

definition clashes :: "trie \<Rightarrow> string list \<Rightarrow> bool" where
  "clashes t ks \<longleftrightarrow> (\<exists>ks'. bound t ks' \<noteq> None \<and> (prefix ks ks' \<or> prefix ks' ks))"

definition child_or_new :: "(string \<times> trie) list \<Rightarrow> string \<Rightarrow> trie" where
  "child_or_new ch k = (case oget ch k of None \<Rightarrow> newNode | Some t \<Rightarrow> t)"

lemma bound_child: "bound (Node b ch) (k # ks) = bound (child_or_new ch k) ks"
  by (simp add: child_or_new_def split: option.splits)

lemma clashes_Cons: "clashes (Node None ch) (k # ks) \<longleftrightarrow> clashes (child_or_new ch k) ks"
proof
  assume "clashes (Node None ch) (k # ks)"
  then obtain ks' where k: "bound (Node None ch) ks' \<noteq> None" "prefix (k # ks) ks' \<or> prefix ks' (k # ks)"
    by (auto simp: clashes_def)
  then obtain ks2 where "ks' = k # ks2" "prefix ks ks2 \<or> prefix ks2 ks" by (cases ks') auto
  with k(1) show "clashes (child_or_new ch k) ks" unfolding clashes_def by (metis bound_child)
next
  assume "clashes (child_or_new ch k) ks"
  then obtain ks2 where "bound (child_or_new ch k) ks2 \<noteq> None" "prefix ks ks2 \<or> prefix ks2 ks"
    by (auto simp: clashes_def)
  then have "bound (Node None ch) (k # ks2) \<noteq> None" "prefix (k # ks) (k # ks2) \<or> prefix (k # ks2) (k # ks)"
    unfolding bound_child by simp_all
  then show "clashes (Node None ch) (k # ks)" unfolding clashes_def by blast
qed

lemma clashes_bound: "clashes (Node (Some x) ch) ks"
  unfolding clashes_def by (rule exI [of _ "[]"]) simp

lemma clashes_here:
  assumes "trie_ok (Node b ch)" "ch \<noteq> []"
  shows "clashes (Node b ch) []"
  using bound_somewhere [OF assms(1)] assms(2) by (auto simp: clashes_def)

lemma no_clash_new [simp]: "\<not> clashes newNode ks"
  by (simp add: clashes_def)

lemma trie_bind_spec:
  assumes "trie_ok t"
  shows "case trie_bind b ks t of
      Inr t' \<Rightarrow> \<not> clashes t ks \<and> trie_ok t' \<and> \<not> bare t' \<and> bound t' = (bound t)(ks \<mapsto> b)
        \<and> (\<forall>p. node_at t p \<noteq> None \<longrightarrow> node_at t' p \<noteq> None)
    | Inl Duplicate \<Rightarrow> bound t ks \<noteq> None
    | Inl (Masked x) \<Rightarrow> \<exists>ks' k ks2. ks = ks' @ k # ks2 \<and> bound t ks' = Some x
    | Inl Masking \<Rightarrow> \<exists>k ks'. bound t (ks @ k # ks') \<noteq> None"
  using assms
proof (induction b ks t rule: trie_bind.induct)
  case (1 b b' ch)
  consider x where "b' = Some x" | "b' = None" "ch \<noteq> []" | "b' = None" "ch = []" by (cases b') auto
  then show ?case
  proof cases
    case 2
    obtain k t ch' where ch: "ch = (k, t) # ch'" using 2 by (cases ch) auto
    then have "oget ch k = Some t" by simp
    with 1 have "trie_ok t" "\<not> bare t" unfolding trie_ok_Node by blast+
    from bound_somewhere [OF this] obtain ks x where "bound t ks = Some x" by blast
    then have "bound (Node b' ch) ([] @ k # ks) \<noteq> None" by (simp add: ch)
    with 2 show ?thesis by auto
  next
    case 3
    have "\<not> clashes (Node None []) []" using no_clash_new [of "[]"] by (simp add: newNode_def)
    moreover have "bound (Node (Some b) []) = (bound (Node None []))([] \<mapsto> b)"
    proof (rule ext)
      fix ks show "bound (Node (Some b) []) ks = ((bound (Node None []))([] \<mapsto> b)) ks" by (cases ks) simp_all
    qed
    moreover have "node_at (Node (Some b) []) p \<noteq> None" if "node_at (Node None []) p \<noteq> None" for p
      using that by (cases p) simp_all
    ultimately show ?thesis using 3 by simp
  qed simp
next
  case (2 b k ks b' ch)
  show ?case
  proof (cases b')
    case (Some x)
    then have "k # ks = [] @ k # ks \<and> bound (Node b' ch) [] = Some x" by simp
    then have "\<exists>p k2 ks2. k # ks = p @ k2 # ks2 \<and> bound (Node b' ch) p = Some x" by blast
    moreover have e: "trie_bind b (k # ks) (Node b' ch) = Inl (Masked x)" using Some by simp
    ultimately show ?thesis unfolding e by (simp only: sum.case bind_conflict.case)
  next
    case None
    let ?u = "child_or_new ch k"
    have u: "trie_ok ?u" using "2.prems" by (auto simp: child_or_new_def split: option.splits)
    note ih = "2.IH" [OF None, folded child_or_new_def, OF u]
    show ?thesis
    proof (cases "trie_bind b ks ?u")
      case (Inl err)
      show ?thesis
      proof (cases err)
        case (Masked x)
        with ih Inl obtain ks' k' ks2 where "ks = ks' @ k' # ks2" "bound ?u ks' = Some x" by auto
        then have "k # ks = (k # ks') @ k' # ks2 \<and> bound (Node b' ch) (k # ks') = Some x"
          unfolding bound_child by simp
        then have "\<exists>p k2 ks2. k # ks = p @ k2 # ks2 \<and> bound (Node b' ch) p = Some x" by blast
        moreover have e: "trie_bind b (k # ks) (Node b' ch) = Inl (Masked x)"
          using Inl Masked None by (simp add: child_or_new_def)
        ultimately show ?thesis unfolding e by (simp only: sum.case bind_conflict.case)
      next
        case Duplicate
        with ih Inl None show ?thesis by (simp add: child_or_new_def [symmetric] bound_child del: bound_simps)
      next
        case Masking
        with ih Inl obtain k' ks' where "bound ?u (ks @ k' # ks') \<noteq> None" by auto
        then have "bound (Node b' ch) ((k # ks) @ k' # ks') \<noteq> None" by (simp add: bound_child del: bound_simps)
        then have "\<exists>k2 p. bound (Node b' ch) ((k # ks) @ k2 # p) \<noteq> None" by blast
        moreover have e: "trie_bind b (k # ks) (Node b' ch) = Inl Masking"
          using Inl Masking None by (simp add: child_or_new_def)
        ultimately show ?thesis unfolding e by (simp only: sum.case bind_conflict.case)
      qed
    next
      case (Inr u')
      with ih have u': "\<not> clashes ?u ks" "trie_ok u'" "\<not> bare u'" "bound u' = (bound ?u)(ks \<mapsto> b)"
        "\<forall>p. node_at ?u p \<noteq> None \<longrightarrow> node_at u' p \<noteq> None" by auto
      let ?t = "Node None (oset k u' ch)"
      have e: "trie_bind b (k # ks) (Node b' ch) = Inr ?t" using None Inr by (simp add: child_or_new_def)
      have "\<not> clashes (Node b' ch) (k # ks)" using u'(1) None by (simp add: clashes_Cons)
      moreover have "trie_ok ?t" using "2.prems" u'(2,3) by (auto split: if_splits)
      moreover have "\<not> bare ?t" by (simp add: update_nonempty)
      moreover have "bound ?t p = ((bound (Node b' ch))(k # ks \<mapsto> b)) p" for p
      proof (cases p)
        case (Cons k' ks')
        show ?thesis
        proof (cases "k' = k")
          case True
          then have "bound ?t p = bound u' ks'" by (simp add: Cons)
          also have "\<dots> = ((bound ?u)(ks \<mapsto> b)) ks'" by (simp add: u'(4))
          finally show ?thesis using True by (simp add: Cons bound_child del: bound_simps)
        qed (simp add: Cons)
      qed (use None in simp)
      moreover have "node_at ?t p \<noteq> None" if "node_at (Node b' ch) p \<noteq> None" for p
        using that u'(5) by (cases p) (auto simp: child_or_new_def split: option.splits if_splits)
      ultimately show ?thesis unfolding e by (simp add: fun_eq_iff)
    qed
  qed
qed

lemma bare_bound: "bare t \<Longrightarrow> bound t ks = None"
  by (cases t; cases ks) simp_all

lemma trie_unbind_spec:
  assumes "trie_ok t" "bound t ks \<noteq> None"
  shows "trie_ok (trie_unbind ks t) \<and> bound (trie_unbind ks t) = (bound t)(ks := None)"
  using assms
proof (induction ks t rule: trie_unbind.induct)
  case (1 b ch)
  then have "ch = []" by auto
  moreover have "bound (Node None []) ks = ((bound (Node b []))([] := None)) ks" for ks by (cases ks) simp_all
  ultimately show ?case by (auto simp: fun_eq_iff)
next
  case (2 k ks b ch)
  then obtain t where t: "oget ch k = Some t" "bound t ks \<noteq> None" by (auto split: option.splits)
  with "2.prems"(1) have b: "b = None" and ok: "trie_ok t" by auto
  from "2.IH" [OF t(1) ok t(2)] have ih: "trie_ok (trie_unbind ks t)"
    "bound (trie_unbind ks t) = (bound t)(ks := None)" by blast+
  define u where "u = trie_unbind ks t"
  show ?case
  proof (cases "bare u")
    case True
    then have e: "trie_unbind (k # ks) (Node b ch) = Node b (odel k ch)"
      using t by (simp add: Let_def u_def bare_def)
    have "bound (Node b (odel k ch)) p = ((bound (Node b ch))(k # ks := None)) p" for p
    proof (cases p)
      case (Cons k' ks')
      show ?thesis
      proof (cases "k' = k")
        case True
        have "((bound t)(ks := None)) ks' = None" using ih(2) bare_bound [OF \<open>bare u\<close>] by (simp add: u_def)
        then show ?thesis using True t by (auto simp: Cons split: if_splits)
      qed (simp add: Cons)
    qed simp
    with e "2.prems"(1) show ?thesis by (auto simp: fun_eq_iff b)
  next
    case False
    then have e: "trie_unbind (k # ks) (Node b ch) = Node b (oset k u ch)"
      using t by (auto simp: Let_def u_def bare_def)
    have "bound (Node b (oset k u ch)) p = ((bound (Node b ch))(k # ks := None)) p" for p
    proof (cases p)
      case (Cons k' ks')
      then show ?thesis using ih(2) t by (auto simp: u_def)
    qed simp
    moreover have "trie_ok (Node b (oset k u ch))"
      using "2.prems"(1) ih(1) False by (auto simp: b u_def split: if_splits)
    ultimately show ?thesis unfolding e by (simp add: fun_eq_iff)
  qed
qed

section \<open>Keys read back\<close>

definition dec_digit :: "char \<Rightarrow> bool" where
  "dec_digit c \<longleftrightarrow> 48 \<le> code_of c \<and> code_of c \<le> 57"

lemma digit_code: "0 \<le> d \<Longrightarrow> d < 10 \<Longrightarrow> code_of (digit d) = 48 + d"
  by (simp add: code_of_def digit_def)

lemma digit_dec: "0 \<le> d \<Longrightarrow> d < 10 \<Longrightarrow> dec_digit (digit d)"
  by (simp add: dec_digit_def digit_code)

lemma of_dec_snoc: "of_dec (s @ [c]) = 10 * of_dec s + (code_of c - 48)"
  by (simp add: of_dec_def)

lemma to_base_dec: "0 \<le> n \<Longrightarrow> of_dec (to_base 10 n) = n \<and> list_all dec_digit (to_base 10 n)"
proof (induction "10 :: int" n rule: to_base.induct)
  case (1 n)
  show ?case
  proof (cases "n < 10")
    case True
    with 1 show ?thesis by (simp add: to_base.simps of_dec_def digit_code digit_dec)
  next
    case False
    with 1 have ih: "of_dec (to_base 10 (n div 10)) = n div 10 \<and> list_all dec_digit (to_base 10 (n div 10))" by simp
    have e: "to_base 10 n = to_base 10 (n div 10) @ [digit (n mod 10)]" using False by (subst to_base.simps) simp
    show ?thesis unfolding e of_dec_snoc using ih by (simp add: digit_code digit_dec)
  qed
qed

definition step_ok :: "input_step \<Rightarrow> bool" where
  "step_ok s \<longleftrightarrow> 0 \<le> step_code s"

lemma parse_stepKey:
  assumes "step_ok s"
  shows "parseStepKey (stepKey s) = s"
proof -
  have colon: "list_all (\<lambda>c. \<not> c = CHR '':'') u" if "list_all dec_digit u" for u
  proof -
    have "\<not> dec_digit (CHR '':'')" by code_simp
    with that show ?thesis by (auto simp: list_all_iff)
  qed
  have m: "of_dec (to_base 10 (uint (step_mods s))) = uint (step_mods s)"
    "list_all (\<lambda>c. \<not> c = CHR '':'') (to_base 10 (uint (step_mods s)))"
    using to_base_dec [of "uint (step_mods s)"] colon by simp_all
  have c: "of_dec (to_base 10 (step_code s)) = step_code s"
    "list_all (\<lambda>c. \<not> c = CHR '':'') (to_base 10 (step_code s))"
    using to_base_dec [of "step_code s"] assms colon by (simp_all add: step_ok_def)
  have k: "list_all (\<lambda>c. \<not> c = CHR '':'') (step_kind s)" by (cases s) simp_all
  have "split_by (\<lambda>c. c = CHR '':'') (stepKey s) =
      [to_base 10 (uint (step_mods s)), step_kind s, to_base 10 (step_code s)]"
    unfolding stepKey_def append_Cons append_Nil using m(2) k c(2)
    by (simp add: split_by_step split_by_none)
  then show ?thesis using m(1) c(1) by (cases s) (simp_all add: parseStepKey_def Let_def)
qed

lemma stepKey_inj: "step_ok s \<Longrightarrow> step_ok s' \<Longrightarrow> stepKey s = stepKey s' \<Longrightarrow> s = s'"
  by (metis parse_stepKey)

section \<open>Commands and the invariant\<close>

datatype chain_cmd =
    CListen bool
  | CDefineMode string "bool option"
  | CUndefineMode string
  | CBind bind_spec
  | CUnbind string "input_step list"
  | CPush string
  | CPop
  | CPress input_step
  | CRelease release_event

fun chain_do :: "chain \<Rightarrow> chain_cmd \<Rightarrow> chain \<times> (chain_error + chain_effect list)" where
  "chain_do c (CListen on) = (setListener c on, Inr [])"
| "chain_do c (CDefineMode name e) =
     (case defineMode c name e of Inl err \<Rightarrow> (c, Inl err) | Inr c' \<Rightarrow> (c', Inr []))"
| "chain_do c (CUndefineMode name) = (case undefineMode c name of (c', fx) \<Rightarrow> (c', Inr fx))"
| "chain_do c (CBind spec) = (case bind_keys c spec of Inl err \<Rightarrow> (c, Inl err) | Inr c' \<Rightarrow> (c', Inr []))"
| "chain_do c (CUnbind m steps) = (unbindLeaf c m steps, Inr [])"
| "chain_do c (CPush name) = (case pushMode c name of Inl err \<Rightarrow> (c, Inl err) | Inr (c', fx) \<Rightarrow> (c', Inr fx))"
| "chain_do c CPop = (case popMode c of (c', fx) \<Rightarrow> (c', Inr fx))"
| "chain_do c (CPress s) = (case dispatchPress c s of (c', fx, _) \<Rightarrow> (c', Inr fx))"
| "chain_do c (CRelease ev) = (case dispatchRelease c ev of (c', fx, _) \<Rightarrow> (c', Inr fx))"

text \<open>Key symbols, buttons and directions are not negative.\<close>

fun cmd_steps_ok :: "chain_cmd \<Rightarrow> bool" where
  "cmd_steps_ok (CBind spec) = list_all step_ok (bs_steps spec)"
| "cmd_steps_ok (CPress s) = step_ok s"
| "cmd_steps_ok _ = True"

definition root_of :: "chain \<Rightarrow> nat \<Rightarrow> trie" where
  "root_of c d = md_root (ch_defs c d)"

definition binding_ok :: "string list \<Rightarrow> binding \<Rightarrow> bool" where
  "binding_ok ks b \<longleftrightarrow> bd_steps b \<noteq> [] \<and> map stepKey (bd_steps b) = ks \<and> list_all step_ok (bd_steps b)
     \<and> (bd_release b \<noteq> None \<longrightarrow> length (bd_steps b) = 1)"

definition mode_ok :: "mode_def \<Rightarrow> bool" where
  "mode_ok m \<longleftrightarrow> trie_ok (md_root m) \<and> (\<forall>ks b. bound (md_root m) ks = Some b \<longrightarrow> binding_ok ks b)"

text \<open>A key the path pointer can consist of: of a step as a press presents it.\<close>

definition press_key :: "string \<Rightarrow> bool" where
  "press_key k \<longleftrightarrow> (\<exists>s. k = stepKey s \<and> step_ok s \<and> step_mods s AND IGNORED_MODS = 0)"

definition path_ok :: "chain \<Rightarrow> bool" where
  "path_ok c \<longleftrightarrow> (\<exists>n. node_at (root_of c (fr_def (ch_top c))) (fr_path (ch_top c)) = Some n \<and> node_binding n = None)
     \<and> list_all press_key (fr_path (ch_top c))"

definition chain_ok :: "chain \<Rightarrow> bool" where
  "chain_ok c \<longleftrightarrow> (\<forall>d. mode_ok (ch_defs c d)) \<and> path_ok c
     \<and> (\<forall>f \<in> set (ch_top c # ch_below c). fr_def f < ch_next c)
     \<and> (\<forall>n d. oget (ch_modes c) n = Some d \<longrightarrow> d < ch_next c \<and> md_name (ch_defs c d) = n)
     \<and> fr_def (last (ch_top c # ch_below c)) = 0 \<and> oget (ch_modes c) ''default'' = Some 0
     \<and> distinct (okeys (ch_modes c))
     \<and> (\<forall>h \<in> set (ch_held c). bd_release (hi_binding h) \<noteq> None \<and> \<not> spent h)"

lemma chain_okD:
  assumes "chain_ok c"
  shows "mode_ok (ch_defs c d)" "path_ok c" "f \<in> set (ch_top c # ch_below c) \<Longrightarrow> fr_def f < ch_next c"
    "oget (ch_modes c) n = Some d \<Longrightarrow> d < ch_next c"
    "oget (ch_modes c) n = Some d \<Longrightarrow> md_name (ch_defs c d) = n"
    "h \<in> set (ch_held c) \<Longrightarrow> bd_release (hi_binding h) \<noteq> None \<and> \<not> spent h"
  using assms by (auto simp: chain_ok_def)

lemma root_unbound: "mode_ok m \<Longrightarrow> node_binding (md_root m) = None"
proof -
  assume m: "mode_ok m"
  have "bound (md_root m) [] = node_binding (md_root m)" by (simp add: bound_def)
  with m show ?thesis by (cases "node_binding (md_root m)") (auto simp: mode_ok_def binding_ok_def)
qed

lemma path_ok_root: "mode_ok (ch_defs c (fr_def (ch_top c))) \<Longrightarrow> fr_path (ch_top c) = [] \<Longrightarrow> path_ok c"
  by (simp add: path_ok_def root_of_def root_unbound)

lemma chain_ok_new: "chain_ok chain_new"
proof -
  have "mode_ok \<lparr>md_name = ''default'', md_root = newNode, md_exitOnEscape = False\<rparr>" by (simp add: mode_ok_def)
  then show ?thesis by (auto simp: chain_ok_def chain_new_def path_ok_root)
qed

lemma chain_ok_listen: "chain_ok c \<Longrightarrow> chain_ok (setListener c on)"
  by (simp add: chain_ok_def setListener_def path_ok_def root_of_def)

lemma chain_ok_define:
  assumes c: "chain_ok c" and d: "defineMode c name e = Inr c'"
  shows "chain_ok c'"
proof -
  from d have n: "oget (ch_modes c) name = None" "name \<noteq> ''default''"
    and c': "c' = c\<lparr>ch_defs := (ch_defs c)(ch_next c := \<lparr>md_name = name, md_root = newNode,
                    md_exitOnEscape = (case e of None \<Rightarrow> True | Some x \<Rightarrow> x)\<rparr>),
                  ch_modes := oset name (ch_next c) (ch_modes c), ch_next := ch_next c + 1\<rparr>"
    by (auto simp: defineMode_def split: if_splits)
  have top: "fr_def (ch_top c) \<noteq> ch_next c" using chain_okD(3) [OF c, of "ch_top c"] by simp
  have p: "path_ok c'" using chain_okD(2) [OF c] top by (simp add: path_ok_def root_of_def c')
  have m: "mode_ok (ch_defs c' d)" for d
    using chain_okD(1) [OF c, of d] by (simp add: c' mode_ok_def)
  show ?thesis
    using c p m n(2) unfolding chain_ok_def by (auto simp: c' less_Suc_eq)
qed

lemma mode_ok_set_root: "mode_ok (m\<lparr>md_root := t\<rparr>) \<longleftrightarrow> trie_ok t \<and> (\<forall>ks b. bound t ks = Some b \<longrightarrow> binding_ok ks b)"
  by (simp add: mode_ok_def)

lemma chain_ok_set_root:
  assumes c: "chain_ok c" and m: "mode_ok ((ch_defs c d)\<lparr>md_root := t\<rparr>)"
    and p: "fr_def (ch_top c) = d \<Longrightarrow> path_ok (set_root c d t)"
  shows "chain_ok (set_root c d t)"
proof -
  have "path_ok (set_root c d t)"
    using p chain_okD(2) [OF c] by (cases "fr_def (ch_top c) = d") (simp_all add: path_ok_def root_of_def set_root_def)
  with c m show ?thesis by (auto simp: chain_ok_def set_root_def)
qed

lemma chain_ok_next: "chain_ok c \<Longrightarrow> chain_ok (c\<lparr>ch_next := ch_next c + 1\<rparr>)"
  by (auto simp: chain_ok_def path_ok_def root_of_def less_Suc_eq)

lemma chain_ok_bind:
  assumes c: "chain_ok c" and s: "list_all step_ok (bs_steps spec)" and b: "bind_keys c spec = Inr c'"
  shows "chain_ok c'"
proof -
  define modeName where "modeName = (case bs_mode spec of None \<Rightarrow> ''default'' | Some m \<Rightarrow> m)"
  define x where "x = \<lparr>bd_id = ch_next c, bd_steps = bs_steps spec, bd_handler = bs_handler spec,
    bd_release = bs_release spec, bd_priority = (case bs_priority spec of None \<Rightarrow> 0 | Some p \<Rightarrow> p), bd_mode = modeName\<rparr>"
  from b obtain d t where d: "oget (ch_modes c) modeName = Some d"
    and t: "trie_bind x (map stepKey (bs_steps spec)) (root_of c d) = Inr t"
    and c': "c' = (set_root c d t)\<lparr>ch_next := ch_next c + 1\<rparr>"
    and ne: "bs_steps spec \<noteq> []" "bs_release spec \<noteq> None \<longrightarrow> length (bs_steps spec) = 1"
    by (auto simp: bind_keys_def Let_def modeName_def x_def root_of_def le_Suc_eq not_less
        split: if_splits option.splits sum.splits)
  have mo: "mode_ok (ch_defs c d)" by (rule chain_okD(1) [OF c])
  then have ok: "trie_ok (root_of c d)" by (simp add: mode_ok_def root_of_def)
  from trie_bind_spec [OF ok, where b = x and ks = "map stepKey (bs_steps spec)"] t have
    t': "trie_ok t" "bound t = (bound (root_of c d))(map stepKey (bs_steps spec) \<mapsto> x)"
      "\<not> clashes (root_of c d) (map stepKey (bs_steps spec))"
      "\<And>p. node_at (root_of c d) p \<noteq> None \<Longrightarrow> node_at t p \<noteq> None" by auto
  have m: "mode_ok ((ch_defs c d)\<lparr>md_root := t\<rparr>)"
    using mo t'(1,2) ne s by (auto simp: mode_ok_set_root mode_ok_def root_of_def binding_ok_def x_def split: if_splits)
  have p: "path_ok (set_root c d t)" if "fr_def (ch_top c) = d"
  proof -
    let ?p = "fr_path (ch_top c)"
    from chain_okD(2) [OF c] that obtain n where n: "node_at (root_of c d) ?p = Some n" "node_binding n = None"
      by (auto simp: path_ok_def)
    with t'(4) obtain n' where n': "node_at t ?p = Some n'" by blast
    have "bound t ?p = None"
    proof (cases "?p = map stepKey (bs_steps spec)")
      case True
      with ne(1) have np: "?p \<noteq> []" by auto
      then obtain k ks where pk: "?p = k # ks" by (cases ?p) auto
      from node_at_not_bare [OF ok n(1) [unfolded pk]] n(2) bound_somewhere [OF node_at_ok [OF ok n(1)]]
      obtain ks' y where "bound n ks' = Some y" by blast
      then have "bound (root_of c d) (?p @ ks') \<noteq> None" using bound_append [OF n(1)] by simp
      with t'(3) True have False unfolding clashes_def by (metis prefixI)
      then show ?thesis ..
    qed (use n t'(2) in \<open>simp add: bound_def\<close>)
    with n' chain_okD(2) [OF c] that show ?thesis
      by (simp add: path_ok_def set_root_def root_of_def bound_def)
  qed
  have "ch_next (set_root c d t) = ch_next c" by (simp add: set_root_def)
  with chain_ok_next [OF chain_ok_set_root [OF c m p]] show ?thesis by (simp add: c')
qed

lemma chain_ok_held:
  assumes "chain_ok c" "\<forall>h \<in> set hs. bd_release (hi_binding h) \<noteq> None \<and> \<not> spent h"
  shows "chain_ok (c\<lparr>ch_held := hs\<rparr>)"
  using assms by (simp add: chain_ok_def path_ok_def root_of_def)

lemma chain_ok_path:
  assumes "chain_ok c" "path_ok (set_path c p)"
  shows "chain_ok (set_path c p)"
  using assms by (auto simp: chain_ok_def set_path_def)

lemma path_ok_reset: "chain_ok c \<Longrightarrow> path_ok (set_path c [])"
  by (rule path_ok_root) (simp_all add: set_path_def chain_okD(1))

lemma chain_ok_reset: "chain_ok c \<Longrightarrow> chain_ok (set_path c [])"
  by (intro chain_ok_path path_ok_reset)

lemma set_path_set_root: "set_path (set_root c d t) p = set_root (set_path c p) d t"
  by (simp add: set_path_def set_root_def)

lemma chain_ok_unbind:
  assumes c: "chain_ok c"
  shows "chain_ok (unbindLeaf c m steps)"
proof (cases "oget (ch_modes c) m")
  case None
  with c show ?thesis by (simp add: unbindLeaf_def)
next
  case (Some d)
  let ?ks = "map stepKey steps"
  show ?thesis
  proof (cases "bound (root_of c d) ?ks")
    case None
    with Some c show ?thesis by (auto simp: unbindLeaf_def bound_def root_of_def split: option.splits)
  next
    case (Some b)
    have mo: "mode_ok (ch_defs c d)" by (rule chain_okD(1) [OF c])
    then have ok: "trie_ok (root_of c d)" by (simp add: mode_ok_def root_of_def)
    define t where "t = trie_unbind ?ks (root_of c d)"
    have t: "trie_ok t" "bound t = (bound (root_of c d))(?ks := None)"
      using trie_unbind_spec [OF ok, of ?ks] Some by (simp_all add: t_def)
    define hs where "hs = filter (\<lambda>h. bd_id (hi_binding h) \<noteq> bd_id b) (ch_held c)"
    define c1 where "c1 = c\<lparr>ch_held := hs\<rparr>"
    have c1: "chain_ok c1" unfolding c1_def
      by (rule chain_ok_held [OF c]) (use chain_okD(6) [OF c] in \<open>auto simp: hs_def\<close>)
    have m: "mode_ok ((ch_defs c1 d)\<lparr>md_root := t\<rparr>)"
      using mo t by (auto simp: mode_ok_set_root mode_ok_def root_of_def c1_def split: if_splits)
    have r: "root_of c1 d = root_of c d" by (simp add: c1_def root_of_def)
    have e: "unbindLeaf c m steps = (if fr_def (ch_top c) = d then set_path (set_root c1 d t) [] else set_root c1 d t)"
      using \<open>oget (ch_modes c) m = Some d\<close> Some
      by (auto simp: unbindLeaf_def bound_def root_of_def Let_def t_def c1_def hs_def set_root_def split: option.splits)
    show ?thesis
    proof (cases "fr_def (ch_top c) = d")
      case True
      have "path_ok (set_root (set_path c1 []) d t)"
        by (rule path_ok_root) (use m chain_okD(1) [OF c1] in \<open>simp_all add: set_root_def set_path_def\<close>)
      then have "chain_ok (set_root (set_path c1 []) d t)"
        by (intro chain_ok_set_root chain_ok_reset c1) (use m in \<open>simp_all add: set_path_def\<close>)
      then show ?thesis using True e by (simp add: set_path_set_root)
    next
      case False
      have "chain_ok (set_root c1 d t)"
        by (rule chain_ok_set_root [OF c1 m]) (use False in \<open>simp add: c1_def\<close>)
      with False e show ?thesis by simp
    qed
  qed
qed

lemma chain_ok_push:
  assumes c: "chain_ok c" and p: "pushMode c name = Inr (c', fx)"
  shows "chain_ok c'"
proof -
  from p obtain d where d: "oget (ch_modes c) name = Some d" by (auto simp: pushMode_def split: option.splits)
  with p consider "c' = c" | "c' = c\<lparr>ch_top := \<lparr>fr_def = d, fr_path = []\<rparr>, ch_below := ch_top c # ch_below c\<rparr>"
    by (auto simp: pushMode_def Let_def split: if_splits)
  then show ?thesis
  proof cases
    case 2
    have "path_ok c'" by (rule path_ok_root) (use chain_okD(1) [OF c] 2 in simp_all)
    with c d show ?thesis by (auto simp: chain_ok_def 2)
  qed (simp add: c)
qed

lemma chain_ok_pop:
  assumes c: "chain_ok c"
  shows "chain_ok (fst (popMode c))"
proof (cases "ch_below c")
  case Nil
  with c show ?thesis by (simp add: popMode_def)
next
  case (Cons f fs)
  define c' where "c' = c\<lparr>ch_top := f\<lparr>fr_path := []\<rparr>, ch_below := fs\<rparr>"
  have e: "fst (popMode c) = c'" by (simp add: popMode_def Cons Let_def c'_def)
  have "path_ok c'" by (rule path_ok_root) (use chain_okD(1) [OF c] in \<open>simp_all add: c'_def\<close>)
  with c show ?thesis unfolding e by (auto simp: chain_ok_def Cons c'_def split: if_splits)
qed

lemma chain_ok_pop_frames: "chain_ok c \<Longrightarrow> chain_ok (fst (pop_frames d c))"
proof (induction d c rule: pop_frames.induct)
  case (1 d c)
  obtain c1 fx1 where p: "popMode c = (c1, fx1)" by (cases "popMode c")
  obtain c2 fx2 where q: "pop_frames d c1 = (c2, fx2)" by (cases "pop_frames d c1")
  show ?case
  proof (cases "length (ch_below c) + 1 > 1 \<and> fr_def (ch_top c) = d")
    case True
    have "chain_ok c1" using chain_ok_pop [OF 1(2)] p by simp
    with 1(1) [OF True p [symmetric] refl] q have "chain_ok c2" by simp
    then show ?thesis using True by (subst pop_frames.simps) (simp add: p q)
  next
    case False
    have "pop_frames d c = (c, [])" by (subst pop_frames.simps) (simp only: False if_False)
    with 1(2) show ?thesis by simp
  qed
qed

lemma pop_mode_same [simp]:
  "ch_modes (fst (popMode c)) = ch_modes c" "ch_defs (fst (popMode c)) = ch_defs c"
  "ch_held (fst (popMode c)) = ch_held c"
  by (simp_all add: popMode_def Let_def split: list.splits)

lemma chain_ok_undefine:
  assumes c: "chain_ok c" and n: "name \<noteq> ''default''"
  shows "chain_ok (fst (undefineMode c name))"
proof (cases "oget (ch_modes c) name")
  case None
  with c show ?thesis by (simp add: undefineMode_def)
next
  case (Some d)
  obtain c1 fx where p: "pop_frames d c = (c1, fx)" by (cases "pop_frames d c")
  have "chain_ok c1" using chain_ok_pop_frames [OF c, of d] p by simp
  then have "chain_ok (c1\<lparr>ch_modes := odel name (ch_modes c1)\<rparr>)"
    using n by (auto simp: chain_ok_def path_ok_def root_of_def)
  then show ?thesis using Some p by (simp add: undefineMode_def)
qed

text \<open>The result of a press: a leaf, a branch, or no child for the key.\<close>

lemma children_lookup:
  assumes "chain_ok c"
  shows "oget (children_of c) k = node_at (root_of c (fr_def (ch_top c))) (fr_path (ch_top c) @ [k])"
proof -
  from chain_okD(2) [OF assms] obtain n where
    "node_at (root_of c (fr_def (ch_top c))) (fr_path (ch_top c)) = Some n" by (auto simp: path_ok_def)
  then show ?thesis
    by (cases n) (auto simp: children_of_def node_at_append root_of_def def_of_def split: option.splits)
qed

lemma compare_step_ok: "step_ok s \<Longrightarrow> step_ok (with_mods m s)"
  by (cases s) (simp_all add: step_ok_def)

lemma step_mods_with [simp]: "step_mods (with_mods m s) = m"
  by (cases s) simp_all

lemma press_key_compare: "step_ok s \<Longrightarrow> press_key (stepKey (with_mods (step_mods s AND NOT IGNORED_MODS) s))"
  unfolding press_key_def
  by (rule exI [of _ "with_mods (step_mods s AND NOT IGNORED_MODS) s"]) (simp add: compare_step_ok and.assoc)

lemma chain_ok_fire:
  assumes c: "chain_ok c" and m: "bd_release b \<noteq> None \<longrightarrow> step_mods s = step_mods s"
  shows "chain_ok (fst (fire c b step s))"
proof -
  have "chain_ok (set_path c [])" by (rule chain_ok_reset [OF c])
  moreover have "ch_held (set_path c []) = ch_held c" by (simp add: set_path_def)
  ultimately show ?thesis
    using chain_okD(6) [OF c] by (auto simp: fire_def Let_def spent_def intro!: chain_ok_held)
qed

lemma chain_ok_press:
  assumes c: "chain_ok c" and s: "step_ok step"
  shows "chain_ok (fst (dispatchPress c step))"
proof -
  define s' where "s' = with_mods (step_mods step AND NOT IGNORED_MODS) step"
  let ?p = "fr_path (ch_top c)"
  show ?thesis
  proof (cases "oget (children_of c) (stepKey s')")
    case None
    then show ?thesis
      using c chain_ok_pop [OF c] chain_ok_reset [OF c]
      by (auto simp: dispatchPress_def Let_def s'_def [symmetric] split: prod.splits)
  next
    case (Some n)
    show ?thesis
    proof (cases "node_binding n")
      case None
      have "node_at (root_of c (fr_def (ch_top c))) (?p @ [stepKey s']) = Some n"
        using Some children_lookup [OF c, of "stepKey s'"] by simp
      with None have "path_ok (set_path c (?p @ [stepKey s']))"
        using chain_okD(2) [OF c] press_key_compare [OF s]
        by (auto simp: path_ok_def set_path_def root_of_def s'_def)
      then have "chain_ok (set_path c (?p @ [stepKey s']))" by (rule chain_ok_path [OF c])
      with Some None show ?thesis by (simp add: dispatchPress_def Let_def s'_def [symmetric])
    next
      case b: (Some b)
      with Some chain_ok_fire [OF c, of b s' step] show ?thesis
        by (auto simp: dispatchPress_def Let_def s'_def [symmetric] split: prod.splits)
    qed
  qed
qed

lemma participate_facts:
  "participate ev h = Some h' \<Longrightarrow> hi_binding h' = hi_binding h"
  by (auto simp: participate_def split: release_event.splits if_splits)

lemma release_loop_facts:
  "release_loop ev hs = (keep, drained, anyPart) \<Longrightarrow>
     mset (map hi_binding keep) + mset (map hi_binding drained) = mset (map hi_binding hs)
     \<and> (\<forall>h \<in> set drained. spent h)
     \<and> ((\<forall>h \<in> set hs. \<not> spent h) \<longrightarrow> (\<forall>h \<in> set keep. \<not> spent h))
     \<and> set (map hi_binding keep) \<subseteq> set (map hi_binding hs)"
proof (induction hs arbitrary: keep drained anyPart)
  case Nil
  then show ?case by simp
next
  case (Cons h hs)
  obtain k d a where r: "release_loop ev hs = (k, d, a)" by (cases "release_loop ev hs")
  note ih = Cons.IH [OF r]
  show ?case
  proof (cases "participate ev h")
    case None
    with Cons.prems r have "keep = h # k" "drained = d" by simp_all
    with ih show ?thesis by auto
  next
    case (Some h')
    note b = participate_facts [OF Some]
    show ?thesis
    proof (cases "spent h'")
      case True
      with Cons.prems r Some have "keep = k" "drained = h' # d" by simp_all
      with ih b True show ?thesis by auto
    next
      case False
      with Cons.prems r Some have "keep = h' # k" "drained = d" by simp_all
      with ih b False show ?thesis by auto
    qed
  qed
qed

lemma chain_ok_release:
  assumes c: "chain_ok c"
  shows "chain_ok (fst (dispatchRelease c ev))"
proof -
  obtain k d a where r: "release_loop ev (rev (ch_held c)) = (k, d, a)" by (cases "release_loop ev (rev (ch_held c))")
  have "chain_ok (c\<lparr>ch_held := rev k\<rparr>)"
  proof (rule chain_ok_held [OF c], intro ballI)
    fix h assume h: "h \<in> set (rev k)"
    with release_loop_facts [OF r] have "hi_binding h \<in> set (map hi_binding (ch_held c))" by auto
    then obtain h0 where "h0 \<in> set (ch_held c)" "hi_binding h0 = hi_binding h" by auto
    with chain_okD(6) [OF c] have "bd_release (hi_binding h) \<noteq> None" by metis
    moreover have "\<not> spent h" using release_loop_facts [OF r] h chain_okD(6) [OF c] by auto
    ultimately show "bd_release (hi_binding h) \<noteq> None \<and> \<not> spent h" by blast
  qed
  with c show ?thesis by (simp add: dispatchRelease_def r)
qed

text \<open>
  A mode is undefined through the handle \<open>defineMode\<close> returned, so never the default one.
\<close>

definition chain_cmd_ok :: "chain \<Rightarrow> chain_cmd \<Rightarrow> bool" where
  "chain_cmd_ok _ cmd \<longleftrightarrow> cmd_steps_ok cmd \<and> cmd \<noteq> CUndefineMode ''default''"

lemma chain_ok_do:
  assumes c: "chain_ok c" and ok: "chain_cmd_ok c cmd"
  shows "chain_ok (fst (chain_do c cmd))"
proof (cases cmd)
  case (CListen on)
  with c show ?thesis by (simp add: chain_ok_listen)
next
  case (CDefineMode n e)
  with c show ?thesis by (cases "defineMode c n e") (auto intro: chain_ok_define)
next
  case (CUndefineMode n)
  with chain_ok_undefine [OF c, of n] ok show ?thesis by (cases "undefineMode c n") (simp add: chain_cmd_ok_def)
next
  case (CBind spec)
  with ok have s: "list_all step_ok (bs_steps spec)" by (simp add: chain_cmd_ok_def)
  show ?thesis
    using CBind c chain_ok_bind [OF c s] by (cases "bind_keys c spec") simp_all
next
  case (CUnbind m steps)
  with chain_ok_unbind [OF c] show ?thesis by simp
next
  case (CPush n)
  with c show ?thesis by (cases "pushMode c n") (auto intro: chain_ok_push)
next
  case CPop
  with chain_ok_pop [OF c] show ?thesis by (cases "popMode c") simp
next
  case (CPress s)
  with ok have "step_ok s" by (simp add: chain_cmd_ok_def)
  from chain_ok_press [OF c this] CPress show ?thesis by (cases "dispatchPress c s") simp
next
  case (CRelease ev)
  with chain_ok_release [OF c, of ev] show ?thesis by (cases "dispatchRelease c ev") simp
qed

interpretation chain_machine: step_invariant chain_do chain_cmd_ok chain_ok
  by unfold_locales (rule chain_ok_do)

lemmas chain_reachable = chain_machine.inv_run [OF chain_ok_new]

section \<open>Presses\<close>

definition is_call :: "chain_effect \<Rightarrow> bool" where
  "is_call e = (case e of CallHandler _ _ _ \<Rightarrow> True | _ \<Rightarrow> False)"

definition calls :: "chain_effect list \<Rightarrow> chain_effect list" where
  "calls fx = filter is_call fx"

lemma calls_simps [simp]:
  "calls [] = []" "calls (emit c ev) = []" "calls (fx @ fx') = calls fx @ calls fx'"
  "calls [CallHandler h s ss] = [CallHandler h s ss]"
  by (simp_all add: calls_def is_call_def emit_def)

text \<open>What a press presents to the trie: its step without the locked modifiers.\<close>

definition presented :: "input_step \<Rightarrow> input_step" where
  "presented e = with_mods (step_mods e AND NOT IGNORED_MODS) e"

definition top_root :: "chain \<Rightarrow> trie" where
  "top_root c = root_of c (fr_def (ch_top c))"

lemma is_key_step_with [simp]: "is_key_step (with_mods m s) = is_key_step s"
  by (cases s) (simp_all add: is_key_step_def)

lemma popMode_calls [simp]: "calls (snd (popMode c)) = []"
  by (simp add: popMode_def Let_def split: list.splits)

text \<open>The three outcomes of a press, in terms of the node its key leads to.\<close>

lemma press_none:
  assumes c: "chain_ok c" and n: "node_at (top_root c) (fr_path (ch_top c) @ [stepKey (presented e)]) = None"
  shows "calls (fst (snd (dispatchPress c e))) = []"
    "pr_consume (snd (snd (dispatchPress c e))) \<longleftrightarrow> ch_below c \<noteq> [] \<and> is_key_step e"
    "\<not> pr_matched (snd (snd (dispatchPress c e)))"
proof -
  have o: "oget (children_of c) (stepKey (presented e)) = None"
    using n children_lookup [OF c] by (simp add: top_root_def)
  obtain c1 fx1 where p: "popMode c = (c1, fx1)" by (cases "popMode c")
  have pc: "calls fx1 = []" using popMode_calls [of c] p by simp
  show "calls (fst (snd (dispatchPress c e))) = []"
    using o pc by (simp add: dispatchPress_def Let_def presented_def [symmetric] p)
  show "pr_consume (snd (snd (dispatchPress c e))) \<longleftrightarrow> ch_below c \<noteq> [] \<and> is_key_step e"
    using o by (auto simp: dispatchPress_def Let_def presented_def [symmetric] split: prod.splits)
       (simp_all add: presented_def)
  show "\<not> pr_matched (snd (snd (dispatchPress c e)))"
    using o by (simp add: dispatchPress_def Let_def presented_def [symmetric] split: prod.splits)
qed

lemma press_branch:
  assumes c: "chain_ok c" and n: "node_at (top_root c) (fr_path (ch_top c) @ [stepKey (presented e)]) = Some n"
    and b: "node_binding n = None"
  shows "fst (dispatchPress c e) = set_path c (fr_path (ch_top c) @ [stepKey (presented e)])"
    "calls (fst (snd (dispatchPress c e))) = []"
    "snd (snd (dispatchPress c e)) = \<lparr>pr_consume = True, pr_matched = False\<rparr>"
proof -
  have "oget (children_of c) (stepKey (presented e)) = Some n"
    using n children_lookup [OF c] by (simp add: top_root_def)
  with b show "fst (dispatchPress c e) = set_path c (fr_path (ch_top c) @ [stepKey (presented e)])"
    "calls (fst (snd (dispatchPress c e))) = []"
    "snd (snd (dispatchPress c e)) = \<lparr>pr_consume = True, pr_matched = False\<rparr>"
    by (simp_all add: dispatchPress_def Let_def presented_def [symmetric])
qed

lemma press_leaf:
  assumes c: "chain_ok c" and b: "bound (top_root c) (fr_path (ch_top c) @ [stepKey (presented e)]) = Some b"
  shows "calls (fst (snd (dispatchPress c e))) = [CallHandler (bd_handler b) e (bd_steps b)]"
    "snd (snd (dispatchPress c e)) = \<lparr>pr_consume = True, pr_matched = True\<rparr>"
    "fr_path (ch_top (fst (dispatchPress c e))) = []" "ch_defs (fst (dispatchPress c e)) = ch_defs c"
    "fr_def (ch_top (fst (dispatchPress c e))) = fr_def (ch_top c)"
proof -
  from b obtain n where "node_at (top_root c) (fr_path (ch_top c) @ [stepKey (presented e)]) = Some n"
    and nb: "node_binding n = Some b" by (auto simp: bound_def split: option.splits)
  then have "oget (children_of c) (stepKey (presented e)) = Some n"
    using children_lookup [OF c] by (simp add: top_root_def)
  with nb show "calls (fst (snd (dispatchPress c e))) = [CallHandler (bd_handler b) e (bd_steps b)]"
    "snd (snd (dispatchPress c e)) = \<lparr>pr_consume = True, pr_matched = True\<rparr>"
    "fr_path (ch_top (fst (dispatchPress c e))) = []" "ch_defs (fst (dispatchPress c e)) = ch_defs c"
    "fr_def (ch_top (fst (dispatchPress c e))) = fr_def (ch_top c)"
    by (simp_all add: dispatchPress_def Let_def presented_def [symmetric] fire_def set_path_def)
qed

lemma node_bound:
  assumes "trie_ok t" "node_at t (k # ks) = Some n"
  shows "\<exists>ks'. bound t ((k # ks) @ ks') \<noteq> None"
  using bound_somewhere [OF node_at_ok [OF assms] node_at_not_bare [OF assms]] bound_append [OF assms(2)]
  by (metis option.simps(3))

lemma trie_ok_root: "chain_ok c \<Longrightarrow> trie_ok (root_of c d)"
  using chain_okD(1) [of c d] by (simp add: mode_ok_def root_of_def)

lemma bound_binding_ok: "chain_ok c \<Longrightarrow> bound (root_of c d) ks = Some b \<Longrightarrow> binding_ok ks b"
  using chain_okD(1) [of c d] by (simp add: mode_ok_def root_of_def)

fun presses :: "chain \<Rightarrow> input_step list \<Rightarrow> chain \<times> chain_effect list \<times> press_result list" where
  "presses c [] = (c, [], [])"
| "presses c (s # ss) =
     (let (c1, fx1, r) = dispatchPress c s; (c2, fx2, rs) = presses c1 ss in (c2, fx1 @ fx2, r # rs))"

lemma presses_fire:
  assumes "chain_ok c" "list_all step_ok es" "es \<noteq> []"
    and "bound (top_root c) (fr_path (ch_top c) @ map (stepKey \<circ> presented) es) = Some b"
  shows "calls (fst (snd (presses c es))) = [CallHandler (bd_handler b) (last es) (bd_steps b)]
    \<and> list_all pr_consume (snd (snd (presses c es))) \<and> fr_path (ch_top (fst (presses c es))) = []"
  using assms
proof (induction es arbitrary: c)
  case Nil
  then show ?case by simp
next
  case (Cons e es)
  obtain c1 fx1 r where d: "dispatchPress c e = (c1, fx1, r)" by (cases "dispatchPress c e")
  let ?k = "stepKey (presented e)"
  show ?case
  proof (cases es)
    case Nil
    with Cons.prems(4) have "bound (top_root c) (fr_path (ch_top c) @ [?k]) = Some b" by simp
    from press_leaf [OF Cons.prems(1) this] d Nil show ?thesis by simp
  next
    case (Cons e2 es2)
    note prems = Cons.prems
    have full: "bound (top_root c) ((fr_path (ch_top c) @ [?k]) @ map (stepKey \<circ> presented) es) = Some b"
      using prems(4) by (simp add: o_def)
    from bound_node [OF this] obtain n where n: "node_at (top_root c) (fr_path (ch_top c) @ [?k]) = Some n" by blast
    have nb: "node_binding n = None"
    proof (rule ccontr)
      assume "node_binding n \<noteq> None"
      then have "bound (top_root c) (fr_path (ch_top c) @ [?k]) \<noteq> None" using n by (simp add: bound_def)
      from bound_prefix_free [OF _ this, of "map (stepKey \<circ> presented) es"] full trie_ok_root [OF prems(1)] Cons
      show False by (simp add: top_root_def)
    qed
    note br = press_branch [OF prems(1) n nb]
    have c1: "c1 = set_path c (fr_path (ch_top c) @ [?k])" using br(1) d by simp
    have "chain_ok c1" using chain_ok_press [OF prems(1), of e] prems(2) d by simp
    moreover have "bound (top_root c1) (fr_path (ch_top c1) @ map (stepKey \<circ> presented) es) = Some b"
      using full by (simp add: c1 top_root_def root_of_def set_path_def)
    moreover have "list_all step_ok es" "es \<noteq> []" using prems(2) Cons by simp_all
    ultimately have ih: "calls (fst (snd (presses c1 es))) = [CallHandler (bd_handler b) (last es) (bd_steps b)]
        \<and> list_all pr_consume (snd (snd (presses c1 es))) \<and> fr_path (ch_top (fst (presses c1 es))) = []"
      using Cons.IH by blast
    obtain c2 fx2 rs where q: "presses c1 es = (c2, fx2, rs)" by (cases "presses c1 es")
    have "presses c (e # es) = (c2, fx1 @ fx2, r # rs)" using d q by simp
    moreover have "calls fx1 = []" "pr_consume r" using br d by simp_all
    moreover have "last (e # es) = last es" using Cons by simp
    ultimately show ?thesis using ih q by simp
  qed
qed

section \<open>Releases\<close>

definition survives :: "release_event \<Rightarrow> held_instance \<Rightarrow> held_instance option" where
  "survives ev h = (case participate ev h of None \<Rightarrow> Some h | Some h' \<Rightarrow> if spent h' then None else Some h')"

lemma release_loop_survives:
  "release_loop ev hs = (keep, drained, anyPart) \<Longrightarrow> keep = List.map_filter (survives ev) hs"
  by (induction hs arbitrary: keep drained anyPart)
     (auto simp: List.map_filter_simps survives_def split: prod.splits option.splits if_splits)

lemma map_filter_rev: "List.map_filter f (rev xs) = rev (List.map_filter f xs)"
  by (simp add: List.map_filter_def rev_filter [symmetric] rev_map)

lemma dispatchRelease_held: "ch_held (fst (dispatchRelease c ev)) = List.map_filter (survives ev) (ch_held c)"
proof -
  obtain k d a where r: "release_loop ev (rev (ch_held c)) = (k, d, a)" by (cases "release_loop ev (rev (ch_held c))")
  from release_loop_survives [OF r] show ?thesis
    by (simp add: dispatchRelease_def r map_filter_rev List.map_filter_simps)
qed

fun releases :: "chain \<Rightarrow> release_event list \<Rightarrow> chain \<times> chain_effect list" where
  "releases c [] = (c, [])"
| "releases c (ev # evs) =
     (let (c1, fx1, _) = dispatchRelease c ev; (c2, fx2) = releases c1 evs in (c2, fx1 @ fx2))"

text \<open>The inputs of an instance that are still down go up among the events.\<close>

fun lifts :: "held_instance \<Rightarrow> release_event \<Rightarrow> bool" where
  "lifts h (KeyUp k) = (is_key_step (hi_triggerStep h) \<and> step_code (hi_triggerStep h) = k)"
| "lifts h (ButtonUp b) = (isButtonStep (hi_triggerStep h) \<and> step_code (hi_triggerStep h) = b)"
| "lifts h (ModUp _) = False"

lemma lifts_mods [simp]: "lifts (h\<lparr>hi_heldMods := m\<rparr>) = lifts h"
proof (rule ext)
  fix ev show "lifts (h\<lparr>hi_heldMods := m\<rparr>) ev = lifts h ev" by (cases ev) simp_all
qed

fun mods_up :: "release_event list \<Rightarrow> mods" where
  "mods_up [] = 0"
| "mods_up (ModUp m # evs) = m OR mods_up evs"
| "mods_up (_ # evs) = mods_up evs"

definition all_up :: "release_event list \<Rightarrow> held_instance \<Rightarrow> bool" where
  "all_up evs h \<longleftrightarrow> (hi_triggerHeld h \<longrightarrow> list_ex (lifts h) evs) \<and> hi_heldMods h AND NOT (mods_up evs) = 0"

lemma all_up_survives:
  assumes "all_up (ev # evs) h" "survives ev h = Some h'"
  shows "all_up evs h'"
proof (cases ev)
  case (ModUp m)
  have "(hi_heldMods h AND NOT m) AND NOT (mods_up evs) = 0"
    using assms(1) ModUp by (simp add: all_up_def bit.de_Morgan_disj and.assoc)
  moreover have "hi_heldMods h AND NOT m = hi_heldMods h" if "hi_heldMods h AND m = 0"
  proof -
    have "hi_heldMods h = hi_heldMods h AND (m OR NOT m)" by simp
    also have "\<dots> = hi_heldMods h AND NOT m" using that by (simp only: bit.conj_disj_distrib or.left_neutral)
    finally show ?thesis by simp
  qed
  ultimately show ?thesis
    using assms ModUp by (auto simp: all_up_def survives_def participate_def split: if_splits)
qed (use assms in \<open>auto simp: all_up_def survives_def participate_def split: if_splits\<close>)

lemma survives_unspent: "\<not> spent h \<Longrightarrow> survives ev h = Some h' \<Longrightarrow> \<not> spent h'"
  by (auto simp: survives_def split: option.splits if_splits)

lemma map_filter_set: "h' \<in> set (List.map_filter f hs) \<longleftrightarrow> (\<exists>h \<in> set hs. f h = Some h')"
  by (induction hs) (auto simp: List.map_filter_simps split: option.splits)

text \<open>The call of a binding's own release callback, with the chord of the binding.\<close>

definition own_release :: "binding \<Rightarrow> chain_effect option" where
  "own_release b = map_option (\<lambda>r. CallRelease r (bd_steps b)) (bd_release b)"

abbreviation owed_releases :: "chain \<Rightarrow> chain_effect option multiset" where
  "owed_releases c \<equiv> mset (map (own_release \<circ> hi_binding) (ch_held c))"

lemma dispatchRelease_effects:
  assumes "chain_ok c"
  shows "mset (map Some (fst (snd (dispatchRelease c ev)))) + owed_releases (fst (dispatchRelease c ev)) = owed_releases c"
proof -
  obtain k d a where r: "release_loop ev (rev (ch_held c)) = (k, d, a)" by (cases "release_loop ev (rev (ch_held c))")
  note f = release_loop_facts [OF r]
  have called: "map Some (concat (map (\<lambda>h. case bd_release (hi_binding h) of
      None \<Rightarrow> [] | Some x \<Rightarrow> [CallRelease x (bd_steps (hi_binding h))]) ds)) = map (own_release \<circ> hi_binding) ds"
    if "\<forall>h \<in> set ds. bd_release (hi_binding h) \<noteq> None" for ds
    using that by (induction ds) (auto simp: own_release_def)
  have "\<forall>h \<in> set d. bd_release (hi_binding h) \<noteq> None"
  proof
    fix h assume "h \<in> set d"
    then have "hi_binding h \<in># mset (map hi_binding k) + mset (map hi_binding d)" by auto
    with f have "hi_binding h \<in> set (map hi_binding (rev (ch_held c)))" by (metis set_mset_mset)
    then obtain h0 where "h0 \<in> set (ch_held c)" "hi_binding h0 = hi_binding h" by auto
    with chain_okD(6) [OF assms] show "bd_release (hi_binding h) \<noteq> None" by metis
  qed
  note called [OF this]
  moreover have "mset (map (own_release \<circ> hi_binding) k) + mset (map (own_release \<circ> hi_binding) d) = owed_releases c"
    using arg_cong [OF conjunct1 [OF f], of "image_mset own_release"] by (simp add: image_mset.compositionality comp_def)
  ultimately show ?thesis
    by (cases "ch_held c = []") (simp_all add: dispatchRelease_def r add.commute)
qed

lemma releases_drain:
  assumes "chain_ok c" "\<forall>h \<in> set (ch_held c). all_up evs h"
  shows "heldCount (fst (releases c evs)) = 0 \<and> mset (map Some (snd (releases c evs))) = owed_releases c"
  using assms
proof (induction evs arbitrary: c)
  case Nil
  then have "ch_held c = []"
    using chain_okD(6) [OF Nil.prems(1)] by (cases "ch_held c") (auto simp: all_up_def spent_def)
  then show ?case by (simp add: heldCount_def)
next
  case (Cons ev evs)
  obtain c1 fx1 a where d: "dispatchRelease c ev = (c1, fx1, a)" by (cases "dispatchRelease c ev")
  have ok: "chain_ok c1" using chain_ok_release [OF Cons.prems(1), of ev] d by simp
  have "\<forall>h \<in> set (ch_held c1). all_up evs h"
  proof
    fix h' assume "h' \<in> set (ch_held c1)"
    then obtain h where "h \<in> set (ch_held c)" "survives ev h = Some h'"
      using dispatchRelease_held [of c ev] d by (auto simp: map_filter_set)
    with Cons.prems(2) all_up_survives show "all_up evs h'" by blast
  qed
  from Cons.IH [OF ok this] dispatchRelease_effects [OF Cons.prems(1), of ev] d show ?case
    by (simp add: split_def Let_def comp_def)
qed

section \<open>The chain's properties\<close>

definition reached :: "chain_cmd list \<Rightarrow> chain" where
  "reached cmds = fst (run chain_do chain_new cmds)"

definition chain_admits :: "chain_cmd list \<Rightarrow> bool" where
  "chain_admits cmds \<longleftrightarrow> admissible chain_do chain_cmd_ok chain_new cmds"

lemma reached_ok: "chain_admits cmds \<Longrightarrow> chain_ok (reached cmds)"
  unfolding reached_def chain_admits_def by (rule chain_reachable)

text \<open>A mode with a chord of two, a binding with a release, an Escape-less mode on the stack.\<close>

definition sample_cmds_chain :: "chain_cmd list" where
  "sample_cmds_chain =
    [CBind \<lparr>bs_steps = [KeyStep MOD_MOD4 97, KeyStep 0 98], bs_mode = None, bs_handler = 1, bs_release = None,
       bs_priority = None\<rparr>,
     CBind \<lparr>bs_steps = [KeyStep MOD_MOD4 99], bs_mode = None, bs_handler = 2, bs_release = Some 3,
       bs_priority = None\<rparr>,
     CPress (KeyStep (MOD_MOD4 OR MOD_MOD2) 99)]"

text \<open>
  The key of a step, which the tries are indexed by, reads back to the step: different steps
  never share a key.
\<close>

lemma step_key_roundtrip:
  assumes "step_ok s"
  shows "parseStepKey (stepKey s) = s"
  by (rule parse_stepKey [OF assms])

lemma step_key_roundtrip_witness:
  "parseStepKey (stepKey (ButtonStep (MOD_MOD4 OR MOD_SHIFT) 0x110)) = ButtonStep (MOD_MOD4 OR MOD_SHIFT) 0x110"
  by (rule step_key_roundtrip) (simp add: step_ok_def)

text \<open>
  C29: A well-shaped binding is accepted exactly when no chord of its mode is a prefix of it or it of
  them; accepted, the mode's chords are the old ones and the new one, and no other mode changes.
\<close>

theorem bind_accepts_iff_no_clash:
  assumes adm: "chain_admits cmds" and ne: "bs_steps spec \<noteq> []"
    and rel: "bs_release spec \<noteq> None \<longrightarrow> length (bs_steps spec) = 1"
    and mid: "list_all is_key_step (butlast (bs_steps spec))"
    and d: "oget (ch_modes (reached cmds)) (case bs_mode spec of None \<Rightarrow> ''default'' | Some m \<Rightarrow> m) = Some d"
  shows "case bind_keys (reached cmds) spec of
      Inl _ \<Rightarrow> clashes (root_of (reached cmds) d) (map stepKey (bs_steps spec))
    | Inr c' \<Rightarrow> \<not> clashes (root_of (reached cmds) d) (map stepKey (bs_steps spec))
        \<and> (\<exists>b. bound (root_of c' d) = (bound (root_of (reached cmds) d))(map stepKey (bs_steps spec) \<mapsto> b)
             \<and> bd_steps b = bs_steps spec \<and> bd_handler b = bs_handler spec \<and> bd_release b = bs_release spec)
        \<and> (\<forall>d'. d' \<noteq> d \<longrightarrow> root_of c' d' = root_of (reached cmds) d')"
proof -
  let ?c = "reached cmds" and ?ks = "map stepKey (bs_steps spec)"
  define modeName where "modeName = (case bs_mode spec of None \<Rightarrow> ''default'' | Some m \<Rightarrow> m)"
  define x where "x = \<lparr>bd_id = ch_next ?c, bd_steps = bs_steps spec, bd_handler = bs_handler spec,
    bd_release = bs_release spec, bd_priority = (case bs_priority spec of None \<Rightarrow> 0 | Some p \<Rightarrow> p), bd_mode = modeName\<rparr>"
  have g: "\<not> list_ex (\<lambda>s. isButtonStep s \<or> isScrollStep s) (butlast (bs_steps spec))"
    "\<not> length (bs_steps spec) = 0" "\<not> (bs_release spec \<noteq> None \<and> length (bs_steps spec) > 1)"
    using mid ne rel by (auto simp: list_ex_iff list_all_iff is_key_step_def)
  have e: "bind_keys ?c spec = (case trie_bind x ?ks (root_of ?c d) of
      Inl conflict \<Rightarrow> Inl (conflict_error x modeName conflict)
    | Inr t \<Rightarrow> Inr ((set_root ?c d t)\<lparr>ch_next := ch_next ?c + 1\<rparr>))"
    by (simp only: bind_keys_def Let_def modeName_def [symmetric] g if_False d [folded modeName_def] option.case
        x_def root_of_def binding.select_convs)
  note spec = trie_bind_spec [OF trie_ok_root [OF reached_ok [OF adm], of d], where b = x and ks = ?ks]
  show ?thesis
  proof (cases "trie_bind x ?ks (root_of ?c d)")
    case (Inl conflict)
    have "clashes (root_of ?c d) ?ks"
    proof (cases conflict)
      case (Masked y)
      with spec Inl obtain p k q where "?ks = p @ k # q" "bound (root_of ?c d) p = Some y" by auto
      then show ?thesis unfolding clashes_def by (intro exI [of _ p]) simp
    next
      case Duplicate
      with spec Inl show ?thesis unfolding clashes_def by (intro exI [of _ ?ks]) simp
    next
      case Masking
      with spec Inl obtain k q where "bound (root_of ?c d) (?ks @ k # q) \<noteq> None" by auto
      then show ?thesis unfolding clashes_def by (intro exI [of _ "?ks @ k # q"]) simp
    qed
    with e Inl show ?thesis by simp
  next
    case (Inr t)
    define c' where "c' = (set_root ?c d t)\<lparr>ch_next := ch_next ?c + 1\<rparr>"
    from spec Inr have t: "\<not> clashes (root_of ?c d) ?ks" "bound t = (bound (root_of ?c d))(?ks \<mapsto> x)" by auto
    have r: "root_of c' d = t" "\<And>d'. d' \<noteq> d \<Longrightarrow> root_of c' d' = root_of ?c d'"
      by (simp_all add: c'_def set_root_def root_of_def)
    have "bd_steps x = bs_steps spec \<and> bd_handler x = bs_handler spec \<and> bd_release x = bs_release spec"
      by (simp add: x_def)
    moreover have "bind_keys ?c spec = Inr c'" using e Inr by (simp add: c'_def)
    ultimately show ?thesis using t r by auto
  qed
qed

theorem bind_accepts_iff_no_clash_witness:
  "case bind_keys (reached sample_cmds_chain) \<lparr>bs_steps = [KeyStep MOD_MOD4 97], bs_mode = None, bs_handler = 9,
      bs_release = None, bs_priority = None\<rparr> of
     Inl _ \<Rightarrow> clashes (root_of (reached sample_cmds_chain) 0) [stepKey (KeyStep MOD_MOD4 97)] | Inr _ \<Rightarrow> True"
proof -
  have a: "chain_admits sample_cmds_chain"
    by (simp add: chain_admits_def sample_cmds_chain_def chain_cmd_ok_def step_ok_def)
  have d: "oget (ch_modes (reached sample_cmds_chain)) ''default'' = Some 0"
    using reached_ok [OF a] by (simp add: chain_ok_def)
  show ?thesis
    using bind_accepts_iff_no_clash [OF a, of "\<lparr>bs_steps = [KeyStep MOD_MOD4 97], bs_mode = None, bs_handler = 9,
      bs_release = None, bs_priority = None\<rparr>" 0] d by (simp split: sum.splits)
qed

text \<open>
  C28: Typing a bound chord in its mode, with NumLock and CapsLock in any position, consumes every
  press, calls the binding's handler once, on the last press, and leaves no chord in progress.
\<close>

theorem typing_a_chord_fires:
  assumes adm: "chain_admits cmds" and root: "fr_path (ch_top (reached cmds)) = []"
    and b: "bound (top_root (reached cmds)) ks = Some b"
    and es: "map presented es = bd_steps b"
  shows "calls (fst (snd (presses (reached cmds) es))) = [CallHandler (bd_handler b) (last es) (bd_steps b)]
    \<and> list_all pr_consume (snd (snd (presses (reached cmds) es)))
    \<and> fr_path (ch_top (fst (presses (reached cmds) es))) = []"
proof -
  note ok = reached_ok [OF adm]
  from bound_binding_ok [OF ok b [unfolded top_root_def]] have bo: "binding_ok ks b" .
  have "list_all step_ok (map presented es)" using bo by (simp add: binding_ok_def es)
  then have so: "list_all step_ok es"
  proof -
    have "step_code (presented e) = step_code e" for e by (cases e) (simp_all add: presented_def)
    then have "step_ok (presented e) = step_ok e" for e by (simp add: step_ok_def)
    with \<open>list_all step_ok (map presented es)\<close> show ?thesis by (simp add: list.pred_map o_def)
  qed
  have ne: "es \<noteq> []" using bo es by (auto simp: binding_ok_def)
  have "map (stepKey \<circ> presented) es = map stepKey (map presented es)" by simp
  also have "\<dots> = ks" using bo by (simp add: es binding_ok_def del: map_map)
  finally have "bound (top_root (reached cmds)) (fr_path (ch_top (reached cmds)) @ map (stepKey \<circ> presented) es) = Some b"
    using b root by simp
  from presses_fire [OF ok so ne this] show ?thesis .
qed

theorem typing_a_chord_fires_witness:
  "calls (fst (snd (presses (reached sample_cmds_chain) [KeyStep (MOD_MOD4 OR MOD_MOD2) 97, KeyStep MOD_LOCK 98])))
     = [CallHandler 1 (KeyStep MOD_LOCK 98) [KeyStep MOD_MOD4 97, KeyStep 0 98]]"
proof -
  define b where "b = \<lparr>bd_id = 1, bd_steps = [KeyStep MOD_MOD4 97, KeyStep 0 98], bd_handler = 1,
    bd_release = None, bd_priority = 0, bd_mode = ''default''\<rparr>"
  have a: "chain_admits sample_cmds_chain"
    by (simp add: chain_admits_def sample_cmds_chain_def chain_cmd_ok_def step_ok_def)
  have p: "fr_path (ch_top (reached sample_cmds_chain)) = []" by code_simp
  have k: "bound (top_root (reached sample_cmds_chain)) (map stepKey [KeyStep MOD_MOD4 97, KeyStep 0 98]) = Some b"
    unfolding b_def by code_simp
  have e: "map presented [KeyStep (MOD_MOD4 OR MOD_MOD2) 97, KeyStep MOD_LOCK 98] = bd_steps b"
    unfolding b_def by code_simp
  from typing_a_chord_fires [OF a p k e] show ?thesis by (simp add: b_def)
qed

text \<open>
  A press matches exactly when a chord ends with it, and it is consumed exactly when some chord
  goes on with it or a mode other than the bottom one is active and it comes from the keyboard: an
  active mode lets no key through to the client.
\<close>

theorem press_consumed_iff:
  assumes adm: "chain_admits cmds"
  shows "(pr_matched (snd (snd (dispatchPress (reached cmds) e))) \<longleftrightarrow>
        bound (top_root (reached cmds)) (fr_path (ch_top (reached cmds)) @ [stepKey (presented e)]) \<noteq> None)
    \<and> (pr_consume (snd (snd (dispatchPress (reached cmds) e))) \<longleftrightarrow>
        (\<exists>ks. bound (top_root (reached cmds)) ((fr_path (ch_top (reached cmds)) @ [stepKey (presented e)]) @ ks) \<noteq> None)
        \<or> ch_below (reached cmds) \<noteq> [] \<and> is_key_step e)"
proof -
  let ?c = "reached cmds"
  define nx where "nx = fr_path (ch_top ?c) @ [stepKey (presented e)]"
  note ok = reached_ok [OF adm]
  have t: "trie_ok (top_root ?c)" unfolding top_root_def by (rule trie_ok_root [OF ok])
  have "(pr_matched (snd (snd (dispatchPress ?c e))) \<longleftrightarrow> bound (top_root ?c) nx \<noteq> None)
    \<and> (pr_consume (snd (snd (dispatchPress ?c e))) \<longleftrightarrow>
        (\<exists>ks. bound (top_root ?c) (nx @ ks) \<noteq> None) \<or> ch_below ?c \<noteq> [] \<and> is_key_step e)"
  proof (cases "node_at (top_root ?c) nx")
    case None
    then have "bound (top_root ?c) (nx @ ks) = None" for ks by (simp add: bound_def node_at_append)
    moreover from this [of "[]"] have "bound (top_root ?c) nx = None" by simp
    ultimately show ?thesis using press_none [OF ok None [unfolded nx_def], folded nx_def] by simp
  next
    case (Some n)
    obtain k p where kp: "nx = k # p" unfolding nx_def by (cases "fr_path (ch_top ?c)") auto
    from node_bound [OF t Some [unfolded kp]] have ex: "\<exists>ks. bound (top_root ?c) (nx @ ks) \<noteq> None"
      by (simp only: kp)
    show ?thesis
    proof (cases "node_binding n")
      case None
      then have "bound (top_root ?c) nx = None" using Some by (simp add: bound_def)
      with ex press_branch [OF ok Some [unfolded nx_def] None, folded nx_def] show ?thesis by simp
    next
      case b: (Some b)
      then have "bound (top_root ?c) nx = Some b" using Some by (simp add: bound_def)
      with ex press_leaf [OF ok this [unfolded nx_def], folded nx_def] show ?thesis by simp
    qed
  qed
  then show ?thesis by (simp only: nx_def)
qed

theorem press_consumed_iff_witness:
  "pr_matched (snd (snd (dispatchPress (reached sample_cmds_chain) (KeyStep MOD_MOD4 99)))) \<longleftrightarrow>
     bound (top_root (reached sample_cmds_chain))
       (fr_path (ch_top (reached sample_cmds_chain)) @ [stepKey (presented (KeyStep MOD_MOD4 99))]) \<noteq> None"
proof -
  have a: "chain_admits sample_cmds_chain"
    by (simp add: chain_admits_def sample_cmds_chain_def chain_cmd_ok_def step_ok_def)
  show ?thesis using press_consumed_iff [OF a, of "KeyStep MOD_MOD4 99"] by (rule conjunct1)
qed

text \<open>
  A handler is only ever called for a chord none of whose steps asks for NumLock or CapsLock: a
  binding with such a step is accepted and never fires.
\<close>

lemma lock_bindings_never_fire:
  assumes adm: "chain_admits cmds" and e: "step_ok e"
    and call: "CallHandler h s chord \<in> set (fst (snd (dispatchPress (reached cmds) e)))"
  shows "\<forall>s \<in> set chord. step_mods s AND IGNORED_MODS = 0"
proof -
  let ?c = "reached cmds"
  note ok = reached_ok [OF adm]
  let ?next = "fr_path (ch_top ?c) @ [stepKey (presented e)]"
  have "CallHandler h s chord \<in> set (calls (fst (snd (dispatchPress ?c e))))"
    using call by (simp add: calls_def is_call_def)
  then obtain b where b: "bound (top_root ?c) ?next = Some b" "chord = bd_steps b"
    using press_none(1) [OF ok, of e] press_branch(2) [OF ok, of e] press_leaf(1) [OF ok, of e]
    by (cases "node_at (top_root ?c) ?next"; cases "bound (top_root ?c) ?next")
       (auto simp: bound_def split: option.splits)
  from bound_binding_ok [OF ok b(1) [unfolded top_root_def]] have bo: "binding_ok ?next b" .
  have pk: "list_all press_key ?next"
    using chain_okD(2) [OF ok] press_key_compare [OF e] by (simp add: path_ok_def presented_def)
  show ?thesis
  proof
    fix s assume s: "s \<in> set chord"
    from bo have "set (map stepKey (bd_steps b)) = set ?next" by (simp add: binding_ok_def)
    then have "stepKey s \<in> set ?next" using s unfolding b(2) by (metis image_eqI list.set_map)
    moreover have "step_ok s" using bo s by (auto simp: binding_ok_def b(2) list_all_iff)
    ultimately have "stepKey s \<in> set ?next" "step_ok s" by blast+
    with pk obtain s' where s': "stepKey s = stepKey s'" "step_ok s'" "step_mods s' AND IGNORED_MODS = 0"
      by (auto simp: list_all_iff press_key_def simp del: set_append)
    from stepKey_inj [OF \<open>step_ok s\<close> s'(2,1)] s'(3) show "step_mods s AND IGNORED_MODS = 0" by simp
  qed
qed

lemma lock_bindings_never_fire_witness:
  "\<exists>h s chord. CallHandler h s chord \<in> set (fst (snd (dispatchPress (reached sample_cmds_chain) (KeyStep (MOD_MOD4 OR MOD_MOD2) 99))))
     \<and> (\<forall>s \<in> set chord. step_mods s AND IGNORED_MODS = 0)"
proof -
  let ?c = "reached sample_cmds_chain" and ?e = "KeyStep (MOD_MOD4 OR MOD_MOD2) 99"
  define b where "b = \<lparr>bd_id = 2, bd_steps = [KeyStep MOD_MOD4 99], bd_handler = 2,
    bd_release = Some 3, bd_priority = 0, bd_mode = ''default''\<rparr>"
  have a: "chain_admits sample_cmds_chain"
    by (simp add: chain_admits_def sample_cmds_chain_def chain_cmd_ok_def step_ok_def)
  have p: "fr_path (ch_top ?c) = []" by code_simp
  have e: "presented ?e = KeyStep MOD_MOD4 99" by code_simp
  have "bound (top_root ?c) (map stepKey [KeyStep MOD_MOD4 99]) = Some b"
    unfolding b_def by code_simp
  then have "bound (top_root ?c) (fr_path (ch_top ?c) @ [stepKey (presented ?e)]) = Some b"
    by (simp add: p e)
  from press_leaf(1) [OF reached_ok [OF a] this]
  have "CallHandler 2 ?e [KeyStep MOD_MOD4 99] \<in> set (calls (fst (snd (dispatchPress ?c ?e))))"
    by (simp add: b_def)
  then have c: "CallHandler 2 ?e [KeyStep MOD_MOD4 99] \<in> set (fst (snd (dispatchPress ?c ?e)))"
    by (simp add: calls_def)
  have "step_ok ?e" by code_simp
  from lock_bindings_never_fire [OF a this c] c show ?thesis by blast
qed

text \<open>
  C30: Once every input an instance was pressed with has gone up, in any order, nothing is held, and what was called
  meanwhile is exactly this: for each held instance, once, the release callback of its own binding with that binding's
  chord.
\<close>

theorem releasing_all_inputs_drains:
  assumes "chain_admits cmds" "\<forall>h \<in> set (ch_held (reached cmds)). all_up evs h"
  shows "heldCount (fst (releases (reached cmds) evs)) = 0
    \<and> mset (map Some (snd (releases (reached cmds) evs)))
        = mset (map (own_release \<circ> hi_binding) (ch_held (reached cmds)))"
  by (rule releases_drain [OF reached_ok [OF assms(1)] assms(2)])

theorem releasing_all_inputs_drains_witness:
  "heldCount (fst (releases (reached sample_cmds_chain) [ModUp MOD_MOD4, KeyUp 99])) = 0
   \<and> snd (releases (reached sample_cmds_chain) [ModUp MOD_MOD4, KeyUp 99]) = [CallRelease 3 [KeyStep MOD_MOD4 99]]"
proof -
  have a: "chain_admits sample_cmds_chain"
    by (simp add: chain_admits_def sample_cmds_chain_def chain_cmd_ok_def step_ok_def)
  have "list_all (all_up [ModUp MOD_MOD4, KeyUp 99]) (ch_held (reached sample_cmds_chain))" by code_simp
  then have h: "\<forall>h \<in> set (ch_held (reached sample_cmds_chain)). all_up [ModUp MOD_MOD4, KeyUp 99] h"
    by (simp add: list_all_iff)
  have "map (own_release \<circ> hi_binding) (ch_held (reached sample_cmds_chain)) = [Some (CallRelease 3 [KeyStep MOD_MOD4 99])]"
    by code_simp
  with releasing_all_inputs_drains [OF a h]
  have "heldCount (fst (releases (reached sample_cmds_chain) [ModUp MOD_MOD4, KeyUp 99])) = 0"
    "mset (map Some (snd (releases (reached sample_cmds_chain) [ModUp MOD_MOD4, KeyUp 99])))
       = {#Some (CallRelease 3 [KeyStep MOD_MOD4 99])#}" by (simp_all del: releases.simps mset_map)
  then show ?thesis by (simp del: releases.simps mset_map add: mset_single_iff map_eq_Cons_conv)
qed

lemma scroll_survives:
  "hi_triggerHeld h \<Longrightarrow> isScrollStep (hi_triggerStep h) \<Longrightarrow>
     \<exists>h'. survives ev h = Some h' \<and> hi_triggerHeld h' \<and> isScrollStep (hi_triggerStep h')"
  by (cases "hi_triggerStep h") (auto simp: survives_def participate_def spent_def is_key_step_def split: release_event.splits)

lemma scroll_releases:
  assumes "ch_held c = [h]" "hi_triggerHeld h" "isScrollStep (hi_triggerStep h)"
  shows "heldCount (fst (releases c evs)) = 1"
  using assms
proof (induction evs arbitrary: c h)
  case Nil
  then show ?case by (simp add: heldCount_def)
next
  case (Cons ev evs)
  obtain c1 fx a where d: "dispatchRelease c ev = (c1, fx, a)" by (cases "dispatchRelease c ev")
  from scroll_survives [OF Cons.prems(2,3), of ev] obtain h' where h': "survives ev h = Some h'"
    "hi_triggerHeld h'" "isScrollStep (hi_triggerStep h')" by blast
  have "ch_held c1 = [h']"
    using dispatchRelease_held [of c ev] d Cons.prems(1) h'(1) by (simp add: List.map_filter_simps)
  from Cons.IH [OF this h'(2,3)] d show ?case by (simp add: split_def Let_def)
qed

text \<open>
  A release callback on a scroll step is accepted, and the instance a scroll tick leaves behind
  is never drained: whatever is released afterwards, it stays held.
\<close>

lemma scroll_release_never_drains:
  "heldCount (fst (releases (reached
     [CBind \<lparr>bs_steps = [ScrollStep MOD_MOD4 0], bs_mode = None, bs_handler = 1, bs_release = Some 2, bs_priority = None\<rparr>,
      CPress (ScrollStep MOD_MOD4 0)]) evs)) = 1"
proof -
  define c where "c = reached
     [CBind \<lparr>bs_steps = [ScrollStep MOD_MOD4 0], bs_mode = None, bs_handler = 1, bs_release = Some 2, bs_priority = None\<rparr>,
      CPress (ScrollStep MOD_MOD4 0)]"
  have "length (ch_held c) = 1 \<and> hi_triggerHeld (hd (ch_held c)) \<and> isScrollStep (hi_triggerStep (hd (ch_held c)))"
    unfolding c_def by code_simp
  then obtain h where "ch_held c = [h]" "hi_triggerHeld h" "isScrollStep (hi_triggerStep h)"
    by (auto simp: length_Suc_conv)
  from scroll_releases [OF this, of evs] show ?thesis by (simp add: c_def)
qed

text \<open>
  A handle to unbind is the name of a mode and a chord: when the mode has been undefined and
  defined anew, the handle of a binding of the old mode removes the new mode's binding for the chord.
\<close>

lemma stale_unbind_removes_another_binding:
  "let spec = (\<lambda>h. \<lparr>bs_steps = [KeyStep 0 97], bs_mode = Some ''M'', bs_handler = h, bs_release = None, bs_priority = None\<rparr>);
       before = reached [CDefineMode ''M'' None, CBind (spec 1), CUndefineMode ''M'', CDefineMode ''M'' None, CBind (spec 2)];
       after = unbindLeaf before ''M'' [KeyStep 0 97]
   in map_option bd_handler (bound (root_of before 3) [stepKey (KeyStep 0 97)]) = Some 2
      \<and> oget (ch_modes before) ''M'' = Some 3 \<and> bound (root_of after 3) [stepKey (KeyStep 0 97)] = None"
  by code_simp

text \<open>A mode that is undefined while another is above it stays on the stack.\<close>

lemma undefined_mode_stays_on_stack:
  "stackNames (reached [CDefineMode ''M'' None, CDefineMode ''N'' None, CPush ''M'', CPush ''N'', CUndefineMode ''M''])
     = [''default'', ''M'', ''N'']"
  by code_simp

end
