(* ===== verification/Match_Engine.thy ===== *)
theory Match_Engine
  imports Prelude
begin

text \<open>
  The engine that assigns every mapped toplevel to at most one intercept registration
  (\<open>core/src/intercept/match-engine.ts\<close>).

  A compiled \<open>RegExp\<close> is a record: the search of the language's matcher (from a start index
  to the end of the match it finds), whether the flags make it remember a position (\<open>g\<close> or
  \<open>y\<close>), and that position, \<open>lastIndex\<close>, which \<open>test\<close> reads and writes only then. The live
  reader of the window manager's fullscreen state is an argument of every call that consults it;
  \<open>en_reader\<close> says whether one was wired. Ranks are a type with a linear order of their own.
\<close>

section \<open>Registrations and toplevels\<close>

datatype role = Toplevel | Popup | Subsurface

record regexp =
  rx_find :: "string \<Rightarrow> nat \<Rightarrow> nat option"
  rx_keeps :: bool
  rx_lastIndex :: nat

definition regexp_test :: "regexp \<Rightarrow> string \<Rightarrow> bool \<times> regexp" where
  "regexp_test x s =
    (if rx_keeps x then
       if length s < rx_lastIndex x then (False, x\<lparr>rx_lastIndex := 0\<rparr>)
       else (case rx_find x s (rx_lastIndex x) of
               None \<Rightarrow> (False, x\<lparr>rx_lastIndex := 0\<rparr>)
             | Some e \<Rightarrow> (True, x\<lparr>rx_lastIndex := e\<rparr>))
     else (rx_find x s 0 \<noteq> None, x))"

record registration =
  rg_id :: int
  rg_plugin :: string
  rg_appIdRegex :: "regexp option"
  rg_roles :: "role list option"
  rg_priority :: number
  rg_excludeFullscreen :: bool
  rg_seq :: nat

record toplevel =
  tl_surfaceId :: int
  tl_appId :: "string option"
  tl_title :: "string option"
  tl_fullscreen :: "bool option"

datatype match_event = Matched int int | Unmatched int int

record engine =
  en_reader :: bool
  en_registrations :: "registration list"
  en_toplevels :: "(int, toplevel) omap"
  en_assignments :: "(int, int) omap"
  en_nextSeq :: nat

section \<open>Ranks\<close>

text \<open>Lower priorities come first, equal priorities in the order of registration.\<close>

datatype rank = Rank (rank_priority: number) (rank_seq: nat)

instantiation rank :: linorder
begin

definition less_eq_rank :: "rank \<Rightarrow> rank \<Rightarrow> bool" where
  "a \<le> b \<longleftrightarrow> rank_priority a < rank_priority b
    \<or> rank_priority a = rank_priority b \<and> rank_seq a \<le> rank_seq b"

definition less_rank :: "rank \<Rightarrow> rank \<Rightarrow> bool" where
  "(a :: rank) < b \<longleftrightarrow> a \<le> b \<and> \<not> b \<le> a"

instance
  by standard (auto simp: less_eq_rank_def less_rank_def intro: rank.expand)

end

definition rank_of :: "registration \<Rightarrow> rank" where
  "rank_of r = Rank (rg_priority r) (rg_seq r)"

definition compareRank :: "registration \<Rightarrow> registration \<Rightarrow> number" where
  "compareRank a b =
    (if rg_priority a \<noteq> rg_priority b then rg_priority a - rg_priority b
     else rat_of_nat (rg_seq a) - rat_of_nat (rg_seq b))"

lemma compareRank_rank [simp]: "compareRank a b < 0 \<longleftrightarrow> rank_of a < rank_of b"
  by (auto simp: compareRank_def rank_of_def less_rank_def less_eq_rank_def)

fun insertSorted :: "registration list \<Rightarrow> registration \<Rightarrow> registration list" where
  "insertSorted [] r = [r]"
| "insertSorted (cur # list) r =
     (if compareRank r cur < 0 then r # cur # list else cur # insertSorted list r)"

section \<open>Matching\<close>

definition role_ok :: "registration \<Rightarrow> bool" where
  "role_ok r = (case rg_roles r of None \<Rightarrow> True | Some roles \<Rightarrow> Toplevel \<in> set roles)"

text \<open>The verdict of a registration, with the registration as its pattern's test leaves it.\<close>

definition matches :: "registration \<Rightarrow> toplevel \<Rightarrow> bool \<Rightarrow> bool \<times> registration" where
  "matches r win fullscreen =
    (if rg_excludeFullscreen r \<and> fullscreen then (False, r)
     else case rg_appIdRegex r of
       None \<Rightarrow> (role_ok r, r)
     | Some x \<Rightarrow>
         (case tl_appId win of
            None \<Rightarrow> (False, r)
          | Some a \<Rightarrow>
              (let (found, x') = regexp_test x a; r' = r\<lparr>rg_appIdRegex := Some x'\<rparr>
               in if \<not> found then (False, r') else (role_ok r', r'))))"

definition fullscreen_now :: "engine \<Rightarrow> (int \<Rightarrow> bool) \<Rightarrow> toplevel \<Rightarrow> bool" where
  "fullscreen_now e live win =
    (if en_reader e then live (tl_surfaceId win) else tl_fullscreen win = Some True)"

fun first_matching :: "registration list \<Rightarrow> toplevel \<Rightarrow> bool \<Rightarrow> int option \<times> registration list" where
  "first_matching [] win fullscreen = (None, [])"
| "first_matching (r # rs) win fullscreen =
     (let (ok, r') = matches r win fullscreen
      in if ok then (Some (rg_id r'), r' # rs)
         else let (w, rs') = first_matching rs win fullscreen in (w, r' # rs'))"

definition firstMatching :: "engine \<Rightarrow> (int \<Rightarrow> bool) \<Rightarrow> toplevel \<Rightarrow> int option \<times> engine" where
  "firstMatching e live win =
    (let (w, rs) = first_matching (en_registrations e) win (fullscreen_now e live win)
     in (w, e\<lparr>en_registrations := rs\<rparr>))"

section \<open>Operations\<close>

definition engine_new :: "bool \<Rightarrow> engine" where
  "engine_new reader = \<lparr>en_reader = reader, en_registrations = [], en_toplevels = [],
     en_assignments = [], en_nextSeq = 0\<rparr>"

definition registerCount :: "engine \<Rightarrow> nat" where
  "registerCount e = length (en_registrations e)"

definition assign :: "engine \<Rightarrow> int \<Rightarrow> int \<Rightarrow> engine" where
  "assign e sid rid = e\<lparr>en_assignments := oset sid rid (en_assignments e)\<rparr>"

definition unassign :: "engine \<Rightarrow> int \<Rightarrow> engine" where
  "unassign e sid = e\<lparr>en_assignments := odel sid (en_assignments e)\<rparr>"

text \<open>
  The loop of \<open>addRegistration\<close> over the tracked toplevels. The new registration is in the list
  from the start, as the object the loop tests: \<open>r\<close> is that object, and the list is looked up
  only for the rank of the current owner.
\<close>

fun claim_loop :: "engine \<Rightarrow> (int \<Rightarrow> bool) \<Rightarrow> (int \<times> toplevel) list \<Rightarrow> registration \<Rightarrow>
    (int, int) omap \<Rightarrow> registration \<times> (int, int) omap \<times> match_event list" where
  "claim_loop e live [] r asg = (r, asg, [])"
| "claim_loop e live ((sid, win) # wins) r asg =
     (let fullscreen = (if en_reader e then live sid else tl_fullscreen win = Some True);
          (ok, r) = matches r win fullscreen
      in if \<not> ok then claim_loop e live wins r asg
         else case oget asg sid of
           None \<Rightarrow>
             (let (r', asg', evs) = claim_loop e live wins r (oset sid (rg_id r) asg)
              in (r', asg', Matched (rg_id r) sid # evs))
         | Some cur \<Rightarrow>
             (case find (\<lambda>x. rg_id x = cur) (insertSorted (en_registrations e) r) of
                None \<Rightarrow> claim_loop e live wins r asg
              | Some curReg \<Rightarrow>
                  if compareRank r curReg < 0 then
                    let (r', asg', evs) = claim_loop e live wins r (oset sid (rg_id r) asg)
                    in (r', asg', Unmatched cur sid # Matched (rg_id r) sid # evs)
                  else claim_loop e live wins r asg))"

definition addRegistration :: "engine \<Rightarrow> (int \<Rightarrow> bool) \<Rightarrow> registration \<Rightarrow> engine \<times> match_event list" where
  "addRegistration e live rPartial =
    (let r = rPartial\<lparr>rg_seq := en_nextSeq e\<rparr>;
         (r', asg, evs) = claim_loop e live (en_toplevels e) r (en_assignments e)
     in (e\<lparr>en_registrations := insertSorted (en_registrations e) r', en_assignments := asg,
           en_nextSeq := en_nextSeq e + 1\<rparr>, evs))"

fun freed_loop :: "(int \<Rightarrow> bool) \<Rightarrow> engine \<Rightarrow> int list \<Rightarrow> engine \<times> match_event list" where
  "freed_loop live e [] = (e, [])"
| "freed_loop live e (sid # sids) =
     (let e = unassign e sid
      in case oget (en_toplevels e) sid of
        None \<Rightarrow> freed_loop live e sids
      | Some win \<Rightarrow>
          (let (w, e) = firstMatching e live win
           in case w of
             None \<Rightarrow> freed_loop live e sids
           | Some rid \<Rightarrow>
               (let (e', evs) = freed_loop live (assign e sid rid) sids
                in (e', Matched rid sid # evs))))"

fun find_registration :: "registration list \<Rightarrow> int \<Rightarrow> nat option" where
  "find_registration [] rid = None"
| "find_registration (r # rs) rid =
     (if rg_id r = rid then Some 0 else map_option Suc (find_registration rs rid))"

definition removeRegistration :: "engine \<Rightarrow> (int \<Rightarrow> bool) \<Rightarrow> int \<Rightarrow> engine \<times> match_event list" where
  "removeRegistration e live rid =
    (case find_registration (en_registrations e) rid of
       None \<Rightarrow> (e, [])
     | Some idx \<Rightarrow>
         (let e = e\<lparr>en_registrations := remove_at idx (en_registrations e)\<rparr>;
              freed = map fst (filter (\<lambda>(sid, r). r = rid) (en_assignments e));
              (e', evs) = freed_loop live e freed
          in (e', map (Unmatched rid) freed @ evs)))"

definition trackToplevel :: "engine \<Rightarrow> (int \<Rightarrow> bool) \<Rightarrow> toplevel \<Rightarrow> engine \<times> match_event list" where
  "trackToplevel e live win =
    (let sid = tl_surfaceId win;
         tracked = (case oget (en_toplevels e) sid of
             Some cur \<Rightarrow> cur\<lparr>tl_appId := tl_appId win, tl_title := tl_title win,
               tl_fullscreen := (if tl_fullscreen win = None then tl_fullscreen cur else tl_fullscreen win)\<rparr>
           | None \<Rightarrow> win);
         e = e\<lparr>en_toplevels := oset sid tracked (en_toplevels e)\<rparr>
     in if oget (en_assignments e) sid \<noteq> None then (e, [])
        else let (w, e) = firstMatching e live tracked
             in case w of
               None \<Rightarrow> (e, [])
             | Some rid \<Rightarrow> (assign e sid rid, [Matched rid sid]))"

definition onToplevelPreconfigure :: "engine \<Rightarrow> (int \<Rightarrow> bool) \<Rightarrow> toplevel \<Rightarrow> engine \<times> match_event list" where
  "onToplevelPreconfigure e live win = trackToplevel e live win"

definition onToplevelMapped :: "engine \<Rightarrow> (int \<Rightarrow> bool) \<Rightarrow> toplevel \<Rightarrow> engine \<times> match_event list" where
  "onToplevelMapped e live win = trackToplevel e live win"

definition onToplevelUnmapped :: "engine \<Rightarrow> int \<Rightarrow> engine \<times> match_event list" where
  "onToplevelUnmapped e sid =
    (let (e, evs) = (case oget (en_assignments e) sid of
           None \<Rightarrow> (e, [])
         | Some rid \<Rightarrow> (unassign e sid, [Unmatched rid sid]))
     in (e\<lparr>en_toplevels := odel sid (en_toplevels e)\<rparr>, evs))"

definition reevaluate :: "engine \<Rightarrow> (int \<Rightarrow> bool) \<Rightarrow> int \<Rightarrow> toplevel \<Rightarrow> engine \<times> match_event list" where
  "reevaluate e live sid cur =
    (let old = oget (en_assignments e) sid; (winner, e) = firstMatching e live cur
     in if old = winner \<and> old \<noteq> None then (e, [])
        else let (e, evs) = (case old of
                   None \<Rightarrow> (e, [])
                 | Some rid \<Rightarrow> (unassign e sid, [Unmatched rid sid]))
             in case winner of
               None \<Rightarrow> (e, evs)
             | Some rid \<Rightarrow> (assign e sid rid, evs @ [Matched rid sid]))"

definition onToplevelChanged :: "engine \<Rightarrow> (int \<Rightarrow> bool) \<Rightarrow> int \<Rightarrow> string option \<Rightarrow> string option \<Rightarrow>
    engine \<times> match_event list" where
  "onToplevelChanged e live sid appId title =
    (case oget (en_toplevels e) sid of
       None \<Rightarrow> (e, [])
     | Some cur \<Rightarrow>
         (let cur = cur\<lparr>tl_appId := appId, tl_title := title\<rparr>
          in reevaluate (e\<lparr>en_toplevels := oset sid cur (en_toplevels e)\<rparr>) live sid cur))"

definition onToplevelFullscreenChanged :: "engine \<Rightarrow> (int \<Rightarrow> bool) \<Rightarrow> int \<Rightarrow> bool \<Rightarrow>
    engine \<times> match_event list" where
  "onToplevelFullscreenChanged e live sid fullscreen =
    (case oget (en_toplevels e) sid of
       None \<Rightarrow> (e, [])
     | Some cur \<Rightarrow>
         if \<not> en_reader e \<and> tl_fullscreen cur = Some fullscreen then (e, [])
         else let cur = cur\<lparr>tl_fullscreen := Some fullscreen\<rparr>
              in reevaluate (e\<lparr>en_toplevels := oset sid cur (en_toplevels e)\<rparr>) live sid cur)"

definition shutdown :: "engine \<Rightarrow> engine" where
  "shutdown e = e\<lparr>en_registrations := [], en_toplevels := [], en_assignments := []\<rparr>"

definition registrationFor :: "engine \<Rightarrow> int \<Rightarrow> int option" where
  "registrationFor e sid = oget (en_assignments e) sid"

definition toplevelData :: "engine \<Rightarrow> int \<Rightarrow> toplevel option" where
  "toplevelData e sid = oget (en_toplevels e) sid"

definition assignmentList :: "engine \<Rightarrow> (int \<times> int) list" where
  "assignmentList e = en_assignments e"

text \<open>A session: each call with the live fullscreen answers it may consult.\<close>

datatype match_op =
    AddReg registration | RemoveReg int | Preconfigure toplevel | MapTop toplevel | UnmapTop int
  | ChangeTop int "string option" "string option" | FullscreenTop int bool | Shutdown

fun match_do :: "engine \<Rightarrow> (int \<Rightarrow> bool) \<times> match_op \<Rightarrow> engine \<times> match_event list" where
  "match_do e (live, AddReg r) = addRegistration e live r"
| "match_do e (live, RemoveReg rid) = removeRegistration e live rid"
| "match_do e (live, Preconfigure win) = onToplevelPreconfigure e live win"
| "match_do e (live, MapTop win) = onToplevelMapped e live win"
| "match_do e (live, UnmapTop sid) = onToplevelUnmapped e sid"
| "match_do e (live, ChangeTop sid a t) = onToplevelChanged e live sid a t"
| "match_do e (live, FullscreenTop sid f) = onToplevelFullscreenChanged e live sid f"
| "match_do e (live, Shutdown) = (shutdown e, [])"

section \<open>The events mirror the assignments\<close>

text \<open>What a listener reconstructs: a surface is taken only when free, and given up only by its owner.\<close>

fun heard :: "(int \<Rightarrow> int option) \<Rightarrow> match_event \<Rightarrow> (int \<Rightarrow> int option) option" where
  "heard m (Matched rid sid) = (if m sid = None then Some (m(sid \<mapsto> rid)) else None)"
| "heard m (Unmatched rid sid) = (if m sid = Some rid then Some (m(sid := None)) else None)"

fun hear :: "(int \<Rightarrow> int option) \<Rightarrow> match_event list \<Rightarrow> (int \<Rightarrow> int option) option" where
  "hear m [] = Some m"
| "hear m (ev # evs) = (case heard m ev of None \<Rightarrow> None | Some m' \<Rightarrow> hear m' evs)"

definition listener :: "(int \<Rightarrow> int option) \<Rightarrow> (int \<Rightarrow> bool) \<times> match_op \<Rightarrow> match_event list \<Rightarrow>
    (int \<Rightarrow> int option) option" where
  "listener m cmd evs = hear (if snd cmd = Shutdown then Map.empty else m) evs"

lemma fun_upd_twice: "(\<lambda>k. if k = x then None else m k)(x \<mapsto> y) = m(x \<mapsto> y)"
  by (rule ext) simp

lemma hear_append:
  "hear m (evs @ evs') = (case hear m evs of None \<Rightarrow> None | Some m' \<Rightarrow> hear m' evs')"
  by (induction evs arbitrary: m) (auto split: option.splits)

lemma firstMatching_frame [simp]:
  "en_toplevels (snd (firstMatching e live t)) = en_toplevels e"
  "en_assignments (snd (firstMatching e live t)) = en_assignments e"
  "en_reader (snd (firstMatching e live t)) = en_reader e"
  "en_nextSeq (snd (firstMatching e live t)) = en_nextSeq e"
  by (simp_all add: firstMatching_def split: prod.splits)

lemma claim_loop_heard:
  "claim_loop e live wins r asg = (r', asg', evs) \<Longrightarrow> hear (oget asg) evs = Some (oget asg')"
  by (induction e live wins r asg arbitrary: r' asg' evs rule: claim_loop.induct)
     (auto simp: Let_def split: prod.splits if_splits option.splits)

lemma freed_loop_heard:
  "freed_loop live e sids = (e', evs) \<Longrightarrow> distinct sids \<Longrightarrow>
     hear (\<lambda>s. if s \<in> set sids then None else oget (en_assignments e) s) evs = Some (oget (en_assignments e'))"
proof (induction live e sids arbitrary: e' evs rule: freed_loop.induct)
  case (1 live e)
  then show ?case by simp
next
  case (2 live e sid sids)
  define w e1 where "w = (\<lambda>t. fst (firstMatching (unassign e sid) live t))"
    and "e1 = (\<lambda>t. snd (firstMatching (unassign e sid) live t))"
  then have fm: "firstMatching (unassign e sid) live t = (w t, e1 t)" for t by simp
  have tu: "en_toplevels (unassign e sid) = en_toplevels e" by (simp add: unassign_def)
  have a1: "en_assignments (e1 t) = en_assignments (unassign e sid)" for t
    by (simp add: e1_def)
  have out: "(\<lambda>s. if s \<in> set sids then None else oget (en_assignments (unassign e sid)) s)
    = (\<lambda>s. if s = sid \<or> s \<in> set sids then None else oget (en_assignments e) s)"
    by (rule ext) (simp add: unassign_def)
  show ?case
  proof (cases "oget (en_toplevels e) sid")
    case None
    with "2.prems" "2.IH"(1) [OF refl, unfolded tu, OF None] show ?thesis by (simp add: Let_def out tu)
  next
    case (Some t)
    show ?thesis
    proof (cases "w t")
      case None
      with "2.prems" Some "2.IH"(2) [OF refl, unfolded tu, OF Some fm [symmetric] refl None] show ?thesis
        by (simp add: Let_def fm tu out [folded a1 [of t]])
    next
      case w: (Some rid)
      have at: "(\<lambda>s. if s \<in> set sids then None else oget (en_assignments (assign (e1 t) sid rid)) s)
        = (\<lambda>s. if s = sid \<or> s \<in> set sids then None else oget (en_assignments e) s)(sid \<mapsto> rid)"
        using "2.prems"(2) by (intro ext) (auto simp: assign_def a1 unassign_def)
      obtain e2 evs2 where r: "freed_loop live (assign (e1 t) sid rid) sids = (e2, evs2)" by fastforce
      have "evs = Matched rid sid # evs2" "e' = e2"
        using "2.prems"(1) Some w r by (simp_all add: Let_def tu fm)
      with "2.IH"(3) [OF refl, unfolded tu, OF Some fm [symmetric] refl w r] "2.prems"(2) Some show ?thesis
        by (simp add: at)
    qed
  qed
qed

lemma hear_unmatched:
  "distinct sids \<Longrightarrow> \<forall>s \<in> set sids. m s = Some rid \<Longrightarrow>
     hear m (map (Unmatched rid) sids) = Some (\<lambda>s. if s \<in> set sids then None else m s)"
proof (induction sids arbitrary: m)
  case Nil
  then show ?case by (simp add: fun_eq_iff)
next
  case (Cons s sids)
  then have "hear (m(s := None)) (map (Unmatched rid) sids)
      = Some (\<lambda>x. if x \<in> set sids then None else (m(s := None)) x)" by (intro Cons.IH) auto
  moreover have "(\<lambda>x. if x \<in> set sids then None else (m(s := None)) x) = (\<lambda>x. if x \<in> set (s # sids) then None else m x)"
    by (rule ext) simp
  ultimately show ?case using Cons.prems by simp
qed

text \<open>The keys of both maps stay distinct.\<close>

definition keys_ok :: "engine \<Rightarrow> bool" where
  "keys_ok e \<longleftrightarrow> distinct (okeys (en_assignments e)) \<and> distinct (okeys (en_toplevels e))"

lemma keys_ok_simps [simp]:
  "keys_ok e \<Longrightarrow> keys_ok (assign e sid rid)" "keys_ok e \<Longrightarrow> keys_ok (unassign e sid)"
  "keys_ok e \<Longrightarrow> keys_ok (snd (firstMatching e live t))"
  "keys_ok e \<Longrightarrow> keys_ok (e\<lparr>en_toplevels := oset sid t (en_toplevels e)\<rparr>)"
  "keys_ok e \<Longrightarrow> keys_ok (e\<lparr>en_toplevels := odel sid (en_toplevels e)\<rparr>)"
  by (simp_all add: keys_ok_def assign_def unassign_def)

lemma firstMatching_keeps:
  assumes "firstMatching e live t = (w, e1)"
  shows "en_toplevels e1 = en_toplevels e" "en_assignments e1 = en_assignments e"
    "en_reader e1 = en_reader e" "en_nextSeq e1 = en_nextSeq e" "keys_ok e1 = keys_ok e"
  using firstMatching_frame [of e live t] by (simp_all add: assms keys_ok_def)

lemma freed_loop_keys: "freed_loop live e sids = (e', evs) \<Longrightarrow> keys_ok e \<Longrightarrow> keys_ok e'"
proof (induction sids arbitrary: e e' evs)
  case (Cons sid sids)
  show ?case
  proof (cases "oget (en_toplevels (unassign e sid)) sid")
    case None
    with Cons show ?thesis by (simp add: Let_def)
  next
    case (Some t)
    obtain w e1 where f: "firstMatching (unassign e sid) live t = (w, e1)" by fastforce
    have "keys_ok e1" using firstMatching_keeps(5) [OF f] Cons.prems(2) by simp
    then show ?thesis using Cons Some f
      by (cases w) (auto simp: Let_def split: prod.splits)
  qed
qed simp

lemma claim_loop_keys:
  "claim_loop e live wins r asg = (r', asg', evs) \<Longrightarrow> distinct (okeys asg) \<Longrightarrow> distinct (okeys asg')"
proof (induction wins arbitrary: r asg r' asg' evs)
  case Nil
  then show ?case by simp
next
  case (Cons w wins)
  obtain sid win where w: "w = (sid, win)" by fastforce
  obtain ok r1 where m: "matches r win (if en_reader e then live sid else tl_fullscreen win = Some True) = (ok, r1)"
    by fastforce
  have "distinct (okeys (oset sid (rg_id r1) asg))" using Cons.prems(2) by simp
  then show ?case
    using Cons.prems Cons.IH [of r1 asg] Cons.IH [of r1 "oset sid (rg_id r1) asg"] m
    by (auto simp: w Let_def simp del: distinct_okeys_oset split: prod.splits if_splits option.splits)
qed

lemma reevaluate_heard:
  assumes "reevaluate e live sid cur = (e', evs)"
  shows "hear (oget (en_assignments e)) evs = Some (oget (en_assignments e'))" "keys_ok e \<Longrightarrow> keys_ok e'"
proof -
  obtain w e1 where f: "firstMatching e live cur = (w, e1)" by fastforce
  note k = firstMatching_keeps [OF f]
  show "hear (oget (en_assignments e)) evs = Some (oget (en_assignments e'))"
    using assms k(2)
    by (cases "oget (en_assignments e) sid"; cases w)
       (auto simp: reevaluate_def f assign_def unassign_def Let_def fun_upd_twice split: if_splits)
  show "keys_ok e'" if "keys_ok e"
    using assms k(5) that
    by (cases "oget (en_assignments e) sid"; cases w)
       (auto simp: reevaluate_def f Let_def split: if_splits)
qed

definition retrack :: "engine \<Rightarrow> toplevel \<Rightarrow> toplevel" where
  "retrack e win = (case oget (en_toplevels e) (tl_surfaceId win) of
      Some cur \<Rightarrow> cur\<lparr>tl_appId := tl_appId win, tl_title := tl_title win,
        tl_fullscreen := (if tl_fullscreen win = None then tl_fullscreen cur else tl_fullscreen win)\<rparr>
    | None \<Rightarrow> win)"

lemma trackToplevel_cases:
  assumes "trackToplevel e live win = (e', evs)"
  obtains (kept) "oget (en_assignments e) (tl_surfaceId win) \<noteq> None" "evs = []"
      "e' = e\<lparr>en_toplevels := oset (tl_surfaceId win) (retrack e win) (en_toplevels e)\<rparr>"
  | (matched) w e1 where "oget (en_assignments e) (tl_surfaceId win) = None"
      "firstMatching (e\<lparr>en_toplevels := oset (tl_surfaceId win) (retrack e win) (en_toplevels e)\<rparr>) live
         (retrack e win) = (w, e1)"
      "e' = (case w of None \<Rightarrow> e1 | Some rid \<Rightarrow> assign e1 (tl_surfaceId win) rid)"
      "evs = (case w of None \<Rightarrow> [] | Some rid \<Rightarrow> [Matched rid (tl_surfaceId win)])"
  using assms unfolding trackToplevel_def Let_def retrack_def [symmetric]
  by (cases "oget (en_assignments e) (tl_surfaceId win) = None") (auto split: prod.splits option.splits)

lemma trackToplevel_heard:
  assumes "trackToplevel e live win = (e', evs)"
  shows "hear (oget (en_assignments e)) evs = Some (oget (en_assignments e'))" "keys_ok e \<Longrightarrow> keys_ok e'"
proof -
  from assms have "hear (oget (en_assignments e)) evs = Some (oget (en_assignments e')) \<and> (keys_ok e \<longrightarrow> keys_ok e')"
  proof (cases rule: trackToplevel_cases)
    case kept
    then show ?thesis by simp
  next
    case (matched w e1)
    with firstMatching_keeps [OF matched(2)] show ?thesis
      by (cases w) (auto simp: assign_def keys_ok_def fun_eq_iff)
  qed
  then show "hear (oget (en_assignments e)) evs = Some (oget (en_assignments e'))" "keys_ok e \<Longrightarrow> keys_ok e'"
    by blast+
qed

lemma hear_all: "listener m cmd evs = hear m evs" if "snd cmd \<noteq> Shutdown"
  using that by (simp add: listener_def)

lemma freed_keys:
  assumes "distinct (okeys m)"
  shows "distinct (map fst (filter (\<lambda>(s, r). r = rid) m))"
    "set (map fst (filter (\<lambda>(s, r). r = rid) m)) = {s. oget m s = Some rid}"
proof -
  show "distinct (map fst (filter (\<lambda>(s, r). r = rid) m))" using assms by (rule distinct_map_filter)
  show "set (map fst (filter (\<lambda>(s, r). r = rid) m)) = {s. oget m s = Some rid}"
    using in_set_oget [OF assms] by force
qed

lemma removeRegistration_heard:
  assumes k: "keys_ok e" and d: "removeRegistration e live rid = (e', evs)"
  shows "hear (oget (en_assignments e)) evs = Some (oget (en_assignments e')) \<and> keys_ok e'"
proof (cases "find_registration (en_registrations e) rid")
  case None
  with d k show ?thesis by (simp add: removeRegistration_def)
next
  case (Some idx)
  define e0 where "e0 = e\<lparr>en_registrations := remove_at idx (en_registrations e)\<rparr>"
  define freed where "freed = map fst (filter (\<lambda>(s, r). r = rid) (en_assignments e))"
  have same: "en_assignments e0 = en_assignments e" "keys_ok e0 = keys_ok e"
    by (simp_all add: e0_def keys_ok_def)
  obtain e1 evs1 where l: "freed_loop live e0 freed = (e1, evs1)" by fastforce
  have out: "e' = e1" "evs = map (Unmatched rid) freed @ evs1"
    using d Some l by (simp_all add: removeRegistration_def Let_def e0_def freed_def)
  from k have da: "distinct (okeys (en_assignments e))" by (simp add: keys_ok_def)
  have f: "distinct freed" "\<forall>s \<in> set freed. oget (en_assignments e) s = Some rid"
    using freed_keys [OF da, of rid] by (auto simp: freed_def)
  from freed_loop_heard [OF l f(1), unfolded same] hear_unmatched [OF f] freed_loop_keys [OF l] k show ?thesis
    by (simp add: out hear_append same)
qed

lemma match_do_heard:
  assumes k: "keys_ok e" and d: "match_do e cmd = (e', evs)"
  shows "listener (oget (en_assignments e)) cmd evs = Some (oget (en_assignments e')) \<and> keys_ok e'"
proof -
  obtain live opn where cmd: "cmd = (live, opn)" by fastforce
  show ?thesis
  proof (cases opn)
    case (AddReg r)
    with d k show ?thesis unfolding cmd
      by (auto simp: hear_all addRegistration_def Let_def keys_ok_def dest: claim_loop_heard claim_loop_keys
            split: prod.splits)
  next
    case (RemoveReg rid)
    with d show ?thesis unfolding cmd by (simp add: hear_all removeRegistration_heard [OF k])
  next
    case (Preconfigure t)
    with d k trackToplevel_heard show ?thesis unfolding cmd
      by (simp add: hear_all onToplevelPreconfigure_def)
  next
    case (MapTop t)
    with d k trackToplevel_heard show ?thesis unfolding cmd by (simp add: hear_all onToplevelMapped_def)
  next
    case (UnmapTop sid)
    with d k show ?thesis unfolding cmd
      by (cases "oget (en_assignments e) sid")
         (auto simp: hear_all onToplevelUnmapped_def unassign_def keys_ok_def fun_eq_iff)
  next
    case (ChangeTop sid a t)
    show ?thesis
    proof (cases "oget (en_toplevels e) sid")
      case None
      with d k ChangeTop show ?thesis unfolding cmd by (simp add: hear_all onToplevelChanged_def)
    next
      case (Some cur)
      with d ChangeTop have "reevaluate (e\<lparr>en_toplevels := oset sid (cur\<lparr>tl_appId := a, tl_title := t\<rparr>) (en_toplevels e)\<rparr>)
          live sid (cur\<lparr>tl_appId := a, tl_title := t\<rparr>) = (e', evs)"
        unfolding cmd by (simp add: onToplevelChanged_def Let_def)
      from reevaluate_heard [OF this] k ChangeTop show ?thesis unfolding cmd by (simp add: hear_all)
    qed
  next
    case (FullscreenTop sid f)
    show ?thesis
    proof (cases "\<exists>cur. oget (en_toplevels e) sid = Some cur \<and> (en_reader e \<or> tl_fullscreen cur \<noteq> Some f)")
      case False
      with d k FullscreenTop show ?thesis unfolding cmd
        by (auto simp: hear_all onToplevelFullscreenChanged_def split: option.splits if_splits)
    next
      case True
      then obtain cur where "oget (en_toplevels e) sid = Some cur" "en_reader e \<or> tl_fullscreen cur \<noteq> Some f" by blast
      with d FullscreenTop have "reevaluate (e\<lparr>en_toplevels := oset sid (cur\<lparr>tl_fullscreen := Some f\<rparr>) (en_toplevels e)\<rparr>)
          live sid (cur\<lparr>tl_fullscreen := Some f\<rparr>) = (e', evs)"
        unfolding cmd by (auto simp: onToplevelFullscreenChanged_def Let_def)
      from reevaluate_heard [OF this] k FullscreenTop show ?thesis unfolding cmd by (simp add: hear_all)
    qed
  next
    case Shutdown
    with d show ?thesis unfolding cmd by (auto simp: listener_def shutdown_def keys_ok_def)
  qed
qed

interpretation match_listener: monitored match_do "\<lambda>_ _. True" listener
  "\<lambda>e m. m = oget (en_assignments e) \<and> keys_ok e"
  by unfold_locales (metis match_do_heard)

section \<open>The assigned registration is the first that accepts\<close>

text \<open>The verdict of a registration whose pattern keeps no position.\<close>

definition accepts :: "registration \<Rightarrow> toplevel \<Rightarrow> bool \<Rightarrow> bool" where
  "accepts r win fullscreen \<longleftrightarrow> \<not> (rg_excludeFullscreen r \<and> fullscreen) \<and> role_ok r
    \<and> (case rg_appIdRegex r of None \<Rightarrow> True
       | Some x \<Rightarrow> (case tl_appId win of None \<Rightarrow> False | Some a \<Rightarrow> rx_find x a 0 \<noteq> None))"

lemma accepts_set_fullscreen [simp]: "accepts r (t\<lparr>tl_fullscreen := f\<rparr>) fs = accepts r t fs"
  by (auto simp: accepts_def split: option.splits)

definition plain :: "registration \<Rightarrow> bool" where
  "plain r \<longleftrightarrow> (case rg_appIdRegex r of None \<Rightarrow> True | Some x \<Rightarrow> \<not> rx_keeps x)"

lemma matches_plain: "plain r \<Longrightarrow> matches r win fs = (accepts r win fs, r)"
proof -
  assume "plain r"
  then have "regexp_test x a = (rx_find x a 0 \<noteq> None, x)" if "rg_appIdRegex r = Some x" for x a
    using that by (simp add: plain_def regexp_test_def)
  moreover have "r\<lparr>rg_appIdRegex := Some x\<rparr> = r" if "rg_appIdRegex r = Some x" for x
    using that by (cases r) simp
  ultimately show ?thesis
    by (cases "rg_appIdRegex r"; cases "tl_appId win") (auto simp: matches_def accepts_def role_ok_def Let_def)
qed

definition chosen :: "registration list \<Rightarrow> toplevel \<Rightarrow> bool \<Rightarrow> int option" where
  "chosen rs win fs = map_option rg_id (find (\<lambda>r. accepts r win fs) rs)"

lemma first_matching_plain:
  "list_all plain rs \<Longrightarrow> first_matching rs win fs = (chosen rs win fs, rs)"
  by (induction rs) (auto simp: matches_plain chosen_def)

lemma firstMatching_plain:
  "list_all plain (en_registrations e) \<Longrightarrow>
     firstMatching e live win = (chosen (en_registrations e) win (fullscreen_now e live win), e)"
  by (simp add: firstMatching_def first_matching_plain)

definition rank_less :: "registration \<Rightarrow> registration \<Rightarrow> bool" where
  "rank_less a b \<longleftrightarrow> rank_of a < rank_of b"

definition match_inv :: "engine \<Rightarrow> bool" where
  "match_inv e \<longleftrightarrow> keys_ok e \<and> sorted_wrt rank_less (en_registrations e)
    \<and> list_all plain (en_registrations e) \<and> list_all (\<lambda>r. rg_seq r < en_nextSeq e) (en_registrations e)
    \<and> distinct (map rg_id (en_registrations e))
    \<and> (\<forall>sid t. oget (en_toplevels e) sid = Some t \<longrightarrow> tl_surfaceId t = sid)
    \<and> dom (oget (en_assignments e)) \<subseteq> dom (oget (en_toplevels e))"

text \<open>Every tracked toplevel is assigned to the first accepting registration, if there is one.\<close>

definition settled :: "engine \<Rightarrow> (int \<Rightarrow> bool) \<Rightarrow> bool" where
  "settled e live \<longleftrightarrow> (\<forall>sid t. oget (en_toplevels e) sid = Some t \<longrightarrow>
     oget (en_assignments e) sid = chosen (en_registrations e) t (fullscreen_now e live t))"

lemma match_invD:
  assumes "match_inv e"
  shows "keys_ok e" "sorted_wrt rank_less (en_registrations e)" "list_all plain (en_registrations e)"
    "list_all (\<lambda>r. rg_seq r < en_nextSeq e) (en_registrations e)" "distinct (map rg_id (en_registrations e))"
    "\<And>sid t. oget (en_toplevels e) sid = Some t \<Longrightarrow> tl_surfaceId t = sid"
    "dom (oget (en_assignments e)) \<subseteq> dom (oget (en_toplevels e))"
  using assms by (auto simp: match_inv_def)

lemma insertSorted_set [simp]: "set (insertSorted rs r) = insert r (set rs)"
  by (induction rs) auto

lemma insertSorted_mset [simp]: "mset (insertSorted rs r) = add_mset r (mset rs)"
  by (induction rs) auto

lemma insertSorted_ids: "distinct (map rg_id (insertSorted rs r)) \<longleftrightarrow> rg_id r \<notin> rg_id ` set rs \<and> distinct (map rg_id rs)"
  by (induction rs) auto

lemma insertSorted_sorted:
  assumes "sorted_wrt rank_less rs" "\<forall>x \<in> set rs. rank_of x \<noteq> rank_of r"
  shows "sorted_wrt rank_less (insertSorted rs r)"
  using assms by (induction rs) (auto simp: rank_less_def not_less dest: le_neq_trans)

lemma find_insertSorted:
  assumes "sorted_wrt rank_less rs"
  shows "find P (insertSorted rs r) = (if P r then
      (case find P rs of None \<Rightarrow> Some r | Some c \<Rightarrow> if rank_of r < rank_of c then Some r else Some c)
    else find P rs)"
  using assms
proof (induction rs)
  case Nil
  then show ?case by simp
next
  case (Cons x rs)
  have "rank_of r < rank_of c" if "rank_of r < rank_of x" "find P rs = Some c" for c
  proof -
    from that(2) have "c \<in> set rs" by (auto simp: find_Some_iff)
    with Cons.prems have "rank_of x < rank_of c" by (auto simp: rank_less_def)
    with that(1) show ?thesis by simp
  qed
  with Cons show ?case by (auto split: option.splits)
qed

lemma find_by_id:
  assumes "distinct (map rg_id rs)" "c \<in> set rs"
  shows "find (\<lambda>x. rg_id x = rg_id c) rs = Some c"
  using assms by (induction rs) force+

definition claimed :: "engine \<Rightarrow> (int \<Rightarrow> bool) \<Rightarrow> (int \<times> toplevel) list \<Rightarrow> registration \<Rightarrow>
    (int, int) omap \<Rightarrow> int \<Rightarrow> int option" where
  "claimed e live wins r asg sid = (case oget wins sid of None \<Rightarrow> oget asg sid
     | Some t \<Rightarrow>
         if accepts r t (if en_reader e then live sid else tl_fullscreen t = Some True) then
           (case oget asg sid of None \<Rightarrow> Some (rg_id r)
            | Some cur \<Rightarrow> (case find (\<lambda>x. rg_id x = cur) (insertSorted (en_registrations e) r) of
                None \<Rightarrow> Some cur
              | Some c \<Rightarrow> if rank_of r < rank_of c then Some (rg_id r) else Some cur))
         else oget asg sid)"

lemma claim_loop_plain:
  assumes "plain r" "distinct (okeys wins)" "claim_loop e live wins r asg = (r', asg', evs)"
  shows "r' = r \<and> (\<forall>sid. oget asg' sid = claimed e live wins r asg sid)"
  using assms(2,3)
proof (induction wins arbitrary: asg r' asg' evs)
  case Nil
  then show ?case by (simp add: claimed_def)
next
  case (Cons w wins)
  obtain sid t where w: "w = (sid, t)" by fastforce
  let ?fs = "if en_reader e then live sid else tl_fullscreen t = Some True"
  have d: "distinct (okeys wins)" "oget wins sid = None"
    using Cons.prems(1) by (auto simp: w oget_None_key)
  note IH = Cons.IH [OF d(1)]
  define take where "take = (accepts r t ?fs \<and> (case oget asg sid of None \<Rightarrow> True
    | Some cur \<Rightarrow> (case find (\<lambda>x. rg_id x = cur) (insertSorted (en_registrations e) r) of
        None \<Rightarrow> False | Some c \<Rightarrow> rank_of r < rank_of c)))"
  define asg1 where "asg1 = (if take then oset sid (rg_id r) asg else asg)"
  have "\<exists>evs1. claim_loop e live wins r asg1 = (r', asg', evs1)"
    using Cons.prems(2) by (auto simp: w matches_plain [OF assms(1)] take_def asg1_def Let_def
        split: prod.splits if_splits option.splits)
  then have r: "r' = r" "\<And>s. oget asg' s = claimed e live wins r asg1 s" using IH by blast+
  have "claimed e live wins r asg1 s = claimed e live (w # wins) r asg s" for s
  proof (cases "s = sid")
    case True
    then show ?thesis
      by (auto simp: claimed_def w d(2) asg1_def take_def split: option.splits)
  next
    case False
    then have "oget asg1 s = oget asg s" by (simp add: asg1_def)
    with False show ?thesis unfolding claimed_def w by simp (simp cong: if_cong option.case_cong)
  qed
  with r show ?case by simp
qed

lemma settled_add:
  assumes i: "match_inv e" and s: "settled e live" and r: "plain r" "rg_id r \<notin> rg_id ` set (en_registrations e)"
    and d: "addRegistration e live r = (e', evs)"
  shows "match_inv e' \<and> settled e' live"
proof -
  let ?r = "r\<lparr>rg_seq := en_nextSeq e\<rparr>" and ?regs = "en_registrations e"
  note m = match_invD [OF i]
  have p: "plain ?r" using r(1) by (simp add: plain_def)
  obtain r' asg evs' where l: "claim_loop e live (en_toplevels e) ?r (en_assignments e) = (r', asg, evs')"
    by (metis prod_cases3)
  from m(1) have dk: "distinct (okeys (en_toplevels e))" "distinct (okeys (en_assignments e))" by (simp_all add: keys_ok_def)
  from claim_loop_plain [OF p dk(1) l] have c: "r' = ?r"
    "\<And>sid. oget asg sid = claimed e live (en_toplevels e) ?r (en_assignments e) sid" by auto
  have e': "e' = e\<lparr>en_registrations := insertSorted ?regs ?r, en_assignments := asg, en_nextSeq := en_nextSeq e + 1\<rparr>"
    using d l by (simp add: addRegistration_def Let_def c(1))
  have rk: "rank_of x \<noteq> rank_of ?r" if "x \<in> set ?regs" for x
    using m(4) that by (auto simp: rank_of_def list_all_iff)
  have so: "sorted_wrt rank_less (insertSorted ?regs ?r)" using insertSorted_sorted [OF m(2)] rk by blast
  have ids: "distinct (map rg_id (insertSorted ?regs ?r))" using m(5) r(2) by (simp add: insertSorted_ids)
  have at: "oget asg sid = chosen (insertSorted ?regs ?r) t (fullscreen_now e live t)"
    if t: "oget (en_toplevels e) sid = Some t" for sid t
  proof -
    let ?fs = "fullscreen_now e live t"
    have now: "(if en_reader e then live sid else tl_fullscreen t = Some True) = ?fs"
      using m(6) [OF t] by (simp add: fullscreen_now_def)
    have old: "oget (en_assignments e) sid = chosen ?regs t ?fs" using s t by (simp add: settled_def)
    have "find (\<lambda>x. rg_id x = rg_id c) (insertSorted ?regs ?r) = Some c"
      if "find (\<lambda>x. accepts x t ?fs) ?regs = Some c" for c
      using find_by_id [OF ids, of c] that by (auto simp: find_Some_iff)
    with old show ?thesis
      by (auto simp: c(2) claimed_def t now chosen_def find_insertSorted [OF m(2)] split: option.splits)
  qed
  have "dom (oget asg) \<subseteq> dom (oget (en_toplevels e))"
    using m(7) by (auto simp: c(2) claimed_def dom_def split: option.splits)
  then have "match_inv e'" using m(3,4,6) so ids p claim_loop_keys [OF l dk(2)] dk(1)
    by (auto simp: e' match_inv_def list_all_iff keys_ok_def simp del: rg_id_def)
  with at show ?thesis by (simp add: e' settled_def fullscreen_now_def)
qed

lemma freed_loop_plain:
  "freed_loop live e sids = (e', evs) \<Longrightarrow> list_all plain (en_registrations e) \<Longrightarrow>
    (\<exists>asg. e' = e\<lparr>en_assignments := asg\<rparr> \<and> (\<forall>s. oget asg s =
      (if s \<in> set sids then
         (case oget (en_toplevels e) s of None \<Rightarrow> None
          | Some t \<Rightarrow> chosen (en_registrations e) t (fullscreen_now e live t))
       else oget (en_assignments e) s)))"
proof (induction sids arbitrary: e e' evs)
  case Nil
  then have "e' = e\<lparr>en_assignments := en_assignments e\<rparr>" by simp
  then show ?case by fastforce
next
  case (Cons sid sids)
  let ?u = "unassign e sid"
  define new where "new = (case oget (en_toplevels e) sid of None \<Rightarrow> None
    | Some t \<Rightarrow> chosen (en_registrations e) t (fullscreen_now e live t))"
  define e1 where "e1 = (case new of None \<Rightarrow> ?u | Some rid \<Rightarrow> assign ?u sid rid)"
  have same: "en_toplevels e1 = en_toplevels e" "en_registrations e1 = en_registrations e"
    "en_reader e1 = en_reader e" "e1\<lparr>en_assignments := a\<rparr> = e\<lparr>en_assignments := a\<rparr>" for a
    by (simp_all add: e1_def unassign_def assign_def split: option.splits)
  have e1: "oget (en_assignments e1) s = (if s = sid then new else oget (en_assignments e) s)" for s
    by (simp add: e1_def unassign_def assign_def split: option.splits)
  have now: "fullscreen_now e1 = fullscreen_now e" "fullscreen_now ?u = fullscreen_now e"
    by (simp_all add: fun_eq_iff fullscreen_now_def same unassign_def)
  have u: "en_registrations ?u = en_registrations e" "en_toplevels ?u = en_toplevels e"
    by (simp_all add: unassign_def)
  have "\<exists>evs1. freed_loop live e1 sids = (e', evs1)"
    using Cons.prems(1) firstMatching_plain [of ?u live] Cons.prems(2)
    by (auto simp: u now e1_def new_def Let_def split: option.splits prod.splits)
  with Cons.IH [of e1 e'] Cons.prems(2) obtain asg where asg: "e' = e\<lparr>en_assignments := asg\<rparr>"
    "\<And>s. oget asg s = (if s \<in> set sids then
         (case oget (en_toplevels e) s of None \<Rightarrow> None
          | Some t \<Rightarrow> chosen (en_registrations e) t (fullscreen_now e live t))
       else oget (en_assignments e1) s)"
    unfolding same now by blast
  show ?case
    by (rule exI [of _ asg]) (simp add: asg e1 new_def)
qed

lemma find_registration_remove:
  assumes "distinct (map rg_id rs)" "find_registration rs rid = Some i"
  shows "remove_at i rs = filter (\<lambda>r. rg_id r \<noteq> rid) rs"
  using assms
proof (induction rs arbitrary: i)
  case Nil
  then show ?case by simp
next
  case (Cons r rs)
  show ?case
  proof (cases "rg_id r = rid")
    case True
    with Cons.prems have "filter (\<lambda>r. rg_id r \<noteq> rid) rs = rs"
      by (auto simp: filter_id_conv) (metis image_eqI)
    with True Cons.prems show ?thesis by (simp add: remove_at_def)
  next
    case False
    with Cons show ?thesis by (auto simp: remove_at_def)
  qed
qed

lemma chosen_without:
  "chosen rs t fs \<noteq> Some rid \<Longrightarrow> chosen (filter (\<lambda>r. rg_id r \<noteq> rid) rs) t fs = chosen rs t fs"
  by (induction rs) (auto simp: chosen_def)

lemma settled_remove:
  assumes i: "match_inv e" and s: "settled e live" and d: "removeRegistration e live rid = (e', evs)"
  shows "match_inv e' \<and> settled e' live"
proof (cases "find_registration (en_registrations e) rid")
  case None
  with d i s show ?thesis by (simp add: removeRegistration_def)
next
  case (Some idx)
  note m = match_invD [OF i]
  let ?rs = "filter (\<lambda>r. rg_id r \<noteq> rid) (en_registrations e)"
  define e0 where "e0 = e\<lparr>en_registrations := ?rs\<rparr>"
  define freed where "freed = map fst (filter (\<lambda>(s, r). r = rid) (en_assignments e))"
  have p: "list_all plain (en_registrations e0)" using m(3) by (auto simp: e0_def list_all_iff)
  obtain e1 evs1 where l: "freed_loop live e0 freed = (e1, evs1)" by fastforce
  have "e' = e1" using d Some l
    by (simp add: removeRegistration_def Let_def e0_def freed_def find_registration_remove [OF m(5) Some])
  with freed_loop_plain [OF l p] obtain asg where e': "e' = e0\<lparr>en_assignments := asg\<rparr>"
    and asg: "\<And>s. oget asg s = (if s \<in> set freed then
         (case oget (en_toplevels e0) s of None \<Rightarrow> None
          | Some t \<Rightarrow> chosen (en_registrations e0) t (fullscreen_now e0 live t))
       else oget (en_assignments e0) s)" by blast
  have fr: "set freed = {s. oget (en_assignments e) s = Some rid}"
    using freed_keys(2) [of "en_assignments e" rid] m(1) by (simp add: freed_def keys_ok_def)
  have now: "fullscreen_now e0 = fullscreen_now e" by (simp add: fun_eq_iff fullscreen_now_def e0_def)
  have "keys_ok e0" using m(1) by (simp add: keys_ok_def e0_def)
  then have "keys_ok e'" using freed_loop_keys [OF l] \<open>e' = e1\<close> by simp
  moreover have "dom (oget asg) \<subseteq> dom (oget (en_toplevels e))"
    using m(7) by (auto simp: asg dom_def e0_def split: if_splits option.splits)
  ultimately have "match_inv e'" using m
    by (auto simp: e' e0_def match_inv_def list_all_iff sorted_wrt_filter distinct_map_filter)
  moreover have "settled e' live" unfolding settled_def
  proof (intro allI impI)
    fix sid t
    assume "oget (en_toplevels e') sid = Some t"
    then have t: "oget (en_toplevels e) sid = Some t" by (simp add: e' e0_def)
    then have old: "oget (en_assignments e) sid = chosen (en_registrations e) t (fullscreen_now e live t)"
      using s by (simp add: settled_def)
    have "fullscreen_now e' = fullscreen_now e" by (simp add: fun_eq_iff fullscreen_now_def e' e0_def)
    then show "oget (en_assignments e') sid = chosen (en_registrations e') t (fullscreen_now e' live t)"
      using t old chosen_without [of "en_registrations e" t "fullscreen_now e live t" rid]
      by (auto simp: e' asg fr e0_def now [unfolded e0_def])
  qed
  ultimately show ?thesis ..
qed

text \<open>One surface is put right, the others keep what they had.\<close>

lemma settled_one:
  assumes i: "match_inv e" and sid: "tl_surfaceId t = sid"
    and others: "\<And>s u. s \<noteq> sid \<Longrightarrow> oget (en_toplevels e) s = Some u \<Longrightarrow>
      oget (en_assignments e) s = chosen (en_registrations e) u (fullscreen_now e live u)"
    and e': "e' = e\<lparr>en_toplevels := oset sid t (en_toplevels e), en_assignments := asg\<rparr>"
    and asg: "oget asg = (oget (en_assignments e))(sid := chosen (en_registrations e) t (fullscreen_now e live t))"
    and k: "distinct (okeys asg)"
  shows "match_inv e' \<and> settled e' live"
proof
  have dk: "distinct (okeys (en_toplevels e))" using match_invD(1) [OF i] by (simp add: keys_ok_def)
  have "dom (oget asg) \<subseteq> insert sid (dom (oget (en_toplevels e)))"
    using match_invD(7) [OF i] by (force simp: asg dom_def)
  then show "match_inv e'" using match_invD(2-6) [OF i] k dk sid
    by (auto simp: e' match_inv_def keys_ok_def split: if_splits)
  show "settled e' live" using others
    by (auto simp: e' settled_def asg fullscreen_now_def split: if_splits)
qed

lemma settled_reevaluate:
  assumes i: "match_inv e" and sid: "tl_surfaceId t = sid"
    and others: "\<And>s u. s \<noteq> sid \<Longrightarrow> oget (en_toplevels e) s = Some u \<Longrightarrow>
      oget (en_assignments e) s = chosen (en_registrations e) u (fullscreen_now e live u)"
    and d: "reevaluate (e\<lparr>en_toplevels := oset sid t (en_toplevels e)\<rparr>) live sid t = (e', evs)"
  shows "match_inv e' \<and> settled e' live"
proof -
  let ?e0 = "e\<lparr>en_toplevels := oset sid t (en_toplevels e)\<rparr>"
  define w where "w = chosen (en_registrations e) t (fullscreen_now e live t)"
  have f: "firstMatching ?e0 live t = (w, ?e0)"
    using firstMatching_plain [of ?e0 live t] match_invD(3) [OF i]
    by (simp add: w_def fullscreen_now_def)
  have "oget (en_assignments e') = (oget (en_assignments e))(sid := chosen (en_registrations e) t (fullscreen_now e live t))"
    unfolding w_def [symmetric] using d by (cases "oget (en_assignments e) sid"; cases w)
      (auto simp: reevaluate_def f Let_def assign_def unassign_def fun_eq_iff split: if_splits)
  moreover have "e' = e\<lparr>en_toplevels := oset sid t (en_toplevels e), en_assignments := en_assignments e'\<rparr>"
    using d by (cases "oget (en_assignments e) sid"; cases w)
      (auto simp: reevaluate_def f Let_def assign_def unassign_def split: if_splits)
  moreover have "distinct (okeys (en_assignments e'))"
    using reevaluate_heard(2) [OF d] match_invD(1) [OF i] by (simp add: keys_ok_def)
  ultimately show ?thesis by (intro settled_one [OF i sid others])
qed

text \<open>
  Sessions in which the live reader and the engine are kept in step: the answer for a tracked surface
  changes only with its fullscreen event, identifiers are fresh, patterns keep no position, and a
  surface that is announced again while it is assigned has the fields it was matched with.
\<close>

definition steady :: "engine \<Rightarrow> toplevel \<Rightarrow> bool" where
  "steady e win = (case oget (en_toplevels e) (tl_surfaceId win) of None \<Rightarrow> True
     | Some cur \<Rightarrow> oget (en_assignments e) (tl_surfaceId win) = None
         \<or> tl_appId (retrack e win) = tl_appId cur
           \<and> (en_reader e \<or> (tl_fullscreen (retrack e win) = Some True) = (tl_fullscreen cur = Some True)))"

fun op_ok :: "engine \<Rightarrow> match_op \<Rightarrow> bool" where
  "op_ok e (AddReg r) = (plain r \<and> rg_id r \<notin> set (map rg_id (en_registrations e)))"
| "op_ok e (Preconfigure win) = steady e win"
| "op_ok e (MapTop win) = steady e win"
| "op_ok e _ = True"

fun about :: "match_op \<Rightarrow> int option" where
  "about (FullscreenTop sid f) = Some sid"
| "about (UnmapTop sid) = Some sid"
| "about _ = None"

definition watch_ok :: "engine \<times> (int \<Rightarrow> bool) \<Rightarrow> (int \<Rightarrow> bool) \<times> match_op \<Rightarrow> bool" where
  "watch_ok ef cmd = (op_ok (fst ef) (snd cmd)
    \<and> (\<not> en_reader (fst ef) \<or> list_all (\<lambda>s. fst cmd s = snd ef s \<or> about (snd cmd) = Some s)
         (okeys (en_toplevels (fst ef)))))"

definition watch_do :: "engine \<times> (int \<Rightarrow> bool) \<Rightarrow> (int \<Rightarrow> bool) \<times> match_op \<Rightarrow>
    (engine \<times> (int \<Rightarrow> bool)) \<times> match_event list" where
  "watch_do ef cmd = (let (e', evs) = match_do (fst ef) cmd in ((e', fst cmd), evs))"

definition watch_inv :: "engine \<times> (int \<Rightarrow> bool) \<Rightarrow> bool" where
  "watch_inv ef \<longleftrightarrow> match_inv (fst ef) \<and> settled (fst ef) (snd ef)"

lemma settled_track:
  assumes i: "match_inv e" and s: "settled e live" and st: "steady e t" and d: "trackToplevel e live t = (e', evs)"
  shows "match_inv e' \<and> settled e' live"
proof -
  let ?sid = "tl_surfaceId t" and ?t = "retrack e t"
  have sid: "tl_surfaceId ?t = ?sid"
    using match_invD(6) [OF i] by (auto simp: retrack_def split: option.splits)
  have others: "oget (en_assignments e) s' = chosen (en_registrations e) u (fullscreen_now e live u)"
    if "s' \<noteq> ?sid" "oget (en_toplevels e) s' = Some u" for s' u
    using s that(2) by (simp add: settled_def)
  have k: "distinct (okeys (en_assignments e'))" "distinct (okeys (en_assignments e))"
    using trackToplevel_heard(2) [OF d] match_invD(1) [OF i] by (simp_all add: keys_ok_def)
  let ?w = "chosen (en_registrations e) ?t (fullscreen_now e live ?t)"
  from d show ?thesis
  proof (cases rule: trackToplevel_cases)
    case kept
    then obtain rid where rid: "oget (en_assignments e) ?sid = Some rid" by blast
    then obtain cur where cur: "oget (en_toplevels e) ?sid = Some cur" using match_invD(7) [OF i] by blast
    from st rid cur have "tl_appId ?t = tl_appId cur"
      and "en_reader e \<or> (tl_fullscreen ?t = Some True) = (tl_fullscreen cur = Some True)"
      by (simp_all add: steady_def)
    moreover from this(2) have "fullscreen_now e live ?t = fullscreen_now e live cur"
      using sid match_invD(6) [OF i cur] by (auto simp: fullscreen_now_def)
    ultimately have "accepts r ?t (fullscreen_now e live ?t) = accepts r cur (fullscreen_now e live cur)" for r
      by (simp only: accepts_def)
    then have "?w = Some rid" using s cur rid by (simp add: settled_def chosen_def)
    with rid have asg: "oget (en_assignments e) = (oget (en_assignments e))(?sid := ?w)" by (simp add: fun_upd_idem)
    have "e' = e\<lparr>en_toplevels := oset ?sid ?t (en_toplevels e), en_assignments := en_assignments e\<rparr>"
      using kept(3) by simp
    from settled_one [OF i sid others this asg k(2)] show ?thesis .
  next
    case (matched w e1)
    let ?e0 = "e\<lparr>en_toplevels := oset ?sid ?t (en_toplevels e)\<rparr>"
    have f: "w = ?w" "e1 = ?e0"
      using matched(2) firstMatching_plain [of ?e0 live ?t] match_invD(3) [OF i]
      by (simp_all add: fullscreen_now_def)
    have "oget (en_assignments e') = (oget (en_assignments e))(?sid := ?w)"
      unfolding f(1) [symmetric] using matched(1,3) f(2) by (cases w) (auto simp: assign_def fun_eq_iff)
    moreover have "e' = e\<lparr>en_toplevels := oset ?sid ?t (en_toplevels e), en_assignments := en_assignments e'\<rparr>"
      using matched(3) f(2) by (cases w) (auto simp: assign_def)
    ultimately show ?thesis by (intro settled_one [OF i sid others _ _ k(1)])
  qed
qed

lemma watch_inv_step:
  assumes i: "watch_inv ef" and ok: "watch_ok ef cmd"
  shows "watch_inv (fst (watch_do ef cmd))"
proof -
  obtain e f where ef: "ef = (e, f)" by fastforce
  obtain live opn where cmd: "cmd = (live, opn)" by fastforce
  obtain e' evs where d: "match_do e (live, opn) = (e', evs)" by fastforce
  from i ef have m: "match_inv e" and s: "settled e f" by (simp_all add: watch_inv_def)
  have still: "oget (en_assignments e) sid = chosen (en_registrations e) t (fullscreen_now e live t)"
    if "about opn \<noteq> Some sid" "oget (en_toplevels e) sid = Some t" for sid t
  proof -
    have "sid \<in> set (okeys (en_toplevels e))" using that(2) by (rule oget_Some_key)
    then have "\<not> en_reader e \<or> live sid = f sid" using ok that(1) by (auto simp: watch_ok_def ef cmd list_all_iff)
    then have "fullscreen_now e live t = fullscreen_now e f t"
      using match_invD(6) [OF m that(2)] by (auto simp: fullscreen_now_def)
    then show ?thesis using s that(2) by (simp add: settled_def)
  qed
  then have all: "settled e live" if "about opn = None" using that by (auto simp: settled_def)
  have "match_inv e' \<and> settled e' live"
  proof (cases opn)
    case (AddReg r)
    with settled_add [OF m all] d ok show ?thesis by (auto simp: watch_ok_def ef cmd)
  next
    case (RemoveReg rid)
    with settled_remove [OF m all] d show ?thesis by simp
  next
    case (Preconfigure t)
    with settled_track [OF m all, of t e' evs] d ok show ?thesis
      by (auto simp: onToplevelPreconfigure_def watch_ok_def ef cmd)
  next
    case (MapTop t)
    with settled_track [OF m all, of t e' evs] d ok show ?thesis
      by (auto simp: onToplevelMapped_def watch_ok_def ef cmd)
  next
    case (UnmapTop sid)
    obtain asg where e': "e' = e\<lparr>en_assignments := asg, en_toplevels := odel sid (en_toplevels e)\<rparr>"
      and asg: "oget asg = (oget (en_assignments e))(sid := None)"
    proof (cases "oget (en_assignments e) sid")
      case None
      have "oget (en_assignments e) = (oget (en_assignments e))(sid := None)" using None by (simp add: fun_upd_idem)
      with that [of "en_assignments e"] d UnmapTop None show ?thesis by (simp add: onToplevelUnmapped_def)
    next
      case (Some rid)
      with that [of "odel sid (en_assignments e)"] d UnmapTop show ?thesis
        by (auto simp: onToplevelUnmapped_def unassign_def fun_eq_iff)
    qed
    have "keys_ok e'" using match_do_heard [OF match_invD(1) [OF m] d] by blast
    moreover have "dom (oget asg) \<subseteq> dom (\<lambda>k. if k = sid then None else oget (en_toplevels e) k)"
      using match_invD(7) [OF m] by (force simp: asg dom_def)
    ultimately have "match_inv e'" using match_invD(2-6) [OF m] by (simp add: match_inv_def e' split: if_splits)
    moreover have "settled e' live"
      using still UnmapTop by (simp add: settled_def e' asg fullscreen_now_def)
    ultimately show ?thesis ..
  next
    case (ChangeTop sid a t)
    show ?thesis
    proof (cases "oget (en_toplevels e) sid")
      case None
      with d m all ChangeTop show ?thesis by (simp add: onToplevelChanged_def)
    next
      case (Some cur)
      let ?t = "cur\<lparr>tl_appId := a, tl_title := t\<rparr>"
      have "reevaluate (e\<lparr>en_toplevels := oset sid ?t (en_toplevels e)\<rparr>) live sid ?t = (e', evs)"
        using d ChangeTop Some by (simp add: onToplevelChanged_def Let_def)
      with match_invD(6) [OF m Some] still ChangeTop show ?thesis
        by (intro settled_reevaluate [OF m]) auto
    qed
  next
    case (FullscreenTop sid fs)
    show ?thesis
    proof (cases "oget (en_toplevels e) sid")
      case None
      have "settled e live" unfolding settled_def
      proof (intro allI impI)
        fix x t assume x: "oget (en_toplevels e) x = Some t"
        with None have "x \<noteq> sid" by auto
        with still [of x t] x FullscreenTop
        show "oget (en_assignments e) x = chosen (en_registrations e) t (fullscreen_now e live t)" by simp
      qed
      with d m None FullscreenTop show ?thesis by (simp add: onToplevelFullscreenChanged_def)
    next
      case (Some cur)
      let ?t = "cur\<lparr>tl_fullscreen := Some fs\<rparr>"
      show ?thesis
      proof (cases "\<not> en_reader e \<and> tl_fullscreen cur = Some fs")
        case True
        then have "settled e live" using s by (simp add: settled_def fullscreen_now_def)
        with d m Some True FullscreenTop show ?thesis by (simp add: onToplevelFullscreenChanged_def)
      next
        case False
        then have "reevaluate (e\<lparr>en_toplevels := oset sid ?t (en_toplevels e)\<rparr>) live sid ?t = (e', evs)"
          using d FullscreenTop Some by (auto simp: onToplevelFullscreenChanged_def Let_def)
        with match_invD(6) [OF m Some] still FullscreenTop show ?thesis
          by (intro settled_reevaluate [OF m]) auto
      qed
    qed
  next
    case Shutdown
    with d m show ?thesis by (auto simp: shutdown_def match_inv_def settled_def keys_ok_def)
  qed
  then show ?thesis using d by (simp add: watch_do_def watch_inv_def ef cmd)
qed

interpretation match_watch: step_invariant watch_do watch_ok watch_inv
  by unfold_locales (rule watch_inv_step)

section \<open>Properties\<close>

definition watched :: "bool \<Rightarrow> (int \<Rightarrow> bool) \<Rightarrow> ((int \<Rightarrow> bool) \<times> match_op) list \<Rightarrow> engine \<times> (int \<Rightarrow> bool)" where
  "watched reader f cmds = fst (run watch_do (engine_new reader, f) cmds)"

definition watch_admits :: "bool \<Rightarrow> (int \<Rightarrow> bool) \<Rightarrow> ((int \<Rightarrow> bool) \<times> match_op) list \<Rightarrow> bool" where
  "watch_admits reader f cmds \<longleftrightarrow> admissible watch_do watch_ok (engine_new reader, f) cmds"

lemma watched_inv: "watch_admits reader f cmds \<Longrightarrow> watch_inv (watched reader f cmds)"
  unfolding watched_def watch_admits_def
  by (rule match_watch.inv_run)
     (simp_all add: watch_inv_def engine_new_def match_inv_def settled_def keys_ok_def)

definition literal :: "string \<Rightarrow> bool \<Rightarrow> regexp" where
  "literal s keeps = \<lparr>rx_find = (\<lambda>subject i. if i = 0 \<and> subject = s then Some (length s) else None),
     rx_keeps = keeps, rx_lastIndex = 0\<rparr>"

definition reg_for :: "int \<Rightarrow> regexp option \<Rightarrow> number \<Rightarrow> bool \<Rightarrow> registration" where
  "reg_for i x p excl = \<lparr>rg_id = i, rg_plugin = ''p'', rg_appIdRegex = x, rg_roles = None, rg_priority = p,
     rg_excludeFullscreen = excl, rg_seq = 0\<rparr>"

definition win_for :: "int \<Rightarrow> string option \<Rightarrow> toplevel" where
  "win_for i a = \<lparr>tl_surfaceId = i, tl_appId = a, tl_title = None, tl_fullscreen = None\<rparr>"

definition sample_watch :: "((int \<Rightarrow> bool) \<times> match_op) list" where
  "sample_watch = [(\<lambda>_. False, AddReg (reg_for 1 None 5 False)), (\<lambda>_. False, MapTop (win_for 7 (Some ''term''))),
     (\<lambda>_. False, AddReg (reg_for 2 (Some (literal ''term'' False)) 1 True)),
     (\<lambda>s. s = 7, FullscreenTop 7 True), (\<lambda>s. s = 7, MapTop (win_for 8 (Some ''term'')))]"

lemma sample_watch_admits: "watch_admits True (\<lambda>_. False) sample_watch"
  by code_simp

text \<open>
  C32: In a session that keeps the engine informed, the registration a tracked toplevel is assigned to
  accepts it, and no registration of lower priority number, or of the same and added earlier, does;
  a toplevel is left alone exactly when no registration accepts it.
\<close>

theorem assigned_registration_is_first:
  assumes "watch_admits reader f cmds" "watched reader f cmds = (e, live)"
    "oget (en_toplevels e) sid = Some t"
  shows "case registrationFor e sid of
      None \<Rightarrow> \<forall>r \<in> set (en_registrations e). \<not> accepts r t (fullscreen_now e live t)
    | Some rid \<Rightarrow> \<exists>r \<in> set (en_registrations e). rg_id r = rid \<and> accepts r t (fullscreen_now e live t)
        \<and> (\<forall>r' \<in> set (en_registrations e). accepts r' t (fullscreen_now e live t) \<longrightarrow> rank_of r \<le> rank_of r')"
proof -
  let ?fs = "fullscreen_now e live t"
  from watched_inv [OF assms(1)] assms(2) have i: "match_inv e" and s: "settled e live" by (simp_all add: watch_inv_def)
  have sorted: "sorted_wrt rank_less (en_registrations e)" by (rule match_invD(2) [OF i])
  have at: "registrationFor e sid = chosen (en_registrations e) t ?fs"
    using s assms(3) by (simp add: settled_def registrationFor_def)
  show ?thesis
  proof (cases "find (\<lambda>r. accepts r t ?fs) (en_registrations e)")
    case None
    then have "registrationFor e sid = None" by (simp add: at chosen_def)
    with None show ?thesis by (simp add: find_None_iff)
  next
    case (Some r)
    then obtain i where r: "i < length (en_registrations e)" "r = en_registrations e ! i" "accepts r t ?fs"
      "\<And>j. j < i \<Longrightarrow> \<not> accepts (en_registrations e ! j) t ?fs" by (auto simp: find_Some_iff)
    have "rank_of r \<le> rank_of r'" if "r' \<in> set (en_registrations e)" "accepts r' t ?fs" for r'
    proof -
      from that(1) obtain j where j: "j < length (en_registrations e)" "r' = en_registrations e ! j"
        by (auto simp: in_set_conv_nth)
      with r(4) [of j] that(2) have "i \<le> j" by (cases "j < i") auto
      then show ?thesis using sorted_wrt_nth_less [OF sorted, of i j] j r(2)
        by (cases "i = j") (auto simp: rank_less_def)
    qed
    with Some r show ?thesis by (auto simp: at chosen_def)
  qed
qed

theorem assigned_registration_is_first_witness:
  "registrationFor (fst (watched True (\<lambda>_. False) sample_watch)) 7 = Some 1
   \<and> registrationFor (fst (watched True (\<lambda>_. False) sample_watch)) 8 = Some 2
   \<and> (\<exists>r \<in> set (en_registrations (fst (watched True (\<lambda>_. False) sample_watch))). rg_id r = 2
        \<and> accepts r (win_for 8 (Some ''term'')) False)"
proof -
  let ?w = "watched True (\<lambda>_. False) sample_watch"
  have a: "registrationFor (fst ?w) 7 = Some 1" "registrationFor (fst ?w) 8 = Some 2" by code_simp+
  have f: "fullscreen_now (fst ?w) (snd ?w) (win_for 8 (Some ''term'')) = False" by code_simp
  have t: "oget (en_toplevels (fst ?w)) 8 = Some (win_for 8 (Some ''term''))" by code_simp
  from assigned_registration_is_first [OF sample_watch_admits surjective_pairing t] a f show ?thesis by auto
qed

text \<open>
  C33: A listener that applies the events in order, and objects when a surface that has an owner is
  matched or one is unmatched by another registration, never objects and ends with the engine's own
  assignments. Patterns that keep a position and identifiers used twice are allowed.
\<close>

theorem match_events_replay:
  "monitor listener (\<lambda>_. None) (snd (run match_do (engine_new reader) cmds))
     = Some (registrationFor (fst (run match_do (engine_new reader) cmds)))"
proof -
  obtain e tr where r: "run match_do (engine_new reader) cmds = (e, tr)" by fastforce
  have "oget (en_assignments (engine_new reader)) = (\<lambda>_. None)" "keys_ok (engine_new reader)"
    by (simp_all add: engine_new_def keys_ok_def)
  with match_listener.sim_run [OF _ _ r, of "\<lambda>_. None"] show ?thesis
    by (auto simp: r registrationFor_def fun_eq_iff)
qed

text \<open>
  With the live reader wired, a fullscreen event of a tracked surface brings its assignment to the
  first registration accepting it as the window manager has it now, whatever the event says and the
  engine remembers, and the events it returns are those of that one change.
\<close>

lemma fullscreen_event_is_a_trigger:
  assumes "list_all plain (en_registrations e)" "en_reader e" "oget (en_toplevels e) sid = Some t"
    "tl_surfaceId t = sid" "onToplevelFullscreenChanged e live sid fs = (e', evs)"
  shows "registrationFor e' sid = chosen (en_registrations e) t (live sid)
    \<and> evs = (if registrationFor e sid = registrationFor e' sid then []
        else (case registrationFor e sid of None \<Rightarrow> [] | Some rid \<Rightarrow> [Unmatched rid sid])
          @ (case registrationFor e' sid of None \<Rightarrow> [] | Some rid \<Rightarrow> [Matched rid sid]))"
proof -
  let ?t = "t\<lparr>tl_fullscreen := Some fs\<rparr>"
  let ?e = "e\<lparr>en_toplevels := oset sid ?t (en_toplevels e)\<rparr>"
  have c: "chosen (en_registrations e) ?t (live sid) = chosen (en_registrations e) t (live sid)"
    by (simp add: chosen_def)
  have f: "firstMatching ?e live ?t = (chosen (en_registrations e) t (live sid), ?e)"
    using firstMatching_plain [of ?e live ?t] assms(1,2,4) by (simp add: fullscreen_now_def c)
  have "reevaluate ?e live sid ?t = (e', evs)"
    using assms(2,3,5) by (simp add: onToplevelFullscreenChanged_def Let_def)
  then show ?thesis
    by (cases "oget (en_assignments e) sid"; cases "chosen (en_registrations e) t (live sid)")
       (auto simp: reevaluate_def f Let_def assign_def unassign_def registrationFor_def split: if_splits)
qed

lemma fullscreen_event_is_a_trigger_witness:
  "registrationFor (fst (onToplevelFullscreenChanged (fst (watched True (\<lambda>_. False) (take 3 sample_watch))) (\<lambda>s. s = 7) 7 False)) 7
    = Some 1"
proof -
  let ?e = "fst (watched True (\<lambda>_. False) (take 3 sample_watch))"
  have p: "list_all plain (en_registrations ?e)" "en_reader ?e" by code_simp+
  have t: "oget (en_toplevels ?e) 7 = Some (win_for 7 (Some ''term''))" by code_simp
  have s: "tl_surfaceId (win_for 7 (Some ''term'')) = 7" by (simp add: win_for_def)
  have "chosen (en_registrations ?e) (win_for 7 (Some ''term'')) True = Some 1" by code_simp
  with fullscreen_event_is_a_trigger [OF p t s surjective_pairing, of "\<lambda>s. s = 7" False] show ?thesis by simp
qed

text \<open>
  A pattern with the global flag remembers where its last match ended: a change of the title of
  the window it just matched takes the window away from it.
\<close>

lemma global_pattern_forgets_its_match:
  "let quiet = (\<lambda>_. False);
       e = fst (run match_do (engine_new False)
         [(quiet, AddReg (reg_for 1 (Some (literal ''term'' True)) 0 False)), (quiet, MapTop (win_for 7 (Some ''term'')))])
   in registrationFor e 7 = Some 1
      \<and> snd (onToplevelChanged e quiet 7 (Some ''term'') (Some ''new title'')) = [Unmatched 1 7]"
  by code_simp

text \<open>
  A surface whose application identifier was set between its first configure and its mapping
  keeps the registration the old identifier matched, though it does not accept the new one.
\<close>

lemma remapped_surface_keeps_stale_match:
  "let quiet = (\<lambda>_. False);
       e = fst (run match_do (engine_new False)
         [(quiet, AddReg (reg_for 1 (Some (literal ''term'' False)) 0 False)),
          (quiet, Preconfigure (win_for 7 (Some ''term''))), (quiet, MapTop (win_for 7 (Some ''browser'')))])
   in registrationFor e 7 = Some 1 \<and> map_option tl_appId (toplevelData e 7) = Some (Some ''browser'')
      \<and> list_all (\<lambda>r. \<not> accepts r (win_for 7 (Some ''browser'')) False) (en_registrations e)"
  by code_simp

end
