(* ===== verification/Layout.thy ===== *)
theory Layout
  imports Prelude
begin

text \<open>
  The bundled layout plugin: the two pure algorithms (\<open>plugin-layout-default/src/master-stack.ts\<close>)
  and the plugin's state around them, with the validation of its configuration
  (\<open>plugin-layout-default/src/index.ts\<close>).

  Values that arrive untyped, the configuration and an island's hint, are JavaScript values
  (\<open>js\<close>); a number that is not finite is a value of its own, so that \<open>Number.isFinite\<close> is a
  test of the model. A missing bound is \<open>None\<close>: an absent maximum is the infinity of the code.
\<close>

section \<open>Parameters\<close>

datatype layout_mode = MasterStack | Columns

record layout_params =
  lp_mode :: layout_mode
  lp_masterFraction :: number
  lp_column :: number
  lp_gap :: number

definition DEFAULT_LAYOUT :: layout_params where
  "DEFAULT_LAYOUT = \<lparr>lp_mode = MasterStack, lp_masterFraction = 1 / 2, lp_column = 1 / 2, lp_gap = 0\<rparr>"

record column_bounds =
  cb_min :: "number option"
  cb_max :: "number option"

definition clampRect :: "rect \<Rightarrow> rect" where
  "clampRect r = \<lparr>rx = of_int (to_int32 (rx r)), ry = of_int (to_int32 (ry r)),
     rw = max 0 (of_int (to_int32 (rw r))), rh = max 0 (of_int (to_int32 (rh r)))\<rparr>"

section \<open>Dividing a width among columns\<close>

text \<open>
  One column with the entries the arrays of \<open>allocateColumns\<close> hold for it: its weight and bounds,
  its part so far and whether it is pinned.
\<close>

record col =
  co_w :: number
  co_lo :: number
  co_hi :: "number option"
  co_out :: number
  co_pinned :: bool

definition bounds_at :: "column_bounds option list \<Rightarrow> nat \<Rightarrow> column_bounds option" where
  "bounds_at bounds i = (if i < length bounds then bounds ! i else None)"

definition new_col :: "number \<Rightarrow> column_bounds option \<Rightarrow> col" where
  "new_col weight b =
    (let lo = max 0 (case b of None \<Rightarrow> 0 | Some b \<Rightarrow> (case cb_min b of None \<Rightarrow> 0 | Some m \<Rightarrow> m));
         hi = (case b of None \<Rightarrow> None | Some b \<Rightarrow> map_option (max lo) (cb_max b))
     in \<lparr>co_w = max (1 / 1000000) weight, co_lo = lo, co_hi = hi, co_out = 0, co_pinned = False\<rparr>)"

definition bound_of :: "col \<Rightarrow> number \<Rightarrow> number option" where
  "bound_of c cand =
    (if cand < co_lo c then Some (co_lo c)
     else case co_hi c of None \<Rightarrow> None | Some hi \<Rightarrow> if hi < cand then Some hi else None)"

definition pin :: "number \<Rightarrow> col \<Rightarrow> col" where
  "pin scale c =
    (if co_pinned c then c
     else case bound_of c (co_w c * scale) of
       None \<Rightarrow> c
     | Some b \<Rightarrow> c\<lparr>co_out := b, co_pinned := True\<rparr>)"

text \<open>What one pass takes from the remainder, and whether it pinned a column.\<close>

definition pinned_now :: "number \<Rightarrow> col list \<Rightarrow> number list" where
  "pinned_now scale cs = map (\<lambda>c. co_out (pin scale c))
     (filter (\<lambda>c. \<not> co_pinned c \<and> co_pinned (pin scale c)) cs)"

definition free_weight :: "col list \<Rightarrow> number" where
  "free_weight cs = sum_list (map co_w (filter (\<lambda>c. \<not> co_pinned c) cs))"

definition settle :: "number \<Rightarrow> col \<Rightarrow> col" where
  "settle scale c = (if co_pinned c then c else c\<lparr>co_out := co_w c * scale\<rparr>)"

fun fill_passes :: "nat \<Rightarrow> number \<Rightarrow> col list \<Rightarrow> col list" where
  "fill_passes 0 remaining cs = cs"
| "fill_passes (Suc passes) remaining cs =
     (if free_weight cs \<le> 0 then cs
      else let scale = remaining / free_weight cs; taken = pinned_now scale cs
           in if taken \<noteq> [] then fill_passes passes (remaining - sum_list taken) (map (pin scale) cs)
              else map (settle scale) cs)"

definition squeeze :: "number \<Rightarrow> number list \<Rightarrow> number list" where
  "squeeze avail out =
    (let total = sum_list out
     in if avail < total \<and> 0 < total then map (\<lambda>v. v * (avail / total)) out else out)"

definition columns_of :: "number list \<Rightarrow> column_bounds option list \<Rightarrow> col list" where
  "columns_of weights bounds = map (\<lambda>i. new_col (weights ! i) (bounds_at bounds i)) [0..<length weights]"

definition allocateColumns :: "number list \<Rightarrow> column_bounds option list \<Rightarrow> number \<Rightarrow> number list" where
  "allocateColumns weights bounds avail =
    squeeze avail (map co_out (fill_passes (length weights + 1) avail (columns_of weights bounds)))"

fun columns_loop :: "number \<Rightarrow> number \<Rightarrow> number \<Rightarrow> number \<Rightarrow> number \<Rightarrow> number list \<Rightarrow> rect list" where
  "columns_loop g ay ah right x [] = []"
| "columns_loop g ay ah right x [a] = [clampRect \<lparr>rx = x, ry = ay, rw = right - x, rh = ah\<rparr>]"
| "columns_loop g ay ah right x (a # b # rest) =
     (let w = of_int \<lfloor>a\<rfloor>
      in clampRect \<lparr>rx = x, ry = ay, rw = w, rh = ah\<rparr> # columns_loop g ay ah right (x + w + g) (b # rest))"

definition gap_px :: "number \<Rightarrow> number" where
  "gap_px gap = max 0 (of_int (to_int32 gap))"

definition columnsLayout :: "number list \<Rightarrow> number \<Rightarrow> number \<Rightarrow> number \<Rightarrow> column_bounds option list \<Rightarrow> rect list" where
  "columnsLayout weights width height gap bounds =
    (if weights = [] then []
     else let g = gap_px gap;
              aw = max 0 (max 0 width - 2 * g);
              ah = max 0 (max 0 height - 2 * g);
              avail = max 0 (aw - of_nat (length weights - 1) * g);
              alloc = allocateColumns weights bounds avail
          in columns_loop g g ah (g + aw) g alloc)"

definition measured :: "number \<Rightarrow> number \<Rightarrow> column_bounds option \<Rightarrow> number" where
  "measured gapShare px b =
    (let pitch = max 0 px;
         lo = (case b of None \<Rightarrow> None | Some b \<Rightarrow> map_option (\<lambda>m. m + gapShare) (cb_min b));
         hi = (case b of None \<Rightarrow> None | Some b \<Rightarrow> map_option (\<lambda>m. m + gapShare) (cb_max b));
         v = (case hi of None \<Rightarrow> pitch | Some h \<Rightarrow> if h < pitch then h else pitch);
         v = (case lo of None \<Rightarrow> v | Some l \<Rightarrow> if v < l then l else v)
     in max 0 v)"

definition columnsMeasure :: "number list \<Rightarrow> number \<Rightarrow> number \<Rightarrow> number \<Rightarrow> column_bounds option list \<Rightarrow>
    number \<times> number" where
  "columnsMeasure widthsPx width height gap bounds =
    (let n = length widthsPx
     in if n = 0 then (width, height)
        else let g = gap_px gap;
                 gapShare = (of_nat n + 1) * g / of_nat n;
                 natural = sum_list (map (\<lambda>i. measured gapShare (widthsPx ! i) (bounds_at bounds i)) [0..<n])
             in (max width (of_int (js_round natural)), height))"

section \<open>Master and stack\<close>

definition stack_slice :: "number \<Rightarrow> number \<Rightarrow> number \<Rightarrow> number \<Rightarrow> number \<Rightarrow> number \<Rightarrow> nat \<Rightarrow> nat \<Rightarrow> rect" where
  "stack_slice g ay ah stackX stackW sliceH stackCount i =
    (let y = ay + of_nat i * (sliceH + g);
         h = (if i = stackCount - 1 then ay + ah - y else sliceH)
     in clampRect \<lparr>rx = stackX, ry = y, rw = stackW, rh = h\<rparr>)"

definition masterStackLayout :: "nat \<Rightarrow> number \<Rightarrow> number \<Rightarrow> layout_params \<Rightarrow> rect list" where
  "masterStackLayout windowCount width height params =
    (if windowCount = 0 then []
     else let g = gap_px (lp_gap params);
              aw = max 0 (max 0 width - 2 * g);
              ah = max 0 (max 0 height - 2 * g)
          in if windowCount = 1 then [clampRect \<lparr>rx = g, ry = g, rw = aw, rh = ah\<rparr>]
             else let frac = min (95 / 100) (max (5 / 100) (lp_masterFraction params));
                      stackCount = windowCount - 1;
                      masterW = max 0 (of_int (js_round ((aw - g) * frac)));
                      stackW = max 0 (aw - g - masterW);
                      stackX = g + masterW + g;
                      totalGap = of_nat (stackCount - 1) * g;
                      sliceH = of_int \<lfloor>(ah - totalGap) / of_nat stackCount\<rfloor>
                  in clampRect \<lparr>rx = g, ry = g, rw = masterW, rh = ah\<rparr>
                     # map (stack_slice g g ah stackX stackW sliceH stackCount) [0..<stackCount])"

section \<open>Water filling\<close>

definition free_lo :: "col list \<Rightarrow> number" where
  "free_lo cs = sum_list (map co_lo (filter (\<lambda>c. \<not> co_pinned c) cs))"

definition pinned_out :: "col list \<Rightarrow> number" where
  "pinned_out cs = sum_list (map co_out (filter co_pinned cs))"

definition free_count :: "col list \<Rightarrow> nat" where
  "free_count cs = length (filter (\<lambda>c. \<not> co_pinned c) cs)"

text \<open>A column with a minimum only.\<close>

definition min_col :: "col \<Rightarrow> bool" where
  "min_col c \<longleftrightarrow> 0 < co_w c \<and> 0 \<le> co_lo c \<and> co_hi c = None"

lemma pin_simps [simp]: "co_w (pin s c) = co_w c" "co_lo (pin s c) = co_lo c" "co_hi (pin s c) = co_hi c"
  by (simp_all add: pin_def split: option.splits)

lemma settle_simps [simp]: "co_w (settle s c) = co_w c" "co_lo (settle s c) = co_lo c"
  by (simp_all add: settle_def)

lemma pin_min:
  "min_col c \<Longrightarrow> pin s c = (if \<not> co_pinned c \<and> co_w c * s < co_lo c then c\<lparr>co_out := co_lo c, co_pinned := True\<rparr> else c)"
  by (simp add: pin_def bound_of_def min_col_def)

definition sinks :: "number \<Rightarrow> col \<Rightarrow> bool" where
  "sinks s c \<longleftrightarrow> \<not> co_pinned c \<and> co_w c * s < co_lo c"

lemma pin_pass:
  assumes "list_all min_col cs"
  shows "pinned_now s cs = map co_lo (filter (sinks s) cs)"
    "free_weight (map (pin s) cs) = free_weight cs - sum_list (map co_w (filter (sinks s) cs))"
    "free_lo (map (pin s) cs) = free_lo cs - sum_list (map co_lo (filter (sinks s) cs))"
    "pinned_out (map (pin s) cs) = pinned_out cs + sum_list (map co_lo (filter (sinks s) cs))"
    "free_count (map (pin s) cs) + length (filter (sinks s) cs) = free_count cs"
  using assms
  by (induction cs)
     (auto simp: pinned_now_def free_weight_def free_lo_def pinned_out_def free_count_def pin_min sinks_def)

lemma sum_list_strict:
  fixes f g :: "'a \<Rightarrow> number"
  assumes "xs \<noteq> []" "\<forall>x \<in> set xs. f x < g x"
  shows "sum_list (map f xs) < sum_list (map g xs)"
  using assms by (induction xs rule: list_nonempty_induct) (auto intro: add_strict_mono)

definition level_ok :: "number \<Rightarrow> col list \<Rightarrow> bool" where
  "level_ok remaining cs \<longleftrightarrow> list_all min_col cs \<and> 0 < free_weight cs \<and> free_lo cs \<le> remaining
    \<and> (\<forall>c \<in> set cs. co_pinned c \<longrightarrow> co_out c = co_lo c \<and> co_w c * (remaining / free_weight cs) \<le> co_lo c)"

lemma free_nonneg: "list_all min_col cs \<Longrightarrow> 0 \<le> free_lo cs"
  by (induction cs) (auto simp: free_lo_def min_col_def)

lemma free_weight_pos: "list_all min_col cs \<Longrightarrow> 0 < free_weight cs \<longleftrightarrow> free_count cs \<noteq> 0"
proof (induction cs)
  case (Cons c cs)
  then show ?case by (auto simp: free_weight_def free_count_def min_col_def intro: add_pos_nonneg)
qed (simp add: free_weight_def free_count_def)

lemma level_step:
  assumes l: "level_ok remaining cs" and s: "s = remaining / free_weight cs" and t: "filter (sinks s) cs \<noteq> []"
  shows "level_ok (remaining - sum_list (map co_lo (filter (sinks s) cs))) (map (pin s) cs)"
proof -
  let ?W = "sum_list (map co_w (filter (sinks s) cs))" and ?L = "sum_list (map co_lo (filter (sinks s) cs))"
  let ?F = "free_weight cs" and ?cs = "map (pin s) cs"
  from l have m: "list_all min_col cs" and F: "0 < ?F" and lo: "free_lo cs \<le> remaining" by (auto simp: level_ok_def)
  note p = pin_pass [OF m, of s]
  have m': "list_all min_col ?cs" using m by (auto simp: list_all_iff min_col_def)
  have "sum_list (map (\<lambda>c. co_w c * s) (filter (sinks s) cs)) < ?L"
    using t by (rule sum_list_strict) (simp add: sinks_def)
  then have WL: "?W * s < ?L" by (simp add: sum_list_mult_const)
  have rem: "remaining = s * ?F" using F s by simp
  have L: "?L \<le> free_lo cs" using p(3) free_nonneg [OF m'] by simp
  have "free_count ?cs \<noteq> 0"
  proof
    assume "free_count ?cs = 0"
    then have "free_weight ?cs = 0" "free_lo ?cs = 0" by (simp_all add: free_count_def free_weight_def free_lo_def filter_map)
    with p(2,3) have "?W = ?F" "?L = free_lo cs" by simp_all
    with WL rem lo show False by (simp add: mult.commute)
  qed
  with free_weight_pos [OF m'] have F': "0 < free_weight ?cs" by simp
  let ?s' = "(remaining - ?L) / free_weight ?cs"
  have "remaining - ?L \<le> s * free_weight ?cs"
    using WL by (simp add: p(2) rem algebra_simps)
  then have sl: "?s' \<le> s" using F' by (simp add: divide_le_eq)
  have "co_out c = co_lo c \<and> co_w c * ?s' \<le> co_lo c" if c: "c \<in> set ?cs" "co_pinned c" for c
  proof -
    from c(1) obtain d where d: "d \<in> set cs" "c = pin s d" by auto
    then have md: "min_col d" using m by (simp add: list_all_iff)
    have "co_out c = co_lo c \<and> co_w c * s \<le> co_lo c"
      using l d c(2) md by (auto simp: level_ok_def pin_min s split: if_splits)
    moreover have "co_w c * ?s' \<le> co_w c * s" using sl md d(2) by (intro mult_left_mono) (auto simp: min_col_def)
    ultimately show ?thesis by linarith
  qed
  moreover have "free_lo ?cs \<le> remaining - ?L" using lo unfolding p(3) by simp
  ultimately show ?thesis using m' F' unfolding level_ok_def by blast
qed

lemma fill_level:
  assumes "level_ok remaining cs" "free_count cs < passes"
  shows "\<exists>s \<ge> 0. map co_out (fill_passes passes remaining cs) = map (\<lambda>c. max (co_lo c) (co_w c * s)) cs
    \<and> sum_list (map co_out (fill_passes passes remaining cs)) = remaining + pinned_out cs"
  using assms
proof (induction passes arbitrary: remaining cs)
  case 0
  then show ?case by simp
next
  case (Suc passes)
  let ?s = "remaining / free_weight cs"
  from Suc.prems(1) have m: "list_all min_col cs" and F: "0 < free_weight cs" and lo: "free_lo cs \<le> remaining"
    by (auto simp: level_ok_def)
  have pos: "0 \<le> ?s" using F lo free_nonneg [OF m] by simp
  note p = pin_pass [OF m, of ?s]
  show ?case
  proof (cases "filter (sinks ?s) cs = []")
    case True
    then have none: "\<forall>c \<in> set cs. \<not> sinks ?s c" by (simp add: filter_empty_conv)
    have out: "fill_passes (Suc passes) remaining cs = map (settle ?s) cs"
      using F True p(1) by (simp add: Let_def)
    have "co_out (settle ?s c) = max (co_lo c) (co_w c * ?s)" if "c \<in> set cs" for c
      using Suc.prems(1) none that by (auto simp: level_ok_def settle_def sinks_def max_def)
    then have a: "map co_out (map (settle ?s) cs) = map (\<lambda>c. max (co_lo c) (co_w c * ?s)) cs" by simp
    have "sum_list (map co_out (map (settle s) ds)) = free_weight ds * s + pinned_out ds" for s ds
      by (induction ds) (auto simp: settle_def free_weight_def pinned_out_def algebra_simps)
    then have b: "sum_list (map co_out (map (settle ?s) cs)) = remaining + pinned_out cs" using F by simp
    from a b pos show ?thesis unfolding out by blast
  next
    case False
    let ?rem = "remaining - sum_list (map co_lo (filter (sinks ?s) cs))"
    have out: "fill_passes (Suc passes) remaining cs = fill_passes passes ?rem (map (pin ?s) cs)"
      using F False p(1) by (simp add: Let_def)
    have "0 < length (filter (sinks ?s) cs)" using False by blast
    then have "free_count (map (pin ?s) cs) < passes" using p(5) Suc.prems(2) by linarith
    from Suc.IH [OF level_step [OF Suc.prems(1) refl False] this] show ?thesis
      unfolding out p(4) by (simp add: comp_def)
  qed
qed

text \<open>Any bounds: the parts are never negative and never exceed the width together.\<close>

definition col_ok :: "col \<Rightarrow> bool" where
  "col_ok c \<longleftrightarrow> 0 < co_w c \<and> 0 \<le> co_lo c \<and> (\<forall>hi \<in> set_option (co_hi c). co_lo c \<le> hi) \<and> 0 \<le> co_out c"

lemma col_ok_pin: "col_ok c \<Longrightarrow> col_ok (pin s c)"
  by (auto simp: pin_def bound_of_def col_ok_def split: option.splits if_splits)

lemma settle_nonneg: "col_ok c \<Longrightarrow> pin s c = c \<Longrightarrow> 0 \<le> co_out (settle s c)"
  by (cases c) (auto simp: settle_def pin_def bound_of_def col_ok_def split: option.splits if_splits)

lemma pin_free_same: "\<not> co_pinned (pin s c) \<Longrightarrow> pin s c = c"
  by (auto simp: pin_def split: option.splits)

lemma fill_nonneg:
  "list_all col_ok cs \<Longrightarrow> \<forall>v \<in> set (map co_out (fill_passes passes remaining cs)). 0 \<le> v"
proof (induction passes arbitrary: remaining cs)
  case 0
  then show ?case by (auto simp: list_all_iff col_ok_def)
next
  case (Suc passes)
  let ?s = "remaining / free_weight cs"
  have "list_all col_ok (map (pin ?s) cs)" using Suc.prems by (auto simp: list_all_iff col_ok_pin)
  note IH = Suc.IH [OF this]
  have "0 \<le> co_out (settle ?s c)" if "pinned_now ?s cs = []" "c \<in> set cs" for c
  proof (cases "co_pinned c")
    case True
    then show ?thesis using Suc.prems that(2) by (auto simp: settle_def list_all_iff col_ok_def)
  next
    case False
    then have "\<not> co_pinned (pin ?s c)" using that by (auto simp: pinned_now_def filter_empty_conv)
    from settle_nonneg [OF _ pin_free_same [OF this]] Suc.prems that(2) show ?thesis
      by (auto simp: list_all_iff)
  qed
  with IH Suc.prems show ?case by (auto simp: Let_def list_all_iff col_ok_def)
qed

lemma columns_of_ok: "list_all col_ok (columns_of weights bounds)"
  by (auto simp: columns_of_def new_col_def col_ok_def Let_def list_all_iff split: option.splits)

lemma length_fill [simp]: "length (fill_passes passes remaining cs) = length cs"
  by (induction passes arbitrary: remaining cs) (auto simp: Let_def)

lemma length_columns_of [simp]: "length (columns_of weights bounds) = length weights"
  by (simp add: columns_of_def)

lemma length_allocate [simp]: "length (allocateColumns weights bounds avail) = length weights"
  by (simp add: allocateColumns_def squeeze_def Let_def)

lemma squeeze_spec:
  assumes "0 \<le> avail" "\<forall>v \<in> set out. 0 \<le> v"
  shows "sum_list (squeeze avail out) \<le> avail" "\<forall>v \<in> set (squeeze avail out). 0 \<le> v"
proof -
  have "(\<Sum>v\<leftarrow>out. v * (avail / sum_list out)) = sum_list out * (avail / sum_list out)"
    by (simp only: sum_list_mult_const list.map_ident)
  then show "sum_list (squeeze avail out) \<le> avail"
    using assms by (auto simp: squeeze_def Let_def)
  show "\<forall>v \<in> set (squeeze avail out). 0 \<le> v"
    using assms by (auto simp: squeeze_def Let_def)
qed

lemma allocate_spec:
  assumes "0 \<le> avail"
  shows "sum_list (allocateColumns weights bounds avail) \<le> avail"
    "\<forall>v \<in> set (allocateColumns weights bounds avail). 0 \<le> v"
  unfolding allocateColumns_def by (rule squeeze_spec [OF assms fill_nonneg [OF columns_of_ok]])+

section \<open>Tiles\<close>

text \<open>Rectangles side by side from \<open>x\<close>, a gap between neighbours, ending exactly at \<open>right\<close>.\<close>

fun tile_row :: "number \<Rightarrow> number \<Rightarrow> number \<Rightarrow> rect list \<Rightarrow> bool" where
  "tile_row g right x [] = False"
| "tile_row g right x [r] = (rx r = x \<and> 0 \<le> rw r \<and> x + rw r = right)"
| "tile_row g right x (r # q # rs) = (rx r = x \<and> 0 \<le> rw r \<and> tile_row g right (x + rw r + g) (q # rs))"

definition int_coord :: "number \<Rightarrow> bool" where
  "int_coord v \<longleftrightarrow> (\<exists>n. v = of_int n \<and> 0 \<le> n \<and> n < 2147483648)"

lemma int_coord_clamp: "int_coord v \<Longrightarrow> of_int (to_int32 v) = v" "int_coord v \<Longrightarrow> 0 \<le> v"
  by (auto simp: int_coord_def to_int32_id)

lemma int_coord_le:
  assumes "v = of_int n" "0 \<le> v" "v \<le> u" "int_coord u"
  shows "int_coord v"
  using assms by (auto simp: int_coord_def)

lemma int_coord_of: "int_coord v \<Longrightarrow> \<exists>n. v = of_int n"
  by (auto simp: int_coord_def)

lemma gap_px_int: "int_coord (gap_px gap)"
proof (rule int_coord_le [of _ "max 0 (to_int32 gap)"])
  show "gap_px gap \<le> 2147483647" using to_int32_bounds [of gap] by (simp add: gap_px_def)
  show "int_coord 2147483647" unfolding int_coord_def by (rule exI [of _ 2147483647]) simp
qed (simp_all add: gap_px_def)

lemma clampRect_id:
  "int_coord x \<Longrightarrow> int_coord y \<Longrightarrow> int_coord w \<Longrightarrow> int_coord h \<Longrightarrow>
     clampRect \<lparr>rx = x, ry = y, rw = w, rh = h\<rparr> = \<lparr>rx = x, ry = y, rw = w, rh = h\<rparr>"
  using int_coord_clamp(2) [of w] int_coord_clamp(2) [of h] by (simp add: clampRect_def int_coord_clamp(1))

lemma columns_loop_tiles:
  assumes "alloc \<noteq> []" "\<forall>v \<in> set alloc. 0 \<le> v" "sum_list alloc + of_nat (length alloc - 1) * g \<le> right - x"
    "int_coord g" "int_coord x" "int_coord right" "int_coord ay" "int_coord ah"
  shows "tile_row g right x (columns_loop g ay ah right x alloc)
    \<and> (\<forall>r \<in> set (columns_loop g ay ah right x alloc). ry r = ay \<and> rh r = ah)"
  using assms
proof (induction g ay ah right x alloc rule: columns_loop.induct)
  case (1 g ay ah right x)
  then show ?case by simp
next
  case (2 g ay ah right x a)
  obtain m n where mn: "x = of_int m" "right = of_int n"
    using int_coord_of [OF "2.prems"(5)] int_coord_of [OF "2.prems"(6)] by blast
  have le: "0 \<le> right - x" "right - x \<le> right"
    using "2.prems"(2,3) int_coord_clamp(2) [OF "2.prems"(5)] by simp_all
  have "right - x = of_int (n - m)" by (simp add: mn)
  from int_coord_le [OF this le "2.prems"(6)] have "int_coord (right - x)" .
  with "2.prems" le(1) show ?case by (simp add: clampRect_id)
next
  case (3 g ay ah right x a b rest)
  let ?w = "of_int \<lfloor>a\<rfloor> :: number"
  have nn: "0 \<le> a" "0 \<le> sum_list (b # rest)" using "3.prems"(2) by (auto intro: sum_list_nonneg add_nonneg_nonneg)
  have g0: "0 \<le> g" "0 \<le> x" using "3.prems" int_coord_clamp(2) by blast+
  have sum: "a + sum_list (b # rest) + of_nat (length (b # rest)) * g \<le> right - x"
    using "3.prems"(3) by (simp add: add.assoc)
  have step: "of_nat (length (b # rest)) * g = g + of_nat (length (b # rest) - 1) * g"
    by (simp add: algebra_simps)
  have rest0: "0 \<le> of_nat (length (b # rest) - 1) * g" using g0 by simp
  have w: "0 \<le> ?w" "?w \<le> a" using nn(1) by simp_all
  have bound: "x + ?w + g \<le> right" using sum step rest0 nn(2) w by linarith
  obtain m n where mn: "x = of_int m" "g = of_int n"
    using int_coord_of [OF "3.prems"(5)] int_coord_of [OF "3.prems"(4)] by blast
  have ic1: "int_coord ?w"
    by (rule int_coord_le [of _ "\<lfloor>a\<rfloor>" right]) (use bound w g0 "3.prems"(6) in auto)
  have ic2: "int_coord (x + ?w + g)"
    by (rule int_coord_le [of _ "m + \<lfloor>a\<rfloor> + n" right]) (use bound w g0 "3.prems"(6) mn in auto)
  note ic = ic1 ic2
  have "sum_list (b # rest) + of_nat (length (b # rest) - 1) * g \<le> right - (x + ?w + g)"
    using sum step w by linarith
  from "3.IH" [OF refl _ _ this] ic "3.prems" w(1) show ?case
    by (cases rest) (simp_all add: Let_def clampRect_id)
qed

lemma stack_tiles:
  assumes k: "0 < k" "(of_nat k - 1) * g \<le> ah" and ic: "int_coord g" "int_coord ah" "int_coord (g + ah)"
    "int_coord stackX" "int_coord stackW"
    and s: "sliceH = of_int \<lfloor>(ah - of_nat (k - 1) * g) / of_nat k\<rfloor>" and i: "i < k"
  shows "stack_slice g g ah stackX stackW sliceH k i = \<lparr>rx = stackX, ry = g + of_nat i * (sliceH + g), rw = stackW,
      rh = (if i = k - 1 then g + ah - (g + of_nat i * (sliceH + g)) else sliceH)\<rparr>
    \<and> 0 \<le> sliceH \<and> of_nat k * sliceH + of_nat (k - 1) * g \<le> ah"
proof -
  let ?y = "g + of_nat i * (sliceH + g)"
  have km: "of_nat (k - 1) = (of_nat k - 1 :: number)" using k(1) by (simp add: of_nat_diff)
  have room: "0 \<le> ah - of_nat (k - 1) * g" using k(2) unfolding km by simp
  then have s0: "0 \<le> sliceH" unfolding s by simp
  have "sliceH \<le> (ah - of_nat (k - 1) * g) / of_nat k" unfolding s by simp
  then have fit: "of_nat k * sliceH + of_nat (k - 1) * g \<le> ah"
    using k(1) by (simp add: le_divide_eq mult.commute)
  obtain m n j where mn: "g = of_int m" "ah = of_int n" "sliceH = of_int j"
    using int_coord_of [OF ic(1)] int_coord_of [OF ic(2)] s by blast
  have g0: "0 \<le> g" using int_coord_clamp(2) [OF ic(1)] .
  have "of_nat i * (sliceH + g) \<le> of_nat (k - 1) * (sliceH + g)"
    using i s0 g0 by (intro mult_right_mono) auto
  also have "\<dots> = of_nat k * sliceH + of_nat (k - 1) * g - sliceH" unfolding km by (simp add: algebra_simps)
  finally have iy: "of_nat i * (sliceH + g) + sliceH \<le> ah" using fit by simp
  have y0: "0 \<le> of_nat i * (sliceH + g)" using s0 g0 by simp
  have y: "int_coord ?y"
    by (rule int_coord_le [of _ "m + int i * (j + m)" "g + ah"]) (use iy s0 y0 g0 ic mn in auto)
  have h: "int_coord (if i = k - 1 then g + ah - ?y else sliceH)"
    by (rule int_coord_le [of _ "if i = k - 1 then n - int i * (j + m) else j" ah]) (use iy s0 y0 ic mn in auto)
  show ?thesis unfolding stack_slice_def Let_def
    using clampRect_id [OF ic(4) y ic(5) h] s0 fit by simp
qed

section \<open>Untyped values\<close>

datatype js = JUndefined | JNull | JBool bool | JNum number | JNotFinite | JStr string
  | JArr "js list" | JObj "(string \<times> js) list"

definition field :: "string \<Rightarrow> (string \<times> js) list \<Rightarrow> js" where
  "field k obj = (case map_of obj k of None \<Rightarrow> JUndefined | Some v \<Rightarrow> v)"

datatype config_error = NotAnObject | BadMode | BadMasterFraction | BadColumn | BadGap

definition MASTER_MIN :: number where "MASTER_MIN = 5 / 100"
definition MASTER_MAX :: number where "MASTER_MAX = 95 / 100"
definition COLUMN_MIN :: number where "COLUMN_MIN = 1 / 10"
definition COLUMN_MAX :: number where "COLUMN_MAX = 1"

fun in_range :: "number \<Rightarrow> number \<Rightarrow> js \<Rightarrow> number option" where
  "in_range lo hi (JNum v) = (if v < lo \<or> hi < v then None else Some v)"
| "in_range lo hi _ = None"

fun non_negative :: "js \<Rightarrow> number option" where
  "non_negative (JNum v) = (if v < 0 then None else Some v)"
| "non_negative _ = None"

fun mode_named :: "js \<Rightarrow> layout_mode option" where
  "mode_named (JStr s) = (if s = ''master-stack'' then Some MasterStack
     else if s = ''columns'' then Some Columns else None)"
| "mode_named _ = None"

text \<open>A field that is present must read as a value of the setting; an absent one leaves it alone.\<close>

definition setting :: "config_error \<Rightarrow> (js \<Rightarrow> 'v option) \<Rightarrow> ('v \<Rightarrow> layout_params \<Rightarrow> layout_params) \<Rightarrow>
    js \<Rightarrow> layout_params \<Rightarrow> config_error + layout_params" where
  "setting err read put v out =
    (if v = JUndefined then Inr out
     else case read v of None \<Rightarrow> Inl err | Some x \<Rightarrow> Inr (put x out))"

definition and_then :: "config_error + layout_params \<Rightarrow> (layout_params \<Rightarrow> config_error + layout_params) \<Rightarrow>
    config_error + layout_params" where
  "and_then r f = (case r of Inl err \<Rightarrow> Inl err | Inr x \<Rightarrow> f x)"

definition validateConfig :: "js \<Rightarrow> config_error + layout_params" where
  "validateConfig raw =
    (case raw of
       JNull \<Rightarrow> Inr DEFAULT_LAYOUT
     | JUndefined \<Rightarrow> Inr DEFAULT_LAYOUT
     | JObj fs \<Rightarrow>
         and_then (and_then (and_then
           (setting BadMode mode_named (\<lambda>m out. out\<lparr>lp_mode := m\<rparr>) (field ''mode'' fs) DEFAULT_LAYOUT)
           (setting BadMasterFraction (in_range MASTER_MIN MASTER_MAX) (\<lambda>v out. out\<lparr>lp_masterFraction := v\<rparr>)
              (field ''masterFraction'' fs)))
           (setting BadColumn (in_range COLUMN_MIN COLUMN_MAX) (\<lambda>v out. out\<lparr>lp_column := v\<rparr>) (field ''column'' fs)))
           (setting BadGap non_negative (\<lambda>v out. out\<lparr>lp_gap := v\<rparr>) (field ''gap'' fs))
     | _ \<Rightarrow> Inl NotAnObject)"

section \<open>The plugin\<close>

record layout_state =
  ls_params :: layout_params
  ls_colWidths :: "(int, number) omap"
  ls_lastSeed :: "(int, number) omap"

definition activate :: "layout_params \<Rightarrow> layout_state" where
  "activate params = \<lparr>ls_params = params, ls_colWidths = [], ls_lastSeed = []\<rparr>"

definition layout_onUnmap :: "layout_state \<Rightarrow> int \<Rightarrow> layout_state" where
  "layout_onUnmap s sid = s\<lparr>ls_colWidths := odel sid (ls_colWidths s), ls_lastSeed := odel sid (ls_lastSeed s)\<rparr>"

definition clamp_column :: "number \<Rightarrow> number" where
  "clamp_column v = min COLUMN_MAX (max COLUMN_MIN v)"

fun finite_number :: "js \<Rightarrow> number option" where
  "finite_number (JNum v) = Some v"
| "finite_number _ = None"

definition islandParams :: "layout_state \<Rightarrow> js \<Rightarrow> layout_mode \<times> number \<times> number list option" where
  "islandParams s hint =
    (let p = ls_params s;
         fs = (case hint of JObj fs \<Rightarrow> fs | _ \<Rightarrow> []);
         mode = (case mode_named (field ''mode'' fs) of None \<Rightarrow> lp_mode p | Some m \<Rightarrow> m);
         column = (case finite_number (field ''column'' fs) of None \<Rightarrow> lp_column p | Some v \<Rightarrow> clamp_column v);
         columns = (case field ''columns'' fs of
             JArr vs \<Rightarrow> if list_all (\<lambda>v. finite_number v \<noteq> None) vs
               then Some (map (\<lambda>v. clamp_column (the (finite_number v))) vs) else None
           | _ \<Rightarrow> None)
     in (mode, column, columns))"

definition widthOf :: "layout_state \<Rightarrow> int \<Rightarrow> number \<Rightarrow> layout_state \<times> number" where
  "widthOf s sid islandColumn =
    (s\<lparr>ls_lastSeed := oset sid islandColumn (ls_lastSeed s)\<rparr>,
     case oget (ls_colWidths s) sid of None \<Rightarrow> islandColumn | Some w \<Rightarrow> w)"

fun widths_loop :: "layout_state \<Rightarrow> number \<Rightarrow> number list option \<Rightarrow> nat \<Rightarrow> int list \<Rightarrow> layout_state \<times> number list" where
  "widths_loop s column columns i [] = (s, [])"
| "widths_loop s column columns i (sid # sids) =
     (let seed = (case columns of Some cs \<Rightarrow> if i < length cs then cs ! i else column | None \<Rightarrow> column);
          (s, w) = widthOf s sid seed;
          (s, ws) = widths_loop s column columns (Suc i) sids
      in (s, w # ws))"

record layout_window =
  lw_id :: int
  lw_minWidth :: js
  lw_maxWidth :: js

definition positive :: "js \<Rightarrow> number option" where
  "positive v = (case finite_number v of None \<Rightarrow> None | Some x \<Rightarrow> if 0 < x then Some x else None)"

definition widthBounds :: "layout_window \<Rightarrow> column_bounds option" where
  "widthBounds w =
    (let mn = positive (lw_minWidth w); mx = positive (lw_maxWidth w)
     in if mn = None \<and> mx = None then None else Some \<lparr>cb_min = mn, cb_max = mx\<rparr>)"

definition translate :: "rect \<Rightarrow> rect \<Rightarrow> rect" where
  "translate region r = r\<lparr>rx := rx r + rx region, ry := ry r + ry region\<rparr>"

definition layout_compute :: "layout_state \<Rightarrow> rect \<Rightarrow> js \<Rightarrow> layout_window list \<Rightarrow> layout_state \<times> (int \<times> rect) list" where
  "layout_compute s region hint wins =
    (let (mode, column, columns) = islandParams s hint;
         (s, rects) = (case mode of
             Columns \<Rightarrow>
               (let (s, ws) = widths_loop s column columns 0 (map lw_id wins)
                in (s, columnsLayout ws (rw region) (rh region) (lp_gap (ls_params s)) (map widthBounds wins)))
           | MasterStack \<Rightarrow> (s, masterStackLayout (length wins) (rw region) (rh region) (ls_params s)))
     in (s, zip (map lw_id wins) (map (translate region) rects)))"

definition layout_measure :: "layout_state \<Rightarrow> number \<Rightarrow> number \<Rightarrow> js \<Rightarrow> layout_window list \<Rightarrow>
    layout_state \<times> number \<times> number" where
  "layout_measure s width height hint wins =
    (let (mode, column, columns) = islandParams s hint
     in if mode \<noteq> Columns then (s, width, height)
        else let (s, ws) = widths_loop s column columns 0 (map lw_id wins)
             in (s, columnsMeasure (map (\<lambda>w. w * width) ws) width height (lp_gap (ls_params s)) (map widthBounds wins)))"

definition zoomedRect :: "layout_state \<Rightarrow> rect \<Rightarrow> js \<Rightarrow> layout_window \<Rightarrow> rect option" where
  "zoomedRect s region hint win =
    (let (mode, column, columns) = islandParams s hint;
         rects = (case mode of
             Columns \<Rightarrow> columnsLayout [1] (rw region) (rh region) (lp_gap (ls_params s)) [widthBounds win]
           | MasterStack \<Rightarrow> masterStackLayout 1 (rw region) (rh region) (ls_params s))
     in case rects of [r] \<Rightarrow> Some (translate region r) | _ \<Rightarrow> None)"

record param_update =
  pu_masterFractionDelta :: js
  pu_gapDelta :: js
  pu_surfaceId :: "int option"
  pu_widthDelta :: js

definition set_master :: "js \<Rightarrow> layout_state \<Rightarrow> layout_state" where
  "set_master v s = (case finite_number v of None \<Rightarrow> s
     | Some d \<Rightarrow> s\<lparr>ls_params := (ls_params s)\<lparr>lp_masterFraction :=
         min MASTER_MAX (max MASTER_MIN (lp_masterFraction (ls_params s) + d))\<rparr>\<rparr>)"

definition set_gap :: "js \<Rightarrow> layout_state \<Rightarrow> layout_state" where
  "set_gap v s = (case finite_number v of None \<Rightarrow> s
     | Some d \<Rightarrow> s\<lparr>ls_params := (ls_params s)\<lparr>lp_gap := max 0 (lp_gap (ls_params s) + d)\<rparr>\<rparr>)"

definition set_width :: "int option \<Rightarrow> js \<Rightarrow> layout_state \<Rightarrow> layout_state" where
  "set_width sid v s = (case (finite_number v, sid) of
     (Some d, Some sid) \<Rightarrow>
       (let cur = (case oget (ls_colWidths s) sid of Some w \<Rightarrow> w
            | None \<Rightarrow> (case oget (ls_lastSeed s) sid of Some w \<Rightarrow> w | None \<Rightarrow> lp_column (ls_params s)))
        in s\<lparr>ls_colWidths := oset sid (clamp_column (cur + d)) (ls_colWidths s)\<rparr>)
   | _ \<Rightarrow> s)"

definition setParams :: "layout_state \<Rightarrow> param_update \<Rightarrow> layout_state \<times> number \<times> number \<times> number" where
  "setParams s u =
    (let s = set_width (pu_surfaceId u) (pu_widthDelta u) (set_gap (pu_gapDelta u) (set_master (pu_masterFractionDelta u) s))
     in (s, lp_masterFraction (ls_params s), lp_gap (ls_params s), lp_column (ls_params s)))"

definition column_widths :: "layout_state \<Rightarrow> int list \<Rightarrow> js \<Rightarrow> number list" where
  "column_widths s sids hint =
    (let (mode, column, columns) = islandParams s hint
     in map (\<lambda>(i, sid). case oget (ls_colWidths s) sid of Some w \<Rightarrow> w
         | None \<Rightarrow> (case columns of
             Some cs \<Rightarrow> if i < length cs then cs ! i
               else (case oget (ls_lastSeed s) sid of Some w \<Rightarrow> w | None \<Rightarrow> column)
           | None \<Rightarrow> (case oget (ls_lastSeed s) sid of Some w \<Rightarrow> w | None \<Rightarrow> column)))
       (zip [0..<length sids] sids))"

section \<open>Sessions of the plugin\<close>

datatype layout_op = LUnmap int | LCompute rect js "layout_window list" | LMeasure number number js "layout_window list"
  | LSetParams param_update

fun layout_do :: "layout_state \<Rightarrow> layout_op \<Rightarrow> layout_state \<times> unit" where
  "layout_do s (LUnmap sid) = (layout_onUnmap s sid, ())"
| "layout_do s (LCompute region hint wins) = (fst (layout_compute s region hint wins), ())"
| "layout_do s (LMeasure w h hint wins) = (fst (layout_measure s w h hint wins), ())"
| "layout_do s (LSetParams u) = (fst (setParams s u), ())"

definition column_ok :: "number \<Rightarrow> bool" where
  "column_ok v \<longleftrightarrow> COLUMN_MIN \<le> v \<and> v \<le> COLUMN_MAX"

definition params_ok :: "layout_params \<Rightarrow> bool" where
  "params_ok p \<longleftrightarrow> MASTER_MIN \<le> lp_masterFraction p \<and> lp_masterFraction p \<le> MASTER_MAX
    \<and> column_ok (lp_column p) \<and> 0 \<le> lp_gap p"

definition layout_inv :: "layout_state \<Rightarrow> bool" where
  "layout_inv s \<longleftrightarrow> params_ok (ls_params s) \<and> (\<forall>v \<in> ran (oget (ls_colWidths s)). column_ok v)
    \<and> (\<forall>v \<in> ran (oget (ls_lastSeed s)). column_ok v)"

lemma column_ok_clamp [simp]: "column_ok (clamp_column v)"
  by (simp add: column_ok_def clamp_column_def COLUMN_MIN_def COLUMN_MAX_def)

lemma in_range_Some: "in_range lo hi v = Some x \<Longrightarrow> lo \<le> x \<and> x \<le> hi"
  by (cases v) (auto split: if_splits)

lemma non_negative_Some: "non_negative v = Some x \<Longrightarrow> 0 \<le> x"
  by (cases v) (auto split: if_splits)

lemma setting_params:
  "setting err read put v out = Inr out' \<Longrightarrow> params_ok out \<Longrightarrow>
    (\<And>x. read v = Some x \<Longrightarrow> params_ok (put x out)) \<Longrightarrow> params_ok out'"
  by (auto simp: setting_def split: if_splits option.splits)

lemma and_then_Inr: "and_then r f = Inr p \<longleftrightarrow> (\<exists>q. r = Inr q \<and> f q = Inr p)"
  by (cases r) (simp_all add: and_then_def)

lemma default_ok: "params_ok DEFAULT_LAYOUT"
  by (simp add: params_ok_def DEFAULT_LAYOUT_def MASTER_MIN_def MASTER_MAX_def column_ok_def
      COLUMN_MIN_def COLUMN_MAX_def)

lemma validated_ok:
  assumes "validateConfig raw = Inr p"
  shows "params_ok p"
proof (cases raw)
  case (JObj fs)
  with assms obtain p1 p2 p3 where
    a: "setting BadMode mode_named (\<lambda>m out. out\<lparr>lp_mode := m\<rparr>) (field ''mode'' fs) DEFAULT_LAYOUT = Inr p1"
    and b: "setting BadMasterFraction (in_range MASTER_MIN MASTER_MAX) (\<lambda>v out. out\<lparr>lp_masterFraction := v\<rparr>)
       (field ''masterFraction'' fs) p1 = Inr p2"
    and c: "setting BadColumn (in_range COLUMN_MIN COLUMN_MAX) (\<lambda>v out. out\<lparr>lp_column := v\<rparr>) (field ''column'' fs) p2 = Inr p3"
    and d: "setting BadGap non_negative (\<lambda>v out. out\<lparr>lp_gap := v\<rparr>) (field ''gap'' fs) p3 = Inr p"
    by (auto simp: validateConfig_def and_then_Inr)
  from setting_params [OF a default_ok] default_ok have 1: "params_ok p1" by (simp add: params_ok_def)
  from setting_params [OF b 1] 1 have 2: "params_ok p2" by (simp add: params_ok_def in_range_Some)
  from setting_params [OF c 2] 2 have 3: "params_ok p3" by (simp add: params_ok_def column_ok_def in_range_Some)
  from setting_params [OF d 3] 3 show ?thesis by (simp add: params_ok_def non_negative_Some)
qed (use assms default_ok in \<open>simp_all add: validateConfig_def\<close>)

lemma islandParams_ok:
  assumes "layout_inv s" "islandParams s hint = (mode, column, columns)"
  shows "column_ok column" "\<forall>cs v. columns = Some cs \<longrightarrow> v \<in> set cs \<longrightarrow> column_ok v"
proof -
  show "column_ok column"
    using assms by (auto simp: islandParams_def Let_def layout_inv_def params_ok_def split: option.splits)
  show "\<forall>cs v. columns = Some cs \<longrightarrow> v \<in> set cs \<longrightarrow> column_ok v"
    using assms(2) by (auto simp: islandParams_def Let_def split: js.splits if_splits)
qed

lemma widths_loop_inv:
  assumes "widths_loop s column columns i sids = (s', ws)" "layout_inv s" "column_ok column"
    "\<forall>cs v. columns = Some cs \<longrightarrow> v \<in> set cs \<longrightarrow> column_ok v"
  shows "layout_inv s' \<and> length ws = length sids \<and> ls_params s' = ls_params s \<and> ls_colWidths s' = ls_colWidths s"
  using assms
proof (induction sids arbitrary: s i s' ws)
  case Nil
  then show ?case by simp
next
  case (Cons sid sids)
  define seed where "seed = (case columns of Some cs \<Rightarrow> if i < length cs then cs ! i else column | None \<Rightarrow> column)"
  obtain s0 w where o: "widthOf s sid seed = (s0, w)" by fastforce
  then have s0: "s0 = s\<lparr>ls_lastSeed := oset sid seed (ls_lastSeed s)\<rparr>" by (simp add: widthOf_def)
  have "column_ok seed" using Cons.prems(3,4) by (auto simp: seed_def split: option.splits)
  then have i0: "layout_inv s0" using Cons.prems(2) by (auto simp: layout_inv_def s0 ran_def)
  obtain s1 ws1 where r: "widths_loop s0 column columns (Suc i) sids = (s1, ws1)" by fastforce
  have "s' = s1" "ws = w # ws1" using Cons.prems(1) o r by (simp_all add: Let_def seed_def)
  with Cons.IH [OF r i0 Cons.prems(3,4)] show ?case by (simp add: s0)
qed

lemma layout_compute_inv: "layout_inv s \<Longrightarrow> layout_inv (fst (layout_compute s region hint wins))"
proof -
  assume i: "layout_inv s"
  obtain mode column columns where p: "islandParams s hint = (mode, column, columns)" by (metis prod_cases3)
  obtain s1 ws where w: "widths_loop s column columns 0 (map lw_id wins) = (s1, ws)" by fastforce
  from widths_loop_inv [OF w i islandParams_ok [OF i p]] i show ?thesis
    by (cases mode) (simp_all add: layout_compute_def p w)
qed

lemma layout_measure_inv: "layout_inv s \<Longrightarrow> layout_inv (fst (layout_measure s width height hint wins))"
proof -
  assume i: "layout_inv s"
  obtain mode column columns where p: "islandParams s hint = (mode, column, columns)" by (metis prod_cases3)
  obtain s1 ws where w: "widths_loop s column columns 0 (map lw_id wins) = (s1, ws)" by fastforce
  from widths_loop_inv [OF w i islandParams_ok [OF i p]] i show ?thesis
    by (cases mode) (simp_all add: layout_measure_def p w)
qed

lemma set_simps:
  "layout_inv s \<Longrightarrow> layout_inv (set_master v s)"
  "layout_inv s \<Longrightarrow> layout_inv (set_gap v s)"
  "layout_inv s \<Longrightarrow> layout_inv (set_width sid v s)"
proof -
  assume i: "layout_inv s"
  show "layout_inv (set_master v s)"
    using i by (auto simp: set_master_def layout_inv_def params_ok_def MASTER_MIN_def MASTER_MAX_def min_def max_def split: option.splits)
  show "layout_inv (set_gap v s)"
    using i by (auto simp: set_gap_def layout_inv_def params_ok_def split: option.splits)
  show "layout_inv (set_width sid v s)"
    using i by (auto simp: set_width_def layout_inv_def Let_def ran_def split: option.splits)
qed

lemma layout_do_inv: "layout_inv s \<Longrightarrow> layout_inv (fst (layout_do s op))"
proof (cases op)
  case (LUnmap sid)
  assume "layout_inv s"
  then show ?thesis unfolding LUnmap by (auto simp: layout_onUnmap_def layout_inv_def ran_def)
qed (simp_all add: layout_compute_inv layout_measure_inv setParams_def Let_def set_simps)

interpretation layout_plugin: step_invariant layout_do "\<lambda>_ _. True" layout_inv
  by unfold_locales (rule layout_do_inv)

section \<open>Properties\<close>

text \<open>
  C34: Columns with minimum widths that fit are filled like water: there is one level at which every
  column is as wide as its weight makes it or as its minimum if that is more, and the columns
  together take the whole width.
\<close>

theorem columns_fill_to_one_level:
  assumes "weights \<noteq> []" "\<forall>b \<in> set bounds. \<forall>c \<in> set_option b. cb_max c = None"
    "sum_list (map co_lo (columns_of weights bounds)) \<le> avail"
  shows "(\<exists>s \<ge> 0. allocateColumns weights bounds avail = map (\<lambda>c. max (co_lo c) (co_w c * s)) (columns_of weights bounds))
    \<and> sum_list (allocateColumns weights bounds avail) = avail"
proof -
  let ?cs = "columns_of weights bounds"
  have at: "bounds_at bounds i = None \<or> (\<exists>c. bounds_at bounds i = Some c \<and> cb_max c = None)" for i
    using assms(2) by (cases "bounds_at bounds i") (fastforce simp: bounds_at_def dest: nth_mem split: if_splits)+
  have "min_col (new_col w (bounds_at bounds i))" for w i
    using at [of i] by (auto simp: new_col_def min_col_def Let_def)
  then have m: "list_all min_col ?cs" by (auto simp: list_all_iff columns_of_def)
  have free: "filter (\<lambda>c. \<not> co_pinned c) ?cs = ?cs" "filter co_pinned ?cs = []"
    by (auto simp: filter_id_conv filter_empty_conv columns_of_def new_col_def Let_def)
  then have n: "free_count ?cs = length weights" "free_lo ?cs \<le> avail" "pinned_out ?cs = 0"
    using assms(3) by (simp_all add: free_count_def free_lo_def pinned_out_def)
  have F: "0 < free_weight ?cs" using free_weight_pos [OF m] n(1) assms(1) by simp
  have "level_ok avail ?cs" using m F n(2) free(2) by (auto simp: level_ok_def filter_empty_conv)
  from fill_level [OF this, of "length weights + 1"] n obtain s where
    s: "0 \<le> s" "map co_out (fill_passes (length weights + 1) avail ?cs) = map (\<lambda>c. max (co_lo c) (co_w c * s)) ?cs"
      "sum_list (map co_out (fill_passes (length weights + 1) avail ?cs)) = avail" by auto
  then have "allocateColumns weights bounds avail = map co_out (fill_passes (length weights + 1) avail ?cs)"
    by (simp add: allocateColumns_def squeeze_def)
  with s show ?thesis by auto
qed

theorem columns_fill_to_one_level_witness:
  "allocateColumns [1, 1, 2] [None, Some \<lparr>cb_min = Some 70, cb_max = None\<rparr>] 100 = [10, 70, 20]
   \<and> sum_list (allocateColumns [1, 1, 2] [None, Some \<lparr>cb_min = Some 70, cb_max = None\<rparr>] 100) = 100"
proof -
  have s: "sum_list (map co_lo (columns_of [1, 1, 2] [None, Some \<lparr>cb_min = Some 70, cb_max = None\<rparr>])) \<le> 100"
    by code_simp
  have "allocateColumns [1, 1, 2] [None, Some \<lparr>cb_min = Some 70, cb_max = None\<rparr>] 100 = [10, 70, 20]" by code_simp
  with columns_fill_to_one_level [OF _ _ s] show ?thesis by simp
qed

text \<open>
  C35: In a region of whole pixels that has room for the gaps, columns mode tiles it exactly: full height,
  side by side from the left gap to the right one, one gap between neighbours, whatever the weights
  and the bounds are.
\<close>

theorem columns_tile_region:
  assumes "weights \<noteq> []" "int_coord width" "int_coord height"
    "of_nat (length weights + 1) * gap_px gap \<le> width" "2 * gap_px gap \<le> height"
  shows "let g = gap_px gap; rs = columnsLayout weights width height gap bounds
    in length rs = length weights \<and> tile_row g (width - g) g rs \<and> (\<forall>r \<in> set rs. ry r = g \<and> rh r = height - 2 * g)"
proof -
  let ?g = "gap_px gap" and ?n = "of_nat (length weights - 1) :: number"
  have g: "0 \<le> ?g" "int_coord ?g" using int_coord_clamp(2) [OF gap_px_int] gap_px_int by auto
  have nn: "of_nat (length weights + 1) * ?g = ?n * ?g + 2 * ?g"
    using assms(1) by (cases weights) (simp_all add: algebra_simps)
  have n0: "0 \<le> ?n * ?g" using g(1) by simp
  have w: "2 * ?g \<le> width" using assms(4) nn n0 by linarith
  define aw where "aw = max 0 (max 0 width - 2 * ?g)"
  have aw: "aw = width - 2 * ?g" using w g(1) by (simp add: aw_def)
  have ah: "max 0 (max 0 height - 2 * ?g) = height - 2 * ?g" using assms(5) g(1) by simp
  define alloc where "alloc = allocateColumns weights bounds (max 0 (aw - ?n * ?g))"
  have avail: "max 0 (aw - ?n * ?g) = width - 2 * ?g - ?n * ?g" using assms(4) nn by (simp add: aw)
  have "0 \<le> max 0 (aw - ?n * ?g)" by simp
  note spec = allocate_spec [OF this, of weights bounds, folded alloc_def, unfolded avail]
  have al: "length alloc = length weights" by (simp add: alloc_def)
  obtain i j k where ijk: "width = of_int i" "height = of_int j" "?g = of_int k"
    using assms(2,3) g(2) int_coord_of by blast
  have ic: "int_coord (width - ?g)" "int_coord (height - 2 * ?g)"
    using int_coord_le [of "width - ?g" "i - k" width] int_coord_le [of "height - 2 * ?g" "j - 2 * k" height]
      assms(2,3,5) w g(1) ijk by auto
  have out: "columnsLayout weights width height gap bounds = columns_loop ?g ?g (height - 2 * ?g) (width - ?g) ?g alloc"
    using assms(1) by (simp add: columnsLayout_def Let_def ah alloc_def aw_def [symmetric]) (simp add: aw)
  have room: "sum_list alloc + of_nat (length alloc - 1) * ?g \<le> width - ?g - ?g" using spec(1) unfolding al by linarith
  have "alloc \<noteq> []" using al assms(1) by auto
  note t = columns_loop_tiles [OF this spec(2) room g(2) g(2) ic(1) g(2) ic(2)]
  have "length (columns_loop a b c d e xs) = length xs" for a b c d e xs
    by (induction a b c d e xs rule: columns_loop.induct) (simp_all add: Let_def)
  with t al show ?thesis by (simp add: out Let_def)
qed

theorem columns_tile_region_witness:
  "map rx (columnsLayout [1, 1, 2] 1000 500 10 [Some \<lparr>cb_min = Some 400, cb_max = None\<rparr>]) = [10, 420, 616]
   \<and> (let g = gap_px 10; rs = columnsLayout [1, 1, 2] 1000 500 10 [Some \<lparr>cb_min = Some 400, cb_max = None\<rparr>]
    in length rs = 3 \<and> tile_row g (1000 - g) g rs \<and> (\<forall>r \<in> set rs. ry r = g \<and> rh r = 500 - 2 * g))"
proof -
  have "gap_px 10 = 10" by code_simp
  moreover have "int_coord 1000" "int_coord 500"
    unfolding int_coord_def by (rule exI [of _ 1000], simp, rule exI [of _ 500], simp)
  moreover have "map rx (columnsLayout [1, 1, 2] 1000 500 10 [Some \<lparr>cb_min = Some 400, cb_max = None\<rparr>]) = [10, 420, 616]"
    by code_simp
  ultimately show ?thesis
    using columns_tile_region [of "[1, 1, 2]" 1000 500 10 "[Some \<lparr>cb_min = Some 400, cb_max = None\<rparr>]"]
    by (simp add: numeral_3_eq_3)
qed

text \<open>The column of the stack: its slices end one gap above each other and fill the height.\<close>

lemma stack_column:
  assumes k: "0 < k" "(of_nat k - 1) * g \<le> ah" and ic: "int_coord g" "int_coord ah" "int_coord (g + ah)"
    "int_coord stackX" "int_coord stackW"
    and s: "sliceH = of_int \<lfloor>(ah - of_nat (k - 1) * g) / of_nat k\<rfloor>"
    and st: "stack = map (stack_slice g g ah stackX stackW sliceH k) [0..<k]"
  shows "\<forall>r \<in> set stack. rx r = stackX \<and> rw r = stackW" "ry (stack ! 0) = g"
    "ry (stack ! (k - 1)) + rh (stack ! (k - 1)) = g + ah"
    "\<forall>l < k. 0 \<le> rh (stack ! l) \<and> (l < k - 1 \<longrightarrow> ry (stack ! (l + 1)) = ry (stack ! l) + rh (stack ! l) + g)"
proof -
  note tile = stack_tiles [OF k ic s]
  have sl: "stack ! l = \<lparr>rx = stackX, ry = g + of_nat l * (sliceH + g), rw = stackW,
      rh = (if l = k - 1 then g + ah - (g + of_nat l * (sliceH + g)) else sliceH)\<rparr>" if "l < k" for l
    using tile [OF that] that by (simp add: st)
  have "0 \<le> sliceH" "of_nat k * sliceH + of_nat (k - 1) * g \<le> ah" using tile [OF k(1)] by auto
  then have last: "0 \<le> sliceH" "of_nat (k - 1) * (sliceH + g) + sliceH \<le> ah"
    using k(1) by (simp_all add: of_nat_diff algebra_simps)
  show "\<forall>r \<in> set stack. rx r = stackX \<and> rw r = stackW" by (simp add: all_set_conv_all_nth st tile)
  show "ry (stack ! 0) = g" "ry (stack ! (k - 1)) + rh (stack ! (k - 1)) = g + ah"
    using sl [of 0] sl [of "k - 1"] k(1) by simp_all
  show "\<forall>l < k. 0 \<le> rh (stack ! l) \<and> (l < k - 1 \<longrightarrow> ry (stack ! (l + 1)) = ry (stack ! l) + rh (stack ! l) + g)"
  proof (intro allI impI conjI)
    fix l assume l: "l < k"
    show "0 \<le> rh (stack ! l)" using sl [OF l] last by simp
    assume "l < k - 1"
    then have "l + 1 < k" "l \<noteq> k - 1" by simp_all
    with sl [OF l] sl [of "l + 1"] show "ry (stack ! (l + 1)) = ry (stack ! l) + rh (stack ! l) + g"
      by (simp add: algebra_simps)
  qed
qed

text \<open>The master's width is whole and leaves room for both gaps.\<close>

lemma master_width:
  assumes "width = of_int i" "g = of_int k" "3 * g \<le> width" "0 \<le> (f :: number)" "f \<le> 1"
  shows "\<exists>q. max 0 (of_int (js_round ((width - 2 * g - g) * f))) = (of_int q :: number) \<and> 0 \<le> q \<and> q \<le> i - 3 * k"
proof (intro exI conjI)
  have x: "0 \<le> width - 2 * g - g" using assms(3) by simp
  have "(width - 2 * g - g) * f \<le> of_int (i - 3 * k)" using x assms mult_left_le [of f "width - 2 * g - g"] by simp
  from js_round_mono [OF this] show "js_round ((width - 2 * g - g) * f) \<le> i - 3 * k" unfolding js_round_of_int .
  show "0 \<le> js_round ((width - 2 * g - g) * f)"
    using js_round_mono [of "of_int 0" "(width - 2 * g - g) * f"] x assms(4) js_round_of_int [of 0] by simp
  then show "max 0 (of_int (js_round ((width - 2 * g - g) * f))) = (of_int (js_round ((width - 2 * g - g) * f)) :: number)"
    by simp
qed

text \<open>
  C36: In a region of whole pixels that has room for the gaps, the master and the stack tile it exactly: the
  master at the left for the full height, the other windows in one column at the right, one below the
  other from the top gap to the bottom one, one gap between neighbours.
\<close>

theorem master_stack_tiles_region:
  assumes "2 \<le> n" "int_coord width" "int_coord height" "3 * gap_px (lp_gap p) \<le> width"
    "of_nat n * gap_px (lp_gap p) \<le> height" "masterStackLayout n width height p = m # stack"
  shows "let g = gap_px (lp_gap p) in length stack = n - 1
    \<and> rx m = g \<and> ry m = g \<and> 0 \<le> rw m \<and> rh m = height - 2 * g
    \<and> (\<forall>r \<in> set stack. rx r = rx m + rw m + g \<and> 0 \<le> rw r \<and> rx r + rw r = width - g)
    \<and> ry (stack ! 0) = g \<and> ry (stack ! (n - 2)) + rh (stack ! (n - 2)) = height - g
    \<and> (\<forall>i < n - 1. 0 \<le> rh (stack ! i) \<and> (i < n - 2 \<longrightarrow> ry (stack ! (i + 1)) = ry (stack ! i) + rh (stack ! i) + g))"
proof -
  let ?g = "gap_px (lp_gap p)" and ?k = "n - 1"
  have g: "0 \<le> ?g" "int_coord ?g" using int_coord_clamp(2) [OF gap_px_int] gap_px_int by auto
  obtain i j k where ijk: "width = of_int i" "height = of_int j" "?g = of_int k"
    using assms(2,3) g(2) int_coord_of by blast
  have ng: "of_nat n * ?g = (of_nat ?k - 1) * ?g + 2 * ?g" using assms(1) by (simp add: of_nat_diff algebra_simps)
  have k0: "0 \<le> (of_nat ?k - 1) * ?g" using assms(1) g(1) by (intro mult_nonneg_nonneg) simp_all
  have h: "2 * ?g \<le> height" and room: "(of_nat ?k - 1) * ?g \<le> height - 2 * ?g" using assms(5) ng k0 by linarith+
  have aw: "max 0 (max 0 width - 2 * ?g) = width - 2 * ?g" "max 0 (max 0 height - 2 * ?g) = height - 2 * ?g"
    using assms(4) h g(1) by simp_all
  define f where "f = min (95 / 100) (max (5 / 100) (lp_masterFraction p))"
  define mw :: number where "mw = max 0 (of_int (js_round ((width - 2 * ?g - ?g) * f)))"
  have "0 \<le> f" "f \<le> 1" by (simp_all add: f_def)
  from master_width [OF ijk(1,3) assms(4) this] obtain q where q: "mw = of_int q" "0 \<le> q" "q \<le> i - 3 * k"
    by (auto simp: mw_def)
  have k3: "0 \<le> k" "3 * k \<le> i" "2 * k \<le> j" "i < 2147483648" "j < 2147483648"
    using g(1) assms(2,3,4) h ijk by (auto simp: int_coord_def)
  define sw :: number where "sw = max 0 (width - 2 * ?g - ?g - mw)"
  have sw: "sw = of_int (i - 3 * k - q)" using q ijk by (simp add: sw_def)
  define sx where "sx = ?g + mw + ?g"
  define sh where "sh = (of_int \<lfloor>(height - 2 * ?g - of_nat (?k - 1) * ?g) / of_nat ?k\<rfloor> :: number)"
  have ic: "int_coord mw" "int_coord (height - 2 * ?g)" "int_coord (?g + (height - 2 * ?g))" "int_coord sx" "int_coord sw"
    unfolding int_coord_def
    by (rule exI [of _ q], use q k3 in simp, rule exI [of _ "j - 2 * k"], use k3 ijk in simp,
        rule exI [of _ "j - k"], use k3 ijk in simp, rule exI [of _ "2 * k + q"], use q k3 ijk in \<open>simp add: sx_def\<close>,
        rule exI [of _ "i - 3 * k - q"], use q k3 sw in simp)
  have "masterStackLayout n width height p =
      clampRect \<lparr>rx = ?g, ry = ?g, rw = mw, rh = height - 2 * ?g\<rparr>
      # map (stack_slice ?g ?g (height - 2 * ?g) sx sw sh ?k) [0..<?k]"
    using assms(1) by (simp add: masterStackLayout_def Let_def aw f_def mw_def sw_def sx_def sh_def)
  with assms(6) have m: "m = \<lparr>rx = ?g, ry = ?g, rw = mw, rh = height - 2 * ?g\<rparr>"
    and st: "stack = map (stack_slice ?g ?g (height - 2 * ?g) sx sw sh ?k) [0..<?k]"
    using clampRect_id [OF g(2) g(2) ic(1,2)] by simp_all
  have "0 < ?k" "length stack = ?k" "n - 2 = ?k - 1" "sx + sw = width - ?g" "0 \<le> mw" "0 \<le> sw"
    using assms(1) int_coord_clamp(2) [OF ic(1)] int_coord_clamp(2) [OF ic(5)] q ijk sw by (simp_all add: st sx_def)
  with stack_column [OF _ room g(2) ic(2-5) sh_def st] show ?thesis by (simp add: Let_def m sx_def)
qed

theorem master_stack_tiles_region_witness:
  "map ry (tl (masterStackLayout 4 1001 500 (DEFAULT_LAYOUT\<lparr>lp_gap := 10\<rparr>))) = [10, 173, 336]
   \<and> rx ((tl (masterStackLayout 4 1001 500 (DEFAULT_LAYOUT\<lparr>lp_gap := 10\<rparr>))) ! 1)
       + rw ((tl (masterStackLayout 4 1001 500 (DEFAULT_LAYOUT\<lparr>lp_gap := 10\<rparr>))) ! 1) = 991"
proof -
  let ?p = "DEFAULT_LAYOUT\<lparr>lp_gap := 10\<rparr>"
  let ?r = "masterStackLayout 4 1001 500 ?p"
  have g: "gap_px 10 = 10" by code_simp
  have c: "int_coord 1001" "int_coord 500"
    unfolding int_coord_def by (rule exI [of _ 1001], simp, rule exI [of _ 500], simp)
  obtain m st where r: "?r = m # st" by (cases ?r) (simp_all add: masterStackLayout_def Let_def)
  have "map ry (tl ?r) = [10, 173, 336]" by code_simp
  moreover have "length (tl ?r) = 3" by code_simp
  then have "st ! 1 \<in> set st" by (simp add: r)
  moreover have "\<forall>x \<in> set st. rx x = rx m + rw m + 10 \<and> 0 \<le> rw x \<and> rx x + rw x = 991"
    using master_stack_tiles_region [OF _ c _ _ r] by (auto simp: g Let_def)
  ultimately have "rx (st ! 1) + rw (st ! 1) = 991" "map ry st = [10, 173, 336]" by (blast, simp add: r)
  then show ?thesis by (simp add: r)
qed

text \<open>
  A minimum that fits can still be violated when another column has a maximum: the pass that pins
  the one at its maximum and the other at its minimum overshoots, and the squeeze takes from both.
\<close>

lemma feasible_minimum_is_squeezed:
  "allocateColumns [1, 1] [Some \<lparr>cb_min = None, cb_max = Some 40\<rparr>, Some \<lparr>cb_min = Some 70, cb_max = None\<rparr>] 100
     = [400 / 11, 700 / 11]"
  by code_simp

text \<open>
  A window alone in its island, zoomed or tiled in columns mode, fills the region although its
  maximum width is smaller: the last column takes the remainder.
\<close>

lemma zoom_ignores_maximum_width:
  "let win = \<lparr>lw_id = 1, lw_minWidth = JUndefined, lw_maxWidth = JNum 300\<rparr>; region = \<lparr>rx = 0, ry = 0, rw = 1000, rh = 500\<rparr>
   in map_option rw (zoomedRect (activate (DEFAULT_LAYOUT\<lparr>lp_mode := Columns\<rparr>)) region JNull win) = Some 1000"
  by code_simp

text \<open>
  C37: Whatever configuration the plugin accepts and whatever it is asked to do, its fractions stay within
  their limits, its gap stays non-negative and every column fraction it reports is within its limits.
\<close>

theorem layout_session_stays_in_bounds:
  assumes "validateConfig raw = Inr p"
  shows "layout_inv (fst (run layout_do (activate p) ops))
    \<and> (\<forall>w \<in> set (column_widths (fst (run layout_do (activate p) ops)) sids hint). COLUMN_MIN \<le> w \<and> w \<le> COLUMN_MAX)"
proof -
  let ?s = "fst (run layout_do (activate p) ops)"
  have "layout_inv (activate p)" using validated_ok [OF assms] by (simp add: layout_inv_def activate_def)
  then have i: "layout_inv ?s" by (rule layout_plugin.inv_run) simp
  obtain mode column columns where h: "islandParams ?s hint = (mode, column, columns)" by (metis prod_cases3)
  note ok = islandParams_ok [OF i h]
  have r: "oget (ls_colWidths ?s) x = Some w \<Longrightarrow> column_ok w" "oget (ls_lastSeed ?s) x = Some w \<Longrightarrow> column_ok w" for x w
    using i by (auto simp: layout_inv_def ran_def)
  have "\<forall>w \<in> set (column_widths ?s sids hint). column_ok w"
    using ok r by (auto simp: column_widths_def h Let_def split: option.splits)
  with i show ?thesis by (simp add: column_ok_def)
qed

theorem layout_session_stays_in_bounds_witness:
  "column_widths (fst (run layout_do (activate DEFAULT_LAYOUT)
     [LSetParams \<lparr>pu_masterFractionDelta = JNum 9, pu_gapDelta = JNum (- 4), pu_surfaceId = Some 7, pu_widthDelta = JNum 3\<rparr>]))
     [7, 8] JNull = [1, 1 / 2]
   \<and> layout_inv (fst (run layout_do (activate DEFAULT_LAYOUT)
     [LSetParams \<lparr>pu_masterFractionDelta = JNum 9, pu_gapDelta = JNum (- 4), pu_surfaceId = Some 7, pu_widthDelta = JNum 3\<rparr>]))"
proof -
  have "validateConfig JNull = Inr DEFAULT_LAYOUT" by (simp add: validateConfig_def)
  from conjunct1 [OF layout_session_stays_in_bounds [OF this]] have
    i: "layout_inv (fst (run layout_do (activate DEFAULT_LAYOUT)
     [LSetParams \<lparr>pu_masterFractionDelta = JNum 9, pu_gapDelta = JNum (- 4), pu_surfaceId = Some 7, pu_widthDelta = JNum 3\<rparr>]))" .
  have "column_widths (fst (run layout_do (activate DEFAULT_LAYOUT)
     [LSetParams \<lparr>pu_masterFractionDelta = JNum 9, pu_gapDelta = JNum (- 4), pu_surfaceId = Some 7, pu_widthDelta = JNum 3\<rparr>]))
     [7, 8] JNull = [1, 1 / 2]" by code_simp
  with i show ?thesis by blast
qed

end
