(* ===== verification/Placement.thy ===== *)
theory Placement
  imports Prelude "HOL-Library.Word"
begin

text \<open>
  The pure geometry of the core: reserved zones (\<open>wm/reserved-zones.ts\<close>), layer surfaces
  (\<open>protocols/layer-shell-position.ts\<close>), popups (\<open>popup-position.ts\<close>), overlays
  (\<open>overlay-position.ts\<close>), interactive move and resize (\<open>input/grab-math.ts\<close>), the fallback
  arrangement of outputs (\<open>output/arrangement.ts\<close>) and output scales (\<open>output/scale.ts\<close>).

  Protocol bit fields are 32-bit words; lengths are exact rationals.
\<close>

unbundle bit_operations_syntax

declare map_of_eq_Some_iff [simp del] Some_eq_map_of_iff [simp del]

definition clamp :: "number \<Rightarrow> number \<Rightarrow> number \<Rightarrow> number" where
  "clamp v lo hi = (if v < lo then lo else if hi < v then hi else v)"

lemma clamp_bounds: "lo \<le> hi \<Longrightarrow> lo \<le> clamp v lo hi \<and> clamp v lo hi \<le> hi"
  by (simp add: clamp_def)

section \<open>Reserved zones\<close>

datatype edge = EdgeTop | EdgeRight | EdgeBottom | EdgeLeft

record zone =
  zn_output :: int
  zn_edge :: edge
  zn_thickness :: number
  zn_owner :: int

type_synonym zones = "(string, zone) omap"

definition zones_new :: zones where
  "zones_new = []"

text \<open>Both operations answer with the outputs the listeners are told of, in order.\<close>

definition zone_set :: "zones \<Rightarrow> string \<Rightarrow> zone \<Rightarrow> zones \<times> int list" where
  "zone_set zs zid z =
    (let nxt = z\<lparr>zn_thickness := max 0 (of_int (to_int32 (zn_thickness z)))\<rparr>;
         prev = oget zs zid
     in (oset zid nxt zs,
         if prev = Some nxt then []
         else (case prev of None \<Rightarrow> [] | Some p \<Rightarrow> if zn_output p \<noteq> zn_output nxt then [zn_output p] else [])
              @ [zn_output nxt]))"

definition zone_clear :: "zones \<Rightarrow> string \<Rightarrow> zones \<times> int list" where
  "zone_clear zs zid = (case oget zs zid of None \<Rightarrow> (zs, []) | Some p \<Rightarrow> (odel zid zs, [zn_output p]))"

definition list_zones :: "zones \<Rightarrow> int \<Rightarrow> zone list" where
  "list_zones zs outputId = filter (\<lambda>z. zn_output z = outputId) (map snd zs)"

fun inset_loop :: "zone list \<Rightarrow> int \<Rightarrow> int option \<Rightarrow> number \<times> number \<times> number \<times> number \<Rightarrow>
    number \<times> number \<times> number \<times> number" where
  "inset_loop [] outputId excl acc = acc"
| "inset_loop (z # zs) outputId excl (t, rt, b, l) =
     (if zn_output z \<noteq> outputId then inset_loop zs outputId excl (t, rt, b, l)
      else if excl = Some (zn_owner z) then inset_loop zs outputId excl (t, rt, b, l)
      else inset_loop zs outputId excl
        (case zn_edge z of
           EdgeTop \<Rightarrow> (t + zn_thickness z, rt, b, l)
         | EdgeRight \<Rightarrow> (t, rt + zn_thickness z, b, l)
         | EdgeBottom \<Rightarrow> (t, rt, b + zn_thickness z, l)
         | EdgeLeft \<Rightarrow> (t, rt, b, l + zn_thickness z)))"

definition effectiveRect :: "zones \<Rightarrow> int \<Rightarrow> rect \<Rightarrow> int option \<Rightarrow> rect" where
  "effectiveRect zs outputId r excl =
    (let (t, rt, b, l) = inset_loop (map snd zs) outputId excl (0, 0, 0, 0)
     in \<lparr>rx = rx r + l, ry = ry r + t, rw = max 0 (rw r - l - rt), rh = max 0 (rh r - t - b)\<rparr>)"

section \<open>Layer surfaces\<close>

definition ANCHOR_TOP :: "32 word" where "ANCHOR_TOP = 1"
definition ANCHOR_BOTTOM :: "32 word" where "ANCHOR_BOTTOM = 2"
definition ANCHOR_LEFT :: "32 word" where "ANCHOR_LEFT = 4"
definition ANCHOR_RIGHT :: "32 word" where "ANCHOR_RIGHT = 8"

definition ANCHOR_ALL :: "32 word" where
  "ANCHOR_ALL = ANCHOR_TOP OR ANCHOR_BOTTOM OR ANCHOR_LEFT OR ANCHOR_RIGHT"

definition isValidAnchor :: "32 word \<Rightarrow> bool" where
  "isValidAnchor anchor \<longleftrightarrow> anchor AND NOT ANCHOR_ALL = 0"

record margin =
  mg_top :: number
  mg_right :: number
  mg_bottom :: number
  mg_left :: number

record place_args =
  pa_outputRect :: rect
  pa_effectiveRect :: rect
  pa_width :: number
  pa_height :: number
  pa_anchor :: "32 word"
  pa_margin :: margin
  pa_exclusiveZone :: number

definition anchored :: "32 word \<Rightarrow> 32 word \<Rightarrow> bool" where
  "anchored anchor side = (anchor AND side \<noteq> 0)"

text \<open>
  One axis of \<open>placeLayerSurface\<close>: the base interval, the requested extent, whether each side is
  anchored, its margins. The answer is the origin, the extent, and whether the request was invalid.
\<close>

definition place_axis :: "number \<Rightarrow> number \<Rightarrow> number \<Rightarrow> bool \<Rightarrow> bool \<Rightarrow> number \<Rightarrow> number \<Rightarrow>
    number \<times> number \<times> bool" where
  "place_axis base extent requested near far mnear mfar =
    (let spans = near \<and> far;
         bad = (requested = 0 \<and> \<not> spans);
         len = (if requested = 0 then max 0 (extent - (if near then mnear else 0) - (if far then mfar else 0))
                 else max 0 (min requested extent));
         pos = (if spans then base + mnear else if near then base + mnear
                else if far then base + extent - len - mfar
                else base + of_int (js_round ((extent - len) / 2)))
     in (clamp pos base (base + max 0 (extent - len)), len, bad))"

text \<open>The rectangle, and whether the protocol's \<open>invalid_size\<close> has to be posted.\<close>

definition placeLayerSurface :: "place_args \<Rightarrow> rect \<times> bool" where
  "placeLayerSurface a =
    (let base = (if pa_exclusiveZone a = 0 then pa_effectiveRect a else pa_outputRect a);
         (x, w, badX) = place_axis (rx base) (rw base) (pa_width a)
            (anchored (pa_anchor a) ANCHOR_LEFT) (anchored (pa_anchor a) ANCHOR_RIGHT)
            (mg_left (pa_margin a)) (mg_right (pa_margin a));
         (y, h, badY) = place_axis (ry base) (rh base) (pa_height a)
            (anchored (pa_anchor a) ANCHOR_TOP) (anchored (pa_anchor a) ANCHOR_BOTTOM)
            (mg_top (pa_margin a)) (mg_bottom (pa_margin a))
     in (\<lparr>rx = x, ry = y, rw = w, rh = h\<rparr>, badX \<or> badY))"

definition isSingleEdgeBit :: "32 word \<Rightarrow> bool" where
  "isSingleEdgeBit n \<longleftrightarrow> n = ANCHOR_TOP \<or> n = ANCHOR_BOTTOM \<or> n = ANCHOR_LEFT \<or> n = ANCHOR_RIGHT"

definition edgeOfBit :: "32 word \<Rightarrow> edge" where
  "edgeOfBit b = (if b = ANCHOR_TOP then EdgeTop else if b = ANCHOR_BOTTOM then EdgeBottom
     else if b = ANCHOR_LEFT then EdgeLeft else EdgeRight)"

definition popcount :: "32 word \<Rightarrow> nat" where
  "popcount n = (let m = n AND 15 in
     unat (m AND 1) + unat (drop_bit 1 m AND 1) + unat (drop_bit 2 m AND 1) + unat (drop_bit 3 m AND 1))"

datatype edge_resolution = EdgeIs edge | NoEdge | InvalidExclusiveEdge

definition resolveExclusiveEdge :: "32 word \<Rightarrow> 32 word \<Rightarrow> edge_resolution" where
  "resolveExclusiveEdge anchor explicitEdge =
    (let l = anchored anchor ANCHOR_LEFT; r = anchored anchor ANCHOR_RIGHT;
         t = anchored anchor ANCHOR_TOP; b = anchored anchor ANCHOR_BOTTOM;
         bits = popcount (anchor AND ANCHOR_ALL)
     in if explicitEdge \<noteq> 0 then
          (if \<not> isSingleEdgeBit explicitEdge then InvalidExclusiveEdge
           else if anchor AND explicitEdge = 0 then InvalidExclusiveEdge
           else EdgeIs (edgeOfBit explicitEdge))
        else if bits = 1 \<and> t then EdgeIs EdgeTop
        else if bits = 1 \<and> b then EdgeIs EdgeBottom
        else if bits = 1 \<and> l then EdgeIs EdgeLeft
        else if bits = 1 \<and> r then EdgeIs EdgeRight
        else if bits = 3 \<and> l \<and> r \<and> t \<and> \<not> b then EdgeIs EdgeTop
        else if bits = 3 \<and> l \<and> r \<and> \<not> t \<and> b then EdgeIs EdgeBottom
        else if bits = 3 \<and> t \<and> b \<and> l \<and> \<not> r then EdgeIs EdgeLeft
        else if bits = 3 \<and> t \<and> b \<and> \<not> l \<and> r then EdgeIs EdgeRight
        else NoEdge)"

definition computeReservedThickness :: "number \<Rightarrow> number \<Rightarrow> number" where
  "computeReservedThickness zone marginOnEdge =
    (if 0 < zone then of_int \<lfloor>zone + max 0 marginOnEdge\<rfloor> else 0)"

section \<open>Popups\<close>

record positioner =
  ps_width :: number
  ps_height :: number
  ps_anchorRect :: rect
  ps_anchor :: int
  ps_gravity :: int
  ps_adjust :: "32 word"
  ps_offsetX :: number
  ps_offsetY :: number

definition CA_slide_x :: "32 word" where "CA_slide_x = 1"
definition CA_slide_y :: "32 word" where "CA_slide_y = 2"
definition CA_flip_x :: "32 word" where "CA_flip_x = 4"
definition CA_flip_y :: "32 word" where "CA_flip_y = 8"
definition CA_resize_x :: "32 word" where "CA_resize_x = 16"
definition CA_resize_y :: "32 word" where "CA_resize_y = 32"

text \<open>top 1, bottom 2, left 3, right 4, top left 5, bottom left 6, top right 7, bottom right 8.\<close>

definition hComp :: "int \<Rightarrow> int" where
  "hComp e = (if e \<in> {3, 5, 6} then - 1 else if e \<in> {4, 7, 8} then 1 else 0)"

definition vComp :: "int \<Rightarrow> int" where
  "vComp e = (if e \<in> {1, 5, 7} then - 1 else if e \<in> {2, 6, 8} then 1 else 0)"

definition flipH :: "int \<Rightarrow> int" where
  "flipH e = (if e = 3 then 4 else if e = 4 then 3 else if e = 5 then 7 else if e = 7 then 5
     else if e = 6 then 8 else if e = 8 then 6 else e)"

definition flipV :: "int \<Rightarrow> int" where
  "flipV e = (if e = 1 then 2 else if e = 2 then 1 else if e = 5 then 6 else if e = 6 then 5
     else if e = 7 then 8 else if e = 8 then 7 else e)"

text \<open>One coordinate of \<open>anchorPoint\<close>, \<open>placeForGravity\<close> and \<open>computeRaw\<close>.\<close>

definition anchorPoint :: "number \<Rightarrow> number \<Rightarrow> int \<Rightarrow> number" where
  "anchorPoint origin extent c = origin + (if c < 0 then 0 else if 0 < c then extent else extent / 2)"

definition placeForGravity :: "number \<Rightarrow> number \<Rightarrow> int \<Rightarrow> number" where
  "placeForGravity a len c = (if c < 0 then a - len else if 0 < c then a else a - len / 2)"

definition computeRawX :: "positioner \<Rightarrow> int \<Rightarrow> int \<Rightarrow> number" where
  "computeRawX p anchor gravity =
    placeForGravity (anchorPoint (rx (ps_anchorRect p)) (rw (ps_anchorRect p)) (hComp anchor)) (ps_width p) (hComp gravity)
      + ps_offsetX p"

definition computeRawY :: "positioner \<Rightarrow> int \<Rightarrow> int \<Rightarrow> number" where
  "computeRawY p anchor gravity =
    placeForGravity (anchorPoint (ry (ps_anchorRect p)) (rh (ps_anchorRect p)) (vComp anchor)) (ps_height p) (vComp gravity)
      + ps_offsetY p"

text \<open>
  The adjustments of one axis: flip if the flipped place fits, else slide, then resize. The answer is
  the coordinate, the extent, and whether the place was flipped.
\<close>

definition adjust_axis :: "bool \<Rightarrow> bool \<Rightarrow> bool \<Rightarrow> number \<Rightarrow> number \<Rightarrow> number \<Rightarrow> number \<Rightarrow> number \<Rightarrow>
    number \<times> number \<times> bool" where
  "adjust_axis may_flip may_slide may_resize lo hi flipped x w =
    (if x < lo \<or> hi < x + w then
       let fl = (may_flip \<and> lo \<le> flipped \<and> flipped + w \<le> hi); x = (if fl then flipped else x)
       in if x < lo \<or> hi < x + w then
            let x = (if may_slide then
                       let x = (if hi < x + w then hi - w else x) in if x < lo then lo else x
                     else x);
                w = (if may_resize \<and> hi < x + w then max 1 (hi - x) else w)
            in (x, w, fl)
          else (x, w, fl)
     else (x, w, False))"

definition allows :: "positioner \<Rightarrow> 32 word \<Rightarrow> bool" where
  "allows p ca \<longleftrightarrow> ps_adjust p AND ca \<noteq> 0"

definition solvePopupPosition :: "positioner \<Rightarrow> number \<Rightarrow> number \<Rightarrow> rect \<Rightarrow> rect" where
  "solvePopupPosition p parentX parentY out =
    (let anchor = ps_anchor p; gravity = ps_gravity p;
         (x, w, flipped) = adjust_axis (allows p CA_flip_x) (allows p CA_slide_x) (allows p CA_resize_x)
            (rx out - parentX) (rx out + rw out - parentX)
            (computeRawX p (flipH anchor) (flipH gravity)) (computeRawX p anchor gravity) (ps_width p);
         anchorY = (if flipped then flipH anchor else anchor);
         gravityY = (if flipped then flipH gravity else gravity);
         (y, h, _) = adjust_axis (allows p CA_flip_y) (allows p CA_slide_y) (allows p CA_resize_y)
            (ry out - parentY) (ry out + rh out - parentY)
            (computeRawY p (flipV anchorY) (flipV gravityY)) (computeRawY p anchor gravity) (ps_height p)
     in \<lparr>rx = of_int (js_round x), ry = of_int (js_round y), rw = w, rh = h\<rparr>)"

section \<open>Overlays\<close>

datatype overlay_anchor = ATopLeft | ATop | ATopRight | ALeft | ACenter | ARight | ABottomLeft | ABottom | ABottomRight

record overlay_request =
  or_anchor :: overlay_anchor
  or_width :: number
  or_height :: number
  or_margin :: "number option"

text \<open>An output whose origin is omitted has it at zero.\<close>

definition placeOverlay :: "overlay_request \<Rightarrow> rect \<Rightarrow> rect" where
  "placeOverlay req output =
    (let m = max 0 (case or_margin req of None \<Rightarrow> 0 | Some m \<Rightarrow> m);
         w = clamp (or_width req) 0 (rw output);
         h = clamp (or_height req) 0 (rh output);
         a = or_anchor req;
         x = (if a \<in> {ATopLeft, ALeft, ABottomLeft} then m
              else if a \<in> {ATopRight, ARight, ABottomRight} then rw output - w - m
              else of_int (js_round ((rw output - w) / 2)));
         y = (if a \<in> {ATopLeft, ATop, ATopRight} then m
              else if a \<in> {ABottomLeft, ABottom, ABottomRight} then rh output - h - m
              else of_int (js_round ((rh output - h) / 2)));
         x = clamp x 0 (max 0 (rw output - w));
         y = clamp y 0 (max 0 (rh output - h))
     in \<lparr>rx = x + rx output, ry = y + ry output, rw = w, rh = h\<rparr>)"

section \<open>Interactive move and resize\<close>

datatype resize_edges = RTop | RBottom | RLeft | RRight | RTopLeft | RTopRight | RBottomLeft | RBottomRight

datatype grab = GrabMove rect | GrabResize rect resize_edges

record size_constraints =
  sc_minSize :: "(number \<times> number) option"
  sc_maxSize :: "(number \<times> number) option"

text \<open>One axis of a resize: \<open>near\<close> and \<open>far\<close> say which edge is dragged; an absent maximum is infinite.\<close>

definition drag_axis :: "bool \<Rightarrow> bool \<Rightarrow> number \<Rightarrow> number option \<Rightarrow> number \<Rightarrow> number \<Rightarrow> number \<Rightarrow>
    number \<times> number" where
  "drag_axis near far lo hi pos len d =
    (let (np, ns) = (if near then (pos + d, len - d) else if far then (pos, len + d) else (pos, len))
     in if ns < lo then (if near then np - (lo - ns) else np, lo)
        else case hi of None \<Rightarrow> (np, ns)
          | Some hi \<Rightarrow> if hi < ns then (if near then np + (ns - hi) else np, hi) else (np, ns))"

fun computeGrabRect :: "grab \<Rightarrow> number \<Rightarrow> number \<Rightarrow> size_constraints option \<Rightarrow> rect" where
  "computeGrabRect (GrabMove r) dx dy c = r\<lparr>rx := rx r + dx, ry := ry r + dy\<rparr>"
| "computeGrabRect (GrabResize r edges) dx dy c =
     (let left = edges \<in> {RLeft, RTopLeft, RBottomLeft};
          right = edges \<in> {RRight, RTopRight, RBottomRight};
          up = edges \<in> {RTop, RTopLeft, RTopRight};
          down = edges \<in> {RBottom, RBottomLeft, RBottomRight};
          mn = (case c of None \<Rightarrow> None | Some c \<Rightarrow> sc_minSize c);
          mx = (case c of None \<Rightarrow> None | Some c \<Rightarrow> sc_maxSize c);
          (x, w) = drag_axis left right (case mn of None \<Rightarrow> 1 | Some m \<Rightarrow> fst m) (map_option fst mx) (rx r) (rw r) dx;
          (y, h) = drag_axis up down (case mn of None \<Rightarrow> 1 | Some m \<Rightarrow> snd m) (map_option snd mx) (ry r) (rh r) dy
      in \<lparr>rx = x, ry = y, rw = w, rh = h\<rparr>)"

section \<open>Arrangement and scale of outputs\<close>

definition nextOutputPosition :: "rect list \<Rightarrow> number \<times> number" where
  "nextOutputPosition outputs = (foldl (\<lambda>x r. max x (rx r + rw r)) 0 outputs, 0)"

definition durableKeyOf :: "string \<Rightarrow> string \<Rightarrow> string" where
  "durableKeyOf edidId name = (if edidId \<noteq> [] then edidId else name)"

definition near_integer :: "number \<Rightarrow> bool" where
  "near_integer v \<longleftrightarrow> \<bar>v - of_int (js_round v)\<bar> < 1 / 1000000000"

definition integerLogical :: "number \<Rightarrow> number \<Rightarrow> number \<Rightarrow> bool" where
  "integerLogical dw dh s \<longleftrightarrow> near_integer (dw / s) \<and> near_integer (dh / s)"

fun snap_search :: "number \<Rightarrow> number \<Rightarrow> int \<Rightarrow> int \<Rightarrow> int \<Rightarrow> nat \<Rightarrow> int \<Rightarrow> number" where
  "snap_search dw dh start lo hi 0 delta = 1"
| "snap_search dw dh start lo hi (Suc fuel) delta =
     (if start + delta \<le> hi \<and> integerLogical dw dh (of_int (start + delta) / 120) then of_int (start + delta) / 120
      else if lo \<le> start - delta \<and> integerLogical dw dh (of_int (start - delta) / 120) then of_int (start - delta) / 120
      else snap_search dw dh start lo hi fuel (delta + 1))"

text \<open>The device size is \<open>None\<close> when the caller leaves it out; a raw scale that is not finite is not modelled.\<close>

definition snapScale :: "number \<Rightarrow> (number \<times> number) option \<Rightarrow> number" where
  "snapScale raw device =
    (if raw \<le> 0 then 1
     else let clamped = min 3 (max 1 raw)
       in case device of
            None \<Rightarrow> min 3 (max 1 (of_int (js_round (clamped * 4)) / 4))
          | Some (dw, dh) \<Rightarrow>
              if dw \<le> 0 \<or> dh \<le> 0 then min 3 (max 1 (of_int (js_round (clamped * 4)) / 4))
              else let start = js_round (clamped * 120)
                   in if integerLogical dw dh (of_int start / 120) then of_int start / 120
                      else snap_search dw dh start (max 120 (start - 60)) (min 360 (start + 60)) 60 1)"

definition edidDpi :: "number \<Rightarrow> number \<Rightarrow> number \<Rightarrow> number \<Rightarrow> number" where
  "edidDpi dw dh pw ph =
    (if pw \<le> 0 \<or> ph \<le> 0 then 0 else if dw \<le> 0 \<or> dh \<le> 0 then 0
     else max (dw / (pw / (254 / 10))) (dh / (ph / (254 / 10))))"

definition edidScaleFallback :: "number \<Rightarrow> number \<Rightarrow> number \<Rightarrow> number \<Rightarrow> number" where
  "edidScaleFallback dw dh pw ph =
    (let dpi = edidDpi dw dh pw ph
     in if dpi \<le> 0 then 1
        else let raw = dpi / 96; nearest = js_round raw
             in if 1 \<le> nearest \<and> \<bar>raw - of_int nearest\<bar> \<le> 2 / 10 then snapScale (of_int nearest) (Some (dw, dh))
                else snapScale raw (Some (dw, dh)))"

record scale_inputs =
  si_configScale :: "number option"
  si_deviceWidth :: number
  si_deviceHeight :: number
  si_physicalWidthMm :: number
  si_physicalHeightMm :: number
  si_allowEdidAuto :: bool

definition resolveScale :: "scale_inputs \<Rightarrow> number" where
  "resolveScale i =
    (case si_configScale i of
       Some c \<Rightarrow> min 3 (max 1 (of_int (js_round (c * 4)) / 4))
     | None \<Rightarrow> if si_allowEdidAuto i then
           edidScaleFallback (si_deviceWidth i) (si_deviceHeight i) (si_physicalWidthMm i) (si_physicalHeightMm i)
         else 1)"

definition logicalSize :: "number \<Rightarrow> number \<Rightarrow> number \<Rightarrow> number \<times> number" where
  "logicalSize dw dh scale =
    (let s = (if 0 < scale then scale else 1)
     in (max 1 (of_int (js_round (dw / s))), max 1 (of_int (js_round (dh / s)))))"

section \<open>Zones: who has to be told\<close>

text \<open>What a reader of one output can see of the registry.\<close>

lemma inset_loop_list:
  "inset_loop zs outputId excl acc = inset_loop (filter (\<lambda>z. zn_output z = outputId) zs) outputId excl acc"
  by (induction zs outputId excl acc rule: inset_loop.induct) (simp_all split: edge.splits)

lemma effectiveRect_list:
  "list_zones zs outputId = list_zones zs' outputId \<Longrightarrow> effectiveRect zs outputId r excl = effectiveRect zs' outputId r excl"
  using inset_loop_list [of "map snd zs" outputId excl "(0, 0, 0, 0)"]
    inset_loop_list [of "map snd zs'" outputId excl "(0, 0, 0, 0)"]
  by (simp add: effectiveRect_def list_zones_def)

lemma list_zones_oset:
  "oget zs zid = None \<or> (\<exists>p. oget zs zid = Some p \<and> zn_output p \<noteq> d) \<Longrightarrow> zn_output z \<noteq> d \<Longrightarrow>
     list_zones (oset zid z zs) d = list_zones zs d"
  by (induction zs) (auto simp: list_zones_def)

lemma list_zones_odel:
  "distinct (okeys zs) \<Longrightarrow> oget zs zid = None \<or> (\<exists>p. oget zs zid = Some p \<and> zn_output p \<noteq> d) \<Longrightarrow>
     list_zones (odel zid zs) d = list_zones zs d"
proof (induction zs)
  case (Cons kv zs)
  then show ?case
    by (cases kv) (auto simp: list_zones_def AList.delete_eq oget_None_key filter_id_conv split: if_splits)
qed (simp add: list_zones_def)

lemma oset_same: "oget zs zid = Some z \<Longrightarrow> oset zid z zs = zs"
  by (induction zs) (auto split: if_splits)

datatype zone_op = ZSet string zone | ZClear string

fun zone_do :: "zones \<Rightarrow> zone_op \<Rightarrow> zones \<times> int list" where
  "zone_do zs (ZSet zid z) = zone_set zs zid z"
| "zone_do zs (ZClear zid) = zone_clear zs zid"

text \<open>A zone's thickness is a whole number of pixels and not negative.\<close>

definition zones_ok :: "zones \<Rightarrow> bool" where
  "zones_ok zs \<longleftrightarrow> distinct (okeys zs) \<and> (\<forall>zid z. oget zs zid = Some z \<longrightarrow> 0 \<le> zn_thickness z)"

lemma zone_do_ok: "zones_ok zs \<Longrightarrow> zones_ok (fst (zone_do zs op))"
  by (cases op) (auto simp: zones_ok_def zone_set_def zone_clear_def Let_def split: option.splits if_splits)

interpretation zone_registry: step_invariant zone_do "\<lambda>_ _. True" zones_ok
  by unfold_locales (rule zone_do_ok)

lemma unnotified_same:
  assumes "zones_ok zs" "d \<notin> set (snd (zone_do zs op))"
  shows "list_zones (fst (zone_do zs op)) d = list_zones zs d"
proof (cases op)
  case (ZSet zid z)
  let ?n = "z\<lparr>zn_thickness := max 0 (of_int (to_int32 (zn_thickness z)))\<rparr>"
  show ?thesis
  proof (cases "oget zs zid = Some ?n")
    case True
    then show ?thesis unfolding ZSet by (simp add: zone_set_def Let_def oset_same)
  next
    case False
    then have "oget zs zid = None \<or> (\<exists>p. oget zs zid = Some p \<and> zn_output p \<noteq> d)" "zn_output ?n \<noteq> d"
      using assms(2) unfolding ZSet
      by (cases "oget zs zid", auto simp: zone_set_def Let_def split: if_splits)
    from list_zones_oset [OF this] show ?thesis unfolding ZSet by (simp add: zone_set_def Let_def)
  qed
next
  case (ZClear zid)
  then show ?thesis using assms list_zones_odel [of zs zid d]
    by (auto simp: zone_clear_def zones_ok_def split: option.splits)
qed

text \<open>
  After any calls of the zone registry, a set or a clear changes neither the zones listed for an
  output it does not announce nor the working area computed for it, for any surface that asks.
\<close>

lemma unannounced_output_is_unchanged:
  assumes "d \<notin> set (snd (zone_do (fst (run zone_do zones_new ops)) op))"
  shows "list_zones (fst (zone_do (fst (run zone_do zones_new ops)) op)) d = list_zones (fst (run zone_do zones_new ops)) d
    \<and> effectiveRect (fst (zone_do (fst (run zone_do zones_new ops)) op)) d r excl
        = effectiveRect (fst (run zone_do zones_new ops)) d r excl"
proof -
  have "zones_ok (fst (run zone_do zones_new ops))"
    by (rule zone_registry.inv_run) (simp_all add: zones_ok_def zones_new_def)
  from unnotified_same [OF this assms] effectiveRect_list show ?thesis by blast
qed

lemma unannounced_output_is_unchanged_witness:
  "let zs = fst (run zone_do zones_new [ZSet ''bar'' \<lparr>zn_output = 1, zn_edge = EdgeTop, zn_thickness = 30, zn_owner = 5\<rparr>]);
       op = ZSet ''dock'' \<lparr>zn_output = 2, zn_edge = EdgeLeft, zn_thickness = 48, zn_owner = 6\<rparr>
   in effectiveRect (fst (zone_do zs op)) 1 \<lparr>rx = 0, ry = 0, rw = 1920, rh = 1080\<rparr> None
        = \<lparr>rx = 0, ry = 30, rw = 1920, rh = 1050\<rparr> \<and> list_zones (fst (zone_do zs op)) 1 = list_zones zs 1"
proof -
  let ?ops = "[ZSet ''bar'' \<lparr>zn_output = 1, zn_edge = EdgeTop, zn_thickness = 30, zn_owner = 5\<rparr>]"
  let ?op = "ZSet ''dock'' \<lparr>zn_output = 2, zn_edge = EdgeLeft, zn_thickness = 48, zn_owner = 6\<rparr>"
  have n: "1 \<notin> set (snd (zone_do (fst (run zone_do zones_new ?ops)) ?op))" by code_simp
  have "effectiveRect (fst (run zone_do zones_new ?ops)) 1 \<lparr>rx = 0, ry = 0, rw = 1920, rh = 1080\<rparr> None
    = \<lparr>rx = 0, ry = 30, rw = 1920, rh = 1050\<rparr>" by code_simp
  with unannounced_output_is_unchanged [OF n, of "\<lparr>rx = 0, ry = 0, rw = 1920, rh = 1080\<rparr>" None]
  show ?thesis by (simp only: Let_def)
qed

section \<open>Boxes stay where they belong\<close>

lemma place_axis_inside:
  assumes "place_axis base extent requested near far mnear mfar = (x, w, bad)" "0 \<le> extent"
    "requested = 0 \<Longrightarrow> 0 \<le> (if near then mnear else 0) + (if far then mfar else 0)"
  shows "base \<le> x \<and> 0 \<le> w \<and> x + w \<le> base + extent"
proof -
  have w: "0 \<le> w \<and> w \<le> extent" using assms by (auto simp: place_axis_def Let_def max_def min_def split: if_splits)
  have "\<exists>pos. x = clamp pos base (base + max 0 (extent - w))"
    using assms(1) by (auto simp: place_axis_def Let_def)
  then obtain pos where "x = clamp pos base (base + max 0 (extent - w))" by blast
  with w clamp_bounds [of base "base + max 0 (extent - w)" pos] show ?thesis by auto
qed

text \<open>
  A layer surface lies inside the rectangle it is placed against, also when its request is invalid,
  unless it asks to fill an axis with margins on it that are negative together.
\<close>

theorem layer_surface_inside_base:
  assumes "base = (if pa_exclusiveZone a = 0 then pa_effectiveRect a else pa_outputRect a)" "0 \<le> rw base" "0 \<le> rh base"
    "pa_width a = 0 \<longrightarrow> 0 \<le> (if anchored (pa_anchor a) ANCHOR_LEFT then mg_left (pa_margin a) else 0)
       + (if anchored (pa_anchor a) ANCHOR_RIGHT then mg_right (pa_margin a) else 0)"
    "pa_height a = 0 \<longrightarrow> 0 \<le> (if anchored (pa_anchor a) ANCHOR_TOP then mg_top (pa_margin a) else 0)
       + (if anchored (pa_anchor a) ANCHOR_BOTTOM then mg_bottom (pa_margin a) else 0)"
    "placeLayerSurface a = (r, bad)"
  shows "rx base \<le> rx r \<and> rx r + rw r \<le> rx base + rw base \<and> ry base \<le> ry r \<and> ry r + rh r \<le> ry base + rh base
    \<and> 0 \<le> rw r \<and> 0 \<le> rh r"
proof -
  obtain x w bx where X: "place_axis (rx base) (rw base) (pa_width a) (anchored (pa_anchor a) ANCHOR_LEFT)
    (anchored (pa_anchor a) ANCHOR_RIGHT) (mg_left (pa_margin a)) (mg_right (pa_margin a)) = (x, w, bx)"
    by (metis prod_cases3)
  obtain y h bad_y where Y: "place_axis (ry base) (rh base) (pa_height a) (anchored (pa_anchor a) ANCHOR_TOP)
    (anchored (pa_anchor a) ANCHOR_BOTTOM) (mg_top (pa_margin a)) (mg_bottom (pa_margin a)) = (y, h, bad_y)"
    by (metis prod_cases3)
  have "r = \<lparr>rx = x, ry = y, rw = w, rh = h\<rparr>"
    using assms(6) X Y by (simp add: placeLayerSurface_def Let_def assms(1) [symmetric])
  with place_axis_inside [OF X assms(2)] place_axis_inside [OF Y assms(3)] assms(4,5) show ?thesis by simp
qed

theorem layer_surface_inside_base_witness:
  "let a = \<lparr>pa_outputRect = \<lparr>rx = 0, ry = 0, rw = 1920, rh = 1080\<rparr>, pa_effectiveRect = \<lparr>rx = 0, ry = 30, rw = 1920, rh = 1050\<rparr>,
      pa_width = 0, pa_height = 40, pa_anchor = ANCHOR_LEFT OR ANCHOR_RIGHT OR ANCHOR_BOTTOM,
      pa_margin = \<lparr>mg_top = 0, mg_right = 10, mg_bottom = 5, mg_left = 10\<rparr>, pa_exclusiveZone = 0\<rparr>;
      r = fst (placeLayerSurface a)
   in r = \<lparr>rx = 10, ry = 1035, rw = 1900, rh = 40\<rparr> \<and> ry r + rh r \<le> 1080"
proof -
  let ?a = "\<lparr>pa_outputRect = \<lparr>rx = 0, ry = 0, rw = 1920, rh = 1080\<rparr>, pa_effectiveRect = \<lparr>rx = 0, ry = 30, rw = 1920, rh = 1050\<rparr>,
      pa_width = 0, pa_height = 40, pa_anchor = ANCHOR_LEFT OR ANCHOR_RIGHT OR ANCHOR_BOTTOM,
      pa_margin = \<lparr>mg_top = 0, mg_right = 10, mg_bottom = 5, mg_left = 10\<rparr>, pa_exclusiveZone = 0\<rparr> :: place_args"
  have r: "fst (placeLayerSurface ?a) = \<lparr>rx = 10, ry = 1035, rw = 1900, rh = 40\<rparr>" by code_simp
  have "ry (fst (placeLayerSurface ?a)) + rh (fst (placeLayerSurface ?a)) \<le> 1080"
    using layer_surface_inside_base [of "\<lparr>rx = 0, ry = 30, rw = 1920, rh = 1050\<rparr>" ?a, OF _ _ _ _ _ surjective_pairing]
    by simp
  with r show ?thesis by (simp only: Let_def)
qed

lemma adjust_axis_inside:
  assumes "adjust_axis mf ms mr lo hi fl x w = (x', w', f)" ms "w \<le> hi - lo \<or> mr \<and> 1 \<le> hi - lo"
  shows "lo \<le> x' \<and> x' + w' \<le> hi \<and> (w' = w \<or> w' = hi - lo \<and> hi - lo < w)"
  using assms by (auto simp: adjust_axis_def Let_def split: if_splits)

lemma round_inside:
  fixes x w :: number and lo hi n :: int
  assumes "of_int lo \<le> x" "x + of_int n \<le> of_int hi"
  shows "lo \<le> js_round x \<and> js_round x + n \<le> hi"
proof -
  have "x \<le> of_int (hi - n)" using assms(2) by simp
  from js_round_mono [OF this] js_round_mono [OF assms(1)] show ?thesis unfolding js_round_of_int by simp
qed

text \<open>
  C38: A popup whose positioner allows sliding on both axes ends on the output, wherever its parent is, if it is
  no larger than the output or may be resized; it keeps its size whenever it is no larger.
\<close>

theorem popup_kept_on_output:
  assumes "allows p CA_slide_x" "allows p CA_slide_y"
    "ps_width p = of_int w" "ps_height p = of_int h" "parentX = of_int px" "parentY = of_int py"
    "out = \<lparr>rx = of_int ox, ry = of_int oy, rw = of_int ow, rh = of_int oh\<rparr>"
    "w \<le> ow \<or> allows p CA_resize_x \<and> 1 \<le> ow" "h \<le> oh \<or> allows p CA_resize_y \<and> 1 \<le> oh"
    "r = solvePopupPosition p parentX parentY out"
  shows "rx out \<le> parentX + rx r \<and> parentX + rx r + rw r \<le> rx out + rw out
    \<and> ry out \<le> parentY + ry r \<and> parentY + ry r + rh r \<le> ry out + rh out
    \<and> rw r = min (ps_width p) (rw out) \<and> rh r = min (ps_height p) (rh out)"
proof -
  obtain x w' fx where X: "adjust_axis (allows p CA_flip_x) (allows p CA_slide_x) (allows p CA_resize_x)
      (rx out - parentX) (rx out + rw out - parentX) (computeRawX p (flipH (ps_anchor p)) (flipH (ps_gravity p)))
      (computeRawX p (ps_anchor p) (ps_gravity p)) (ps_width p) = (x, w', fx)" by (metis prod_cases3)
  let ?ay = "if fx then flipH (ps_anchor p) else ps_anchor p" and ?gy = "if fx then flipH (ps_gravity p) else ps_gravity p"
  obtain y h' fy where Y: "adjust_axis (allows p CA_flip_y) (allows p CA_slide_y) (allows p CA_resize_y)
      (ry out - parentY) (ry out + rh out - parentY) (computeRawY p (flipV ?ay) (flipV ?gy))
      (computeRawY p (ps_anchor p) (ps_gravity p)) (ps_height p) = (y, h', fy)" by (metis prod_cases3)
  have r: "r = \<lparr>rx = of_int (js_round x), ry = of_int (js_round y), rw = w', rh = h'\<rparr>"
    using assms(10) X Y by (simp add: solvePopupPosition_def Let_def)
  have fx: "of_int (ox - px) \<le> x" "x + w' \<le> of_int (ox + ow - px)" "w' = of_int (min w ow)"
    using adjust_axis_inside [OF X assms(1)] assms(3,5,7,8) by (auto simp: min_def)
  have fy: "of_int (oy - py) \<le> y" "y + h' \<le> of_int (oy + oh - py)" "h' = of_int (min h oh)"
    using adjust_axis_inside [OF Y assms(2)] assms(4,6,7,9) by (auto simp: min_def)
  from round_inside [OF fx(1) fx(2) [unfolded fx(3)]] have
    "(of_int (ox - px) :: number) \<le> of_int (js_round x)"
    "(of_int (js_round x + min w ow) :: number) \<le> of_int (ox + ow - px)" unfolding of_int_le_iff by blast+
  moreover from round_inside [OF fy(1) fy(2) [unfolded fy(3)]] have
    "(of_int (oy - py) :: number) \<le> of_int (js_round y)"
    "(of_int (js_round y + min h oh) :: number) \<le> of_int (oy + oh - py)" unfolding of_int_le_iff by blast+
  ultimately show ?thesis using assms(3-7) by (simp add: r fx(3) fy(3) min_def)
qed

text \<open>A menu below the right edge of a button, near the right and the lower edge of the output.\<close>

definition sample_positioner :: positioner where
  "sample_positioner = \<lparr>ps_width = 200, ps_height = 401, ps_anchorRect = \<lparr>rx = 10, ry = 10, rw = 25, rh = 20\<rparr>,
     ps_anchor = 2, ps_gravity = 0, ps_adjust = CA_slide_x OR CA_slide_y OR CA_flip_y OR CA_resize_y, ps_offsetX = 0, ps_offsetY = 0\<rparr>"

theorem popup_kept_on_output_witness:
  "let r = solvePopupPosition sample_positioner 1850 900 \<lparr>rx = 0, ry = 0, rw = 1920, rh = 1080\<rparr>
   in r = \<lparr>rx = - 130, ry = - 221, rw = 200, rh = 401\<rparr> \<and> 1850 + rx r + rw r \<le> 1920"
proof -
  let ?r = "solvePopupPosition sample_positioner 1850 900 \<lparr>rx = 0, ry = 0, rw = 1920, rh = 1080\<rparr>"
  have r: "?r = \<lparr>rx = - 130, ry = - 221, rw = 200, rh = 401\<rparr>" by code_simp
  have a: "allows sample_positioner CA_slide_x" "allows sample_positioner CA_slide_y" by code_simp+
  have "rx \<lparr>rx = 0, ry = 0, rw = 1920, rh = 1080\<rparr> \<le> 1850 + rx ?r \<and> 1850 + rx ?r + rw ?r \<le> 1920"
    using popup_kept_on_output [OF a, of 200 401 1850 1850 900 900 "\<lparr>rx = 0, ry = 0, rw = 1920, rh = 1080\<rparr>" 0 0 1920 1080 ?r]
    by (simp add: sample_positioner_def)
  with r show ?thesis by (simp only: Let_def)
qed

text \<open>The limits of an axis: without a minimum a window keeps one pixel, without a maximum it may grow for ever.\<close>

definition least_size :: "size_constraints option \<Rightarrow> (number \<times> number \<Rightarrow> number) \<Rightarrow> number" where
  "least_size c axis = (case Option.bind c sc_minSize of None \<Rightarrow> 1 | Some m \<Rightarrow> axis m)"

definition capped :: "size_constraints option \<Rightarrow> (number \<times> number \<Rightarrow> number) \<Rightarrow> number \<Rightarrow> number" where
  "capped c axis n = (case Option.bind c sc_maxSize of None \<Rightarrow> n | Some m \<Rightarrow> min (axis m) n)"

definition limited :: "size_constraints option \<Rightarrow> (number \<times> number \<Rightarrow> number) \<Rightarrow> number \<Rightarrow> number" where
  "limited c axis n = (if n < least_size c axis then least_size c axis else capped c axis n)"

lemma limited_clamps:
  "capped c axis (least_size c axis) = least_size c axis \<Longrightarrow> limited c axis n = capped c axis (max (least_size c axis) n)"
  by (auto simp: limited_def capped_def min_def max_def split: option.splits if_splits)

lemma drag_axis_spec:
  "if near then fst (drag_axis near far lo hi pos len d) + snd (drag_axis near far lo hi pos len d) = pos + len
   else fst (drag_axis near far lo hi pos len d) = pos"
  "snd (drag_axis near far (least_size c axis) (map_option axis (Option.bind c sc_maxSize)) pos len d) =
     limited c axis (if near then len - d else if far then len + d else len)"
  by (auto simp: drag_axis_def limited_def capped_def min_def Let_def split: option.splits)

lemma grab_rect_axes:
  "computeGrabRect (GrabResize r edges) dx dy c =
    (let x = drag_axis (edges \<in> {RLeft, RTopLeft, RBottomLeft}) (edges \<in> {RRight, RTopRight, RBottomRight})
               (least_size c fst) (map_option fst (Option.bind c sc_maxSize)) (rx r) (rw r) dx;
         y = drag_axis (edges \<in> {RTop, RTopLeft, RTopRight}) (edges \<in> {RBottom, RBottomLeft, RBottomRight})
               (least_size c snd) (map_option snd (Option.bind c sc_maxSize)) (ry r) (rh r) dy
     in \<lparr>rx = fst x, ry = fst y, rw = snd x, rh = snd y\<rparr>)"
  by (cases c) (simp_all add: least_size_def split_def Let_def)

text \<open>
  C39: Resizing with the pointer keeps the opposite edges in place, whatever limits the client has set: an edge that is
  not dragged stays. The window becomes as large as the pointer asks within its limits - at least the minimum, one
  pixel if the client gave none, and from there at most the maximum, if there is one - and an axis that is not
  dragged is only brought within them.
\<close>

theorem resize_keeps_opposite_edges:
  assumes "computeGrabRect (GrabResize r edges) dx dy c = q"
  shows "(if edges \<in> {RLeft, RTopLeft, RBottomLeft} then rx q + rw q = rx r + rw r else rx q = rx r)
    \<and> (if edges \<in> {RTop, RTopLeft, RTopRight} then ry q + rh q = ry r + rh r else ry q = ry r)
    \<and> rw q = limited c fst
          (if edges \<in> {RLeft, RTopLeft, RBottomLeft} then rw r - dx
           else if edges \<in> {RRight, RTopRight, RBottomRight} then rw r + dx else rw r)
    \<and> rh q = limited c snd
          (if edges \<in> {RTop, RTopLeft, RTopRight} then rh r - dy
           else if edges \<in> {RBottom, RBottomLeft, RBottomRight} then rh r + dy else rh r)"
  unfolding assms [symmetric] grab_rect_axes Let_def rect.simps by (intro conjI drag_axis_spec)

theorem resize_keeps_opposite_edges_witness:
  "let r = \<lparr>rx = 100, ry = 100, rw = 300, rh = 200\<rparr>;
       both = Some \<lparr>sc_minSize = Some (120, 80), sc_maxSize = Some (800, 600)\<rparr>;
       upper = Some \<lparr>sc_minSize = None, sc_maxSize = Some (800, 600)\<rparr>;
       q1 = computeGrabRect (GrabResize r RTopLeft) 250 (- 20) both;
       q2 = computeGrabRect (GrabResize r RTopLeft) 350 (- 900) upper;
       q3 = computeGrabRect (GrabResize r RBottomLeft) (- 9000) (- 500) None
   in rx q1 = 280 \<and> rw q1 = 120 \<and> rh q1 = 220 \<and> rx q2 = 399 \<and> rw q2 = 1 \<and> ry q2 = - 300 \<and> rh q2 = 600
      \<and> rx q3 = - 8900 \<and> rw q3 = 9300 \<and> ry q3 = 100 \<and> rh q3 = 1"
proof -
  let ?r = "\<lparr>rx = 100, ry = 100, rw = 300, rh = 200\<rparr> :: rect"
  note limits = limited_def capped_def least_size_def
  show ?thesis
    using resize_keeps_opposite_edges [of ?r RTopLeft 250 "- 20" "Some \<lparr>sc_minSize = Some (120, 80), sc_maxSize = Some (800, 600)\<rparr>", OF refl]
      resize_keeps_opposite_edges [of ?r RTopLeft 350 "- 900" "Some \<lparr>sc_minSize = None, sc_maxSize = Some (800, 600)\<rparr>", OF refl]
      resize_keeps_opposite_edges [of ?r RBottomLeft "- 9000" "- 500" None, OF refl]
    by (simp add: limits Let_def del: computeGrabRect.simps)
qed

section \<open>Clean scales\<close>

lemma near_integer_of_int [simp]: "near_integer (of_int n)"
  by (simp add: near_integer_def)

lemma snap_search_spec:
  assumes "snap_search dw dh start lo hi fuel delta = s" "lo \<le> start" "start \<le> hi" "0 < delta"
  shows "(\<exists>k. s = of_int k / 120 \<and> lo \<le> k \<and> k \<le> hi \<and> integerLogical dw dh (of_int k / 120)
      \<and> (\<forall>k'. lo \<le> k' \<longrightarrow> k' \<le> hi \<longrightarrow> integerLogical dw dh (of_int k' / 120) \<longrightarrow> delta \<le> \<bar>k' - start\<bar> \<longrightarrow> \<bar>k - start\<bar> \<le> \<bar>k' - start\<bar>))
    \<or> s = 1 \<and> (\<forall>k'. lo \<le> k' \<longrightarrow> k' \<le> hi \<longrightarrow> integerLogical dw dh (of_int k' / 120) \<longrightarrow> delta \<le> \<bar>k' - start\<bar>
        \<longrightarrow> delta + int fuel \<le> \<bar>k' - start\<bar>)"
  using assms(1,4)
proof (induction fuel arbitrary: delta)
  case 0
  then show ?case by simp
next
  case (Suc fuel)
  let ?ok = "\<lambda>k. lo \<le> k \<and> k \<le> hi \<and> integerLogical dw dh (of_int k / 120)"
  have next_: "\<bar>k' - start\<bar> = delta \<or> delta + 1 \<le> \<bar>k' - start\<bar>" if "delta \<le> \<bar>k' - start\<bar>" for k' using that by arith
  have at: "k' = start + delta \<or> k' = start - delta" if "\<bar>k' - start\<bar> = delta" for k' using that by arith
  consider (up) "?ok (start + delta)" | (down) "\<not> ?ok (start + delta)" "?ok (start - delta)"
    | (none) "\<not> ?ok (start + delta)" "\<not> ?ok (start - delta)" by blast
  then show ?case
  proof cases
    case up
    then have "s = of_int (start + delta) / 120" using Suc.prems(1) by simp
    with up Suc.prems(2) show ?thesis by (intro disjI1 exI [of _ "start + delta"]) auto
  next
    case down
    then have "s = of_int (start - delta) / 120" using Suc.prems assms(2,3) by auto
    with down Suc.prems(2) show ?thesis by (intro disjI1 exI [of _ "start - delta"]) auto
  next
    case none
    then have "snap_search dw dh start lo hi fuel (delta + 1) = s" using Suc.prems assms(2,3) by auto
    from Suc.IH [OF this] Suc.prems(2) have IH: "(\<exists>k. s = of_int k / 120 \<and> ?ok k
        \<and> (\<forall>k'. ?ok k' \<longrightarrow> delta + 1 \<le> \<bar>k' - start\<bar> \<longrightarrow> \<bar>k - start\<bar> \<le> \<bar>k' - start\<bar>))
      \<or> s = 1 \<and> (\<forall>k'. ?ok k' \<longrightarrow> delta + 1 \<le> \<bar>k' - start\<bar> \<longrightarrow> delta + 1 + int fuel \<le> \<bar>k' - start\<bar>)"
      by auto
    have skip: "delta + 1 \<le> \<bar>k' - start\<bar>" if "?ok k'" "delta \<le> \<bar>k' - start\<bar>" for k'
      using next_ [OF that(2)] at [of k'] none that(1) by metis
    from IH skip show ?thesis by (auto simp: add.assoc)
  qed
qed

text \<open>
  C40: For a device size in whole pixels, the scale chosen lies between 1 and 3 and makes both logical
  dimensions whole; it is a step of the grid of 1/120, and no step within the window of 60 that does so
  is closer to the density asked for, or there is no such step and it is 1.
\<close>

theorem snapped_scale_is_clean_and_closest:
  assumes "0 < raw" "0 < w" "0 < h"
  shows "let s = snapScale raw (Some (of_int w, of_int h)); start = js_round (min 3 (max 1 raw) * 120);
             clean = (\<lambda>k. max 120 (start - 60) \<le> k \<and> k \<le> min 360 (start + 60) \<and> integerLogical (of_int w) (of_int h) (of_int k / 120))
    in 1 \<le> s \<and> s \<le> 3 \<and> integerLogical (of_int w) (of_int h) s
      \<and> ((\<exists>k. s = of_int k / 120 \<and> clean k \<and> (\<forall>k'. clean k' \<longrightarrow> \<bar>k - start\<bar> \<le> \<bar>k' - start\<bar>)) \<or> s = 1 \<and> (\<forall>k. \<not> clean k))"
proof -
  define start where "start = js_round (min 3 (max 1 raw) * 120)"
  let ?lo = "max 120 (start - 60)" and ?hi = "min 360 (start + 60)"
  let ?il = "\<lambda>k. integerLogical (of_int w) (of_int h) (of_int k / 120)"
  have "js_round (of_int 120) \<le> start" "start \<le> js_round (of_int 360)"
    unfolding start_def by (rule js_round_mono, simp)+
  then have st: "120 \<le> start" "start \<le> 360" unfolding js_round_of_int .
  define s where "s = snapScale raw (Some (of_int w, of_int h))"
  have s: "s = (if ?il start then of_int start / 120
      else snap_search (of_int w) (of_int h) start ?lo ?hi 60 1)"
    using assms by (simp add: s_def snapScale_def start_def Let_def)
  have one: "integerLogical (of_int w) (of_int h) 1" by (simp add: integerLogical_def)
  have in_range: "1 \<le> (of_int k / 120 :: number)" "(of_int k / 120 :: number) \<le> 3" if "?lo \<le> k" "k \<le> ?hi" for k
    using that by simp_all
  have "(\<exists>k. s = of_int k / 120 \<and> ?lo \<le> k \<and> k \<le> ?hi \<and> ?il k
      \<and> (\<forall>k'. ?lo \<le> k' \<and> k' \<le> ?hi \<and> ?il k' \<longrightarrow> \<bar>k - start\<bar> \<le> \<bar>k' - start\<bar>))
    \<or> s = 1 \<and> (\<forall>k'. \<not> (?lo \<le> k' \<and> k' \<le> ?hi \<and> ?il k'))"
  proof (cases "?il start")
    case True
    then show ?thesis using st s by (intro disjI1 exI [of _ start]) auto
  next
    case False
    have away: "1 \<le> \<bar>k' - start\<bar>" if "?il k'" for k' using that False by (cases "k' = start") auto
    have near: "\<bar>k' - start\<bar> \<le> 60" if "?lo \<le> k'" "k' \<le> ?hi" for k' using that by auto
    have "snap_search (of_int w) (of_int h) start ?lo ?hi 60 1 = s" using s False by simp
    from snap_search_spec [OF this] st have
      "(\<exists>k. s = of_int k / 120 \<and> ?lo \<le> k \<and> k \<le> ?hi \<and> ?il k
        \<and> (\<forall>k'. ?lo \<le> k' \<longrightarrow> k' \<le> ?hi \<longrightarrow> ?il k' \<longrightarrow> 1 \<le> \<bar>k' - start\<bar> \<longrightarrow> \<bar>k - start\<bar> \<le> \<bar>k' - start\<bar>))
      \<or> s = 1 \<and> (\<forall>k'. ?lo \<le> k' \<longrightarrow> k' \<le> ?hi \<longrightarrow> ?il k' \<longrightarrow> 1 \<le> \<bar>k' - start\<bar> \<longrightarrow> 61 \<le> \<bar>k' - start\<bar>)" by simp
    then show ?thesis using away near by fastforce
  qed
  note found = this
  have "1 \<le> s \<and> s \<le> 3 \<and> integerLogical (of_int w) (of_int h) s"
    using found
  proof
    assume "\<exists>k. s = of_int k / 120 \<and> ?lo \<le> k \<and> k \<le> ?hi \<and> ?il k
      \<and> (\<forall>k'. ?lo \<le> k' \<and> k' \<le> ?hi \<and> ?il k' \<longrightarrow> \<bar>k - start\<bar> \<le> \<bar>k' - start\<bar>)"
    then obtain k where k: "s = of_int k / 120" "?lo \<le> k" "k \<le> ?hi" "?il k" by blast
    from in_range [OF k(2,3)] k(4) show ?thesis unfolding k(1) by blast
  next
    assume "s = 1 \<and> (\<forall>k'. \<not> (?lo \<le> k' \<and> k' \<le> ?hi \<and> ?il k'))"
    then show ?thesis using one by simp
  qed
  with found show ?thesis unfolding Let_def s_def [symmetric] start_def [symmetric] by blast
qed

theorem snapped_scale_is_clean_and_closest_witness:
  "snapScale (175 / 100) (Some (3840, 2160)) = 5 / 3 \<and> integerLogical 3840 2160 (5 / 3)"
proof -
  have s: "snapScale (175 / 100) (Some (3840, 2160)) = 5 / 3" by code_simp
  have "integerLogical (of_int 3840) (of_int 2160) (snapScale (175 / 100) (Some (of_int 3840, of_int 2160)))"
    using snapped_scale_is_clean_and_closest [of "175 / 100" 3840 2160] unfolding Let_def by simp
  then have "integerLogical 3840 2160 (snapScale (175 / 100) (Some (3840, 2160)))" by (simp only: of_int_numeral)
  then show ?thesis unfolding s by blast
qed

text \<open>A popup that may only be resized is left hanging over the left edge of the output.\<close>

lemma left_overflow_is_not_resized:
  "rx (solvePopupPosition (sample_positioner\<lparr>ps_gravity := 3, ps_adjust := CA_resize_x\<rparr>) 0 0
     \<lparr>rx = 0, ry = 0, rw = 1920, rh = 1080\<rparr>) = - 177"
  by code_simp

end
