(* ===== verification/Surface_Tx.thy ===== *)
theory Surface_Tx
  imports Prelude
begin

text \<open>
  The surface-transaction broker (\<open>core/src/surface-transaction.ts\<close>): a surface is frozen while
  requirements on its hold are outstanding; holds of one batch key are applied together; a deadline
  forces them.

  The callbacks of a requirement are effects that carry its number; a hook that is absent or throws
  (the code catches and logs) changes nothing else. What the callbacks answer is the argument
  \<open>w\<close> of each operation: the clock, the answer of every \<open>ready()\<close> and of every before-apply gate, as
  they are while the operation runs. A hook that calls back into the broker acts after the operation: the
  code takes the holds out of the map before it calls any hook and does not look at the map
  afterwards. A deadline of \<open>None\<close> is infinite.
\<close>

section \<open>State\<close>

record requirement =
  rq_id :: nat
  rq_tag :: string
  rq_batchKey :: "string option"

record hold =
  hd_surfaceId :: int
  hd_reqs :: "requirement list"
  hd_deadlineAt :: "number option"

datatype gate_answer = Nothing_to_wait | Promise nat | Throws

record world =
  tw_now :: number
  tw_ready :: "nat \<Rightarrow> bool"
  tw_gate :: "nat \<Rightarrow> int list \<Rightarrow> gate_answer"

datatype tx_effect = Freeze int | Thaw int | OnStart nat | OnFrozenReady nat | OnApply nat | OnCancel nat
  | OnAfterApply nat | OnBeforeApply nat "int list" | SetTimer number | ClearTimer

record tx =
  tx_timeoutMs :: number
  tx_holds :: "(int, hold) omap"
  tx_afterApply :: "nat list"
  tx_beforeApply :: "nat list"
  tx_timer :: "number option"
  tx_waiting :: "(nat list \<times> hold list) list"

definition tx_new :: "number \<Rightarrow> tx" where
  "tx_new timeoutMs = \<lparr>tx_timeoutMs = timeoutMs, tx_holds = [], tx_afterApply = [], tx_beforeApply = [],
     tx_timer = None, tx_waiting = []\<rparr>"

section \<open>Which holds apply\<close>

definition holdReady :: "world \<Rightarrow> hold \<Rightarrow> bool" where
  "holdReady w h = list_all (\<lambda>r. tw_ready w (rq_id r)) (hd_reqs h)"

fun first_key :: "requirement list \<Rightarrow> string option" where
  "first_key [] = None"
| "first_key (r # rs) = (case rq_batchKey r of Some k \<Rightarrow> Some k | None \<Rightarrow> first_key rs)"

definition hold_key :: "hold \<Rightarrow> string option" where
  "hold_key h = first_key (hd_reqs h)"

definition group_add :: "(string option, hold list) omap \<Rightarrow> hold \<Rightarrow> (string option, hold list) omap" where
  "group_add groups h =
    (let key = hold_key h
     in case oget groups key of
          Some arr \<Rightarrow> oset key (arr @ [h]) groups
        | None \<Rightarrow> oset key [h] groups)"

definition expired :: "world \<Rightarrow> hold \<Rightarrow> bool" where
  "expired w h = (case hd_deadlineAt h of None \<Rightarrow> False | Some d \<Rightarrow> d \<le> tw_now w)"

definition group_apply :: "world \<Rightarrow> bool \<Rightarrow> string option \<times> hold list \<Rightarrow> hold list" where
  "group_apply w forceElapsed g =
    (case g of
       (None, members) \<Rightarrow> filter (\<lambda>h. holdReady w h \<or> forceElapsed \<and> expired w h) members
     | (Some key, members) \<Rightarrow>
         (let allReady = list_all (holdReady w) members;
              anyExpired = (forceElapsed \<and> list_ex (expired w) members)
          in if allReady \<or> anyExpired then members else []))"

definition holdsToApply :: "tx \<Rightarrow> world \<Rightarrow> bool \<Rightarrow> hold list" where
  "holdsToApply s w forceElapsed =
    concat (map (group_apply w forceElapsed) (foldl group_add [] (map snd (tx_holds s))))"

section \<open>Timer\<close>

definition clearTimer :: "tx \<Rightarrow> tx \<times> tx_effect list" where
  "clearTimer s = (if tx_timer s \<noteq> None then (s\<lparr>tx_timer := None\<rparr>, [ClearTimer]) else (s, []))"

definition clearTimerIfIdle :: "tx \<Rightarrow> tx \<times> tx_effect list" where
  "clearTimerIfIdle s = (if tx_holds s = [] then clearTimer s else (s, []))"

fun earliest :: "number option \<Rightarrow> hold list \<Rightarrow> number option" where
  "earliest e [] = e"
| "earliest e (h # hs) =
     earliest (case hd_deadlineAt h of None \<Rightarrow> e
               | Some d \<Rightarrow> (case e of None \<Rightarrow> Some d | Some e' \<Rightarrow> if d < e' then Some d else e)) hs"

definition armTimer :: "tx \<Rightarrow> world \<Rightarrow> tx \<times> tx_effect list" where
  "armTimer s w =
    (if tx_timer s \<noteq> None then (s, [])
     else case earliest None (map snd (tx_holds s)) of
       None \<Rightarrow> (s, [])
     | Some e \<Rightarrow>
         (let delay = max 1 (e - tw_now w)
          in (s\<lparr>tx_timer := Some (tw_now w + delay)\<rparr>, [SetTimer delay])))"

section \<open>Applying\<close>

definition apply_hold :: "hold \<Rightarrow> tx_effect list" where
  "apply_hold h = map (\<lambda>r. OnApply (rq_id r)) (hd_reqs h) @ [Thaw (hd_surfaceId h)]"

definition finish :: "tx \<Rightarrow> hold list \<Rightarrow> tx_effect list" where
  "finish s hs = concat (map apply_hold hs) @ map OnAfterApply (tx_afterApply s)"

definition remove_holds :: "hold list \<Rightarrow> tx \<Rightarrow> tx" where
  "remove_holds hs s = foldl (\<lambda>s h. s\<lparr>tx_holds := odel (hd_surfaceId h) (tx_holds s)\<rparr>) s hs"

definition gates :: "world \<Rightarrow> int list \<Rightarrow> nat list \<Rightarrow> nat list" where
  "gates w ids cbs =
    concat (map (\<lambda>cb. case tw_gate w cb ids of Promise p \<Rightarrow> [p] | _ \<Rightarrow> []) cbs)"

definition doApply :: "tx \<Rightarrow> world \<Rightarrow> hold list \<Rightarrow> tx \<times> tx_effect list" where
  "doApply s w hs =
    (let (s1, fx1) = clearTimerIfIdle (remove_holds hs s);
         ids = map hd_surfaceId hs;
         asked = map (\<lambda>cb. OnBeforeApply cb ids) (tx_beforeApply s1);
         ps = gates w ids (tx_beforeApply s1)
     in if ps = [] then (s1, fx1 @ asked @ finish s1 hs)
        else (s1\<lparr>tx_waiting := tx_waiting s1 @ [(ps, hs)]\<rparr>, fx1 @ asked))"

definition tx_evaluate :: "tx \<Rightarrow> world \<Rightarrow> tx \<times> tx_effect list" where
  "tx_evaluate s w =
    (if tx_holds s = [] then clearTimerIfIdle s
     else let hs = holdsToApply s w False in if hs \<noteq> [] then doApply s w hs else (s, []))"

definition tick :: "tx \<Rightarrow> world \<Rightarrow> tx \<times> tx_effect list" where
  "tick s0 w =
    (let s = s0\<lparr>tx_timer := None\<rparr>
     in if tx_holds s = [] then (s, [])
        else let hs = holdsToApply s w True;
                 (s1, fx1) = (if hs \<noteq> [] then doApply s w hs else (s, []));
                 (s2, fx2) = (if tx_holds s1 \<noteq> [] then armTimer s1 w else (s1, []))
             in (s2, fx1 @ fx2))"

section \<open>Operations\<close>

definition tx_frozenReady :: "tx \<Rightarrow> world \<Rightarrow> int \<Rightarrow> tx \<times> tx_effect list" where
  "tx_frozenReady s w sid =
    (case oget (tx_holds s) sid of
       None \<Rightarrow> (s, [])
     | Some h \<Rightarrow> (let (s', fx) = tx_evaluate s w
                  in (s', map (\<lambda>r. OnFrozenReady (rq_id r)) (hd_reqs h) @ fx)))"

definition deadline_from :: "tx \<Rightarrow> world \<Rightarrow> number option" where
  "deadline_from s w = (if 0 < tx_timeoutMs s then Some (tw_now w + tx_timeoutMs s) else None)"

definition extend_deadline :: "tx \<Rightarrow> world \<Rightarrow> hold \<Rightarrow> hold" where
  "extend_deadline s w h =
    (if 0 < tx_timeoutMs s
     then (case hd_deadlineAt h of
             None \<Rightarrow> h
           | Some d \<Rightarrow> if d < tw_now w + tx_timeoutMs s
                       then h\<lparr>hd_deadlineAt := Some (tw_now w + tx_timeoutMs s)\<rparr> else h)
     else h)"

definition tx_begin :: "tx \<Rightarrow> world \<Rightarrow> int \<Rightarrow> requirement \<Rightarrow> tx \<times> tx_effect list" where
  "tx_begin s w sid req =
    (let (h, fx1) =
           (case oget (tx_holds s) sid of
              None \<Rightarrow> (\<lparr>hd_surfaceId = sid, hd_reqs = [], hd_deadlineAt = deadline_from s w\<rparr>,
                       [Freeze sid, OnStart (rq_id req)])
            | Some h \<Rightarrow> (extend_deadline s w h, []));
         s1 = s\<lparr>tx_holds := oset sid (h\<lparr>hd_reqs := hd_reqs h @ [req]\<rparr>) (tx_holds s)\<rparr>;
         (s2, fx2) = armTimer s1 w;
         (s3, fx3) = tx_evaluate s2 w
     in (s3, fx1 @ fx2 @ fx3))"

definition tx_cancel :: "tx \<Rightarrow> int \<Rightarrow> tx \<times> tx_effect list" where
  "tx_cancel s sid =
    (case oget (tx_holds s) sid of
       None \<Rightarrow> (s, [])
     | Some h \<Rightarrow>
         (let (s', fx) = clearTimerIfIdle (s\<lparr>tx_holds := odel sid (tx_holds s)\<rparr>)
          in (s', map (\<lambda>r. OnCancel (rq_id r)) (hd_reqs h) @ [Thaw sid] @ fx)))"

text \<open>
  A gate's promise has settled (a rejection is caught and counts): the batches that waited for
  nothing else are finished, in the order they were set aside.
\<close>

definition tx_settle :: "tx \<Rightarrow> nat \<Rightarrow> tx \<times> tx_effect list" where
  "tx_settle s p =
    (let ws = map (\<lambda>(ps, hs). (removeAll p ps, hs)) (tx_waiting s)
     in (s\<lparr>tx_waiting := filter (\<lambda>(ps, hs). ps \<noteq> []) ws\<rparr>,
         concat (map (\<lambda>(ps, hs). if ps = [] then finish s hs else []) ws)))"

definition tx_onAfterApply :: "tx \<Rightarrow> nat \<Rightarrow> tx" where
  "tx_onAfterApply s cb = s\<lparr>tx_afterApply := tx_afterApply s @ [cb]\<rparr>"

definition tx_onBeforeApply :: "tx \<Rightarrow> nat \<Rightarrow> tx" where
  "tx_onBeforeApply s cb = s\<lparr>tx_beforeApply := tx_beforeApply s @ [cb]\<rparr>"

definition tx_has :: "tx \<Rightarrow> int \<Rightarrow> bool" where
  "tx_has s sid \<longleftrightarrow> oget (tx_holds s) sid \<noteq> None"

definition tx_size :: "tx \<Rightarrow> nat" where
  "tx_size s = length (tx_holds s)"

definition tagsFor :: "tx \<Rightarrow> int \<Rightarrow> string list" where
  "tagsFor s sid = (case oget (tx_holds s) sid of None \<Rightarrow> [] | Some h \<Rightarrow> map rq_tag (hd_reqs h))"

section \<open>Sessions\<close>

datatype tx_op = Begin int requirement | Evaluate | CancelHold int | FrozenReady int | Tick
  | Settle nat | AddAfterApply nat | AddBeforeApply nat

fun tx_do :: "tx \<Rightarrow> world \<times> tx_op \<Rightarrow> tx \<times> tx_effect list" where
  "tx_do s (w, Begin sid req) = tx_begin s w sid req"
| "tx_do s (w, Evaluate) = tx_evaluate s w"
| "tx_do s (w, CancelHold sid) = tx_cancel s sid"
| "tx_do s (w, FrozenReady sid) = tx_frozenReady s w sid"
| "tx_do s (w, Tick) = tick s w"
| "tx_do s (w, Settle p) = tx_settle s p"
| "tx_do s (w, AddAfterApply cb) = (tx_onAfterApply s cb, [])"
| "tx_do s (w, AddBeforeApply cb) = (tx_onBeforeApply s cb, [])"

definition tx_session :: "number \<Rightarrow> (world \<times> tx_op) list \<Rightarrow> tx \<times> ((world \<times> tx_op) \<times> tx_effect list) list" where
  "tx_session timeoutMs = run tx_do (tx_new timeoutMs)"

section \<open>What a round applies\<close>

text \<open>
  The rule of the header comment, stated without grouping: an independent hold applies when it is
  ready or overdue, a batched one when every hold of its batch is ready or one is overdue.
\<close>

definition due :: "world \<Rightarrow> bool \<Rightarrow> hold list \<Rightarrow> hold \<Rightarrow> bool" where
  "due w forceElapsed hs h =
    (case hold_key h of
       None \<Rightarrow> holdReady w h \<or> forceElapsed \<and> expired w h
     | Some k \<Rightarrow> (\<forall>g \<in> set hs. hold_key g = Some k \<longrightarrow> holdReady w g)
          \<or> forceElapsed \<and> (\<exists>g \<in> set hs. hold_key g = Some k \<and> expired w g))"

definition members :: "hold list \<Rightarrow> string option \<Rightarrow> hold list" where
  "members hs k = filter (\<lambda>h. hold_key h = k) hs"

lemma group_fold:
  "oget (foldl group_add [] hs) k = (if members hs k = [] then None else Some (members hs k))
   \<and> distinct (okeys (foldl group_add [] hs))"
  by (induction hs arbitrary: k rule: rev_induct)
    (auto simp: members_def group_add_def Let_def split: option.splits)

lemma groups_as_list:
  "(k, g) \<in> set (foldl group_add [] hs) \<longleftrightarrow> g = members hs k \<and> g \<noteq> []"
  using group_fold [of hs k] by (auto simp: in_set_oget split: if_splits)

lemma group_is: "p \<in> set (foldl group_add [] hs) \<Longrightarrow> p = (fst p, members hs (fst p))"
  by (cases p) (simp add: groups_as_list)

lemma group_apply_due:
  "set (group_apply w force (k, members hs k)) = {h \<in> set hs. hold_key h = k \<and> due w force hs h}"
  by (cases k) (auto simp: group_apply_def due_def members_def Let_def list_all_iff list_ex_iff)

lemma set_holdsToApply:
  "set (holdsToApply s w force) =
     {h \<in> set (map snd (tx_holds s)). due w force (map snd (tx_holds s)) h}"
proof -
  let ?hs = "map snd (tx_holds s)"
  have "set (holdsToApply s w force) =
      (\<Union>(k, g) \<in> set (foldl group_add [] ?hs). set (group_apply w force (k, g)))"
    by (auto simp: holdsToApply_def)
  also have "\<dots> = {h \<in> set ?hs. due w force ?hs h}"
  proof (intro equalityI subsetI)
    fix h assume "h \<in> (\<Union>(k, g) \<in> set (foldl group_add [] ?hs). set (group_apply w force (k, g)))"
    then obtain k g where "(k, g) \<in> set (foldl group_add [] ?hs)" "h \<in> set (group_apply w force (k, g))"
      by blast
    then show "h \<in> {h \<in> set ?hs. due w force ?hs h}"
      unfolding groups_as_list using group_apply_due [of w force k ?hs] by blast
  next
    fix h assume "h \<in> {h \<in> set ?hs. due w force ?hs h}"
    then have h: "h \<in> set ?hs" "due w force ?hs h" by simp_all
    have "members ?hs (hold_key h) \<noteq> []" using h(1) unfolding members_def filter_empty_conv by blast
    then have "(hold_key h, members ?hs (hold_key h)) \<in> set (foldl group_add [] ?hs)"
      by (simp only: groups_as_list simp_thms)
    moreover have "h \<in> set (group_apply w force (hold_key h, members ?hs (hold_key h)))"
      using h group_apply_due [of w force "hold_key h" ?hs] by blast
    ultimately show "h \<in> (\<Union>(k, g) \<in> set (foldl group_add [] ?hs). set (group_apply w force (k, g)))"
      by blast
  qed
  finally show ?thesis .
qed

lemma distinct_holdsToApply:
  assumes "distinct (map snd (tx_holds s))"
  shows "distinct (holdsToApply s w force)"
proof -
  let ?hs = "map snd (tx_holds s)"
  let ?G = "foldl group_add [] ?hs"
  have one: "distinct (group_apply w force p)" if "p \<in> set ?G" for p
  proof -
    have "p = (fst p, members ?hs (fst p))" using that by (rule group_is)
    then obtain k where "p = (k, members ?hs k)" by blast
    moreover have "distinct (members ?hs k)" using assms by (simp add: members_def)
    ultimately show ?thesis by (cases k) (simp_all add: group_apply_def Let_def)
  qed
  have keyed: "hold_key h = fst p" if "p \<in> set ?G" "h \<in> set (group_apply w force p)" for p h
  proof -
    have "p = (fst p, members ?hs (fst p))" using that(1) by (rule group_is)
    then obtain k where "p = (k, members ?hs k)" by blast
    with that(2) group_apply_due [of w force k ?hs] show ?thesis by simp
  qed
  have keys: "distinct (map fst ?G)" using group_fold [of ?hs] by simp
  have *: "distinct (map fst G) \<Longrightarrow> set G \<subseteq> set ?G \<Longrightarrow> distinct (concat (map (group_apply w force) G))" for G
  proof (induction G)
    case Nil
    show ?case by simp
  next
    case (Cons p G)
    have "set (group_apply w force p) \<inter> set (group_apply w force q) = {}" if "q \<in> set G" for q
      using that Cons.prems keyed [of p] keyed [of q] by force
    then show ?case using Cons one [of p] by auto
  qed
  show ?thesis unfolding holdsToApply_def by (rule * [OF keys subset_refl])
qed

section \<open>Well-formed brokers\<close>

definition tx_wf :: "tx \<Rightarrow> bool" where
  "tx_wf s \<longleftrightarrow> distinct (okeys (tx_holds s)) \<and> (\<forall>p \<in> set (tx_holds s). hd_surfaceId (snd p) = fst p)"

lemma tx_wf_snd: "tx_wf s \<Longrightarrow> distinct (map snd (tx_holds s))"
  unfolding tx_wf_def distinct_map inj_on_def by (metis prod_eqI)

lemma remove_holds_eq:
  "remove_holds hs s = s\<lparr>tx_holds := filter (\<lambda>(k, _). k \<notin> hd_surfaceId ` set hs) (tx_holds s)\<rparr>"
  unfolding remove_holds_def
proof (induction hs arbitrary: s)
  case Nil
  then show ?case by (simp add: case_prod_unfold)
next
  case (Cons h hs)
  have "(k \<noteq> hd_surfaceId h \<and> k \<notin> hd_surfaceId ` set hs) = (k \<notin> hd_surfaceId ` set (h # hs))" for k
    by auto
  then show ?case
    by (simp only: foldl.simps Cons.IH) (simp add: AList.delete_eq case_prod_unfold eq_commute conj_commute)
qed

lemma due_kept:
  assumes "tx_wf s"
  shows "filter (\<lambda>(k, _). k \<notin> hd_surfaceId ` set (holdsToApply s w force)) (tx_holds s) =
    filter (\<lambda>(_, h). \<not> due w force (map snd (tx_holds s)) h) (tx_holds s)"
proof (rule filter_cong [OF refl], clarify)
  fix k h assume kh: "(k, h) \<in> set (tx_holds s)"
  have key: "hd_surfaceId g = k' " if "(k', g) \<in> set (tx_holds s)" for k' g
    using assms that by (force simp: tx_wf_def)
  have same: "g = h" if "(k', g) \<in> set (tx_holds s)" "hd_surfaceId g = k" for k' g
    using that kh key assms by (metis in_set_oget option.inject tx_wf_def)
  have "k \<in> hd_surfaceId ` set (holdsToApply s w force) \<longleftrightarrow> due w force (map snd (tx_holds s)) h"
  proof
    assume "k \<in> hd_surfaceId ` set (holdsToApply s w force)"
    then obtain k' g where "(k', g) \<in> set (tx_holds s)" "hd_surfaceId g = k"
        "due w force (map snd (tx_holds s)) g"
      unfolding set_holdsToApply by auto
    with same show "due w force (map snd (tx_holds s)) h" by blast
  next
    assume "due w force (map snd (tx_holds s)) h"
    moreover have "h \<in> set (map snd (tx_holds s))" using kh by force
    ultimately show "k \<in> hd_surfaceId ` set (holdsToApply s w force)"
      unfolding set_holdsToApply using key [OF kh] by blast
  qed
  then show "(k \<notin> hd_surfaceId ` set (holdsToApply s w force)) = (\<not> due w force (map snd (tx_holds s)) h)"
    by blast
qed

lemma clear_simps [simp]:
  "tx_holds (fst (clearTimerIfIdle s)) = tx_holds s" "tx_waiting (fst (clearTimerIfIdle s)) = tx_waiting s"
  "tx_beforeApply (fst (clearTimerIfIdle s)) = tx_beforeApply s"
  "tx_afterApply (fst (clearTimerIfIdle s)) = tx_afterApply s"
  "tx_timeoutMs (fst (clearTimerIfIdle s)) = tx_timeoutMs s"
  "tx_holds (fst (armTimer s w)) = tx_holds s" "tx_waiting (fst (armTimer s w)) = tx_waiting s"
  "tx_beforeApply (fst (armTimer s w)) = tx_beforeApply s"
  "tx_afterApply (fst (armTimer s w)) = tx_afterApply s"
  "tx_timeoutMs (fst (armTimer s w)) = tx_timeoutMs s"
  by (simp_all add: clearTimerIfIdle_def clearTimer_def armTimer_def Let_def split: option.split)

lemma clear_effects:
  "set (snd (clearTimerIfIdle s)) \<subseteq> {ClearTimer}" "set (snd (armTimer s w)) \<subseteq> range SetTimer"
  by (auto simp: clearTimerIfIdle_def clearTimer_def armTimer_def Let_def split: option.splits)

lemma doApply_state:
  "tx_holds (fst (doApply s w hs)) = filter (\<lambda>(k, _). k \<notin> hd_surfaceId ` set hs) (tx_holds s)"
  "tx_timeoutMs (fst (doApply s w hs)) = tx_timeoutMs s"
  "tx_beforeApply (fst (doApply s w hs)) = tx_beforeApply s"
  "tx_afterApply (fst (doApply s w hs)) = tx_afterApply s"
  "tx_timer (fst (doApply s w hs)) =
     (if filter (\<lambda>(k, _). k \<notin> hd_surfaceId ` set hs) (tx_holds s) = [] then None else tx_timer s)"
  by (auto simp: doApply_def Let_def remove_holds_eq clearTimerIfIdle_def clearTimer_def split: prod.splits)

text \<open>One round, forced or not: the state it leaves.\<close>

lemma evaluate_holds:
  assumes "tx_wf s"
  shows "tx_holds (fst (tx_evaluate s w)) =
    filter (\<lambda>(_, h). \<not> due w False (map snd (tx_holds s)) h) (tx_holds s)"
  using due_kept [OF assms, of w False]
  by (auto simp: tx_evaluate_def Let_def doApply_state)

lemma tick_holds:
  assumes "tx_wf s"
  shows "tx_holds (fst (tick s w)) =
    filter (\<lambda>(_, h). \<not> due w True (map snd (tx_holds s)) h) (tx_holds s)"
proof -
  have wf: "tx_wf (s\<lparr>tx_timer := None\<rparr>)" using assms by (simp add: tx_wf_def)
  show ?thesis
    using due_kept [OF wf, of w True]
    by (auto simp: tick_def Let_def case_prod_unfold doApply_state)
qed

lemma evaluate_wf: "tx_wf s \<Longrightarrow> tx_wf (fst (tx_evaluate s w))"
  using evaluate_holds [of s w] by (auto simp: tx_wf_def distinct_map_filter)

lemma tick_wf: "tx_wf s \<Longrightarrow> tx_wf (fst (tick s w))"
  using tick_holds [of s w] by (auto simp: tx_wf_def distinct_map_filter)

definition joined :: "tx \<Rightarrow> world \<Rightarrow> int \<Rightarrow> requirement \<Rightarrow> hold" where
  "joined s w sid req =
    (let h = (case oget (tx_holds s) sid of
                None \<Rightarrow> \<lparr>hd_surfaceId = sid, hd_reqs = [], hd_deadlineAt = deadline_from s w\<rparr>
              | Some h \<Rightarrow> extend_deadline s w h)
     in h\<lparr>hd_reqs := hd_reqs h @ [req]\<rparr>)"

lemma begin_eq:
  "tx_begin s w sid req =
    (let s1 = s\<lparr>tx_holds := oset sid (joined s w sid req) (tx_holds s)\<rparr>;
         (s2, fx2) = armTimer s1 w; (s3, fx3) = tx_evaluate s2 w
     in (s3, (if oget (tx_holds s) sid = None then [Freeze sid, OnStart (rq_id req)] else []) @ fx2 @ fx3))"
  by (simp add: tx_begin_def joined_def Let_def split: option.split)

lemma extend_simps [simp]:
  "hd_surfaceId (extend_deadline s w h) = hd_surfaceId h" "hd_reqs (extend_deadline s w h) = hd_reqs h"
  by (simp_all add: extend_deadline_def split: option.split)

lemma joined_surface: "tx_wf s \<Longrightarrow> hd_surfaceId (joined s w sid req) = sid"
  unfolding joined_def Let_def tx_wf_def
  by (auto split: option.split dest!: map_of_SomeD)

lemma in_oset: "p \<in> set (oset k v m) \<Longrightarrow> p = (k, v) \<or> p \<in> set m"
  by (induction m) (auto split: if_splits)

lemma joined_wf:
  "tx_wf s \<Longrightarrow> tx_wf (s\<lparr>tx_holds := oset sid (joined s w sid req) (tx_holds s)\<rparr>)"
  using joined_surface [of s w sid req] by (auto simp: tx_wf_def dest!: in_oset)

lemma arm_wf [simp]: "tx_wf (fst (armTimer s w)) = tx_wf s"
  by (simp add: tx_wf_def)

lemma begin_state:
  "fst (tx_begin s w sid req) =
    fst (tx_evaluate (fst (armTimer (s\<lparr>tx_holds := oset sid (joined s w sid req) (tx_holds s)\<rparr>) w)) w)"
  by (simp add: begin_eq Let_def case_prod_unfold)

lemma tx_step_wf: "tx_wf s \<Longrightarrow> tx_wf (fst (tx_do s e))"
proof (cases "(s, e)" rule: tx_do.cases)
  case (1 s' w sid req)
  then show "tx_wf s \<Longrightarrow> ?thesis" using joined_wf by (simp add: begin_state evaluate_wf)
next
  case (3 s' w sid)
  then show "tx_wf s \<Longrightarrow> ?thesis"
    by (auto simp: AList.delete_eq tx_cancel_def tx_wf_def Let_def case_prod_unfold distinct_map_filter split: option.split)
next
  case (4 s' w sid)
  then show "tx_wf s \<Longrightarrow> ?thesis"
    by (simp add: tx_frozenReady_def Let_def case_prod_unfold evaluate_wf split: option.split)
qed (simp_all add: evaluate_wf tick_wf, simp_all add: tx_settle_def tx_onAfterApply_def
    tx_onBeforeApply_def tx_wf_def Let_def)

interpretation tx_wf_run: step_invariant tx_do "\<lambda>_ _. True" tx_wf
  by unfold_locales (rule tx_step_wf)

lemma session_wf: "tx_wf (fst (tx_session timeoutMs ops))"
  unfolding tx_session_def by (rule tx_wf_run.inv_run) (simp_all add: tx_new_def tx_wf_def)

section \<open>Every requirement is settled once\<close>

definition reqs_of :: "hold list \<Rightarrow> nat list" where
  "reqs_of hs = concat (map (\<lambda>h. map rq_id (hd_reqs h)) hs)"

definition held :: "tx \<Rightarrow> nat list" where
  "held s = reqs_of (map snd (tx_holds s))"

definition waiting :: "tx \<Rightarrow> nat list" where
  "waiting s = concat (map (\<lambda>(_, hs). reqs_of hs) (tx_waiting s))"

definition applied :: "tx_effect list \<Rightarrow> nat list" where
  "applied fx = concat (map (\<lambda>e. case e of OnApply r \<Rightarrow> [r] | _ \<Rightarrow> []) fx)"

definition cancelled :: "tx_effect list \<Rightarrow> nat list" where
  "cancelled fx = concat (map (\<lambda>e. case e of OnCancel r \<Rightarrow> [r] | _ \<Rightarrow> []) fx)"

fun begun :: "tx_op \<Rightarrow> nat list" where
  "begun (Begin sid req) = [rq_id req]"
| "begun _ = []"

lemma ids_append [simp]:
  "applied (fx @ gx) = applied fx @ applied gx" "cancelled (fx @ gx) = cancelled fx @ cancelled gx"
  "applied [] = []" "cancelled [] = []"
  by (simp_all add: applied_def cancelled_def)

lemma ids_Cons [simp]:
  "applied (e # fx) = (case e of OnApply r \<Rightarrow> [r] | _ \<Rightarrow> []) @ applied fx"
  "cancelled (e # fx) = (case e of OnCancel r \<Rightarrow> [r] | _ \<Rightarrow> []) @ cancelled fx"
  by (simp_all add: applied_def cancelled_def)

lemma ids_map [simp]:
  "applied (map (\<lambda>r. OnApply (f r)) rs) = map f rs" "cancelled (map (\<lambda>r. OnApply (f r)) rs) = []"
  "applied (map (\<lambda>r. OnCancel (f r)) rs) = []" "cancelled (map (\<lambda>r. OnCancel (f r)) rs) = map f rs"
  "applied (map (\<lambda>r. OnFrozenReady (f r)) rs) = []" "cancelled (map (\<lambda>r. OnFrozenReady (f r)) rs) = []"
  "applied (map OnAfterApply cs) = []" "cancelled (map OnAfterApply cs) = []"
  "applied (map (\<lambda>cb. OnBeforeApply cb ids) cs) = []" "cancelled (map (\<lambda>cb. OnBeforeApply cb ids) cs) = []"
  by (induction rs) (simp_all, (induction cs; simp)+)

lemma ids_clear [simp]:
  "applied (snd (clearTimerIfIdle s)) = []" "cancelled (snd (clearTimerIfIdle s)) = []"
  "applied (snd (armTimer s w)) = []" "cancelled (snd (armTimer s w)) = []"
  by (simp_all add: clearTimerIfIdle_def clearTimer_def armTimer_def Let_def split: option.split)

lemma finish_ids [simp]: "applied (finish s hs) = reqs_of hs" "cancelled (finish s hs) = []"
  by (induction hs) (simp_all add: finish_def reqs_of_def apply_hold_def)

lemma reqs_simps [simp]: "reqs_of [] = []" "reqs_of (h # hs) = map rq_id (hd_reqs h) @ reqs_of hs"
  "reqs_of (hs @ gs) = reqs_of hs @ reqs_of gs"
  by (simp_all add: reqs_of_def)

lemma mset_reqs_of: "mset (reqs_of hs) = (\<Sum>h\<in>#mset hs. mset (map rq_id (hd_reqs h)))"
  by (induction hs) simp_all

lemma reqs_partition:
  "mset (reqs_of (filter P hs)) + mset (reqs_of (filter (\<lambda>h. \<not> P h) hs)) = mset (reqs_of hs)"
  by (induction hs) simp_all

lemma doApply_ids:
  "mset (applied (snd (doApply s w hs))) + mset (waiting (fst (doApply s w hs))) =
     mset (reqs_of hs) + mset (waiting s)"
  "cancelled (snd (doApply s w hs)) = []"
  by (simp_all add: doApply_def Let_def case_prod_unfold waiting_def remove_holds_eq)

lemma round_ids:
  assumes "tx_wf s" "tx_holds s' = filter (\<lambda>(_, h). \<not> due w force (map snd (tx_holds s)) h) (tx_holds s)"
  shows "mset (reqs_of (holdsToApply s w force)) + mset (held s') = mset (held s)"
proof -
  let ?hs = "map snd (tx_holds s)"
  have "mset (holdsToApply s w force) = mset (filter (due w force ?hs) ?hs)"
    using distinct_holdsToApply [OF tx_wf_snd [OF assms(1)], of w force] tx_wf_snd [OF assms(1)]
    by (intro iffD1 [OF set_eq_iff_mset_eq_distinct] distinct_filter) (auto simp: set_holdsToApply)
  then have "mset (reqs_of (holdsToApply s w force)) = mset (reqs_of (filter (due w force ?hs) ?hs))"
    by (simp only: mset_reqs_of)
  moreover have "held s' = reqs_of (filter (\<lambda>h. \<not> due w force ?hs h) ?hs)"
    by (simp add: held_def assms(2) filter_map comp_def case_prod_unfold)
  ultimately show ?thesis using reqs_partition [of "due w force ?hs" ?hs] by (simp add: held_def)
qed

lemma holdsToApply_simps [simp]:
  "tx_holds s = [] \<Longrightarrow> holdsToApply s w force = []"
  "holdsToApply (s\<lparr>tx_timer := t\<rparr>) w force = holdsToApply s w force"
  by (simp_all add: holdsToApply_def)

lemma waiting_simps [simp]:
  "waiting (s\<lparr>tx_timer := t\<rparr>) = waiting s" "waiting (s\<lparr>tx_holds := m\<rparr>) = waiting s"
  "waiting (fst (clearTimerIfIdle s)) = waiting s" "waiting (fst (armTimer s w)) = waiting s"
  by (simp_all add: waiting_def)

lemma chain_balance:
  fixes a :: "'a multiset"
  assumes "a + w' = h + w" "h + d' = d"
  shows "a + (d' + w') = d + w"
proof -
  have "a + (d' + w') = (a + w') + d'" by (simp add: ac_simps)
  also have "\<dots> = d + w" by (simp add: assms(1) assms(2) [symmetric] ac_simps)
  finally show ?thesis .
qed

definition debt :: "tx \<Rightarrow> nat multiset" where
  "debt s = mset (held s) + mset (waiting s)"

lemma evaluate_ids:
  assumes "tx_wf s"
  shows "mset (applied (snd (tx_evaluate s w))) + debt (fst (tx_evaluate s w)) = debt s"
    "cancelled (snd (tx_evaluate s w)) = []"
proof -
  have "mset (applied (snd (tx_evaluate s w))) + mset (waiting (fst (tx_evaluate s w))) =
      mset (reqs_of (holdsToApply s w False)) + mset (waiting s)"
    using doApply_ids(1) [of s w "holdsToApply s w False"] by (simp add: tx_evaluate_def Let_def)
  then show "mset (applied (snd (tx_evaluate s w))) + debt (fst (tx_evaluate s w)) = debt s"
    unfolding debt_def by (rule chain_balance) (rule round_ids [OF assms evaluate_holds [OF assms, of w]])
  show "cancelled (snd (tx_evaluate s w)) = []"
    by (simp add: tx_evaluate_def Let_def doApply_ids)
qed

lemma tick_ids:
  assumes "tx_wf s"
  shows "mset (applied (snd (tick s w))) + debt (fst (tick s w)) = debt s" "cancelled (snd (tick s w)) = []"
proof -
  have "mset (applied (snd (tick s w))) + mset (waiting (fst (tick s w))) =
      mset (reqs_of (holdsToApply s w True)) + mset (waiting s)"
    using doApply_ids(1) [of "s\<lparr>tx_timer := None\<rparr>" w "holdsToApply s w True"]
    by (simp add: tick_def Let_def case_prod_unfold)
  then show "mset (applied (snd (tick s w))) + debt (fst (tick s w)) = debt s"
    unfolding debt_def by (rule chain_balance) (rule round_ids [OF assms tick_holds [OF assms, of w]])
  show "cancelled (snd (tick s w)) = []"
    by (simp add: tick_def Let_def doApply_ids case_prod_unfold)
qed

lemma held_oset:
  "tx_wf s \<Longrightarrow>
     mset (held (s\<lparr>tx_holds := oset sid (joined s w sid req) (tx_holds s)\<rparr>)) = add_mset (rq_id req) (mset (held s))"
proof -
  assume wf: "tx_wf s"
  have *: "mset (reqs_of (map snd (oset sid (g\<lparr>hd_reqs := rs @ [req]\<rparr>) m))) =
      add_mset (rq_id req) (mset (reqs_of (map snd m)))"
    if "distinct (okeys m)" "case oget m sid of None \<Rightarrow> rs = [] | Some h \<Rightarrow> rs = hd_reqs h" for m g rs
    using that by (induction m) (auto split: if_splits option.splits simp: oget_None_key)
  show ?thesis
    using wf * [of "tx_holds s"] by (simp add: held_def joined_def Let_def tx_wf_def split: option.split)
qed

lemma held_odel:
  "distinct (okeys m) \<Longrightarrow> oget m sid = Some h \<Longrightarrow>
     mset (map rq_id (hd_reqs h)) + mset (reqs_of (map snd (odel sid m))) = mset (reqs_of (map snd m))"
  by (induction m) (auto simp: AList.delete_idem ac_simps split: if_splits)

lemma settle_waiting:
  "waiting (fst (tx_settle s p)) = concat (map (\<lambda>(_, hs). reqs_of hs)
     (filter (\<lambda>(ps, hs). ps \<noteq> []) (map (\<lambda>(ps, hs). (removeAll p ps, hs)) (tx_waiting s))))"
  "tx_holds (fst (tx_settle s p)) = tx_holds s"
  by (simp_all add: tx_settle_def waiting_def Let_def)

lemma settle_ids:
  "mset (applied (snd (tx_settle s p))) + mset (waiting (fst (tx_settle s p))) = mset (waiting s)"
  "cancelled (snd (tx_settle s p)) = []"
proof -
  have "mset (applied (concat (map (\<lambda>(ps, hs). if ps = [] then finish s hs else []) ws))) +
      mset (concat (map (\<lambda>(_, hs). reqs_of hs) (filter (\<lambda>(ps, hs). ps \<noteq> []) ws))) =
      mset (concat (map (\<lambda>(_, hs). reqs_of hs) ws))" for ws :: "(nat list \<times> hold list) list"
    by (induction ws) (auto simp: ac_simps)
  moreover have "concat (map (\<lambda>(_, hs). reqs_of hs) (map (\<lambda>(ps, hs). (removeAll p ps, hs)) ws)) =
      concat (map (\<lambda>(_, hs). reqs_of hs) ws)" for ws :: "(nat list \<times> hold list) list"
    by (induction ws) auto
  ultimately show "mset (applied (snd (tx_settle s p))) + mset (waiting (fst (tx_settle s p))) = mset (waiting s)"
    unfolding settle_waiting by (simp only: tx_settle_def waiting_def Let_def snd_conv)
  have "cancelled (concat (map (\<lambda>(ps, hs). if ps = [] then finish s hs else []) ws)) = []" for ws :: "(nat list \<times> hold list) list"
    by (induction ws) auto
  then show "cancelled (snd (tx_settle s p)) = []" by (simp only: tx_settle_def Let_def snd_conv)
qed

lemma tx_step_ids:
  assumes "tx_wf s"
  shows "mset (applied (snd (tx_do s e))) + mset (cancelled (snd (tx_do s e))) + debt (fst (tx_do s e)) =
    mset (begun (snd e)) + debt s"
proof (cases "(s, e)" rule: tx_do.cases)
  case (1 s' w sid req)
  let ?t = "s\<lparr>tx_holds := oset sid (joined s w sid req) (tx_holds s)\<rparr>"
  have "debt (fst (armTimer ?t w)) = add_mset (rq_id req) (debt s)"
    using held_oset [OF assms, of sid w req] by (simp add: debt_def held_def)
  with 1 evaluate_ids [of "fst (armTimer ?t w)" w] joined_wf [OF assms, of sid w req] show ?thesis
    by (simp add: begin_eq Let_def case_prod_unfold)
next
  case (3 s' w sid)
  with held_odel [of "tx_holds s" sid] assms show ?thesis
    by (auto simp: tx_cancel_def tx_wf_def debt_def held_def Let_def case_prod_unfold ac_simps split: option.split)
next
  case (4 s' w sid)
  with evaluate_ids [OF assms, of w] show ?thesis
    by (simp add: tx_frozenReady_def Let_def case_prod_unfold split: option.split)
next
  case (6 s' w p)
  with settle_ids [of s p] show ?thesis
    by (simp add: debt_def held_def settle_waiting(2) ac_simps)
qed (use evaluate_ids [OF assms] tick_ids [OF assms] in \<open>simp_all add: tx_onAfterApply_def tx_onBeforeApply_def
    debt_def held_def waiting_def\<close>)

definition requested :: "(world \<times> tx_op) list \<Rightarrow> nat list" where
  "requested ops = concat (map (\<lambda>e. begun (snd e)) ops)"

definition effects_of :: "((world \<times> tx_op) \<times> tx_effect list) list \<Rightarrow> tx_effect list" where
  "effects_of tr = concat (map snd tr)"

lemma run_ids:
  "tx_wf s \<Longrightarrow> run tx_do s ops = (s', tr) \<Longrightarrow>
     mset (applied (effects_of tr)) + mset (cancelled (effects_of tr)) + debt s' =
     mset (requested ops) + debt s"
proof (induction ops arbitrary: s tr)
  case Nil
  then show ?case by (simp add: requested_def effects_of_def)
next
  case (Cons e ops)
  obtain t fx where t: "tx_do s e = (t, fx)" by (cases "tx_do s e")
  obtain tr' where tr': "run tx_do t ops = (s', tr')" and tr: "tr = (e, fx) # tr'"
    using Cons.prems(2) by (auto simp: t Let_def split: prod.splits)
  have "tx_wf t" using tx_step_wf [OF Cons.prems(1), of e] t by simp
  from Cons.IH [OF this tr'] tx_step_ids [OF Cons.prems(1), of e] t show ?case
    by (simp add: tr effects_of_def requested_def ac_simps)
      (metis (no_types, lifting) add.assoc add.left_commute)
qed

section \<open>Deadlines\<close>

text \<open>The broker with the time of the last operation; time does not go back.\<close>

definition tx_watch :: "tx \<times> number \<Rightarrow> world \<times> tx_op \<Rightarrow> (tx \<times> number) \<times> tx_effect list" where
  "tx_watch st e = (let (s', fx) = tx_do (fst st) e in ((s', tw_now (fst e)), fx))"

definition clock_ok :: "tx \<times> number \<Rightarrow> world \<times> tx_op \<Rightarrow> bool" where
  "clock_ok st e \<longleftrightarrow> snd st \<le> tw_now (fst e)"

text \<open>A hold's deadline is near enough, and the timer fires at most one unit after it.\<close>

definition timed :: "number \<Rightarrow> number \<Rightarrow> number option \<Rightarrow> hold \<Rightarrow> bool" where
  "timed timeout t tm h \<longleftrightarrow>
     (\<exists>d a. hd_deadlineAt h = Some d \<and> tm = Some a \<and> d \<le> t + timeout \<and> a \<le> d + 1)"

definition deadline_inv :: "tx \<times> number \<Rightarrow> bool" where
  "deadline_inv st \<longleftrightarrow> (let (s, t) = st in
     tx_wf s \<and> 0 < tx_timeoutMs s \<and> (tx_holds s = [] \<longrightarrow> tx_timer s = None) \<and>
     (\<forall>h \<in> snd ` set (tx_holds s). timed (tx_timeoutMs s) t (tx_timer s) h))"

lemma timed_later: "timed T t tm h \<Longrightarrow> t \<le> t' \<Longrightarrow> timed T t' tm h"
  by (force simp: timed_def)

lemma evaluate_timeout [simp]:
  "tx_timeoutMs (fst (tx_evaluate s w)) = tx_timeoutMs s" "tx_timeoutMs (fst (tick s w)) = tx_timeoutMs s"
  by (simp_all add: tx_evaluate_def tick_def Let_def doApply_state case_prod_unfold)

lemma evaluate_timer:
  "tx_wf s \<Longrightarrow> tx_timer (fst (tx_evaluate s w)) =
     (if tx_holds (fst (tx_evaluate s w)) = [] then None else tx_timer s)"
  by (auto simp: tx_evaluate_def Let_def doApply_state clearTimerIfIdle_def clearTimer_def)

lemma evaluate_deadlines:
  assumes "tx_wf s" "0 < tx_timeoutMs s" "\<forall>h \<in> snd ` set (tx_holds s). timed (tx_timeoutMs s) t (tx_timer s) h"
  shows "deadline_inv (fst (tx_evaluate s w), t)"
proof -
  have "set (tx_holds (fst (tx_evaluate s w))) \<subseteq> set (tx_holds s)"
    by (auto simp: evaluate_holds [OF assms(1)])
  then have "timed (tx_timeoutMs s) t (tx_timer (fst (tx_evaluate s w))) h"
    if "h \<in> snd ` set (tx_holds (fst (tx_evaluate s w)))" for h
    using that assms(3) evaluate_timer [OF assms(1), of w] by (auto split: if_splits)
  then show ?thesis
    using assms evaluate_wf [OF assms(1), of w] evaluate_timer [OF assms(1), of w]
    by (simp add: deadline_inv_def)
qed

lemma earliest_le:
  "earliest e hs = Some d \<Longrightarrow> (\<forall>h \<in> set hs. \<forall>c. hd_deadlineAt h = Some c \<longrightarrow> d \<le> c) \<and> (\<forall>c. e = Some c \<longrightarrow> d \<le> c)"
proof (induction hs arbitrary: e)
  case (Cons h hs)
  from Cons.IH [OF Cons.prems [simplified earliest.simps]] show ?case
    by (auto split: option.splits if_splits)
qed simp

lemma earliest_in:
  "earliest e hs = Some d \<Longrightarrow> e = Some d \<or> (\<exists>h \<in> set hs. hd_deadlineAt h = Some d)"
  by (induction hs arbitrary: e) (auto split: option.splits if_splits)

lemma earliest_None: "earliest e hs = None \<longleftrightarrow> e = None \<and> (\<forall>h \<in> set hs. hd_deadlineAt h = None)"
  by (induction hs arbitrary: e) (auto split: option.splits if_splits)

text \<open>Arming with nothing overdue.\<close>

lemma armTimer_timed:
  assumes "tx_timer s = None" "\<forall>h \<in> snd ` set (tx_holds s). \<exists>d. hd_deadlineAt h = Some d \<and> tw_now w \<le> d \<and> d \<le> tw_now w + tx_timeoutMs s"
  shows "\<forall>h \<in> snd ` set (tx_holds s). timed (tx_timeoutMs s) (tw_now w) (tx_timer (fst (armTimer s w))) h"
proof
  fix h assume h: "h \<in> snd ` set (tx_holds s)"
  then obtain d where d: "hd_deadlineAt h = Some d" "tw_now w \<le> d" "d \<le> tw_now w + tx_timeoutMs s"
    using assms(2) by blast
  have "earliest None (map snd (tx_holds s)) \<noteq> None"
    unfolding earliest_None using h d(1) by (metis list.set_map option.distinct(1))
  then obtain e where e: "earliest None (map snd (tx_holds s)) = Some e" by blast
  have "e \<le> d" using earliest_le [OF e] h d(1) by auto
  have "tx_timer (fst (armTimer s w)) = Some (tw_now w + max 1 (e - tw_now w))"
    using assms(1) e by (simp add: armTimer_def Let_def)
  then show "timed (tx_timeoutMs s) (tw_now w) (tx_timer (fst (armTimer s w))) h"
    using d \<open>e \<le> d\<close> by (auto simp: timed_def)
qed

lemma begin_deadlines:
  assumes "deadline_inv (s, t)" "t \<le> tw_now w"
  shows "deadline_inv (fst (tx_begin s w sid req), tw_now w)"
proof -
  let ?T = "tx_timeoutMs s" and ?n = "tw_now w"
  let ?s1 = "s\<lparr>tx_holds := oset sid (joined s w sid req) (tx_holds s)\<rparr>"
  have wf: "tx_wf s" "0 < ?T" and none: "tx_holds s = [] \<longrightarrow> tx_timer s = None"
    and old: "\<And>h. h \<in> snd ` set (tx_holds s) \<Longrightarrow> timed ?T ?n (tx_timer s) h"
    using assms timed_later [OF _ assms(2)] by (auto simp: deadline_inv_def)
  have dl: "hd_deadlineAt (joined s w sid req) = Some (?n + ?T)"
  proof (cases "oget (tx_holds s) sid")
    case None
    with wf(2) show ?thesis by (simp add: joined_def deadline_from_def)
  next
    case (Some h)
    then have "h \<in> snd ` set (tx_holds s)" by (force dest: map_of_SomeD)
    from old [OF this] wf(2) Some show ?thesis
      by (auto simp: joined_def extend_deadline_def timed_def)
  qed
  have "\<forall>h \<in> snd ` set (tx_holds ?s1). timed ?T ?n (tx_timer (fst (armTimer ?s1 w))) h"
  proof (cases "tx_timer s")
    case None
    with old have "tx_holds s = []" by (cases "tx_holds s") (force simp: timed_def)+
    with None wf(2) dl armTimer_timed [of ?s1 w] show ?thesis by simp
  next
    case (Some a)
    with none obtain p where "p \<in> set (tx_holds s)" by (cases "tx_holds s") auto
    with old [of "snd p"] Some have "a \<le> ?n + ?T + 1" by (auto simp: timed_def)
    with Some dl have "timed ?T ?n (tx_timer s) (joined s w sid req)" by (simp add: timed_def)
    with Some old show ?thesis by (auto simp: armTimer_def dest!: in_oset)
  qed
  then show ?thesis
    using evaluate_deadlines [of "fst (armTimer ?s1 w)" ?n w] wf joined_wf [of s]
    by (simp add: begin_state)
qed

lemma tick_deadlines:
  assumes "deadline_inv (s, t)" "t \<le> tw_now w"
  shows "deadline_inv (fst (tick s w), tw_now w)"
    "\<forall>h \<in> snd ` set (tx_holds (fst (tick s w))). \<exists>d. hd_deadlineAt h = Some d \<and> tw_now w < d"
proof -
  let ?T = "tx_timeoutMs s" and ?n = "tw_now w" and ?s0 = "s\<lparr>tx_timer := None\<rparr>"
  have wf: "tx_wf s" "0 < ?T"
    and old: "\<And>h. h \<in> snd ` set (tx_holds s) \<Longrightarrow> timed ?T ?n (tx_timer s) h"
    using assms timed_later [OF _ assms(2)] by (auto simp: deadline_inv_def)
  have later: "\<exists>d. hd_deadlineAt h = Some d \<and> ?n < d \<and> d \<le> ?n + ?T"
    if "h \<in> snd ` set (tx_holds (fst (tick s w)))" for h
  proof -
    have h: "h \<in> snd ` set (tx_holds s)" "\<not> due w True (map snd (tx_holds s)) h"
      using that by (auto simp: tick_holds [OF wf(1)])
    then have "\<not> expired w h" by (auto simp: due_def split: option.splits)
    with old [OF h(1)] show ?thesis by (auto simp: timed_def expired_def)
  qed
  then show "\<forall>h \<in> snd ` set (tx_holds (fst (tick s w))). \<exists>d. hd_deadlineAt h = Some d \<and> ?n < d"
    by blast
  define s1 where "s1 = (if holdsToApply ?s0 w True \<noteq> []
    then fst (doApply ?s0 w (holdsToApply ?s0 w True)) else ?s0)"
  have s1: "tx_timer s1 = None" "tx_timeoutMs s1 = ?T" by (simp_all add: s1_def doApply_state)
  have eq: "fst (tick s w) = (if tx_holds s1 \<noteq> [] then fst (armTimer s1 w) else s1)"
    by (auto simp: tick_def s1_def Let_def case_prod_unfold)
  have holds: "tx_holds (fst (tick s w)) = tx_holds s1" by (simp add: eq)
  have "\<forall>h \<in> snd ` set (tx_holds s1). timed ?T ?n (tx_timer (fst (armTimer s1 w))) h"
    using armTimer_timed [OF s1(1), of w] later unfolding holds s1(2) by (meson less_imp_le)
  then show "deadline_inv (fst (tick s w), ?n)"
    using tick_wf [OF wf(1), of w] wf(2) s1 by (auto simp: deadline_inv_def eq)
qed

lemma deadline_step:
  assumes "deadline_inv st" "clock_ok st e"
  shows "deadline_inv (fst (tx_watch st e))"
proof -
  obtain s t where st: "st = (s, t)" by (cases st)
  have inv: "deadline_inv (s, tw_now (fst e))"
    using assms timed_later by (auto simp: st deadline_inv_def clock_ok_def)
  then have wf: "tx_wf s" "0 < tx_timeoutMs s" 
    "\<forall>h \<in> snd ` set (tx_holds s). timed (tx_timeoutMs s) (tw_now (fst e)) (tx_timer s) h"
    by (simp_all add: deadline_inv_def)
  have "deadline_inv (fst (tx_do s e), tw_now (fst e))"
  proof (cases "(s, e)" rule: tx_do.cases)
    case (1 s' w sid req)
    then show ?thesis using begin_deadlines [OF inv, of w] by simp
  next
    case (3 s' w sid)
    have "\<forall>h \<in> snd ` set (odel sid (tx_holds s)). timed (tx_timeoutMs s) (tw_now (fst e)) (tx_timer s) h"
      using wf(3) by (auto simp: AList.delete_eq)
    with 3 inv tx_step_wf [OF wf(1), of e] show ?thesis
      by (auto simp: tx_cancel_def deadline_inv_def clearTimerIfIdle_def clearTimer_def Let_def
          case_prod_unfold split: option.split)
  next
    case (4 s' w sid)
    then show ?thesis using evaluate_deadlines [OF wf, of w] inv
      by (auto simp: tx_frozenReady_def Let_def case_prod_unfold split: option.split)
  next
    case (5 s' w)
    then show ?thesis using tick_deadlines(1) [OF inv, of w] by simp
  qed (use inv evaluate_deadlines [OF wf] in \<open>simp_all add: tx_settle_def tx_onAfterApply_def
      tx_onBeforeApply_def deadline_inv_def tx_wf_def Let_def\<close>)
  then show ?thesis by (simp add: tx_watch_def st Let_def case_prod_unfold)
qed

interpretation tx_deadlines: step_invariant tx_watch clock_ok deadline_inv
  by unfold_locales (rule deadline_step)

lemma step_timeout: "tx_timeoutMs (fst (tx_do s e)) = tx_timeoutMs s"
  by (cases "(s, e)" rule: tx_do.cases)
    (auto simp: begin_eq tx_cancel_def tx_frozenReady_def tx_settle_def tx_onAfterApply_def tx_onBeforeApply_def
      Let_def case_prod_unfold split: option.split)

lemma watch_timeout: "tx_timeoutMs (fst (fst (run tx_watch st ops))) = tx_timeoutMs (fst st)"
  by (induction ops arbitrary: st)
    (auto simp: tx_watch_def step_timeout Let_def case_prod_unfold)

section \<open>Frozen surfaces\<close>

fun frozen_step :: "int list \<Rightarrow> tx_effect \<Rightarrow> int list" where
  "frozen_step fs (Freeze i) = oset_add i fs"
| "frozen_step fs (Thaw i) = removeAll i fs"
| "frozen_step fs _ = fs"

definition frozen :: "int list \<Rightarrow> tx_effect list \<Rightarrow> int list" where
  "frozen = foldl frozen_step"

lemma frozen_append [simp]: "frozen fs (fx @ gx) = frozen (frozen fs fx) gx"
  by (simp add: frozen_def)

lemma frozen_Cons [simp]: "frozen fs (e # fx) = frozen (frozen_step fs e) fx" "frozen fs [] = fs"
  by (simp_all add: frozen_def)

lemma frozen_map [simp]:
  "frozen fs (map (\<lambda>r. OnApply (f r)) rs) = fs" "frozen fs (map (\<lambda>r. OnCancel (f r)) rs) = fs"
  "frozen fs (map (\<lambda>r. OnFrozenReady (f r)) rs) = fs" "frozen fs (map OnAfterApply cs) = fs"
  by (induction rs) (simp_all, (induction cs; simp))

lemma frozen_clear [simp]:
  "frozen fs (snd (clearTimerIfIdle s)) = fs" "frozen fs (snd (armTimer s w)) = fs"
  by (simp_all add: clearTimerIfIdle_def clearTimer_def armTimer_def Let_def split: option.split)

lemma frozen_finish: "set (frozen fs (finish s hs)) = set fs - hd_surfaceId ` set hs"
  by (induction hs arbitrary: fs) (auto simp: finish_def apply_hold_def)

text \<open>Without before-apply gates.\<close>

definition ungated :: "tx \<Rightarrow> bool" where
  "ungated s \<longleftrightarrow> tx_beforeApply s = [] \<and> tx_waiting s = []"

fun adds_no_gate :: "world \<times> tx_op \<Rightarrow> bool" where
  "adds_no_gate (w, AddBeforeApply cb) = False"
| "adds_no_gate _ = True"

lemma doApply_frozen:
  assumes "ungated s" "set fs = set (okeys (tx_holds s))"
  shows "set (frozen fs (snd (doApply s w hs))) = set (okeys (tx_holds (fst (doApply s w hs))))"
    "ungated (fst (doApply s w hs))"
  using assms
  by (auto simp: doApply_def Let_def case_prod_unfold ungated_def gates_def remove_holds_eq frozen_finish)

lemma evaluate_frozen:
  assumes "ungated s" "set fs = set (okeys (tx_holds s))"
  shows "set (frozen fs (snd (tx_evaluate s w))) = set (okeys (tx_holds (fst (tx_evaluate s w))))"
    "ungated (fst (tx_evaluate s w))"
  using assms doApply_frozen [OF assms] by (simp_all add: tx_evaluate_def Let_def ungated_def)

lemma tick_frozen:
  assumes "ungated s" "set fs = set (okeys (tx_holds s))"
  shows "set (frozen fs (snd (tick s w))) = set (okeys (tx_holds (fst (tick s w))))"
    "ungated (fst (tick s w))"
  using assms doApply_frozen [of "s\<lparr>tx_timer := None\<rparr>" fs w "holdsToApply s w True"]
  by (auto simp: tick_def Let_def case_prod_unfold ungated_def)

definition shown_frozen :: "tx \<Rightarrow> int list \<Rightarrow> bool" where
  "shown_frozen s fs \<longleftrightarrow> ungated s \<and> set fs = set (okeys (tx_holds s))"

lemma frozen_step_sim:
  assumes "shown_frozen s fs" "adds_no_gate e"
  shows "shown_frozen (fst (tx_do s e)) (frozen fs (snd (tx_do s e)))"
proof (cases "(s, e)" rule: tx_do.cases)
  case (1 s' w sid req)
  let ?s1 = "s\<lparr>tx_holds := oset sid (joined s w sid req) (tx_holds s)\<rparr>"
  let ?fs = "if oget (tx_holds s) sid = None then oset_add sid fs else fs"
  have "set ?fs = set (okeys (tx_holds (fst (armTimer ?s1 w))))"
    using assms(1) oget_Some_key [of "tx_holds s" sid] by (auto simp: shown_frozen_def)
  moreover have "ungated (fst (armTimer ?s1 w))" using assms(1) by (simp add: shown_frozen_def ungated_def)
  ultimately have "shown_frozen (fst (tx_evaluate (fst (armTimer ?s1 w)) w))
      (frozen ?fs (snd (tx_evaluate (fst (armTimer ?s1 w)) w)))"
    using evaluate_frozen by (simp add: shown_frozen_def)
  with 1 show ?thesis by (cases "oget (tx_holds s) sid") (simp_all add: begin_eq Let_def case_prod_unfold)
next
  case (3 s' w sid)
  with assms show ?thesis
    by (auto simp: tx_cancel_def shown_frozen_def ungated_def Let_def case_prod_unfold split: option.split)
next
  case (4 s' w sid)
  with assms evaluate_frozen [of s fs w] show ?thesis
    by (simp add: tx_frozenReady_def shown_frozen_def Let_def case_prod_unfold split: option.split)
qed (use assms evaluate_frozen [of s fs] tick_frozen [of s fs] in \<open>auto simp: shown_frozen_def tx_settle_def
    tx_onAfterApply_def ungated_def Let_def\<close>)

interpretation tx_frozen: monitored tx_do "\<lambda>_. adds_no_gate" "\<lambda>fs e fx. Some (frozen fs fx)" shown_frozen
  by unfold_locales (use frozen_step_sim in fastforce)

lemma monitor_frozen: "monitor (\<lambda>fs e fx. Some (frozen fs fx)) fs tr = Some (frozen fs (effects_of tr))"
  by (induction tr arbitrary: fs) (auto simp: effects_of_def)

lemma oget_filter_key:
  "distinct (okeys m) \<Longrightarrow> oget m c = Some x \<Longrightarrow>
     oget (filter (\<lambda>(_, h). P h) m) c = (if P x then Some x else None)"
  by (induction m) (auto split: if_splits simp: map_of_eq_None_iff dest!: map_of_SomeD)

section \<open>Properties\<close>

text \<open>
  C9: No requirement is lost or settled twice: after any session the requirements handed to \<open>begin\<close>
  are exactly those applied, those cancelled, those still held and those waiting behind a gate, each as often as
  it was begun.
\<close>

theorem requirements_settle_once:
  assumes "tx_session timeoutMs ops = (s, tr)"
  shows "mset (requested ops) =
    mset (applied (effects_of tr)) + mset (cancelled (effects_of tr)) + mset (held s) + mset (waiting s)"
proof -
  have "tx_wf (tx_new timeoutMs)" "debt (tx_new timeoutMs) = {#}"
    by (simp_all add: tx_new_def tx_wf_def debt_def held_def waiting_def)
  with run_ids [of "tx_new timeoutMs" ops s tr] assms show ?thesis
    by (simp add: tx_session_def debt_def ac_simps)
qed

definition req :: "nat \<Rightarrow> string option \<Rightarrow> requirement" where
  "req i key = \<lparr>rq_id = i, rq_tag = ''resize-tx'', rq_batchKey = key\<rparr>"

definition at_time :: "number \<Rightarrow> nat list \<Rightarrow> world" where
  "at_time t ready = \<lparr>tw_now = t, tw_ready = (\<lambda>i. i \<in> set ready), tw_gate = (\<lambda>cb ids. Promise cb)\<rparr>"

definition tx_sample_ops :: "(world \<times> tx_op) list" where
  "tx_sample_ops =
    [(at_time 0 [], Begin 10 (req 1 (Some ''k''))), (at_time 5 [], Begin 20 (req 2 (Some ''k''))),
     (at_time 20 [], Begin 30 (req 3 None)), (at_time 30 [1], Evaluate), (at_time 40 [1], CancelHold 30),
     (at_time 60 [1], FrozenReady 20)]"

text \<open>Two holds of one batch and a cancelled third; the batch is still short of one requirement.\<close>

lemma sample_outcome:
  "tx_session 150 tx_sample_ops = (fst (tx_session 150 tx_sample_ops), snd (tx_session 150 tx_sample_ops))"
  "held (fst (tx_session 150 tx_sample_ops)) = [1, 2]"
  "cancelled (effects_of (snd (tx_session 150 tx_sample_ops))) = [3]"
  by (simp, code_simp, code_simp)

theorem requirements_settle_once_witness:
  "mset (requested tx_sample_ops) =
    mset (applied (effects_of (snd (tx_session 150 tx_sample_ops)))) + {#3#} + {#1, 2#} +
    mset (waiting (fst (tx_session 150 tx_sample_ops)))"
  using requirements_settle_once [OF sample_outcome(1)] sample_outcome(2,3) by simp

text \<open>
  C7: A round, forced by the timer or not, applies exactly the holds the header comment names: an independent
  hold when it is ready or overdue, a batched hold when all of its batch are ready or one is overdue. All
  holds of a batch leave together; the others keep their place and their requirements.
\<close>

theorem batches_apply_together:
  assumes "s = fst (tx_session timeoutMs ops)" "e = (if force then Tick else Evaluate)"
  shows "tx_holds (fst (tx_do s (w, e))) =
      filter (\<lambda>(_, h). \<not> due w force (map snd (tx_holds s)) h) (tx_holds s) \<and>
    (\<forall>a b h g k. oget (tx_holds s) a = Some h \<and> oget (tx_holds s) b = Some g \<and>
       hold_key h = Some k \<and> hold_key g = Some k \<longrightarrow>
       tx_has (fst (tx_do s (w, e))) a = tx_has (fst (tx_do s (w, e))) b)"
proof -
  have wf: "tx_wf s" using assms(1) session_wf by simp
  have *: "tx_holds (fst (tx_do s (w, e))) =
      filter (\<lambda>(_, h). \<not> due w force (map snd (tx_holds s)) h) (tx_holds s)"
    using evaluate_holds [OF wf] tick_holds [OF wf] by (simp add: assms(2))
  have "due w force (map snd (tx_holds s)) h = due w force (map snd (tx_holds s)) g"
    if "hold_key h = Some k" "hold_key g = Some k" for h g k
    by (simp add: due_def that)
  with * wf show ?thesis by (auto simp: tx_has_def tx_wf_def oget_filter_key)
qed

theorem batches_apply_together_witness:
  "let s = fst (tx_session 150 (take 3 tx_sample_ops)) in
     okeys (tx_holds (fst (tx_do s (at_time 160 [], Tick)))) = [30] \<and>
     tx_has (fst (tx_do s (at_time 160 [], Tick))) 10 = tx_has (fst (tx_do s (at_time 160 [], Tick))) 20"
proof -
  have 1: "map fst (filter (\<lambda>(_, h). \<not> due (at_time 160 []) True
      (map snd (tx_holds (fst (tx_session 150 (take 3 tx_sample_ops))))) h)
      (tx_holds (fst (tx_session 150 (take 3 tx_sample_ops))))) = [30]"
    and 2: "map_option hold_key (oget (tx_holds (fst (tx_session 150 (take 3 tx_sample_ops)))) 10) = Some (Some ''k'')"
    and 3: "map_option hold_key (oget (tx_holds (fst (tx_session 150 (take 3 tx_sample_ops)))) 20) = Some (Some ''k'')"
    by (code_simp, code_simp, code_simp)
  obtain h g where "oget (tx_holds (fst (tx_session 150 (take 3 tx_sample_ops)))) 10 = Some h \<and>
      oget (tx_holds (fst (tx_session 150 (take 3 tx_sample_ops)))) 20 = Some g \<and>
      hold_key h = Some ''k'' \<and> hold_key g = Some ''k''"
    using 2 3 by auto
  with batches_apply_together [OF refl, of Tick True 150 "take 3 tx_sample_ops" "at_time 160 []"] 1
  show ?thesis unfolding Let_def by (metis (no_types, lifting))
qed

text \<open>
  C22: With a positive timeout and a clock that does not go back, a timer is armed whenever a hold is
  outstanding, to fire at most one millisecond after the earliest deadline, which is at most the timeout
  away; and a firing releases every hold whose deadline has passed. No surface stays frozen for a client that never answers.
\<close>

theorem no_hold_outlives_its_deadline:
  assumes "0 < timeoutMs" "admissible tx_watch clock_ok (tx_new timeoutMs, t0) ops"
    "fst (run tx_watch (tx_new timeoutMs, t0) ops) = (s, t)" "t \<le> tw_now w"
  shows "(\<forall>h \<in> snd ` set (tx_holds s). timed timeoutMs t (tx_timer s) h) \<and>
    (\<forall>h \<in> snd ` set (tx_holds (fst (tx_do s (w, Tick)))).
       \<exists>d. hd_deadlineAt h = Some d \<and> tw_now w < d)"
proof -
  have "deadline_inv (tx_new timeoutMs, t0)"
    using assms(1) by (simp add: deadline_inv_def tx_new_def tx_wf_def)
  then have inv: "deadline_inv (s, t)"
    using tx_deadlines.inv_run [OF _ assms(2)] assms(3) by simp
  moreover have "tx_timeoutMs s = timeoutMs"
    using watch_timeout [of "(tx_new timeoutMs, t0)" ops] assms(3) by (simp add: tx_new_def)
  ultimately show ?thesis
    using tick_deadlines(2) [OF inv assms(4)] by (auto simp: deadline_inv_def)
qed

theorem no_hold_outlives_its_deadline_witness:
  "let s = fst (fst (run tx_watch (tx_new 150, 0) (take 3 tx_sample_ops))) in
     tx_timer s = Some 150 \<and> okeys (tx_holds s) = [10, 20, 30] \<and>
     (\<forall>h \<in> snd ` set (tx_holds (fst (tx_do s (at_time 160 [], Tick)))).
       \<exists>d. hd_deadlineAt h = Some d \<and> 160 < d)"
proof -
  define st where "st = fst (run tx_watch (tx_new 150, 0) (take 3 tx_sample_ops))"
  have 1: "admissible tx_watch clock_ok (tx_new 150, 0) (take 3 tx_sample_ops)" "snd st = 20"
    "tx_timer (fst st) = Some 150" "okeys (tx_holds (fst st)) = [10, 20, 30]"
    unfolding st_def by code_simp+
  have "\<forall>h \<in> snd ` set (tx_holds (fst (tx_do (fst st) (at_time 160 [], Tick)))).
      \<exists>d. hd_deadlineAt h = Some d \<and> tw_now (at_time 160 []) < d"
    using no_hold_outlives_its_deadline [of 150 0 "take 3 tx_sample_ops" "fst st" "snd st" "at_time 160 []"] 1
    by (simp add: st_def at_time_def)
  with 1 show ?thesis by (simp add: Let_def st_def [symmetric] at_time_def)
qed

text \<open>
  C24: As long as no before-apply gate is registered, the freezes and thaws a session sends leave exactly the surfaces with
  a hold frozen: each is frozen when its hold begins and thawed exactly once, when the hold is applied or cancelled.
\<close>

theorem frozen_surfaces_have_holds:
  assumes "\<forall>e \<in> set ops. adds_no_gate e" "tx_session timeoutMs ops = (s, tr)"
  shows "set (frozen [] (effects_of tr)) = set (okeys (tx_holds s))"
proof -
  have "shown_frozen (tx_new timeoutMs) []" by (simp add: shown_frozen_def ungated_def tx_new_def)
  then have "\<exists>fs. monitor (\<lambda>fs e fx. Some (frozen fs fx)) [] tr = Some fs \<and> shown_frozen s fs"
    using assms by (intro tx_frozen.sim_run) (simp_all add: admissible_events tx_session_def)
  then show ?thesis by (auto simp: monitor_frozen shown_frozen_def)
qed

theorem frozen_surfaces_have_holds_witness:
  "set (frozen [] (effects_of (snd (tx_session 150 tx_sample_ops)))) = {10, 20}"
proof -
  have "\<forall>e \<in> set tx_sample_ops. adds_no_gate e"
    "okeys (tx_holds (fst (tx_session 150 tx_sample_ops))) = [10, 20]"
    by (simp add: tx_sample_ops_def, code_simp)
  then show ?thesis using frozen_surfaces_have_holds [OF _ sample_outcome(1)] by simp
qed

text \<open>
  With a gate registered the surface of a hold can be live: while a batch waits for its gate its holds are
  off the map, so a new hold on the same surface freezes it again (which changes nothing, it is frozen), and when the gate of the first batch
  resolves the surface is thawed although the second hold still keeps its requirement back.
\<close>

definition gated_ops :: "(world \<times> tx_op) list" where
  "gated_ops =
    [(at_time 0 [], AddBeforeApply 7), (at_time 0 [], Begin 10 (req 1 None)), (at_time 5 [1], Evaluate),
     (at_time 6 [1], Begin 10 (req 2 None)), (at_time 9 [1], Settle 7)]"

lemma gated_apply_thaws_new_hold:
  "let (s, tr) = tx_session 150 gated_ops in
     held s = [2] \<and> tx_has s 10 \<and> waiting s = [] \<and> frozen [] (effects_of tr) = [] \<and>
     frozen [] (effects_of (butlast tr)) = [10]"
  by code_simp

end
