(* ===== verification/Surface_State.thy ===== *)
theory Surface_State
  imports Region
begin

text \<open>
  The per-surface protocol state of \<open>core/src/protocols/ctx.ts\<close> and the requests that write it:
  \<open>wl_surface\<close> (the pending slots), \<open>wl_subcompositor\<close> and \<open>wl_subsurface\<close>
  (\<open>core/src/protocols/wl_surface.ts\<close>, \<open>wl_subcompositor.ts\<close>).

  A resource is its number; \<open>destroyed\<close> flags of buffers and callbacks are answers of the environment.
  A slot that is absent is \<open>None\<close>; one that can also be null is an option of an option. An array slot
  that is absent is the empty list: the code only creates one to push onto it.
\<close>

section \<open>Data\<close>

record sync_point =
  sp_handle :: nat
  sp_hi :: nat
  sp_lo :: nat

record pending_state =
  pd_buffer :: "nat option option"
  pd_frameCallbacks :: "nat list"
  pd_presentationFeedbacks :: "nat list"
  pd_inputRegion :: "region option option"
  pd_opaqueRegion :: "region option option"
  pd_bufferScale :: "int option"
  pd_bufferTransform :: "int option"
  pd_offsetX :: "number option"
  pd_offsetY :: "number option"
  pd_viewportSrc :: "rect option option"
  pd_viewportDst :: "(number \<times> number) option option"
  pd_surfaceDamage :: "rect list"
  pd_bufferDamage :: "rect list"
  pd_syncobjAcquire :: "sync_point option"
  pd_syncobjRelease :: "sync_point option"
  pd_commitTimestamp :: "int option"
  pd_tearingHint :: "int option"

definition pending_none :: pending_state where
  "pending_none = \<lparr>pd_buffer = None, pd_frameCallbacks = [], pd_presentationFeedbacks = [],
     pd_inputRegion = None, pd_opaqueRegion = None, pd_bufferScale = None, pd_bufferTransform = None,
     pd_offsetX = None, pd_offsetY = None, pd_viewportSrc = None, pd_viewportDst = None,
     pd_surfaceDamage = [], pd_bufferDamage = [], pd_syncobjAcquire = None, pd_syncobjRelease = None,
     pd_commitTimestamp = None, pd_tearingHint = None\<rparr>"

record committed_state =
  cm_buffer :: "nat option"
  cm_bufferScale :: "int option"
  cm_bufferTransform :: "int option"
  cm_surfaceDamage :: "rect list"
  cm_bufferDamage :: "rect list"
  cm_syncobjRelease :: "sync_point option"

record cached_state =
  ca_buffer :: "nat option option"
  ca_bufferFresh :: bool
  ca_frameCallbacks :: "nat list"
  ca_presentationFeedbacks :: "nat list"
  ca_inputRegion :: "region option option"
  ca_opaqueRegion :: "region option option"
  ca_bufferScale :: "int option"
  ca_bufferTransform :: "int option"
  ca_viewportSrc :: "rect option option"
  ca_viewportDst :: "(number \<times> number) option option"
  ca_surfaceDamage :: "rect list"
  ca_bufferDamage :: "rect list"
  ca_syncobjAcquire :: "sync_point option"
  ca_syncobjRelease :: "sync_point option"
  ca_tearingHint :: "int option"

definition cached_none :: cached_state where
  "cached_none = \<lparr>ca_buffer = None, ca_bufferFresh = False, ca_frameCallbacks = [],
     ca_presentationFeedbacks = [], ca_inputRegion = None, ca_opaqueRegion = None, ca_bufferScale = None,
     ca_bufferTransform = None, ca_viewportSrc = None, ca_viewportDst = None, ca_surfaceDamage = [],
     ca_bufferDamage = [], ca_syncobjAcquire = None, ca_syncobjRelease = None, ca_tearingHint = None\<rparr>"

datatype surface_role = No_role | Xdg_toplevel | Xdg_popup | Cursor | Layer_surface | Xwayland

text \<open>\<open>sf_geometry\<close> is the window geometry of the surface's xdg surface.\<close>

record surface =
  sf_id :: nat
  sf_role :: surface_role
  sf_destroyed :: bool
  sf_pending :: pending_state
  sf_committed :: committed_state
  sf_cached :: "cached_state option"
  sf_timedCommits :: "(pending_state \<times> int option) list"
  sf_acquireForUpload :: "sync_point option"
  sf_viewportSrc :: "rect option"
  sf_viewportDst :: "(number \<times> number) option"
  sf_tearingHint :: "int option"
  sf_inputRegion :: "region option"
  sf_opaqueRegion :: "region option"
  sf_geometry :: "rect option"
  sf_offsetDx :: number
  sf_offsetDy :: number
  sf_mapped :: bool
  sf_hasContent :: bool
  sf_unmapped :: bool
  sf_needsCompositorResync :: bool
  sf_frameCallbacks :: "nat list"
  sf_presentationFeedbacks :: "nat list"
  sf_hasCommitTimer :: bool
  sf_hasViewport :: bool
  sf_hasTearingControl :: bool

definition surface_new :: "nat \<Rightarrow> surface_role \<Rightarrow> surface" where
  "surface_new i role = \<lparr>sf_id = i, sf_role = role, sf_destroyed = False, sf_pending = pending_none,
     sf_committed = \<lparr>cm_buffer = None, cm_bufferScale = None, cm_bufferTransform = None,
       cm_surfaceDamage = [], cm_bufferDamage = [], cm_syncobjRelease = None\<rparr>,
     sf_cached = None, sf_timedCommits = [], sf_acquireForUpload = None, sf_viewportSrc = None,
     sf_viewportDst = None, sf_tearingHint = None, sf_inputRegion = None, sf_opaqueRegion = None,
     sf_geometry = None, sf_offsetDx = 0, sf_offsetDy = 0, sf_mapped = False, sf_hasContent = False,
     sf_unmapped = False, sf_needsCompositorResync = False, sf_frameCallbacks = [],
     sf_presentationFeedbacks = [], sf_hasCommitTimer = False, sf_hasViewport = False,
     sf_hasTearingControl = False\<rparr>"

record subsurface =
  ss_surface :: nat
  ss_parent :: nat
  ss_x :: number
  ss_y :: number
  ss_pendingX :: number
  ss_pendingY :: number
  ss_sync :: bool

datatype order_op = Place_above nat nat | Place_below nat nat

text \<open>The descriptor of a wl_buffer: \<open>bd_fd\<close> says that the dmabuf descriptor is still there.\<close>

record buffer_desc =
  bd_dmabuf :: bool
  bd_fd :: bool
  bd_poolId :: nat
  bd_width :: int
  bd_height :: int
  bd_format :: nat

record surface_state =
  st_surfaces :: "(nat, surface) omap"
  st_subsurfaces :: "(nat, subsurface) omap"
  st_order :: "(nat, nat list) omap"
  st_pendingOrder :: "(nat, order_op list) omap"
  st_buffers :: "(nat, buffer_desc) omap"
  st_regions :: "(nat, region) omap"
  st_xwaylandScale :: int
  st_pendingShmReleases :: "(nat, nat) omap"
  st_commitTimers :: "(nat, nat) omap"
  st_viewports :: "(nat, nat) omap"
  st_tearingControls :: "(nat, nat) omap"

abbreviation set_surface :: "nat \<Rightarrow> surface \<Rightarrow> surface_state \<Rightarrow> surface_state" where
  "set_surface r s st \<equiv> st\<lparr>st_surfaces := oset r s (st_surfaces st)\<rparr>"

abbreviation set_pending :: "nat \<Rightarrow> surface \<Rightarrow> pending_state \<Rightarrow> surface_state \<Rightarrow> surface_state" where
  "set_pending r s p st \<equiv> set_surface r (s\<lparr>sf_pending := p\<rparr>) st"

section \<open>Requests on a surface\<close>

definition MAX_PENDING_DAMAGE :: nat where
  "MAX_PENDING_DAMAGE = 64"

definition attach :: "nat \<Rightarrow> nat option \<Rightarrow> number \<Rightarrow> number \<Rightarrow> surface_state \<Rightarrow> surface_state" where
  "attach r buffer x y st =
    (case oget (st_surfaces st) r of
       None \<Rightarrow> st
     | Some s \<Rightarrow>
         (let p = (sf_pending s)\<lparr>pd_buffer := Some buffer\<rparr>
          in set_pending r s (if x \<noteq> 0 \<or> y \<noteq> 0 then p\<lparr>pd_offsetX := Some x, pd_offsetY := Some y\<rparr> else p) st))"

definition push_damage :: "rect \<Rightarrow> rect list \<Rightarrow> rect list" where
  "push_damage q ds = (if length ds < MAX_PENDING_DAMAGE then ds @ [q] else ds)"

definition damage :: "nat \<Rightarrow> rect \<Rightarrow> surface_state \<Rightarrow> surface_state" where
  "damage r q st =
    (case oget (st_surfaces st) r of
       None \<Rightarrow> st
     | Some s \<Rightarrow>
         if rw q \<le> 0 \<or> rh q \<le> 0 then st
         else set_pending r s ((sf_pending s)\<lparr>pd_surfaceDamage := push_damage q (pd_surfaceDamage (sf_pending s))\<rparr>) st)"

definition damage_buffer :: "nat \<Rightarrow> rect \<Rightarrow> surface_state \<Rightarrow> surface_state" where
  "damage_buffer r q st =
    (case oget (st_surfaces st) r of
       None \<Rightarrow> st
     | Some s \<Rightarrow>
         if rw q \<le> 0 \<or> rh q \<le> 0 then st
         else set_pending r s ((sf_pending s)\<lparr>pd_bufferDamage := push_damage q (pd_bufferDamage (sf_pending s))\<rparr>) st)"

definition frame :: "nat \<Rightarrow> nat \<Rightarrow> surface_state \<Rightarrow> surface_state" where
  "frame r callback st =
    (case oget (st_surfaces st) r of
       None \<Rightarrow> st
     | Some s \<Rightarrow> set_pending r s
         ((sf_pending s)\<lparr>pd_frameCallbacks := pd_frameCallbacks (sf_pending s) @ [callback]\<rparr>) st)"

definition snapshotRegionArg :: "surface_state \<Rightarrow> nat option \<Rightarrow> region option" where
  "snapshotRegionArg st arg =
    (case arg of
       None \<Rightarrow> None
     | Some g \<Rightarrow> (case oget (st_regions st) g of Some rg \<Rightarrow> Some (region_snapshot rg) | None \<Rightarrow> Some region_empty))"

definition set_opaque_region :: "nat \<Rightarrow> nat option \<Rightarrow> surface_state \<Rightarrow> surface_state" where
  "set_opaque_region r arg st =
    (case oget (st_surfaces st) r of
       None \<Rightarrow> st
     | Some s \<Rightarrow> set_pending r s ((sf_pending s)\<lparr>pd_opaqueRegion := Some (snapshotRegionArg st arg)\<rparr>) st)"

definition set_input_region :: "nat \<Rightarrow> nat option \<Rightarrow> surface_state \<Rightarrow> surface_state" where
  "set_input_region r arg st =
    (case oget (st_surfaces st) r of
       None \<Rightarrow> st
     | Some s \<Rightarrow> set_pending r s ((sf_pending s)\<lparr>pd_inputRegion := Some (snapshotRegionArg st arg)\<rparr>) st)"

datatype surface_error = Invalid_transform int | Invalid_scale int

definition set_buffer_transform :: "nat \<Rightarrow> int \<Rightarrow> surface_state \<Rightarrow> surface_error + surface_state" where
  "set_buffer_transform r transform st =
    (case oget (st_surfaces st) r of
       None \<Rightarrow> Inr st
     | Some s \<Rightarrow>
         if transform < 0 \<or> 7 < transform then Inl (Invalid_transform transform)
         else Inr (set_pending r s ((sf_pending s)\<lparr>pd_bufferTransform := Some transform\<rparr>) st))"

definition set_buffer_scale :: "nat \<Rightarrow> int \<Rightarrow> surface_state \<Rightarrow> surface_error + surface_state" where
  "set_buffer_scale r scale st =
    (case oget (st_surfaces st) r of
       None \<Rightarrow> Inr st
     | Some s \<Rightarrow>
         if scale < 1 then Inl (Invalid_scale scale)
         else Inr (set_pending r s ((sf_pending s)\<lparr>pd_bufferScale := Some scale\<rparr>) st))"

definition set_offset :: "nat \<Rightarrow> number \<Rightarrow> number \<Rightarrow> surface_state \<Rightarrow> surface_state" where
  "set_offset r x y st =
    (case oget (st_surfaces st) r of
       None \<Rightarrow> st
     | Some s \<Rightarrow> set_pending r s ((sf_pending s)\<lparr>pd_offsetX := Some x, pd_offsetY := Some y\<rparr>) st)"

definition presentation_feedback :: "nat \<Rightarrow> nat \<Rightarrow> surface_state \<Rightarrow> surface_state \<times> bool" where
  "presentation_feedback r callback st =
    (case oget (st_surfaces st) r of
       None \<Rightarrow> (st, True)
     | Some s \<Rightarrow> (set_pending r s
         ((sf_pending s)\<lparr>pd_presentationFeedbacks := pd_presentationFeedbacks (sf_pending s) @ [callback]\<rparr>) st, False))"

section \<open>Objects that extend a surface\<close>

text \<open>
  \<open>wp_commit_timer_v1\<close>, \<open>wp_viewport\<close> and \<open>wp_tearing_control_v1\<close>: one of each per surface, found by its
  own resource. An answer \<open>Inl\<close> is the protocol error that is posted.
\<close>

datatype object_error =
    Commit_timer_exists | Surface_destroyed | Invalid_timestamp int | Timestamp_exists
  | Viewport_exists | Bad_source | Bad_destination
  | Tearing_control_exists

abbreviation NSEC_PER_SEC :: int where
  "NSEC_PER_SEC \<equiv> 1000000000"

definition get_timer :: "nat \<Rightarrow> nat \<Rightarrow> surface_state \<Rightarrow> object_error + surface_state" where
  "get_timer i r st =
    (case oget (st_surfaces st) r of
       None \<Rightarrow> Inr st
     | Some s \<Rightarrow>
         if sf_hasCommitTimer s then Inl Commit_timer_exists
         else Inr ((set_surface r (s\<lparr>sf_hasCommitTimer := True\<rparr>) st)\<lparr>st_commitTimers := oset i r (st_commitTimers st)\<rparr>))"

text \<open>The seconds come as two 32-bit halves.\<close>

definition set_timestamp :: "nat \<Rightarrow> int \<Rightarrow> int \<Rightarrow> int \<Rightarrow> surface_state \<Rightarrow> object_error + surface_state" where
  "set_timestamp i tvSecHi tvSecLo tvNsec st =
    (case oget (st_commitTimers st) i of
       None \<Rightarrow> Inr st
     | Some r \<Rightarrow>
         (case oget (st_surfaces st) r of
            None \<Rightarrow> Inl Surface_destroyed
          | Some s \<Rightarrow>
              if sf_destroyed s then Inl Surface_destroyed
              else if tvNsec \<ge> 1000000000 then Inl (Invalid_timestamp tvNsec)
              else if pd_commitTimestamp (sf_pending s) \<noteq> None then Inl Timestamp_exists
              else
                (let sec = tvSecHi mod 2 ^ 32 * 2 ^ 32 + tvSecLo mod 2 ^ 32
                 in Inr (set_pending r s
                      ((sf_pending s)\<lparr>pd_commitTimestamp := Some (sec * NSEC_PER_SEC + tvNsec mod 2 ^ 32)\<rparr>) st))))"

definition destroy_timer :: "nat \<Rightarrow> surface_state \<Rightarrow> surface_state" where
  "destroy_timer i st =
    (let st1 = st\<lparr>st_commitTimers := odel i (st_commitTimers st)\<rparr>
     in case oget (st_commitTimers st) i of
          None \<Rightarrow> st1
        | Some r \<Rightarrow>
            (case oget (st_surfaces st1) r of
               None \<Rightarrow> st1 | Some s \<Rightarrow> set_surface r (s\<lparr>sf_hasCommitTimer := False\<rparr>) st1))"

definition get_viewport :: "nat \<Rightarrow> nat \<Rightarrow> surface_state \<Rightarrow> object_error + surface_state" where
  "get_viewport i r st =
    (case oget (st_surfaces st) r of
       None \<Rightarrow> Inr st
     | Some s \<Rightarrow>
         if sf_hasViewport s then Inl Viewport_exists
         else Inr ((set_surface r (s\<lparr>sf_hasViewport := True\<rparr>) st)\<lparr>st_viewports := oset i r (st_viewports st)\<rparr>))"

definition destroy_viewport :: "nat \<Rightarrow> surface_state \<Rightarrow> surface_state" where
  "destroy_viewport i st =
    (let st1 = st\<lparr>st_viewports := odel i (st_viewports st)\<rparr>
     in case oget (st_viewports st) i of
          None \<Rightarrow> st1
        | Some r \<Rightarrow>
            (case oget (st_surfaces st1) r of
               None \<Rightarrow> st1
             | Some s \<Rightarrow> set_surface r (s\<lparr>sf_hasViewport := False,
                   sf_pending := (sf_pending s)\<lparr>pd_viewportSrc := Some None, pd_viewportDst := Some None\<rparr>\<rparr>) st1))"

definition surfaceOf :: "surface_state \<Rightarrow> nat \<Rightarrow> (nat \<times> surface) option" where
  "surfaceOf st viewport =
    (case oget (st_viewports st) viewport of
       None \<Rightarrow> None
     | Some r \<Rightarrow> map_option (Pair r) (oget (st_surfaces st) r))"

definition set_source :: "nat \<Rightarrow> rect \<Rightarrow> surface_state \<Rightarrow> object_error + surface_state" where
  "set_source i q st =
    (case surfaceOf st i of
       None \<Rightarrow> Inr st
     | Some (r, s) \<Rightarrow>
         if rx q = - 1 \<and> ry q = - 1 \<and> rw q = - 1 \<and> rh q = - 1
         then Inr (set_pending r s ((sf_pending s)\<lparr>pd_viewportSrc := Some None\<rparr>) st)
         else if rx q < 0 \<or> ry q < 0 \<or> rw q \<le> 0 \<or> rh q \<le> 0 then Inl Bad_source
         else Inr (set_pending r s ((sf_pending s)\<lparr>pd_viewportSrc := Some (Some q)\<rparr>) st))"

definition set_destination :: "nat \<Rightarrow> number \<Rightarrow> number \<Rightarrow> surface_state \<Rightarrow> object_error + surface_state" where
  "set_destination i w h st =
    (case surfaceOf st i of
       None \<Rightarrow> Inr st
     | Some (r, s) \<Rightarrow>
         if w = - 1 \<and> h = - 1
         then Inr (set_pending r s ((sf_pending s)\<lparr>pd_viewportDst := Some None\<rparr>) st)
         else if w \<le> 0 \<or> h \<le> 0 then Inl Bad_destination
         else Inr (set_pending r s ((sf_pending s)\<lparr>pd_viewportDst := Some (Some (w, h))\<rparr>) st))"

definition get_tearing_control :: "nat \<Rightarrow> nat \<Rightarrow> surface_state \<Rightarrow> object_error + surface_state" where
  "get_tearing_control i r st =
    (case oget (st_surfaces st) r of
       None \<Rightarrow> Inr st
     | Some s \<Rightarrow>
         if sf_hasTearingControl s then Inl Tearing_control_exists
         else Inr ((set_surface r (s\<lparr>sf_hasTearingControl := True\<rparr>) st)\<lparr>
                st_tearingControls := oset i r (st_tearingControls st)\<rparr>))"

definition set_presentation_hint :: "nat \<Rightarrow> int \<Rightarrow> surface_state \<Rightarrow> surface_state" where
  "set_presentation_hint i hint st =
    (case oget (st_tearingControls st) i of
       None \<Rightarrow> st
     | Some r \<Rightarrow>
         (case oget (st_surfaces st) r of
            None \<Rightarrow> st
          | Some s \<Rightarrow> set_pending r s ((sf_pending s)\<lparr>pd_tearingHint := Some (if hint = 1 then 1 else 0)\<rparr>) st))"

definition destroy_tearing_control :: "nat \<Rightarrow> surface_state \<Rightarrow> surface_state" where
  "destroy_tearing_control i st =
    (let st1 = st\<lparr>st_tearingControls := odel i (st_tearingControls st)\<rparr>
     in case oget (st_tearingControls st) i of
          None \<Rightarrow> st1
        | Some r \<Rightarrow>
            (case oget (st_surfaces st1) r of
               None \<Rightarrow> st1
             | Some s \<Rightarrow> set_surface r (s\<lparr>sf_hasTearingControl := False,
                   sf_pending := (sf_pending s)\<lparr>pd_tearingHint := Some 0\<rparr>\<rparr>) st1))"

section \<open>Requests on a subsurface\<close>

definition get_subsurface :: "nat \<Rightarrow> nat \<Rightarrow> nat \<Rightarrow> surface_state \<Rightarrow> surface_state" where
  "get_subsurface i surf parent st =
    (let order = (case oget (st_order st) parent of None \<Rightarrow> [] | Some l \<Rightarrow> l)
     in st\<lparr>st_subsurfaces := oset i \<lparr>ss_surface = surf, ss_parent = parent, ss_x = 0, ss_y = 0,
              ss_pendingX = 0, ss_pendingY = 0, ss_sync = True\<rparr> (st_subsurfaces st),
           st_order := oset parent (order @ [i]) (st_order st)\<rparr>)"

definition queueReorder :: "nat \<Rightarrow> order_op \<Rightarrow> surface_state \<Rightarrow> surface_state" where
  "queueReorder i oper st =
    (case oget (st_subsurfaces st) i of
       None \<Rightarrow> st
     | Some s \<Rightarrow>
         (let q = (case oget (st_pendingOrder st) (ss_parent s) of None \<Rightarrow> [] | Some q \<Rightarrow> q)
          in st\<lparr>st_pendingOrder := oset (ss_parent s) (q @ [oper]) (st_pendingOrder st)\<rparr>))"

definition place_above :: "nat \<Rightarrow> nat \<Rightarrow> surface_state \<Rightarrow> surface_state" where
  "place_above i sibling = queueReorder i (Place_above i sibling)"

definition place_below :: "nat \<Rightarrow> nat \<Rightarrow> surface_state \<Rightarrow> surface_state" where
  "place_below i sibling = queueReorder i (Place_below i sibling)"

text \<open>
  \<open>destroy\<close> of a subsurface, up to the rebuild of the draw stack it ends with; the number is the
  surface the compositor drops.
\<close>

definition drop_child :: "nat \<Rightarrow> nat \<Rightarrow> (nat, nat list) omap \<Rightarrow> (nat, nat list) omap" where
  "drop_child parent i orders =
    (case oget orders parent of
       None \<Rightarrow> orders
     | Some order \<Rightarrow>
         (let order' = (case index_of i order of None \<Rightarrow> order | Some k \<Rightarrow> remove_at k order)
          in if order' = [] then odel parent orders else oset parent order' orders))"

definition destroy_subsurface :: "nat \<Rightarrow> surface_state \<Rightarrow> surface_state \<times> nat option" where
  "destroy_subsurface i st =
    (case oget (st_subsurfaces st) i of
       None \<Rightarrow> (st, None)
     | Some s \<Rightarrow>
         (let st1 = st\<lparr>st_subsurfaces := odel i (st_subsurfaces st),
                      st_order := drop_child (ss_parent s) i (st_order st)\<rparr>
          in case oget (st_surfaces st1) (ss_surface s) of
               None \<Rightarrow> (st1, None)
             | Some c \<Rightarrow> (set_surface (ss_surface s) (c\<lparr>sf_needsCompositorResync := True\<rparr>) st1, Some (sf_id c))))"

abbreviation set_sub :: "nat \<Rightarrow> subsurface \<Rightarrow> surface_state \<Rightarrow> surface_state" where
  "set_sub i s st \<equiv> st\<lparr>st_subsurfaces := oset i s (st_subsurfaces st)\<rparr>"

definition set_position :: "nat \<Rightarrow> number \<Rightarrow> number \<Rightarrow> surface_state \<Rightarrow> surface_state" where
  "set_position i x y st =
    (case oget (st_subsurfaces st) i of
       None \<Rightarrow> st | Some s \<Rightarrow> set_sub i (s\<lparr>ss_pendingX := x, ss_pendingY := y\<rparr>) st)"

definition set_sync_mode :: "bool \<Rightarrow> nat \<Rightarrow> surface_state \<Rightarrow> surface_state" where
  "set_sync_mode sync i st =
    (case oget (st_subsurfaces st) i of None \<Rightarrow> st | Some s \<Rightarrow> set_sub i (s\<lparr>ss_sync := sync\<rparr>) st)"

end
