(* ===== verification/Surface_Tree.thy ===== *)
theory Surface_Tree
  imports Surface_State
begin

text \<open>
  The subsurface forest: sibling order, the draw order of a subtree, hit testing
  (\<open>core/src/subsurfaces.ts\<close>, \<open>core/src/surface-hit-test.ts\<close>, \<open>core/src/surface-geometry.ts\<close>).

  The walks recurse from a surface to its subsurfaces and nothing in the requests keeps a client from closing a
  cycle, so they are partial functions: \<open>None\<close> is a walk that does not return.
\<close>

section \<open>Children and sibling order\<close>

definition childrenOf :: "surface_state \<Rightarrow> nat \<Rightarrow> subsurface list" where
  "childrenOf st parent =
    (case oget (st_order st) parent of
       None \<Rightarrow> []
     | Some order \<Rightarrow> List.map_filter (oget (st_subsurfaces st)) order)"

fun sibling_index :: "surface_state \<Rightarrow> nat list \<Rightarrow> nat \<Rightarrow> nat option" where
  "sibling_index st [] sibling = None"
| "sibling_index st (i # is) sibling =
     (case oget (st_subsurfaces st) i of
        Some sub \<Rightarrow> if ss_surface sub = sibling then Some 0 else map_option Suc (sibling_index st is sibling)
      | None \<Rightarrow> map_option Suc (sibling_index st is sibling))"

text \<open>
  The reference position: \<open>-1\<close> for the parent itself, \<open>None\<close> for a surface that is no child. Then the
  removal, the shift of the reference, the insertion.
\<close>

definition move_child :: "nat list \<Rightarrow> nat \<Rightarrow> nat \<Rightarrow> int \<Rightarrow> bool \<Rightarrow> nat list" where
  "move_child order subIdx i refIdx up =
    (let order' = remove_at subIdx order;
         refIdx' = (if refIdx > int subIdx then refIdx - 1 else refIdx);
         insertAt = (if up then refIdx' + 1 else if refIdx' < 0 then 0 else refIdx')
     in insert_at (nat insertAt) i order')"

definition applyOneReorder :: "surface_state \<Rightarrow> nat \<Rightarrow> nat list \<Rightarrow> order_op \<Rightarrow> nat list" where
  "applyOneReorder st parent order oper =
    (let (i, sibling, up) = (case oper of Place_above i s \<Rightarrow> (i, s, True) | Place_below i s \<Rightarrow> (i, s, False))
     in case index_of i order of
          None \<Rightarrow> order
        | Some subIdx \<Rightarrow>
            (case (if sibling = parent then Some (- 1) else map_option int (sibling_index st order sibling)) of
               None \<Rightarrow> order
             | Some refIdx \<Rightarrow> move_child order subIdx i refIdx up))"

definition applySubsurfaceReorder :: "nat \<Rightarrow> surface_state \<Rightarrow> surface_state \<times> bool" where
  "applySubsurfaceReorder parent st =
    (case oget (st_pendingOrder st) parent of
       None \<Rightarrow> (st, False)
     | Some queue \<Rightarrow>
         if queue = [] then (st, False)
         else
           (let st1 = st\<lparr>st_pendingOrder := odel parent (st_pendingOrder st)\<rparr>
            in case oget (st_order st) parent of
                 None \<Rightarrow> (st1, False)
               | Some order \<Rightarrow>
                   (st1\<lparr>st_order := oset parent (foldl (applyOneReorder st parent) order queue) (st_order st1)\<rparr>,
                    True)))"

section \<open>Walks over the forest\<close>

text \<open>A child that is drawn: its surface exists, is not destroyed and has content.\<close>

definition shown_child :: "surface_state \<Rightarrow> subsurface \<Rightarrow> surface option" where
  "shown_child st sub =
    (case oget (st_surfaces st) (ss_surface sub) of
       None \<Rightarrow> None
     | Some c \<Rightarrow> if sf_destroyed c \<or> \<not> sf_hasContent c then None else Some c)"

partial_function (option) emit_children :: "surface_state \<Rightarrow> subsurface list \<Rightarrow> nat list option" where
  "emit_children st subs =
    (case subs of
       [] \<Rightarrow> Some []
     | sub # rest \<Rightarrow>
         (case shown_child st sub of
            None \<Rightarrow> emit_children st rest
          | Some c \<Rightarrow>
              Option.bind (emit_children st (childrenOf st (ss_surface sub))) (\<lambda>below.
              Option.bind (emit_children st rest) (\<lambda>after. Some (sf_id c # below @ after)))))"

definition emitSubtreeStack :: "surface_state \<Rightarrow> nat \<Rightarrow> nat list \<Rightarrow> nat list option" where
  "emitSubtreeStack st parentRes stack = map_option (\<lambda>ids. stack @ ids) (emit_children st (childrenOf st parentRes))"

partial_function (option) collect_children :: "surface_state \<Rightarrow> subsurface list \<Rightarrow> nat list option" where
  "collect_children st subs =
    (case subs of
       [] \<Rightarrow> Some []
     | sub # rest \<Rightarrow>
         (case oget (st_surfaces st) (ss_surface sub) of
            None \<Rightarrow> collect_children st rest
          | Some c \<Rightarrow>
              Option.bind (collect_children st (childrenOf st (ss_surface sub))) (\<lambda>below.
              Option.bind (collect_children st rest) (\<lambda>after. Some (sf_id c # below @ after)))))"

definition collectSubsurfaceIds :: "surface_state \<Rightarrow> nat \<Rightarrow> nat list \<Rightarrow> nat list option" where
  "collectSubsurfaceIds st parent out = map_option (\<lambda>ids. out @ ids) (collect_children st (childrenOf st parent))"

text \<open>The tree as the compositor sees it.\<close>

fun find_surface :: "nat \<Rightarrow> (nat, surface) omap \<Rightarrow> nat option" where
  "find_surface i [] = None"
| "find_surface i ((r, s) # m) = (if sf_id s = i then Some r else find_surface i m)"

definition accessor_children :: "surface_state \<Rightarrow> nat \<Rightarrow> (nat \<times> number \<times> number) list" where
  "accessor_children st parentId =
    (case find_surface parentId (st_surfaces st) of
       None \<Rightarrow> []
     | Some r \<Rightarrow> List.map_filter (\<lambda>sub. map_option (\<lambda>c. (sf_id c, ss_x sub, ss_y sub)) (shown_child st sub))
                  (childrenOf st r))"

fun parent_of :: "nat \<Rightarrow> (nat, subsurface) omap \<Rightarrow> nat option" where
  "parent_of r [] = None"
| "parent_of r ((i, sub) # m) = (if ss_surface sub = r then Some (ss_parent sub) else parent_of r m)"

definition accessor_parent :: "surface_state \<Rightarrow> nat \<Rightarrow> nat option" where
  "accessor_parent st i =
    (case find_surface i (st_surfaces st) of
       None \<Rightarrow> None
     | Some r \<Rightarrow>
         (case parent_of r (st_subsurfaces st) of
            None \<Rightarrow> None
          | Some p \<Rightarrow> map_option sf_id (oget (st_surfaces st) p)))"

section \<open>Hit testing\<close>

definition logicalContentSize ::
  "number \<Rightarrow> number \<Rightarrow> int \<Rightarrow> int \<Rightarrow> (number \<times> number) option \<Rightarrow> number \<times> number" where
  "logicalContentSize bufferWidth bufferHeight bufferScale bufferTransform viewportDst =
    (let from_buffer =
           (let scale = (if bufferScale = 0 then 1 else bufferScale);
                rotated = (bufferTransform \<in> {1, 3, 5, 7});
                w = (if rotated then bufferHeight else bufferWidth);
                h = (if rotated then bufferWidth else bufferHeight)
            in (w / of_int scale, h / of_int scale))
     in case viewportDst of
          Some (w, h) \<Rightarrow> if 0 < w \<and> 0 < h then (w, h) else from_buffer
        | None \<Rightarrow> from_buffer)"

definition buffer_size :: "surface_state \<Rightarrow> surface \<Rightarrow> (number \<times> number) option" where
  "buffer_size st s =
    (case cm_buffer (sf_committed s) of
       None \<Rightarrow> None
     | Some buf \<Rightarrow>
         (case oget (st_buffers st) buf of
            None \<Rightarrow> None
          | Some desc \<Rightarrow>
              if bd_width desc \<le> 0 \<or> bd_height desc \<le> 0 then None
              else Some (logicalContentSize (of_int (bd_width desc)) (of_int (bd_height desc))
                     (case cm_bufferScale (sf_committed s) of None \<Rightarrow> 1 | Some k \<Rightarrow> k)
                     (case cm_bufferTransform (sf_committed s) of None \<Rightarrow> 0 | Some t \<Rightarrow> t) None)))"

definition surfaceLogicalSize :: "surface_state \<Rightarrow> surface \<Rightarrow> (number \<times> number) option" where
  "surfaceLogicalSize st s =
    (case sf_viewportDst s of
       Some (w, h) \<Rightarrow> if 0 < w \<and> 0 < h then Some (w, h) else buffer_size st s
     | None \<Rightarrow> buffer_size st s)"

definition inputRegionAccepts :: "surface \<Rightarrow> number \<Rightarrow> number \<Rightarrow> bool" where
  "inputRegionAccepts s lx ly = (case sf_inputRegion s of None \<Rightarrow> True | Some rg \<Rightarrow> region_contains rg lx ly)"

record surface_hit =
  sh_surface :: surface
  sh_rect :: rect

text \<open>The loop over the children, given topmost first.\<close>

partial_function (option) hit_children ::
  "surface_state \<Rightarrow> subsurface list \<Rightarrow> number \<Rightarrow> number \<Rightarrow> number \<Rightarrow> number \<Rightarrow> surface_hit option option" where
  "hit_children st subs parentX parentY x y =
    (case subs of
       [] \<Rightarrow> Some None
     | sub # rest \<Rightarrow>
         (case shown_child st sub of
            None \<Rightarrow> hit_children st rest parentX parentY x y
          | Some c \<Rightarrow>
              (case surfaceLogicalSize st c of
                 None \<Rightarrow> hit_children st rest parentX parentY x y
               | Some (w, h) \<Rightarrow>
                   (let cx = parentX + ss_x sub; cy = parentY + ss_y sub
                    in Option.bind (hit_children st (rev (childrenOf st (ss_surface sub))) cx cy x y) (\<lambda>deeper.
                       case deeper of
                         Some hit \<Rightarrow> Some (Some hit)
                       | None \<Rightarrow>
                           if x < cx \<or> cx + w \<le> x \<or> y < cy \<or> cy + h \<le> y
                              \<or> \<not> inputRegionAccepts c (x - cx) (y - cy)
                           then hit_children st rest parentX parentY x y
                           else Some (Some \<lparr>sh_surface = c, sh_rect = \<lparr>rx = cx, ry = cy, rw = w, rh = h\<rparr>\<rparr>))))))"

definition hitTestSubsurfaces ::
  "surface_state \<Rightarrow> nat \<Rightarrow> number \<Rightarrow> number \<Rightarrow> number \<Rightarrow> number \<Rightarrow> surface_hit option option" where
  "hitTestSubsurfaces st parentRes parentX parentY x y =
    hit_children st (rev (childrenOf st parentRes)) parentX parentY x y"

definition hitTestSurfaceTree ::
  "surface_state \<Rightarrow> nat \<Rightarrow> surface \<Rightarrow> rect \<Rightarrow> number \<Rightarrow> number \<Rightarrow> surface_hit option option" where
  "hitTestSurfaceTree st rootRes rootRec rootRect x y =
    (if sf_destroyed rootRec then Some None
     else Option.bind (hitTestSubsurfaces st rootRes (rx rootRect) (ry rootRect) x y) (\<lambda>childHit.
       case childHit of
         Some hit \<Rightarrow> Some (Some hit)
       | None \<Rightarrow>
           if x < rx rootRect \<or> rx rootRect + rw rootRect \<le> x then Some None
           else if y < ry rootRect \<or> ry rootRect + rh rootRect \<le> y then Some None
           else
             (let gx = (case sf_geometry rootRec of None \<Rightarrow> 0 | Some g \<Rightarrow> rx g);
                  gy = (case sf_geometry rootRec of None \<Rightarrow> 0 | Some g \<Rightarrow> ry g)
              in if inputRegionAccepts rootRec (x - rx rootRect + gx) (y - ry rootRect + gy)
                 then Some (Some \<lparr>sh_surface = rootRec, sh_rect = rootRect\<rparr>) else Some None)))"

section \<open>When the walks return\<close>

text \<open>A child and its parent, for every subsurface.\<close>

definition edges :: "surface_state \<Rightarrow> (nat \<times> nat) set" where
  "edges st = (\<lambda>(_, s). (ss_surface s, ss_parent s)) ` set (st_subsurfaces st)"

text \<open>The sibling lists and the subsurfaces name each other.\<close>

definition parent_at :: "surface_state \<Rightarrow> nat \<Rightarrow> nat option" where
  "parent_at st i = map_option ss_parent (oget (st_subsurfaces st) i)"

definition order_wf :: "surface_state \<Rightarrow> bool" where
  "order_wf st \<longleftrightarrow>
     distinct (okeys (st_subsurfaces st)) \<and> distinct (okeys (st_order st)) \<and>
     (\<forall>p l. oget (st_order st) p = Some l \<longrightarrow>
        distinct l \<and> l \<noteq> [] \<and> (\<forall>i \<in> set l. parent_at st i = Some p)) \<and>
     (\<forall>i p. parent_at st i = Some p \<longrightarrow> (\<exists>l. oget (st_order st) p = Some l \<and> i \<in> set l))"

lemma order_wf_lists:
  assumes "order_wf st" "oget (st_order st) p = Some l"
  shows "distinct l" "l \<noteq> []" "i \<in> set l \<Longrightarrow> parent_at st i = Some p"
  using assms unfolding order_wf_def by blast+

lemma order_wf_listed:
  "order_wf st \<Longrightarrow> parent_at st i = Some p \<Longrightarrow> \<exists>l. oget (st_order st) p = Some l \<and> i \<in> set l"
  unfolding order_wf_def by blast

lemma children_edge:
  assumes "order_wf st" "sub \<in> set (childrenOf st p)"
  shows "ss_parent sub = p" "(ss_surface sub, p) \<in> edges st"
proof -
  obtain l i where l: "oget (st_order st) p = Some l" "i \<in> set l" "oget (st_subsurfaces st) i = Some sub"
    using assms(2) by (cases "oget (st_order st) p") (auto simp: childrenOf_def List.map_filter_def)
  then have "parent_at st i = Some p" using order_wf_lists [OF assms(1)] by blast
  with l(3) show p: "ss_parent sub = p" by (simp add: parent_at_def)
  have "(i, sub) \<in> set (st_subsurfaces st)" using l(3) by (rule map_of_SomeD)
  with p show "(ss_surface sub, p) \<in> edges st" by (force simp: edges_def)
qed

lemma finite_edges: "finite (edges st)"
  by (simp add: edges_def)

text \<open>
  A walk over children that visits, for each, the children of its surface returns if the forest has no
  cycle: well-founded induction on the surfaces, then induction on the list.
\<close>

locale forest_walk =
  fixes st :: surface_state
    and walk :: "subsurface list \<Rightarrow> 'x \<Rightarrow> 'r option"
    and turn :: "subsurface list \<Rightarrow> subsurface list"
  assumes nil: "walk [] x \<noteq> None"
    and cons: "(\<And>x. walk (turn (childrenOf st (ss_surface sub))) x \<noteq> None) \<Longrightarrow> (\<And>x. walk subs x \<noteq> None) \<Longrightarrow>
      walk (sub # subs) x \<noteq> None"
    and turned: "set (turn subs) = set subs"
begin

lemma list_returns:
  "(\<And>sub x. sub \<in> set subs \<Longrightarrow> walk (turn (childrenOf st (ss_surface sub))) x \<noteq> None) \<Longrightarrow> walk subs x \<noteq> None"
proof (induction subs arbitrary: x)
  case Nil
  show ?case by (rule nil)
next
  case (Cons sub subs)
  show ?case by (rule cons) (use Cons in auto)
qed

lemma returns:
  assumes "order_wf st" "acyclic (edges st)"
  shows "walk (turn (childrenOf st p)) x \<noteq> None"
proof -
  have "wf (edges st)" using finite_edges assms(2) by (rule finite_acyclic_wf)
  then show ?thesis
  proof (induction p arbitrary: x rule: wf_induct_rule)
    case (less p)
    show ?case
    proof (rule list_returns)
      fix sub y assume "sub \<in> set (turn (childrenOf st p))"
      then have "(ss_surface sub, p) \<in> edges st" using children_edge(2) [OF assms(1)] by (simp add: turned)
      then show "walk (turn (childrenOf st (ss_surface sub))) y \<noteq> None" by (rule less)
    qed
  qed
qed

end

interpretation emit_walk: forest_walk st "\<lambda>subs _. emit_children st subs" "\<lambda>subs. subs"
  by unfold_locales (auto simp: emit_children.simps [of st "_ # _"] emit_children.simps [of st "[]"]
      split: option.split)

interpretation collect_walk: forest_walk st "\<lambda>subs _. collect_children st subs" "\<lambda>subs. subs"
  by unfold_locales (auto simp: collect_children.simps [of st "_ # _"] collect_children.simps [of st "[]"]
      split: option.split)

interpretation hit_walk: forest_walk st "\<lambda>subs (px, py). hit_children st subs px py x y" rev
proof unfold_locales
  fix sub :: subsurface and subs and p :: "number \<times> number"
  assume 1: "\<And>q. (case q of (px, py) \<Rightarrow> hit_children st (rev (childrenOf st (ss_surface sub))) px py x y) \<noteq> None"
    and 2: "\<And>q. (case q of (px, py) \<Rightarrow> hit_children st subs px py x y) \<noteq> None"
  obtain px py where p: "p = (px, py)" by (cases p)
  obtain d where "hit_children st (rev (childrenOf st (ss_surface sub))) (px + ss_x sub) (py + ss_y sub) x y = Some d"
    using 1 [of "(px + ss_x sub, py + ss_y sub)"] by auto
  then show "(case p of (px, py) \<Rightarrow> hit_children st (sub # subs) px py x y) \<noteq> None"
    using 2 [of p] by (cases d) (auto simp: p hit_children.simps [of st "_ # _"] Let_def split: option.split prod.split)
qed (auto simp: hit_children.simps [of st "[]"])

section \<open>The draw order with places\<close>

text \<open>
  The reference for hit testing: what the compositor draws of a subtree, bottom to top, each surface with
  the rectangle it is drawn in (the parent's corner plus its offset, the size of its content).
\<close>

record placed =
  pl_surface :: surface
  pl_rect :: rect

partial_function (option) placed_children ::
  "surface_state \<Rightarrow> subsurface list \<Rightarrow> number \<Rightarrow> number \<Rightarrow> placed list option" where
  "placed_children st subs px py =
    (case subs of
       [] \<Rightarrow> Some []
     | sub # rest \<Rightarrow>
         (case shown_child st sub of
            None \<Rightarrow> placed_children st rest px py
          | Some c \<Rightarrow>
              (case surfaceLogicalSize st c of
                 None \<Rightarrow> placed_children st rest px py
               | Some (w, h) \<Rightarrow>
                   Option.bind (placed_children st (childrenOf st (ss_surface sub)) (px + ss_x sub) (py + ss_y sub)) (\<lambda>below.
                   Option.bind (placed_children st rest px py) (\<lambda>after.
                   Some (\<lparr>pl_surface = c, pl_rect = \<lparr>rx = px + ss_x sub, ry = py + ss_y sub, rw = w, rh = h\<rparr>\<rparr> # below @ after))))))"

interpretation placed_walk: forest_walk st "\<lambda>subs (px, py). placed_children st subs px py" "\<lambda>subs. subs"
proof unfold_locales
  fix sub :: subsurface and subs and p :: "number \<times> number"
  assume 1: "\<And>q. (case q of (px, py) \<Rightarrow> placed_children st (childrenOf st (ss_surface sub)) px py) \<noteq> None"
    and 2: "\<And>q. (case q of (px, py) \<Rightarrow> placed_children st subs px py) \<noteq> None"
  obtain px py where p: "p = (px, py)" by (cases p)
  obtain d where "placed_children st (childrenOf st (ss_surface sub)) (px + ss_x sub) (py + ss_y sub) = Some d"
    using 1 [of "(px + ss_x sub, py + ss_y sub)"] by auto
  then show "(case p of (px, py) \<Rightarrow> placed_children st (sub # subs) px py) \<noteq> None"
    using 2 [of p] by (auto simp: p placed_children.simps [of st "_ # _"] split: option.split prod.split)
qed (auto simp: placed_children.simps [of st "[]"])

definition accepts_at :: "number \<Rightarrow> number \<Rightarrow> placed \<Rightarrow> bool" where
  "accepts_at x y p \<longleftrightarrow> in_rect (pl_rect p) x y \<and>
     inputRegionAccepts (pl_surface p) (x - rx (pl_rect p)) (y - ry (pl_rect p))"

definition as_hit :: "placed \<Rightarrow> surface_hit" where
  "as_hit p = \<lparr>sh_surface = pl_surface p, sh_rect = pl_rect p\<rparr>"

text \<open>Every child with content has a size.\<close>

definition all_sized :: "surface_state \<Rightarrow> bool" where
  "all_sized st \<longleftrightarrow> (\<forall>(r, c) \<in> set (st_surfaces st). sf_hasContent c \<longrightarrow> surfaceLogicalSize st c \<noteq> None)"

lemma hit_append:
  "hit_children st (xs @ ys) px py x y =
     Option.bind (hit_children st xs px py x y)
       (\<lambda>r. case r of Some hit \<Rightarrow> Some (Some hit) | None \<Rightarrow> hit_children st ys px py x y)"
proof (induction xs)
  case Nil
  show ?case by (simp add: hit_children.simps [of st "[]"])
next
  case (Cons sub xs)
  show ?case
  proof (cases "hit_children st (rev (childrenOf st (ss_surface sub))) (px + ss_x sub) (py + ss_y sub) x y")
    case None
    then show ?thesis
      by (auto simp: hit_children.simps [of st "_ # _"] Cons.IH Let_def split: option.split prod.split)
  next
    case (Some r)
    then show ?thesis
      by (cases r) (auto simp: hit_children.simps [of st "_ # _"] Cons.IH Let_def split: option.split prod.split)
  qed
qed

lemma find_append: "find P (xs @ ys) = (case find P xs of Some x \<Rightarrow> Some x | None \<Rightarrow> find P ys)"
  by (induction xs) auto

text \<open>Hit testing finds the topmost placed surface that accepts the point.\<close>

lemma hit_placed:
  assumes ret: "placed_children st subs px py = Some L"
  shows "hit_children st (rev subs) px py x y = Some (map_option as_hit (find (accepts_at x y) (rev L)))"
proof (rule placed_children.raw_induct [where P = "\<lambda>st subs px py L.
      hit_children st (rev subs) px py x y = Some (map_option as_hit (find (accepts_at x y) (rev L)))", OF _ ret])
  fix f st subs px py L
  assume IH: "\<And>st subs px py L. f st subs px py = Some L \<Longrightarrow>
      hit_children st (rev subs) px py x y = Some (map_option as_hit (find (accepts_at x y) (rev L)))"
    and eq: "(case subs of [] \<Rightarrow> Some []
      | sub # rest \<Rightarrow> (case shown_child st sub of None \<Rightarrow> f st rest px py
        | Some c \<Rightarrow> (case surfaceLogicalSize st c of None \<Rightarrow> f st rest px py
          | Some (w, h) \<Rightarrow> Option.bind (f st (childrenOf st (ss_surface sub)) (px + ss_x sub) (py + ss_y sub)) (\<lambda>below.
              Option.bind (f st rest px py) (\<lambda>after.
              Some (\<lparr>pl_surface = c, pl_rect = \<lparr>rx = px + ss_x sub, ry = py + ss_y sub, rw = w, rh = h\<rparr>\<rparr> # below @ after))))))
      = Some L"
  show "hit_children st (rev subs) px py x y = Some (map_option as_hit (find (accepts_at x y) (rev L)))"
  proof (cases subs)
    case Nil
    with eq show ?thesis by (auto simp: hit_children.simps [of st "[]"])
  next
    case (Cons sub rest)
    show ?thesis
    proof (cases "shown_child st sub = None \<or> (\<exists>c. shown_child st sub = Some c \<and> surfaceLogicalSize st c = None)")
      case True
      with eq Cons have "f st rest px py = Some L" by auto
      from IH [OF this] True Cons show ?thesis
        by (auto simp: hit_append hit_children.simps [of st "_ # _"] hit_children.simps [of st "[]"]
            split: option.split)
    next
      case False
      then obtain c w h where c: "shown_child st sub = Some c" "surfaceLogicalSize st c = Some (w, h)"
        by (cases "shown_child st sub") auto
      obtain below after where f: "f st (childrenOf st (ss_surface sub)) (px + ss_x sub) (py + ss_y sub) = Some below"
          "f st rest px py = Some after"
        and L: "L = \<lparr>pl_surface = c, pl_rect = \<lparr>rx = px + ss_x sub, ry = py + ss_y sub, rw = w, rh = h\<rparr>\<rparr> # below @ after"
        using eq Cons c by (auto simp: bind_eq_Some_conv)
      show ?thesis
        using IH [OF f(1)] IH [OF f(2)] c
        by (auto simp: Cons L hit_append find_append hit_children.simps [of st "_ # _"] hit_children.simps [of st "[]"]
            Let_def accepts_at_def in_rect_def as_hit_def not_le not_less split: option.split)
    qed
  qed
qed

text \<open>If every drawn child has a size, the placed surfaces are the drawn ones.\<close>

lemma emit_placed:
  assumes ret: "placed_children st subs px py = Some L" and sized: "all_sized st"
  shows "emit_children st subs = Some (map (\<lambda>p. sf_id (pl_surface p)) L)"
proof -
  have "all_sized st \<longrightarrow> emit_children st subs = Some (map (\<lambda>p. sf_id (pl_surface p)) L)"
  proof (rule placed_children.raw_induct [where P = "\<lambda>st subs px py L.
      all_sized st \<longrightarrow> emit_children st subs = Some (map (\<lambda>p. sf_id (pl_surface p)) L)", OF _ ret], rule impI)
    fix f st subs px py L
    assume IH: "\<And>st subs px py L. f st subs px py = Some L \<Longrightarrow>
        all_sized st \<longrightarrow> emit_children st subs = Some (map (\<lambda>p. sf_id (pl_surface p)) L)"
      and eq: "(case subs of [] \<Rightarrow> Some []
        | sub # rest \<Rightarrow> (case shown_child st sub of None \<Rightarrow> f st rest px py
          | Some c \<Rightarrow> (case surfaceLogicalSize st c of None \<Rightarrow> f st rest px py
            | Some (w, h) \<Rightarrow> Option.bind (f st (childrenOf st (ss_surface sub)) (px + ss_x sub) (py + ss_y sub)) (\<lambda>below.
                Option.bind (f st rest px py) (\<lambda>after.
                Some (\<lparr>pl_surface = c, pl_rect = \<lparr>rx = px + ss_x sub, ry = py + ss_y sub, rw = w, rh = h\<rparr>\<rparr> # below @ after))))))
        = Some L"
      and sized: "all_sized st"
    have size: False if "shown_child st sub = Some c" "surfaceLogicalSize st c = None" for sub c
      using that sized by (auto simp: shown_child_def all_sized_def split: option.splits if_splits dest!: map_of_SomeD)
    show "emit_children st subs = Some (map (\<lambda>p. sf_id (pl_surface p)) L)"
      using eq IH sized
      by (cases subs) (auto simp: emit_children.simps [of st "_ # _"] emit_children.simps [of st "[]"]
          bind_eq_Some_conv split: option.splits dest: size)
  qed
  with sized show ?thesis by simp
qed

section \<open>Sibling order\<close>

lemma sibling_index_nth:
  "sibling_index st l sib = Some m \<Longrightarrow>
     m < length l \<and> (\<exists>sub. oget (st_subsurfaces st) (l ! m) = Some sub \<and> ss_surface sub = sib)"
  by (induction l arbitrary: m) (auto split: option.splits if_splits)

lemma mset_move_child: "index_of i l = Some k \<Longrightarrow> mset (move_child l k i m up) = mset l"
  using index_of_Some_nth [of i l k] mset_remove_at [of k l] by (simp add: move_child_def Let_def)

lemma mset_applyOneReorder: "mset (applyOneReorder st p l oper) = mset l"
  by (simp add: applyOneReorder_def mset_move_child Let_def split: order_op.split option.split)

lemma mset_reorders: "mset (foldl (applyOneReorder st p) l queue) = mset l"
  by (induction queue arbitrary: l) (simp_all add: mset_applyOneReorder)

lemma remove_at_nth:
  assumes "k < length l" "m < length l" "m \<noteq> k"
  shows "remove_at k l ! (if k < m then m - 1 else m) = l ! m" "(if k < m then m - 1 else m) < length (remove_at k l)"
  using assms by (auto simp: remove_at_def nth_append min_def)

lemma insert_at_beside:
  "m < length xs \<Longrightarrow> insert_at (Suc m) i xs = take m xs @ [xs ! m, i] @ drop (Suc m) xs"
  "m < length xs \<Longrightarrow> insert_at m i xs = take m xs @ [i, xs ! m] @ drop (Suc m) xs"
  by (simp_all add: insert_at_def take_Suc_conv_app_nth Cons_nth_drop_Suc)

lemma move_child_next:
  assumes "index_of i l = Some k" "m < length l" "m \<noteq> k"
  shows "\<exists>xs ys. remove1 i l = xs @ [l ! m] @ ys \<and>
    move_child l k i (int m) up = (if up then xs @ [l ! m, i] @ ys else xs @ [i, l ! m] @ ys)"
proof -
  define r where "r = remove_at k l"
  define m' where "m' = (if k < m then m - 1 else m)"
  have k: "k < length l" using index_of_Some_nth [OF assms(1)] by simp
  have nth: "r ! m' = l ! m" "m' < length r"
    unfolding r_def m'_def by (rule remove_at_nth [OF k assms(2,3)])+
  have "nat (if up then (if int m > int k then int m - 1 else int m) + 1
      else if (if int m > int k then int m - 1 else int m) < 0 then 0
      else (if int m > int k then int m - 1 else int m)) = (if up then Suc m' else m')"
    unfolding m'_def by auto
  then have "move_child l k i (int m) up = insert_at (if up then Suc m' else m') i r"
    unfolding move_child_def Let_def r_def by simp
  moreover have "remove1 i l = take m' r @ [l ! m] @ drop (Suc m') r"
    using id_take_nth_drop [OF nth(2)] nth(1) remove_at_remove1 [OF assms(1)] by (simp add: r_def)
  ultimately show ?thesis
    using insert_at_beside [OF nth(2), of i] nth(1) by (cases up) auto
qed

section \<open>Requests keep the lists and the records together\<close>

lemma order_wf_frame:
  "order_wf st \<Longrightarrow> st_subsurfaces st' = st_subsurfaces st \<Longrightarrow> st_order st' = st_order st \<Longrightarrow> order_wf st'"
  by (simp add: order_wf_def parent_at_def)

lemma order_wfI:
  assumes "distinct (okeys (st_subsurfaces st))" "distinct (okeys (st_order st))"
    "\<And>p l. oget (st_order st) p = Some l \<Longrightarrow> distinct l \<and> l \<noteq> [] \<and> (\<forall>i \<in> set l. parent_at st i = Some p)"
    "\<And>i p. parent_at st i = Some p \<Longrightarrow> \<exists>l. oget (st_order st) p = Some l \<and> i \<in> set l"
  shows "order_wf st"
  unfolding order_wf_def using assms by blast

lemma order_wf_same_parents:
  assumes "order_wf st" "okeys (st_subsurfaces st') = okeys (st_subsurfaces st)"
    "parent_at st' = parent_at st" "st_order st' = st_order st"
  shows "order_wf st'"
  using assms by (simp add: order_wf_def)

lemma set_sub_wf:
  assumes "order_wf st" "oget (st_subsurfaces st) i = Some s" "ss_parent s' = ss_parent s"
  shows "order_wf (set_sub i s' st)"
  by (rule order_wf_same_parents [OF assms(1)])
    (use assms oget_Some_key [OF assms(2)] in \<open>auto simp: okeys_oset_present parent_at_def\<close>)

lemma set_position_wf: "order_wf st \<Longrightarrow> order_wf (set_position i x y st)"
  by (auto simp: set_position_def intro: set_sub_wf split: option.split)

lemma set_sync_wf: "order_wf st \<Longrightarrow> order_wf (set_sync_mode b i st)"
  by (auto simp: set_sync_mode_def intro: set_sub_wf split: option.split)

lemma queueReorder_wf: "order_wf st \<Longrightarrow> order_wf (queueReorder i oper st)"
  by (cases "oget (st_subsurfaces st) i") (auto simp: queueReorder_def Let_def intro: order_wf_frame)

lemma get_subsurface_wf:
  assumes "order_wf st" "i \<notin> set (okeys (st_subsurfaces st))"
  shows "order_wf (get_subsurface i surf parent st)"
proof -
  let ?st = "get_subsurface i surf parent st"
  have at: "parent_at ?st = (parent_at st)(i \<mapsto> parent)"
    by (auto simp: get_subsurface_def Let_def parent_at_def)
  have none: "parent_at st i = None" using assms(2) by (simp add: oget_None_key parent_at_def)
  have fresh: "i \<notin> set l" if "oget (st_order st) p = Some l" for p l
    using order_wf_lists(3) [OF assms(1) that] none by force
  have ord: "oget (st_order ?st) =
      (oget (st_order st))(parent \<mapsto> (case oget (st_order st) parent of None \<Rightarrow> [] | Some l \<Rightarrow> l) @ [i])"
    by (simp add: get_subsurface_def Let_def fun_eq_iff)
  have "distinct (okeys (st_subsurfaces ?st))" "distinct (okeys (st_order ?st))"
    using assms(1) by (simp_all add: get_subsurface_def Let_def order_wf_def)
  moreover have "distinct l \<and> l \<noteq> [] \<and> (\<forall>j \<in> set l. parent_at ?st j = Some p)"
    if "oget (st_order ?st) p = Some l" for p l
  proof (cases "p = parent")
    case True
    with that order_wf_lists [OF assms(1), of parent] fresh [of parent] show ?thesis
      by (cases "oget (st_order st) parent") (auto simp: ord at)
  next
    case False
    with that order_wf_lists [OF assms(1), of p l] fresh [of p l] show ?thesis by (auto simp: ord at)
  qed
  moreover have "\<exists>l. oget (st_order ?st) p = Some l \<and> j \<in> set l" if "parent_at ?st j = Some p" for j p
  proof (cases "j = i")
    case True
    with that have "p = parent" by (simp add: at)
    show ?thesis unfolding \<open>p = parent\<close> ord True by simp
  next
    case False
    with that order_wf_listed [OF assms(1), of j p] show ?thesis by (auto simp: ord at)
  qed
  ultimately show ?thesis unfolding order_wf_def by blast
qed

lemma drop_child_lookup:
  assumes "\<And>l. oget m p = Some l \<Longrightarrow> distinct l"
  shows "oget (drop_child p i m) q =
    (if q = p then (case oget m p of None \<Rightarrow> None
                    | Some l \<Rightarrow> if remove1 i l = [] then None else Some (remove1 i l))
     else oget m q)"
proof (cases "oget m p")
  case None
  then show ?thesis by (simp add: drop_child_def)
next
  case (Some l)
  have "(case index_of i l of None \<Rightarrow> l | Some k \<Rightarrow> remove_at k l) = remove1 i l"
    by (cases "i \<in> set l") (auto simp: remove_at_remove1 remove1_idem index_of_None [THEN iffD2] split: option.split)
  with Some show ?thesis by (simp add: drop_child_def Let_def)
qed

lemma destroy_subsurface_wf:
  assumes "order_wf st"
  shows "order_wf (fst (destroy_subsurface i st))"
proof (cases "oget (st_subsurfaces st) i")
  case None
  with assms show ?thesis by (simp add: destroy_subsurface_def)
next
  case (Some s)
  let ?p = "ss_parent s"
  define st' where "st' = st\<lparr>st_subsurfaces := odel i (st_subsurfaces st), st_order := drop_child ?p i (st_order st)\<rparr>"
  have at: "parent_at st' = (parent_at st)(i := None)" "parent_at st i = Some ?p"
    using Some by (auto simp: st'_def parent_at_def)
  have ord: "oget (st_order st') q =
      (if q = ?p then (case oget (st_order st) ?p of None \<Rightarrow> None
          | Some l \<Rightarrow> if remove1 i l = [] then None else Some (remove1 i l)) else oget (st_order st) q)" for q
  proof -
    have "st_order st' = drop_child ?p i (st_order st)" by (simp add: st'_def)
    moreover have "distinct l" if "oget (st_order st) ?p = Some l" for l
      using assms that by (rule order_wf_lists(1))
    ultimately show ?thesis by (simp only: drop_child_lookup)
  qed
  have keys: "distinct (okeys (st_subsurfaces st'))" "distinct (okeys (st_order st'))"
    using assms by (auto simp: st'_def order_wf_def drop_child_def Let_def split: option.split)
  have "order_wf st'"
  proof (rule order_wfI [OF keys])
    fix p l assume l: "oget (st_order st') p = Some l"
    obtain l0 where l0: "oget (st_order st) p = Some l0" "l = remove1 i l0"
    proof (cases "p = ?p")
      case True
      with l that show ?thesis by (auto simp: ord split: option.splits if_splits)
    next
      case False
      with l have "oget (st_order st) p = Some l" by (simp add: ord)
      moreover from this have "i \<notin> set l" using order_wf_lists(3) [OF assms] at(2) False by force
      ultimately show ?thesis using that [of l] by (simp add: remove1_idem)
    qed
    have "set l = set l0 - {i}" using l0 order_wf_lists(1) [OF assms l0(1)] by (simp add: set_remove1_eq)
    then show "distinct l \<and> l \<noteq> [] \<and> (\<forall>j \<in> set l. parent_at st' j = Some p)"
      using l l0 order_wf_lists [OF assms l0(1)] by (auto simp: at ord split: option.splits if_splits)
  next
    fix j p assume "parent_at st' j = Some p"
    then have "j \<noteq> i" "parent_at st j = Some p" by (auto simp: at split: if_splits)
    with order_wf_listed [OF assms] obtain l where l: "oget (st_order st) p = Some l" "j \<in> set l" by blast
    with \<open>j \<noteq> i\<close> have "j \<in> set (remove1 i l)" by (simp add: in_set_remove1)
    with l show "\<exists>l. oget (st_order st') p = Some l \<and> j \<in> set l" by (auto simp: ord)
  qed
  moreover have "st_subsurfaces (fst (destroy_subsurface i st)) = st_subsurfaces st'"
      "st_order (fst (destroy_subsurface i st)) = st_order st'"
    using Some by (simp_all add: destroy_subsurface_def Let_def st'_def split: option.split)
  ultimately show ?thesis by (rule order_wf_frame)
qed

lemma applySubsurfaceReorder_wf:
  assumes "order_wf st"
  shows "order_wf (fst (applySubsurfaceReorder p st))"
proof -
  let ?st = "fst (applySubsurfaceReorder p st)"
  have sub: "st_subsurfaces ?st = st_subsurfaces st"
    by (simp add: applySubsurfaceReorder_def Let_def split: option.split)
  have keys: "distinct (okeys (st_order ?st))"
    using assms by (simp add: applySubsurfaceReorder_def Let_def order_wf_def split: option.split)
  have ord: "\<exists>l'. oget (st_order ?st) q = Some l' \<and> mset l' = mset l" if "oget (st_order st) q = Some l" for q l
    using that by (auto simp: applySubsurfaceReorder_def Let_def mset_reorders split: option.split)
  have old: "\<exists>l. oget (st_order st) q = Some l \<and> mset l' = mset l" if "oget (st_order ?st) q = Some l'" for q l'
    using that by (auto simp: applySubsurfaceReorder_def Let_def mset_reorders split: option.splits if_splits)
  have at: "parent_at ?st = parent_at st" by (simp add: parent_at_def sub fun_eq_iff)
  show ?thesis
  proof (rule order_wfI)
    show "distinct (okeys (st_subsurfaces ?st))" using assms by (simp add: sub order_wf_def)
    show "distinct (okeys (st_order ?st))" by (rule keys)
  next
    fix q l' assume "oget (st_order ?st) q = Some l'"
    from old [OF this] obtain l where l: "oget (st_order st) q = Some l" "mset l' = mset l" by blast
    then have "set l' = set l" "distinct l' = distinct l" "(l' = []) = (l = [])"
      by (metis mset_eq_setD, metis mset_eq_imp_distinct_iff, metis mset_zero_iff)
    then show "distinct l' \<and> l' \<noteq> [] \<and> (\<forall>i \<in> set l'. parent_at ?st i = Some q)"
      using order_wf_lists [OF assms l(1)] by (simp add: at)
  next
    fix i q assume "parent_at ?st i = Some q"
    then obtain l where l: "oget (st_order st) q = Some l" "i \<in> set l"
      using order_wf_listed [OF assms] by (auto simp: at)
    with ord [OF l(1)] show "\<exists>l. oget (st_order ?st) q = Some l \<and> i \<in> set l"
      by (metis mset_eq_setD)
  qed
qed

section \<open>Properties\<close>

definition root_accepts :: "surface \<Rightarrow> rect \<Rightarrow> number \<Rightarrow> number \<Rightarrow> bool" where
  "root_accepts s q x y \<longleftrightarrow> in_rect q x y \<and>
     (let g = (case sf_geometry s of None \<Rightarrow> \<lparr>rx = 0, ry = 0, rw = 0, rh = 0\<rparr> | Some g \<Rightarrow> g)
      in inputRegionAccepts s (x - rx q + rx g) (y - ry q + ry g))"

text \<open>
  C15: Clicks land on the pixels the user sees: in a forest without a cycle whose drawn surfaces all have a size, the
  walk that fills the draw stack and the hit test return, and the hit is the last surface of the draw order, root
  first, whose rectangle holds the point and whose input region accepts it.
\<close>

theorem hit_is_topmost_drawn:
  assumes "order_wf st" "acyclic (edges st)" "all_sized st" "\<not> sf_destroyed s"
  shows "\<exists>L. placed_children st (childrenOf st r) (rx q) (ry q) = Some L \<and>
    emitSubtreeStack st r [sf_id s] = Some (sf_id s # map (\<lambda>p. sf_id (pl_surface p)) L) \<and>
    hitTestSurfaceTree st r s q x y = Some
      (case find (accepts_at x y) (rev L) of
         Some p \<Rightarrow> Some (as_hit p)
       | None \<Rightarrow> if root_accepts s q x y then Some \<lparr>sh_surface = s, sh_rect = q\<rparr> else None)"
proof -
  obtain L where L: "placed_children st (childrenOf st r) (rx q) (ry q) = Some L"
    using placed_walk.returns [OF assms(1,2), of r "(rx q, ry q)"] by auto
  moreover have "emitSubtreeStack st r [sf_id s] = Some (sf_id s # map (\<lambda>p. sf_id (pl_surface p)) L)"
    using emit_placed [OF L assms(3)] by (simp add: emitSubtreeStack_def)
  moreover have "hitTestSurfaceTree st r s q x y = Some
      (case find (accepts_at x y) (rev L) of
         Some p \<Rightarrow> Some (as_hit p)
       | None \<Rightarrow> if root_accepts s q x y then Some \<lparr>sh_surface = s, sh_rect = q\<rparr> else None)"
    using hit_placed [OF L, of x y] assms(4)
    by (auto simp: hitTestSurfaceTree_def hitTestSubsurfaces_def root_accepts_def in_rect_def Let_def
        split: option.split)
  ultimately show ?thesis by blast
qed

text \<open>Two stacked children over a root, the upper one with an empty input region.\<close>

definition sample_surface :: "nat \<Rightarrow> region option \<Rightarrow> surface" where
  "sample_surface i rg = (surface_new i No_role)\<lparr>sf_hasContent := True, sf_viewportDst := Some (50, 50), sf_inputRegion := rg\<rparr>"

definition sample_tree :: surface_state where
  "sample_tree = get_subsurface 12 7 5 (get_subsurface 11 6 5
     \<lparr>st_surfaces = [(5, sample_surface 101 None), (6, sample_surface 102 None), (7, sample_surface 103 (Some []))],
      st_subsurfaces = [], st_order = [], st_pendingOrder = [], st_buffers = [], st_regions = [],
      st_xwaylandScale = 1, st_pendingShmReleases = [], st_commitTimers = [],
      st_viewports = [], st_tearingControls = []\<rparr>)"

lemma acyclic_measure: "r \<subseteq> measure f \<Longrightarrow> acyclic r"
  by (rule acyclic_subset [OF wf_acyclic [OF wf_measure]])

lemma sample_tree_ok:
  "order_wf sample_tree" "acyclic (edges sample_tree)" "all_sized sample_tree"
proof -
  show "order_wf sample_tree"
    unfolding sample_tree_def by (intro get_subsurface_wf) (simp_all add: order_wf_def parent_at_def get_subsurface_def Let_def)
  have "edges sample_tree = {(6, 5), (7, 5)}"
    by (auto simp: edges_def sample_tree_def get_subsurface_def Let_def)
  then have "edges sample_tree \<subseteq> measure (\<lambda>r. 10 - r)" by simp
  then show "acyclic (edges sample_tree)" by (rule acyclic_measure)
  show "all_sized sample_tree"
    by (auto simp: all_sized_def sample_tree_def get_subsurface_def sample_surface_def surfaceLogicalSize_def Let_def)
qed

lemma sample_tree_children:
  "childrenOf sample_tree 5 =
     [\<lparr>ss_surface = 6, ss_parent = 5, ss_x = 0, ss_y = 0, ss_pendingX = 0, ss_pendingY = 0, ss_sync = True\<rparr>,
      \<lparr>ss_surface = 7, ss_parent = 5, ss_x = 0, ss_y = 0, ss_pendingX = 0, ss_pendingY = 0, ss_sync = True\<rparr>]"
  "childrenOf sample_tree 6 = []" "childrenOf sample_tree 7 = []"
  "ss_surface sub = 6 \<Longrightarrow> shown_child sample_tree sub = Some (sample_surface 102 None)"
  "ss_surface sub = 7 \<Longrightarrow> shown_child sample_tree sub = Some (sample_surface 103 (Some []))"
  "surfaceLogicalSize sample_tree (sample_surface i rg) = Some (50, 50)"
proof -
  have "sf_hasContent (sample_surface i rg)" "\<not> sf_destroyed (sample_surface i rg)"
    "sf_viewportDst (sample_surface i rg) = Some (50, 50)" for i rg
    by (simp_all add: sample_surface_def surface_new_def)
  note simps = this
  show "childrenOf sample_tree 5 =
     [\<lparr>ss_surface = 6, ss_parent = 5, ss_x = 0, ss_y = 0, ss_pendingX = 0, ss_pendingY = 0, ss_sync = True\<rparr>,
      \<lparr>ss_surface = 7, ss_parent = 5, ss_x = 0, ss_y = 0, ss_pendingX = 0, ss_pendingY = 0, ss_sync = True\<rparr>]"
    "childrenOf sample_tree 6 = []" "childrenOf sample_tree 7 = []"
    by (simp_all add: sample_tree_def get_subsurface_def childrenOf_def List.map_filter_def)
  show "shown_child sample_tree sub = Some (sample_surface 102 None)" if "ss_surface sub = 6"
    using that by (simp add: sample_tree_def get_subsurface_def shown_child_def simps)
  show "shown_child sample_tree sub = Some (sample_surface 103 (Some []))" if "ss_surface sub = 7"
    using that by (simp add: sample_tree_def get_subsurface_def shown_child_def simps)
  show "surfaceLogicalSize sample_tree (sample_surface i rg) = Some (50, 50)"
    by (simp add: surfaceLogicalSize_def simps)
qed

theorem hit_is_topmost_drawn_witness:
  "hitTestSurfaceTree sample_tree 5 (sample_surface 101 None) \<lparr>rx = 0, ry = 0, rw = 100, rh = 100\<rparr> 10 20 =
     Some (Some \<lparr>sh_surface = sample_surface 102 None, sh_rect = \<lparr>rx = 0, ry = 0, rw = 50, rh = 50\<rparr>\<rparr>)"
proof -
  let ?q = "\<lparr>rx = 0, ry = 0, rw = 100, rh = 100\<rparr> :: rect"
  have "placed_children sample_tree (childrenOf sample_tree 5) 0 0 = Some
      [\<lparr>pl_surface = sample_surface 102 None, pl_rect = \<lparr>rx = 0, ry = 0, rw = 50, rh = 50\<rparr>\<rparr>,
       \<lparr>pl_surface = sample_surface 103 (Some []), pl_rect = \<lparr>rx = 0, ry = 0, rw = 50, rh = 50\<rparr>\<rparr>]"
    by (simp add: placed_children.simps [of sample_tree "_ # _"] placed_children.simps [of sample_tree "[]"]
        sample_tree_children)
  moreover have "\<not> sf_destroyed (sample_surface 101 None)" by (simp add: sample_surface_def surface_new_def)
  ultimately show ?thesis
    using hit_is_topmost_drawn [OF sample_tree_ok, of "sample_surface 101 None" 5 ?q 10 20]
    by (simp add: accepts_at_def in_rect_def inputRegionAccepts_def as_hit_def sample_surface_def)
qed

text \<open>
  Nothing keeps a client from making a surface a subsurface of itself, and then no walk over the tree returns:
  neither the draw stack nor a hit test is ever computed.
\<close>

lemma emit_loop:
  assumes "childrenOf st (ss_surface sub) = [sub]" "shown_child st sub \<noteq> None"
  shows "emit_children st [sub] = None"
proof (rule ccontr)
  assume "emit_children st [sub] \<noteq> None"
  then obtain L where ret: "emit_children st [sub] = Some L" by blast
  have "st = st \<and> [sub] = [sub] \<longrightarrow> False"
  proof (rule emit_children.raw_induct [where P = "\<lambda>st' subs L. st' = st \<and> subs = [sub] \<longrightarrow> False", OF _ ret])
    fix f st' subs L
    assume IH: "\<And>st' subs L. f st' subs = Some L \<Longrightarrow> st' = st \<and> subs = [sub] \<longrightarrow> False"
      and eq: "(case subs of [] \<Rightarrow> Some [] | sub # rest \<Rightarrow> (case shown_child st' sub of None \<Rightarrow> f st' rest
        | Some c \<Rightarrow> Option.bind (f st' (childrenOf st' (ss_surface sub))) (\<lambda>below.
            Option.bind (f st' rest) (\<lambda>after. Some (sf_id c # below @ after))))) = Some L"
    have "f st [sub] = Some L' \<Longrightarrow> False" for L' using IH by blast
    with eq assms show "st' = st \<and> subs = [sub] \<longrightarrow> False"
      by (auto simp: bind_eq_Some_conv split: option.splits)
  qed
  then show False by simp
qed

definition self_child :: surface_state where
  "self_child = get_subsurface 11 1 1
     \<lparr>st_surfaces = [(1, sample_surface 101 None)], st_subsurfaces = [], st_order = [], st_pendingOrder = [],
      st_buffers = [], st_regions = [], st_xwaylandScale = 1, st_pendingShmReleases = [], st_commitTimers = [],
      st_viewports = [], st_tearingControls = []\<rparr>"

lemma self_subsurface_never_drawn: "emitSubtreeStack self_child 1 stack = None"
proof -
  let ?sub = "\<lparr>ss_surface = 1, ss_parent = 1, ss_x = 0, ss_y = 0, ss_pendingX = 0, ss_pendingY = 0, ss_sync = True\<rparr>"
  have "childrenOf self_child 1 = [?sub]" "shown_child self_child ?sub \<noteq> None"
    by (simp_all add: self_child_def get_subsurface_def childrenOf_def shown_child_def sample_surface_def
        surface_new_def List.map_filter_def)
  then show ?thesis using emit_loop [of self_child ?sub] by (simp add: emitSubtreeStack_def)
qed

text \<open>
  A queued reorder moves one subsurface right above (or below) its sibling and changes nothing else of the order.
\<close>

theorem reorder_places_next_to_sibling:
  assumes "index_of i l = Some k" "sibling_index st l sib = Some m" "m \<noteq> k" "sib \<noteq> p"
    "oper = (if up then Place_above i sib else Place_below i sib)"
  shows "\<exists>xs ys. remove1 i l = xs @ [l ! m] @ ys \<and>
    applyOneReorder st p l oper = (if up then xs @ [l ! m, i] @ ys else xs @ [i, l ! m] @ ys)"
  using move_child_next [OF assms(1) _ assms(3), of up] sibling_index_nth [OF assms(2)] assms
  by (cases up) (simp_all add: applyOneReorder_def)

theorem reorder_places_next_to_sibling_witness:
  "\<exists>xs ys. remove1 12 [11, 12] = xs @ [11] @ ys \<and>
     applyOneReorder sample_tree 5 [11, 12] (Place_below 12 6) = xs @ [12, 11] @ ys"
  using reorder_places_next_to_sibling [of 12 "[11, 12]" 1 sample_tree 6 0 5 "Place_below 12 6" False]
  by (simp add: sample_tree_def get_subsurface_def)

end
