(* ===== verification/Surface_Commit.thy ===== *)
theory Surface_Commit
  imports Surface_Tree
begin

text \<open>
  The commit of a \<open>wl_surface\<close> (\<open>core/src/protocols/wl_surface.ts\<close>): promotion of the pending state,
  the cache of a synchronized subsurface, its application with the parent, the timed queue of
  \<open>wp_commit_timer_v1\<close>.

  What the compositor and the addon answer is the argument \<open>k\<close>: whether an upload was taken, the
  sequence number of the shared-memory fast path, which buffers and callbacks are destroyed, whether a layer
  surface still waits for its first configure, the clock. Calls out are effects, in their order. The
  role handshakes that end a commit (xdg configure, cursor, layer shell) are one effect, \<open>Role_commit\<close>.
  A walk that does not return (a cycle of subsurfaces) is \<open>None\<close>.
\<close>

section \<open>Environment and effects\<close>

record sink =
  sk_dmabuf :: "nat \<Rightarrow> nat \<Rightarrow> bool"
  sk_fastSeq :: "nat \<Rightarrow> nat \<Rightarrow> nat"
  sk_shm :: "nat \<Rightarrow> nat \<Rightarrow> bool"
  sk_gone :: "nat \<Rightarrow> bool"
  sk_layerInitial :: "nat \<Rightarrow> bool"
  sk_nowNs :: int

datatype commit_effect =
    SetOpaque nat bool
  | UploadDmabuf nat nat "sync_point option" "rect list option"
  | UploadShm nat nat "rect list option"
  | SetReleasePoint nat sync_point
  | SendRelease nat
  | SignalPoint sync_point
  | PushScale nat int
  | PushTransform nat int
  | PushGeometry nat "rect option"
  | PushTearing nat bool
  | PushViewport nat "(number \<times> number) option" "rect option"
  | Discarded nat
  | ArmTimer nat int
  | Wake
  | RebuildStack
  | DetachRole nat
  | Role_commit nat

section \<open>Synchronization\<close>

partial_function (option) effectiveSync :: "surface_state \<Rightarrow> nat \<Rightarrow> bool option" where
  "effectiveSync st r =
    (case List.find (\<lambda>(i, sub). ss_surface sub = r) (st_subsurfaces st) of
       None \<Rightarrow> Some False
     | Some (i, sub) \<Rightarrow>
         if ss_sync sub then Some True
         else (case oget (st_surfaces st) (ss_parent sub) of
                 None \<Rightarrow> Some False
               | Some p \<Rightarrow> effectiveSync st (ss_parent sub)))"

declare effectiveSync.simps [code]

section \<open>Uploading a buffer\<close>

definition MAX_DAMAGE_RECTS :: nat where
  "MAX_DAMAGE_RECTS = 16"

definition clipDamageRect :: "rect \<Rightarrow> number \<Rightarrow> number \<Rightarrow> rect option" where
  "clipDamageRect r w h =
    (let x0 = max 0 (of_int \<lfloor>rx r\<rfloor>); y0 = max 0 (of_int \<lfloor>ry r\<rfloor>);
         x1 = min w (of_int \<lceil>rx r + rw r\<rceil>); y1 = min h (of_int \<lceil>ry r + rh r\<rceil>)
     in if x1 \<le> x0 \<or> y1 \<le> y0 then None
        else Some \<lparr>rx = x0, ry = y0, rw = x1 - x0, rh = y1 - y0\<rparr>)"

definition scale_rect :: "number \<Rightarrow> rect \<Rightarrow> rect" where
  "scale_rect k r = \<lparr>rx = rx r * k, ry = ry r * k, rw = rw r * k, rh = rh r * k\<rparr>"

definition reconcileBufferDamage :: "surface \<Rightarrow> number \<Rightarrow> number \<Rightarrow> rect list option" where
  "reconcileBufferDamage s bufW bufH =
    (let sd = cm_surfaceDamage (sf_committed s); bd = cm_bufferDamage (sf_committed s)
     in if sd = [] \<and> bd = [] then None
        else
          (let out = List.map_filter (\<lambda>r. clipDamageRect r bufW bufH) bd;
               transform = (case cm_bufferTransform (sf_committed s) of None \<Rightarrow> 0 | Some t \<Rightarrow> t);
               vpSrc = (case pd_viewportSrc (sf_pending s) of Some v \<Rightarrow> v | None \<Rightarrow> sf_viewportSrc s);
               vpDst = (case pd_viewportDst (sf_pending s) of Some v \<Rightarrow> v | None \<Rightarrow> sf_viewportDst s);
               scale = (case cm_bufferScale (sf_committed s) of None \<Rightarrow> 1 | Some n \<Rightarrow> n)
           in if sd \<noteq> [] \<and> (transform \<noteq> 0 \<or> vpSrc \<noteq> None \<or> vpDst \<noteq> None) then None
              else
                (let out = out @ List.map_filter (\<lambda>r. clipDamageRect (scale_rect (of_int scale) r) bufW bufH) sd
                 in if out = [] \<or> length out > MAX_DAMAGE_RECTS then None else Some out)))"

definition promoteSyncobjForCommit ::
  "surface_state \<Rightarrow> sync_point option \<Rightarrow> sync_point option \<Rightarrow> surface \<Rightarrow> surface" where
  "promoteSyncobjForCommit st acq rel s =
    (case (case cm_buffer (sf_committed s) of None \<Rightarrow> None | Some b \<Rightarrow> oget (st_buffers st) b) of
       None \<Rightarrow> s
     | Some desc \<Rightarrow>
         if \<not> bd_dmabuf desc then s
         else
           (let s1 = (if acq \<noteq> None then s\<lparr>sf_acquireForUpload := acq\<rparr> else s)
            in if rel \<noteq> None
               then s1\<lparr>sf_committed := (sf_committed s1)\<lparr>cm_syncobjRelease := rel\<rparr>\<rparr> else s1))"

definition releaseSupersededCachedBuffer :: "sink \<Rightarrow> surface \<Rightarrow> surface \<times> commit_effect list" where
  "releaseSupersededCachedBuffer k s =
    (case sf_cached s of
       None \<Rightarrow> (s, [])
     | Some c \<Rightarrow>
         if \<not> ca_bufferFresh c then (s, [])
         else
           (s\<lparr>sf_cached := Some (c\<lparr>ca_syncobjAcquire := None, ca_syncobjRelease := None\<rparr>)\<rparr>,
            (case ca_syncobjRelease c of None \<Rightarrow> [] | Some p \<Rightarrow> [SignalPoint p]) @
            (case ca_buffer c of
               Some (Some old) \<Rightarrow> if \<not> sk_gone k old \<and> Some old \<noteq> cm_buffer (sf_committed s) then [SendRelease old] else []
             | _ \<Rightarrow> [])))"

text \<open>
  The dmabuf path takes the acquire point and the release point; the shared-memory path releases the buffer
  at once, or when the fast path's sequence number comes back.
\<close>

definition upload_dmabuf :: "sink \<Rightarrow> surface \<Rightarrow> nat \<Rightarrow> buffer_desc \<Rightarrow> surface \<times> commit_effect list" where
  "upload_dmabuf k s buffer desc =
    (let fence = sf_acquireForUpload s;
         rel = cm_syncobjRelease (sf_committed s);
         s1 = s\<lparr>sf_acquireForUpload := None,
                sf_committed := (sf_committed s)\<lparr>cm_syncobjRelease := None\<rparr>\<rparr>;
         dmg = reconcileBufferDamage s1 (of_int (bd_width desc)) (of_int (bd_height desc))
     in (if sk_dmabuf k (sf_id s) buffer then s1\<lparr>sf_hasContent := True\<rparr> else s1,
         (case rel of None \<Rightarrow> [] | Some p \<Rightarrow> [SetReleasePoint buffer p]) @ [UploadDmabuf (sf_id s) buffer fence dmg]))"

definition upload_shm ::
  "sink \<Rightarrow> surface \<Rightarrow> nat \<Rightarrow> buffer_desc \<Rightarrow> (nat, nat) omap \<Rightarrow> surface \<times> (nat, nat) omap \<times> commit_effect list" where
  "upload_shm k s buffer desc releases =
    (let dmg = reconcileBufferDamage s (of_int (bd_width desc)) (of_int (bd_height desc));
         fastSeq = sk_fastSeq k (sf_id s) buffer
     in if fastSeq > 0
        then (s\<lparr>sf_hasContent := True\<rparr>, oset fastSeq buffer releases, [UploadShm (sf_id s) buffer dmg])
        else if sk_shm k (sf_id s) buffer
        then (s\<lparr>sf_hasContent := True\<rparr>, releases, [UploadShm (sf_id s) buffer dmg, SendRelease buffer])
        else (s, releases, [UploadShm (sf_id s) buffer dmg]))"

definition opaque_format :: "buffer_desc \<Rightarrow> bool" where
  "opaque_format desc = (if bd_dmabuf desc then bd_format desc mod 256 = 88 else bd_format desc = 1)"

definition uploadBuffer :: "sink \<Rightarrow> nat \<Rightarrow> surface \<Rightarrow> nat option \<Rightarrow> surface_state \<Rightarrow> surface_state \<times> commit_effect list" where
  "uploadBuffer k r s buffer st =
    (case buffer of
       None \<Rightarrow> (set_surface r s st, [])
     | Some b \<Rightarrow>
         if sk_gone k b then (set_surface r s st, [])
         else
           (case oget (st_buffers st) b of
              None \<Rightarrow> (set_surface r s st, [])
            | Some desc \<Rightarrow>
                (let opq = SetOpaque (sf_id s) (opaque_format desc)
                 in if bd_dmabuf desc \<and> bd_fd desc
                    then (let (s', fx) = upload_dmabuf k s b desc in (set_surface r s' st, opq # fx))
                    else if bd_poolId desc \<noteq> 0
                    then (let (s', releases, fx) = upload_shm k s b desc (st_pendingShmReleases st)
                          in ((set_surface r s' st)\<lparr>st_pendingShmReleases := releases\<rparr>, opq # fx))
                    else (set_surface r s st, [opq]))))"

section \<open>Applying one surface\<close>

definition apply_feedbacks :: "sink \<Rightarrow> surface \<Rightarrow> surface \<times> commit_effect list" where
  "apply_feedbacks k s =
    (s\<lparr>sf_presentationFeedbacks := pd_presentationFeedbacks (sf_pending s),
       sf_pending := (sf_pending s)\<lparr>pd_presentationFeedbacks := []\<rparr>\<rparr>,
     map Discarded (filter (\<lambda>cb. \<not> sk_gone k cb) (sf_presentationFeedbacks s)))"

text \<open>After the upload: scale and geometry, frame callbacks, feedbacks, regions, tearing, viewport.\<close>

definition apply_slots :: "sink \<Rightarrow> int \<Rightarrow> surface \<Rightarrow> surface \<times> commit_effect list" where
  "apply_slots k xscale s0 =
    (let s1 = s0\<lparr>sf_committed := (sf_committed s0)\<lparr>cm_surfaceDamage := [], cm_bufferDamage := []\<rparr>\<rparr>;
         s2 = (if sf_role s1 = Xwayland \<and> xscale \<noteq> 1
               then s1\<lparr>sf_committed := (sf_committed s1)\<lparr>cm_bufferScale := Some xscale\<rparr>\<rparr> else s1);
         fx1 = [PushScale (sf_id s2) (case cm_bufferScale (sf_committed s2) of None \<Rightarrow> 1 | Some n \<Rightarrow> n),
                PushTransform (sf_id s2) (case cm_bufferTransform (sf_committed s2) of None \<Rightarrow> 0 | Some t \<Rightarrow> t),
                PushGeometry (sf_id s2) (sf_geometry s2)];
         s3 = s2\<lparr>sf_frameCallbacks := sf_frameCallbacks s2 @ pd_frameCallbacks (sf_pending s2),
                 sf_pending := (sf_pending s2)\<lparr>pd_frameCallbacks := []\<rparr>\<rparr>;
         (s4, fx2) = apply_feedbacks k s3;
         p = sf_pending s4;
         s5 = s4\<lparr>sf_inputRegion := (case pd_inputRegion p of Some v \<Rightarrow> v | None \<Rightarrow> sf_inputRegion s4),
                 sf_opaqueRegion := (case pd_opaqueRegion p of Some v \<Rightarrow> v | None \<Rightarrow> sf_opaqueRegion s4),
                 sf_tearingHint := (case pd_tearingHint p of Some v \<Rightarrow> Some v | None \<Rightarrow> sf_tearingHint s4),
                 sf_viewportSrc := (case pd_viewportSrc p of Some v \<Rightarrow> v | None \<Rightarrow> sf_viewportSrc s4),
                 sf_viewportDst := (case pd_viewportDst p of Some v \<Rightarrow> v | None \<Rightarrow> sf_viewportDst s4),
                 sf_pending := p\<lparr>pd_inputRegion := None, pd_opaqueRegion := None, pd_tearingHint := None,
                                 pd_viewportSrc := None, pd_viewportDst := None\<rparr>\<rparr>;
         fx3 = (if sf_needsCompositorResync s4 \<or> pd_tearingHint p \<noteq> None
                then [PushTearing (sf_id s5) (sf_tearingHint s5 = Some 1)] else []);
         fx4 = (if sf_needsCompositorResync s4 \<or> pd_viewportSrc p \<noteq> None \<or> pd_viewportDst p \<noteq> None
                then [PushViewport (sf_id s5) (sf_viewportDst s5) (sf_viewportSrc s5)] else [])
     in (s5\<lparr>sf_needsCompositorResync := False\<rparr>, fx1 @ fx2 @ fx3 @ fx4))"

text \<open>Everything of \<open>applySurfaceState\<close> before the loop over the children.\<close>

definition apply_own ::
  "sink \<Rightarrow> nat \<Rightarrow> surface \<Rightarrow> bool \<Rightarrow> surface_state \<Rightarrow> surface_state \<times> commit_effect list \<times> bool" where
  "apply_own k r s bufferFresh st =
    (let (st1, fx1) = (if bufferFresh then uploadBuffer k r s (cm_buffer (sf_committed s)) st
                       else (set_surface r s st, []));
         s1 = (case oget (st_surfaces st1) r of None \<Rightarrow> s | Some x \<Rightarrow> x);
         (s2, fx2) = apply_slots k (st_xwaylandScale st1) s1;
         (st3, moved) = applySubsurfaceReorder r (set_surface r s2 st1)
     in (st3, fx1 @ fx2, moved))"

text \<open>The cached commit of a child becomes its committed and pending state.\<close>

definition flush_cache :: "cached_state \<Rightarrow> surface \<Rightarrow> surface" where
  "flush_cache c s =
    (let p = sf_pending s; m = sf_committed s
     in s\<lparr>sf_committed := m\<lparr>
            cm_buffer := (case ca_buffer c of Some (Some b) \<Rightarrow> Some b | _ \<Rightarrow> cm_buffer m),
            cm_bufferScale := (case ca_bufferScale c of Some v \<Rightarrow> Some v | None \<Rightarrow> cm_bufferScale m),
            cm_bufferTransform := (case ca_bufferTransform c of Some v \<Rightarrow> Some v | None \<Rightarrow> cm_bufferTransform m),
            cm_surfaceDamage := cm_surfaceDamage m @ ca_surfaceDamage c,
            cm_bufferDamage := cm_bufferDamage m @ ca_bufferDamage c\<rparr>,
          sf_pending := p\<lparr>
            pd_frameCallbacks := pd_frameCallbacks p @ ca_frameCallbacks c,
            pd_presentationFeedbacks := pd_presentationFeedbacks p @ ca_presentationFeedbacks c,
            pd_inputRegion := (case ca_inputRegion c of Some v \<Rightarrow> Some v | None \<Rightarrow> pd_inputRegion p),
            pd_opaqueRegion := (case ca_opaqueRegion c of Some v \<Rightarrow> Some v | None \<Rightarrow> pd_opaqueRegion p),
            pd_viewportSrc := (case ca_viewportSrc c of Some v \<Rightarrow> Some v | None \<Rightarrow> pd_viewportSrc p),
            pd_viewportDst := (case ca_viewportDst c of Some v \<Rightarrow> Some v | None \<Rightarrow> pd_viewportDst p),
            pd_tearingHint := (case ca_tearingHint c of Some v \<Rightarrow> Some v | None \<Rightarrow> pd_tearingHint p)\<rparr>,
          sf_cached := None\<rparr>)"

definition take_cache :: "surface_state \<Rightarrow> cached_state \<Rightarrow> surface \<Rightarrow> surface" where
  "take_cache st c s =
    (let s' = flush_cache c s
     in if ca_syncobjAcquire c \<noteq> None \<or> ca_syncobjRelease c \<noteq> None
        then promoteSyncobjForCommit st (ca_syncobjAcquire c) (ca_syncobjRelease c) s' else s')"

section \<open>The cascade\<close>

definition first_content :: "surface \<Rightarrow> surface_state \<Rightarrow> nat \<Rightarrow> bool" where
  "first_content s0 st r \<longleftrightarrow>
     \<not> sf_hasContent s0 \<and> (case oget (st_surfaces st) r of None \<Rightarrow> False | Some s \<Rightarrow> sf_hasContent s)"

definition apply_position :: "nat \<Rightarrow> subsurface \<Rightarrow> surface_state \<Rightarrow> surface_state" where
  "apply_position i sub st = set_sub i (sub\<lparr>ss_x := ss_pendingX sub, ss_y := ss_pendingY sub\<rparr>) st"

definition moved :: "subsurface \<Rightarrow> bool" where
  "moved sub \<longleftrightarrow> ss_x sub \<noteq> ss_pendingX sub \<or> ss_y sub \<noteq> ss_pendingY sub"

text \<open>The child of a subsurface record, when it is effectively synchronized and has a cached commit.\<close>

definition cached_child :: "surface_state \<Rightarrow> nat \<Rightarrow> (surface \<times> cached_state) option option" where
  "cached_child st r =
    (case oget (st_surfaces st) r of
       None \<Rightarrow> Some None
     | Some c \<Rightarrow>
         Option.bind (effectiveSync st r) (\<lambda>sync.
           Some (case sf_cached c of Some ca \<Rightarrow> if sync then Some (c, ca) else None | None \<Rightarrow> None)))"

partial_function (option) cascade ::
  "sink \<Rightarrow> nat \<Rightarrow> nat list \<Rightarrow> surface_state \<Rightarrow> (surface_state \<times> commit_effect list \<times> bool) option" where
  "cascade k r is st =
    (case is of
       [] \<Rightarrow> Some (st, [], False)
     | i # rest \<Rightarrow>
         (case oget (st_subsurfaces st) i of
            None \<Rightarrow> cascade k r rest st
          | Some sub \<Rightarrow>
              if ss_parent sub \<noteq> r then cascade k r rest st
              else
                (let st1 = apply_position i sub st
                 in Option.bind (cached_child st1 (ss_surface sub)) (\<lambda>child.
                    case child of
                      None \<Rightarrow>
                        Option.bind (cascade k r rest st1) (\<lambda>(st', fx, need). Some (st', fx, moved sub \<or> need))
                    | Some (c, ca) \<Rightarrow>
                        (let (st2, fx2, need2) = apply_own k (ss_surface sub) (take_cache st1 ca c) (ca_bufferFresh ca) st1
                         in Option.bind (cascade k (ss_surface sub) (okeys (st_subsurfaces st2)) st2) (\<lambda>(st3, fx3, need3).
                            Option.bind (cascade k r rest st3) (\<lambda>(st4, fx4, need4).
                            Some (st4, fx2 @ fx3 @ fx4,
                              moved sub \<or> need2 \<or> need3 \<or> first_content c st3 (ss_surface sub) \<or> need4))))))))"

declare cascade.simps [code]

definition applySurfaceState ::
  "sink \<Rightarrow> nat \<Rightarrow> surface \<Rightarrow> bool \<Rightarrow> surface_state \<Rightarrow> (surface_state \<times> commit_effect list \<times> bool) option" where
  "applySurfaceState k r s bufferFresh st =
    (let (st1, fx1, need1) = apply_own k r s bufferFresh st
     in Option.bind (cascade k r (okeys (st_subsurfaces st1)) st1) (\<lambda>(st2, fx2, need2).
        Some (st2, fx1 @ fx2, need1 \<or> need2 \<or> first_content s st2 r)))"

section \<open>One commit\<close>

text \<open>The promotion of buffer, scale, transform, offset and damage, and whether a buffer was attached.\<close>

definition promote_pending :: "surface \<Rightarrow> surface" where
  "promote_pending s =
    (let p = sf_pending s; m = sf_committed s
     in s\<lparr>sf_committed := m\<lparr>
            cm_buffer := (case pd_buffer p of Some b \<Rightarrow> b | None \<Rightarrow> cm_buffer m),
            cm_bufferScale := (case pd_bufferScale p of Some v \<Rightarrow> Some v | None \<Rightarrow> cm_bufferScale m),
            cm_bufferTransform := (case pd_bufferTransform p of Some v \<Rightarrow> Some v | None \<Rightarrow> cm_bufferTransform m),
            cm_surfaceDamage := cm_surfaceDamage m @ pd_surfaceDamage p,
            cm_bufferDamage := cm_bufferDamage m @ pd_bufferDamage p\<rparr>,
          sf_offsetDx := sf_offsetDx s + (case pd_offsetX p of None \<Rightarrow> 0 | Some x \<Rightarrow> x),
          sf_offsetDy := sf_offsetDy s + (case pd_offsetY p of None \<Rightarrow> 0 | Some y \<Rightarrow> y),
          sf_pending := p\<lparr>pd_buffer := None, pd_bufferScale := None, pd_bufferTransform := None,
            pd_offsetX := None, pd_offsetY := None, pd_surfaceDamage := [], pd_bufferDamage := []\<rparr>\<rparr>)"

text \<open>
  Promotion, the discard of a buffer that a layer surface attached before its first configure, and the
  removal of the synchronization points, which are returned.
\<close>

definition latch :: "sink \<Rightarrow> surface \<Rightarrow> surface \<times> sync_point option \<times> sync_point option" where
  "latch k s0 =
    (let s1 = promote_pending s0;
         s2 = (if sf_role s1 = Layer_surface \<and> sk_layerInitial k (sf_id s1)
               then s1\<lparr>sf_committed := (sf_committed s1)\<lparr>cm_buffer := None\<rparr>\<rparr> else s1)
     in (s2\<lparr>sf_pending := (sf_pending s2)\<lparr>pd_syncobjAcquire := None, pd_syncobjRelease := None\<rparr>\<rparr>,
         pd_syncobjAcquire (sf_pending s2), pd_syncobjRelease (sf_pending s2)))"

text \<open>The commit of a synchronized subsurface goes into the cache.\<close>

definition cache_commit ::
  "sink \<Rightarrow> bool \<Rightarrow> sync_point option \<Rightarrow> sync_point option \<Rightarrow> surface \<Rightarrow> surface \<times> commit_effect list" where
  "cache_commit k attached acq rel s0 =
    (let s1 = s0\<lparr>sf_cached := Some (case sf_cached s0 of None \<Rightarrow> cached_none | Some c \<Rightarrow> c)\<rparr>;
         (s2, fx) = (if attached then releaseSupersededCachedBuffer k s1 else (s1, []));
         c = (case sf_cached s2 of None \<Rightarrow> cached_none | Some c \<Rightarrow> c);
         m = sf_committed s2; p = sf_pending s2
     in (s2\<lparr>sf_cached := Some (c\<lparr>
              ca_buffer := Some (cm_buffer m),
              ca_bufferFresh := ca_bufferFresh c \<or> attached,
              ca_bufferScale := (case cm_bufferScale m of Some v \<Rightarrow> Some v | None \<Rightarrow> ca_bufferScale c),
              ca_bufferTransform := (case cm_bufferTransform m of Some v \<Rightarrow> Some v | None \<Rightarrow> ca_bufferTransform c),
              ca_surfaceDamage := ca_surfaceDamage c @ cm_surfaceDamage m,
              ca_bufferDamage := ca_bufferDamage c @ cm_bufferDamage m,
              ca_frameCallbacks := ca_frameCallbacks c @ pd_frameCallbacks p,
              ca_presentationFeedbacks := ca_presentationFeedbacks c @ pd_presentationFeedbacks p,
              ca_inputRegion := (case pd_inputRegion p of Some v \<Rightarrow> Some v | None \<Rightarrow> ca_inputRegion c),
              ca_opaqueRegion := (case pd_opaqueRegion p of Some v \<Rightarrow> Some v | None \<Rightarrow> ca_opaqueRegion c),
              ca_viewportSrc := (case pd_viewportSrc p of Some v \<Rightarrow> Some v | None \<Rightarrow> ca_viewportSrc c),
              ca_viewportDst := (case pd_viewportDst p of Some v \<Rightarrow> Some v | None \<Rightarrow> ca_viewportDst c),
              ca_tearingHint := (case pd_tearingHint p of Some v \<Rightarrow> Some v | None \<Rightarrow> ca_tearingHint c),
              ca_syncobjAcquire := (if acq \<noteq> None then acq else ca_syncobjAcquire c),
              ca_syncobjRelease := (if rel \<noteq> None then rel else ca_syncobjRelease c)\<rparr>),
            sf_committed := m\<lparr>cm_surfaceDamage := [], cm_bufferDamage := []\<rparr>,
            sf_pending := p\<lparr>pd_frameCallbacks := [], pd_presentationFeedbacks := [], pd_inputRegion := None,
              pd_opaqueRegion := None, pd_viewportSrc := None, pd_viewportDst := None, pd_tearingHint := None\<rparr>\<rparr>,
         fx))"

text \<open>A desynchronized commit flushes a cache that is left over, then applies.\<close>

definition flush_left_over :: "surface_state \<Rightarrow> surface \<Rightarrow> surface \<times> bool" where
  "flush_left_over st s =
    (case sf_cached s of None \<Rightarrow> (s, False) | Some c \<Rightarrow> (take_cache st c s, ca_bufferFresh c))"

definition discard_queue :: "sink \<Rightarrow> surface \<Rightarrow> surface \<times> commit_effect list" where
  "discard_queue k s =
    (s\<lparr>sf_timedCommits := []\<rparr>,
     concat (map (\<lambda>(entry, target). map Discarded (filter (\<lambda>cb. \<not> sk_gone k cb) (pd_presentationFeedbacks entry)))
               (sf_timedCommits s)))"

text \<open>
  Leaving the role: the queue is discarded; of a mapped surface the map state, the callbacks and the feedbacks go
  too. What the window manager, the compositor and the plugins are told is one effect.
\<close>

definition detachSurfaceRole :: "sink \<Rightarrow> surface \<Rightarrow> surface \<times> commit_effect list" where
  "detachSurfaceRole k s0 =
    (let (s, fx) = discard_queue k s0
     in if \<not> sf_mapped s then (s, fx)
        else
          (s\<lparr>sf_needsCompositorResync := True, sf_mapped := False, sf_frameCallbacks := [],
             sf_presentationFeedbacks := [],
             sf_pending := (sf_pending s)\<lparr>pd_frameCallbacks := [], pd_presentationFeedbacks := []\<rparr>\<rparr>,
           fx @ [DetachRole (sf_id s)] @
           map Discarded (filter (\<lambda>cb. \<not> sk_gone k cb) (sf_presentationFeedbacks s)) @
           map Discarded (filter (\<lambda>cb. \<not> sk_gone k cb) (pd_presentationFeedbacks (sf_pending s)))))"

definition unmap_if_null :: "sink \<Rightarrow> nat \<Rightarrow> surface_state \<Rightarrow> surface_state \<times> commit_effect list" where
  "unmap_if_null k r st =
    (case oget (st_surfaces st) r of
       None \<Rightarrow> (st, [])
     | Some s \<Rightarrow>
         if sf_mapped s \<and> cm_buffer (sf_committed s) = None \<and> sf_role s \<in> {Xdg_popup, Xdg_toplevel, Layer_surface}
         then (let (s', fx) = detachSurfaceRole k s in (set_surface r (s'\<lparr>sf_hasContent := False\<rparr>) st, fx))
         else (st, []))"

definition commitNow :: "sink \<Rightarrow> nat \<Rightarrow> surface \<Rightarrow> surface_state \<Rightarrow> (surface_state \<times> commit_effect list) option" where
  "commitNow k r s st =
    (let attached = (pd_buffer (sf_pending s) \<noteq> None);
         (s1, acq, rel) = latch k s
     in Option.bind (effectiveSync st r) (\<lambda>sync.
        Option.bind
          (if sync
           then (let (s2, fx) = cache_commit k attached acq rel s1 in Some (set_surface r s2 st, fx))
           else
             (let (s2, cachedFresh) = flush_left_over st s1;
                  s3 = (if acq \<noteq> None \<or> rel \<noteq> None then promoteSyncobjForCommit st acq rel s2 else s2)
              in Option.bind (applySurfaceState k r s3 (attached \<or> cachedFresh) st) (\<lambda>(st', fx, need).
                 Some (st', fx @ (if need then [RebuildStack] else [])))))
          (\<lambda>(st', fx).
            let (st'', fx') = unmap_if_null k r st' in Some (st'', fx @ fx' @ [Role_commit r]))))"

section \<open>The timed queue\<close>

definition restore_pending :: "nat \<Rightarrow> pending_state \<Rightarrow> surface_state \<Rightarrow> surface_state" where
  "restore_pending r live st =
    (case oget (st_surfaces st) r of None \<Rightarrow> st | Some s \<Rightarrow> set_pending r s live st)"

text \<open>
  The loop takes at least one entry per round, so its fuel is the length of the queue. The last component
  says whether an entry was latched.
\<close>

fun pump :: "sink \<Rightarrow> nat \<Rightarrow> nat \<Rightarrow> surface_state \<Rightarrow> (surface_state \<times> commit_effect list \<times> bool) option" where
  "pump k r 0 st = Some (st, [], False)"
| "pump k r (Suc n) st =
     (case oget (st_surfaces st) r of
        None \<Rightarrow> Some (st, [], False)
      | Some s \<Rightarrow>
          (case sf_timedCommits s of
             [] \<Rightarrow> Some (st, [], False)
           | (entry, target) # q \<Rightarrow>
               if sf_unmapped s \<or> sf_destroyed s
               then (let (s', fx) = discard_queue k s in Some (set_surface r s' st, fx, False))
               else
                 (case target of
                    Some t \<Rightarrow> if t > sk_nowNs k
                              then Some (st, [ArmTimer r ((t - sk_nowNs k) div 1000000 + 1)], False)
                              else Option.bind (commitNow k r (s\<lparr>sf_timedCommits := q, sf_pending := entry\<rparr>) st)
                                     (\<lambda>(st1, fx1). Option.bind (pump k r n (restore_pending r (sf_pending s) st1))
                                       (\<lambda>(st2, fx2, _). Some (st2, fx1 @ fx2, True)))
                  | None \<Rightarrow> Option.bind (commitNow k r (s\<lparr>sf_timedCommits := q, sf_pending := entry\<rparr>) st)
                              (\<lambda>(st1, fx1). Option.bind (pump k r n (restore_pending r (sf_pending s) st1))
                                (\<lambda>(st2, fx2, _). Some (st2, fx1 @ fx2, True))))))"

definition pumpTimedCommits :: "sink \<Rightarrow> nat \<Rightarrow> surface_state \<Rightarrow> (surface_state \<times> commit_effect list) option" where
  "pumpTimedCommits k r st =
    (let n = (case oget (st_surfaces st) r of None \<Rightarrow> 0 | Some s \<Rightarrow> length (sf_timedCommits s))
     in Option.bind (pump k r n st) (\<lambda>(st', fx, latched). Some (st', fx @ (if latched then [Wake] else []))))"

definition commit :: "sink \<Rightarrow> nat \<Rightarrow> surface_state \<Rightarrow> (surface_state \<times> commit_effect list) option" where
  "commit k r st =
    (case oget (st_surfaces st) r of
       None \<Rightarrow> Some (st, [])
     | Some s0 \<Rightarrow>
         (let target = pd_commitTimestamp (sf_pending s0);
              s = s0\<lparr>sf_pending := (sf_pending s0)\<lparr>pd_commitTimestamp := None\<rparr>\<rparr>
          in if sf_timedCommits s \<noteq> [] \<or> (case target of None \<Rightarrow> False | Some t \<Rightarrow> t > sk_nowNs k)
             then pumpTimedCommits k r
                    (set_surface r (s\<lparr>sf_timedCommits := sf_timedCommits s @ [(sf_pending s, target)],
                                       sf_pending := pending_none\<rparr>) st)
             else commitNow k r s st))"

text \<open>\<open>destroy\<close> of the surface: the teardown, once, and the record goes.\<close>

definition destroy_surface :: "sink \<Rightarrow> nat \<Rightarrow> surface_state \<Rightarrow> surface_state \<times> commit_effect list" where
  "destroy_surface k r st =
    (case oget (st_surfaces st) r of
       None \<Rightarrow> (st\<lparr>st_surfaces := odel r (st_surfaces st)\<rparr>, [])
     | Some s \<Rightarrow>
         (st\<lparr>st_surfaces := odel r (st_surfaces st)\<rparr>,
          if sf_unmapped s then [] else snd (detachSurfaceRole k (s\<lparr>sf_unmapped := True\<rparr>))))"

section \<open>Sessions\<close>

datatype surf_op =
    New_surface nat nat surface_role
  | Attach nat "nat option" number number
  | Damage nat rect
  | Damage_buffer nat rect
  | Frame nat nat
  | Feedback nat nat
  | Set_opaque nat "nat option"
  | Set_input nat "nat option"
  | Set_transform nat int
  | Set_scale nat int
  | Set_offset nat number number
  | Get_subsurface nat nat nat
  | Destroy_subsurface nat
  | Set_position nat number number
  | Reorder nat order_op
  | Set_sync bool nat
  | Get_timer nat nat
  | Set_timestamp nat int int int
  | Destroy_timer nat
  | Get_viewport nat nat
  | Set_source nat rect
  | Set_destination nat number number
  | Destroy_viewport nat
  | Get_tearing nat nat
  | Set_hint nat int
  | Destroy_tearing nat
  | Commit nat
  | Destroy_surface nat

definition or_same :: "surface_state \<Rightarrow> 'e + surface_state \<Rightarrow> surface_state" where
  "or_same st e = (case e of Inl _ \<Rightarrow> st | Inr st' \<Rightarrow> st')"

text \<open>
  A session consists of requests; the timer that \<open>ArmTimer\<close> arms runs \<open>pump\<close> between them in the code, which is not an
  operation here, and a surface is created with its role. An answer of \<open>None\<close> is a request that does not return; the model
  leaves the state where it was.
\<close>

fun surf_do :: "surface_state \<Rightarrow> sink \<times> surf_op \<Rightarrow> surface_state \<times> commit_effect list option" where
  "surf_do st (k, New_surface r i role) = (set_surface r (surface_new i role) st, Some [])"
| "surf_do st (k, Attach r b x y) = (attach r b x y st, Some [])"
| "surf_do st (k, Damage r q) = (damage r q st, Some [])"
| "surf_do st (k, Damage_buffer r q) = (damage_buffer r q st, Some [])"
| "surf_do st (k, Frame r cb) = (frame r cb st, Some [])"
| "surf_do st (k, Feedback r cb) =
     (let (st', gone) = presentation_feedback r cb st in (st', Some (if gone then [Discarded cb] else [])))"
| "surf_do st (k, Set_opaque r arg) = (set_opaque_region r arg st, Some [])"
| "surf_do st (k, Set_input r arg) = (set_input_region r arg st, Some [])"
| "surf_do st (k, Set_transform r t) = (or_same st (set_buffer_transform r t st), Some [])"
| "surf_do st (k, Set_scale r n) = (or_same st (set_buffer_scale r n st), Some [])"
| "surf_do st (k, Set_offset r x y) = (set_offset r x y st, Some [])"
| "surf_do st (k, Get_subsurface i surf parent) = (get_subsurface i surf parent st, Some [])"
| "surf_do st (k, Destroy_subsurface i) = (fst (destroy_subsurface i st), Some [RebuildStack])"
| "surf_do st (k, Set_position i x y) = (set_position i x y st, Some [])"
| "surf_do st (k, Reorder i oper) = (queueReorder i oper st, Some [])"
| "surf_do st (k, Set_sync b i) = (set_sync_mode b i st, Some [])"
| "surf_do st (k, Get_timer i r) = (or_same st (get_timer i r st), Some [])"
| "surf_do st (k, Set_timestamp i hi lo ns) = (or_same st (set_timestamp i hi lo ns st), Some [])"
| "surf_do st (k, Destroy_timer i) = (destroy_timer i st, Some [])"
| "surf_do st (k, Get_viewport i r) = (or_same st (get_viewport i r st), Some [])"
| "surf_do st (k, Set_source i q) = (or_same st (set_source i q st), Some [])"
| "surf_do st (k, Set_destination i w h) = (or_same st (set_destination i w h st), Some [])"
| "surf_do st (k, Destroy_viewport i) = (destroy_viewport i st, Some [])"
| "surf_do st (k, Get_tearing i r) = (or_same st (get_tearing_control i r st), Some [])"
| "surf_do st (k, Set_hint i hint) = (set_presentation_hint i hint st, Some [])"
| "surf_do st (k, Destroy_tearing i) = (destroy_tearing_control i st, Some [])"
| "surf_do st (k, Commit r) =
     (case commit k r st of None \<Rightarrow> (st, None) | Some (st', fx) \<Rightarrow> (st', Some fx))"
| "surf_do st (k, Destroy_surface r) = (let (st', fx) = destroy_surface k r st in (st', Some fx))"

definition nothing_yet :: "(nat, buffer_desc) omap \<Rightarrow> (nat, region) omap \<Rightarrow> surface_state" where
  "nothing_yet buffers regions = \<lparr>st_surfaces = [], st_subsurfaces = [], st_order = [], st_pendingOrder = [],
     st_buffers = buffers, st_regions = regions, st_xwaylandScale = 1, st_pendingShmReleases = [], st_commitTimers = [],
      st_viewports = [], st_tearingControls = []\<rparr>"

text \<open>A sink that takes every upload, and a shared-memory buffer.\<close>

definition plain_sink :: "int \<Rightarrow> sink" where
  "plain_sink t = \<lparr>sk_dmabuf = (\<lambda>_ _. True), sk_fastSeq = (\<lambda>_ _. 0), sk_shm = (\<lambda>_ _. True),
     sk_gone = (\<lambda>_. False), sk_layerInitial = (\<lambda>_. False), sk_nowNs = t\<rparr>"

definition shm_buffer :: buffer_desc where
  "shm_buffer = \<lparr>bd_dmabuf = False, bd_fd = False, bd_poolId = 3, bd_width = 8, bd_height = 8, bd_format = 0\<rparr>"

definition at0 :: "surf_op list \<Rightarrow> (sink \<times> surf_op) list" where
  "at0 = map (Pair (plain_sink 0))"

text \<open>
  A synchronized child commits buffer 71, is switched to desynchronized and commits buffer 72: the cache, which
  is older, is written over the newer commit.
\<close>

definition stale_ops :: "surf_op list" where
  "stale_ops = [New_surface 5 105 No_role, New_surface 6 106 No_role, Get_subsurface 11 6 5,
     Attach 6 (Some 71) 0 0, Commit 6, Set_sync False 11, Attach 6 (Some 72) 0 0, Set_scale 6 2, Commit 6]"

section \<open>What applying keeps\<close>

text \<open>The forest without positions, and which surfaces exist.\<close>

definition shape :: "surface_state \<Rightarrow> (nat \<times> nat \<times> nat \<times> bool) list" where
  "shape st = map (\<lambda>(i, s). (i, ss_surface s, ss_parent s, ss_sync s)) (st_subsurfaces st)"

definition present :: "surface_state \<Rightarrow> nat \<Rightarrow> bool" where
  "present st r \<longleftrightarrow> oget (st_surfaces st) r \<noteq> None"

definition same_forest :: "surface_state \<Rightarrow> surface_state \<Rightarrow> bool" where
  "same_forest st st' \<longleftrightarrow> shape st' = shape st \<and> present st' = present st"

definition keeps :: "surface_state \<Rightarrow> surface_state \<Rightarrow> bool" where
  "keeps st st' \<longleftrightarrow> same_forest st st' \<and> (order_wf st \<longrightarrow> order_wf st')"

lemma forest_kept_refl [simp]: "keeps st st"
  by (simp add: keeps_def same_forest_def)

lemma forest_kept_trans: "keeps st st1 \<Longrightarrow> keeps st1 st2 \<Longrightarrow> keeps st st2"
  by (simp add: keeps_def same_forest_def)

lemma kept_present: "keeps st st' \<Longrightarrow> present st' r = present st r"
  by (simp add: keeps_def same_forest_def)

lemma edges_shape: "edges st = (\<lambda>(i, s, p, b). (s, p)) ` set (shape st)"
  by (force simp: edges_def shape_def)

lemma kept_edges: "keeps st st' \<Longrightarrow> edges st' = edges st"
  by (simp add: keeps_def same_forest_def edges_shape)

lemma kept_frame:
  assumes "st_subsurfaces st' = st_subsurfaces st" "st_order st' = st_order st"
    "\<And>r. (oget (st_surfaces st') r = None) = (oget (st_surfaces st) r = None)"
  shows "keeps st st'"
  using assms order_wf_frame [OF _ assms(1,2)] by (simp add: keeps_def same_forest_def shape_def present_def fun_eq_iff)

lemma kept_set_surface: "present st r \<Longrightarrow> keeps st (set_surface r s st)"
  by (rule kept_frame) (auto simp: present_def)

lemma shape_set_sub:
  assumes "oget m i = Some s" "ss_surface s' = ss_surface s" "ss_parent s' = ss_parent s" "ss_sync s' = ss_sync s"
  shows "map (\<lambda>(i, s). (i, ss_surface s, ss_parent s, ss_sync s)) (oset i s' m) =
    map (\<lambda>(i, s). (i, ss_surface s, ss_parent s, ss_sync s)) m"
  using assms(1)
proof (induction m)
  case Nil
  then show ?case by simp
next
  case (Cons a m)
  then show ?case using assms(2-) by (cases a) (auto split: if_splits)
qed

lemma kept_position:
  assumes "oget (st_subsurfaces st) i = Some sub"
  shows "keeps st (apply_position i sub st)"
proof -
  let ?sub = "sub\<lparr>ss_x := ss_pendingX sub, ss_y := ss_pendingY sub\<rparr>"
  have "shape (apply_position i sub st) = shape st"
    using shape_set_sub [OF assms, of ?sub] by (simp add: apply_position_def shape_def)
  moreover have "present (apply_position i sub st) = present st"
    by (simp add: apply_position_def present_def fun_eq_iff)
  ultimately show ?thesis
    using set_sub_wf [OF _ assms, of ?sub] by (simp add: keeps_def same_forest_def apply_position_def)
qed

lemma uploadBuffer_kept: "present st r \<Longrightarrow> keeps st (fst (uploadBuffer k r s b st))"
  by (rule kept_frame)
    (auto simp: uploadBuffer_def present_def Let_def upload_shm_def split: option.split prod.split)

lemma reorder_kept: "keeps st (fst (applySubsurfaceReorder p st))"
proof -
  have "st_subsurfaces (fst (applySubsurfaceReorder p st)) = st_subsurfaces st"
    "st_surfaces (fst (applySubsurfaceReorder p st)) = st_surfaces st"
    by (simp_all add: applySubsurfaceReorder_def Let_def split: option.split)
  then show ?thesis using applySubsurfaceReorder_wf [of st p] by (simp add: keeps_def same_forest_def shape_def present_def fun_eq_iff)
qed

lemma apply_own_steps:
  obtains st1 fx1 s1 s2 fx2 mv where
    "(if bf then uploadBuffer k r s (cm_buffer (sf_committed s)) st else (set_surface r s st, [])) = (st1, fx1)"
    "s1 = (case oget (st_surfaces st1) r of None \<Rightarrow> s | Some x \<Rightarrow> x)"
    "apply_slots k (st_xwaylandScale st1) s1 = (s2, fx2)"
    "apply_own k r s bf st = (fst (applySubsurfaceReorder r (set_surface r s2 st1)), fx1 @ fx2, mv)"
proof -
  obtain st1 fx1 where 1: "(if bf then uploadBuffer k r s (cm_buffer (sf_committed s)) st else (set_surface r s st, [])) = (st1, fx1)"
    by (cases "if bf then uploadBuffer k r s (cm_buffer (sf_committed s)) st else (set_surface r s st, [])")
  obtain s2 fx2 where 2: "apply_slots k (st_xwaylandScale st1) (case oget (st_surfaces st1) r of None \<Rightarrow> s | Some x \<Rightarrow> x) = (s2, fx2)"
    by (cases "apply_slots k (st_xwaylandScale st1) (case oget (st_surfaces st1) r of None \<Rightarrow> s | Some x \<Rightarrow> x)")
  obtain st3 mv where 3: "applySubsurfaceReorder r (set_surface r s2 st1) = (st3, mv)"
    by (cases "applySubsurfaceReorder r (set_surface r s2 st1)")
  show ?thesis by (rule that [OF 1 refl 2, of mv]) (unfold apply_own_def 1 Let_def prod.case 2 3 fst_conv, rule refl)
qed

lemma apply_own_kept: "present st r \<Longrightarrow> keeps st (fst (apply_own k r s bf st))"
proof -
  assume r: "present st r"
  obtain st1 fx1 s1 s2 fx2 mv where
    1: "(if bf then uploadBuffer k r s (cm_buffer (sf_committed s)) st else (set_surface r s st, [])) = (st1, fx1)"
    and own: "apply_own k r s bf st = (fst (applySubsurfaceReorder r (set_surface r s2 st1)), fx1 @ fx2, mv)"
    by (rule apply_own_steps)
  have st1: "keeps st st1" using 1 r uploadBuffer_kept [OF r, of k s "cm_buffer (sf_committed s)"] kept_set_surface [OF r, of s]
    by (auto split: if_splits)
  have "keeps st1 (set_surface r s2 st1)" using st1 r by (simp add: kept_set_surface kept_present)
  with st1 show ?thesis unfolding own fst_conv by (blast intro: forest_kept_trans reorder_kept)
qed

section \<open>Effective synchronization\<close>

lemma find_shape:
  "map (\<lambda>(i, s). (i, ss_surface s, ss_parent s, ss_sync s)) m' = map (\<lambda>(i, s). (i, ss_surface s, ss_parent s, ss_sync s)) m \<Longrightarrow>
   rel_option (\<lambda>(i, s) (j, t). i = j \<and> ss_surface s = ss_surface t \<and> ss_parent s = ss_parent t \<and> ss_sync s = ss_sync t)
     (List.find (\<lambda>(i, sub). ss_surface sub = r) m') (List.find (\<lambda>(i, sub). ss_surface sub = r) m)"
proof (induction m arbitrary: m')
  case Nil
  then show ?case by simp
next
  case (Cons a m)
  then show ?case by (cases m') auto
qed

lemma find_in: "List.find P xs = Some x \<Longrightarrow> x \<in> set xs \<and> P x"
  by (induction xs) (auto split: if_splits)

lemma effectiveSync_same1:
  assumes ret: "effectiveSync st r = Some b"
  shows "same_forest st st' \<Longrightarrow> effectiveSync st' r = Some b"
proof -
  have "same_forest st st' \<longrightarrow> effectiveSync st' r = Some b"
  proof (rule effectiveSync.raw_induct [where P = "\<lambda>st r b. same_forest st st' \<longrightarrow> effectiveSync st' r = Some b", OF _ ret], rule impI)
  fix f st r b
  assume IH: "\<And>st r b. f st r = Some b \<Longrightarrow> same_forest st st' \<longrightarrow> effectiveSync st' r = Some b"
    and eq: "(case List.find (\<lambda>(i, sub). ss_surface sub = r) (st_subsurfaces st) of None \<Rightarrow> Some False
     | Some (i, sub) \<Rightarrow> if ss_sync sub then Some True
         else (case oget (st_surfaces st) (ss_parent sub) of None \<Rightarrow> Some False | Some p \<Rightarrow> f st (ss_parent sub))) = Some b"
    and keeps: "same_forest st st'"
  have rel: "rel_option (\<lambda>(i, s) (j, t). i = j \<and> ss_surface s = ss_surface t \<and> ss_parent s = ss_parent t \<and> ss_sync s = ss_sync t)
     (List.find (\<lambda>(i, sub). ss_surface sub = r) (st_subsurfaces st')) (List.find (\<lambda>(i, sub). ss_surface sub = r) (st_subsurfaces st))"
    by (rule find_shape) (use keeps in \<open>simp add: same_forest_def shape_def\<close>)
  have pres: "(oget (st_surfaces st') p = None) = (oget (st_surfaces st) p = None)" for p
    using keeps unfolding same_forest_def present_def fun_eq_iff by blast
  show "effectiveSync st' r = Some b"
  proof (cases "List.find (\<lambda>(i, sub). ss_surface sub = r) (st_subsurfaces st)")
    case None
    with rel eq show ?thesis by (simp add: effectiveSync.simps [of st'])
  next
    case (Some a)
    obtain i sub where a: "a = (i, sub)" by (cases a)
    with Some rel obtain t where t: "List.find (\<lambda>(i, sub). ss_surface sub = r) (st_subsurfaces st') = Some (i, t)"
      "ss_surface t = ss_surface sub" "ss_parent t = ss_parent sub" "ss_sync t = ss_sync sub"
      by (auto simp: option_rel_Some2)
    show ?thesis using eq Some a t pres [of "ss_parent sub"] IH keeps
      by (auto simp: effectiveSync.simps [of st' r] split: option.splits if_splits)
  qed
qed
  then show "same_forest st st' \<Longrightarrow> effectiveSync st' r = Some b" by blast
qed

lemma same_forest_sym: "same_forest st st' \<Longrightarrow> same_forest st' st"
  by (simp add: same_forest_def)

lemma effectiveSync_same:
  assumes "same_forest st st'"
  shows "effectiveSync st' r = effectiveSync st r"
proof (cases "effectiveSync st r")
  case (Some b)
  with effectiveSync_same1 [OF Some assms] show ?thesis by simp
next
  case None
  then show ?thesis
    using effectiveSync_same1 [OF _ same_forest_sym [OF assms], of r] by (cases "effectiveSync st' r") auto
qed

lemma kept_forest: "keeps st st' \<Longrightarrow> same_forest st st'"
  by (simp add: keeps_def)

lemmas effectiveSync_kept = effectiveSync_same [OF kept_forest]

lemma effectiveSync_returns:
  assumes "acyclic (edges st)"
  shows "effectiveSync st r \<noteq> None"
proof -
  have "wf ((edges st)\<inverse>)" using finite_edges assms by (rule finite_acyclic_wf_converse)
  then show ?thesis
  proof (induction r rule: wf_induct_rule)
    case (less r)
    show ?case
    proof (cases "List.find (\<lambda>(i, sub). ss_surface sub = r) (st_subsurfaces st)")
      case None
      then show ?thesis by (simp add: effectiveSync.simps [of st r])
    next
      case (Some a)
      obtain i sub where a: "a = (i, sub)" by (cases a)
      with Some have "(i, sub) \<in> set (st_subsurfaces st)" "ss_surface sub = r"
        by (auto dest!: find_in)
      then have "(ss_parent sub, r) \<in> (edges st)\<inverse>" by (force simp: edges_def)
      from less.IH [OF this] Some a show ?thesis
        by (auto simp: effectiveSync.simps [of st r] split: option.split)
    qed
  qed
qed

section \<open>The cascade returns\<close>

lemma cached_child_Some:
  "cached_child st r = Some (Some (c, ca)) \<longleftrightarrow>
     oget (st_surfaces st) r = Some c \<and> sf_cached c = Some ca \<and> effectiveSync st r = Some True"
  by (cases "oget (st_surfaces st) r"; cases "effectiveSync st r")
    (auto simp: cached_child_def split: option.split)

lemma cached_child_returns:
  assumes "acyclic (edges st)"
  shows "cached_child st r \<noteq> None"
proof -
  obtain b where "effectiveSync st r = Some b" using effectiveSync_returns [OF assms] by blast
  then show ?thesis by (simp add: cached_child_def split: option.split)
qed

lemma cascade_Nil [simp]: "cascade k r [] st = Some (st, [], False)"
  by (simp add: cascade.simps [of k r "[]"])

lemma oget_edge: "oget (st_subsurfaces st) i = Some sub \<Longrightarrow> (ss_surface sub, ss_parent sub) \<in> edges st"
  by (force simp: edges_def dest: map_of_SomeD)

lemma kept_own_child:
  assumes "oget (st_subsurfaces st) i = Some sub" "cached_child (apply_position i sub st) (ss_surface sub) = Some (Some (c, ca))"
  shows "keeps st (fst (apply_own k (ss_surface sub) s bf (apply_position i sub st)))"
proof -
  have "present (apply_position i sub st) (ss_surface sub)"
    using assms(2) by (simp add: cached_child_Some present_def)
  then show ?thesis using kept_position [OF assms(1)] by (blast intro: forest_kept_trans apply_own_kept)
qed

lemma cascade_returns:
  "acyclic E \<Longrightarrow> finite E \<Longrightarrow> edges st = E \<Longrightarrow> \<exists>st' fx need. cascade k r is st = Some (st', fx, need) \<and> keeps st st'"
proof -
  assume "acyclic E" "finite E"
  then have "wf E" by (rule finite_acyclic_wf [rotated])
  then show "edges st = E \<Longrightarrow> ?thesis"
  proof (induction r arbitrary: "is" st rule: wf_induct_rule)
    case (less r)
    then show ?case
    proof (induction "is" arbitrary: st)
      case Nil
      then show ?case by auto
    next
      case (Cons i "is")
      note deeper = Cons.prems(1)
      have rest: "\<exists>st' fx need. cascade k r is st = Some (st', fx, need) \<and> keeps st st'" if "edges st = E" for st
        by (rule Cons.IH) (use deeper that in blast)+
      show ?case
      proof (cases "oget (st_subsurfaces st) i")
        case None
        with rest [OF Cons.prems(2)] show ?thesis by (simp add: cascade.simps [of k r "_ # _"])
      next
        case (Some sub)
        note sub = Some
        show ?thesis
        proof (cases "ss_parent sub = r")
          case False
          with sub rest [OF Cons.prems(2)] show ?thesis by (simp add: cascade.simps [of k r "_ # _"])
        next
          case True
          define st1 where "st1 = apply_position i sub st"
          have k1: "keeps st st1" unfolding st1_def using sub by (rule kept_position)
          obtain child where child: "cached_child st1 (ss_surface sub) = Some child"
            using cached_child_returns [of st1 "ss_surface sub"] kept_edges [OF k1] \<open>acyclic E\<close> Cons.prems(2) by auto
          show ?thesis
          proof (cases child)
            case None
            obtain st' fx need where "cascade k r is st1 = Some (st', fx, need)" "keeps st1 st'"
              using rest [of st1] kept_edges [OF k1] Cons.prems(2) by auto
            then show ?thesis using sub True child None k1
              by (auto simp: cascade.simps [of k r "_ # _"] st1_def [symmetric] intro: forest_kept_trans)
          next
            case (Some p)
            obtain c ca where p: "p = (c, ca)" by (cases p)
            obtain st2 fx2 need2 where own: "apply_own k (ss_surface sub) (take_cache st1 ca c) (ca_bufferFresh ca) st1 = (st2, fx2, need2)"
              by (cases "apply_own k (ss_surface sub) (take_cache st1 ca c) (ca_bufferFresh ca) st1")
            have k2: "keeps st st2"
              using kept_own_child [OF sub, of c ca k "take_cache st1 ca c" "ca_bufferFresh ca"] child Some p own
              by (simp add: st1_def)
            have "(ss_surface sub, r) \<in> E" using oget_edge [OF sub] True Cons.prems(2) by simp
            from deeper [OF this, of st2 "okeys (st_subsurfaces st2)"] kept_edges [OF k2] Cons.prems(2)
            obtain st3 fx3 need3 where d: "cascade k (ss_surface sub) (okeys (st_subsurfaces st2)) st2 = Some (st3, fx3, need3)"
              "keeps st2 st3" by auto
            have k3: "keeps st st3" using k2 d(2) by (rule forest_kept_trans)
            obtain st4 fx4 need4 where "cascade k r is st3 = Some (st4, fx4, need4)" "keeps st3 st4"
              using rest [of st3] kept_edges [OF k3] Cons.prems(2) by auto
            then show ?thesis using sub True child Some p own d k3
              by (auto simp: cascade.simps [of k r "_ # _"] st1_def [symmetric] intro: forest_kept_trans)
          qed
        qed
      qed
    qed
  qed
qed

lemma applySurfaceState_returns:
  assumes "acyclic (edges st)" "present st r"
  shows "\<exists>st' fx need. applySurfaceState k r s bf st = Some (st', fx, need) \<and> keeps st st'"
proof -
  obtain st1 fx1 need1 where own: "apply_own k r s bf st = (st1, fx1, need1)"
    by (cases "apply_own k r s bf st")
  have k1: "keeps st st1" using apply_own_kept [OF assms(2), of k s bf] own by simp
  obtain st2 fx2 need2 where "cascade k r (okeys (st_subsurfaces st1)) st1 = Some (st2, fx2, need2)" "keeps st1 st2"
    using cascade_returns [OF assms(1) finite_edges kept_edges [OF k1]] by blast
  then show ?thesis using own k1 by (auto simp: applySurfaceState_def intro: forest_kept_trans)
qed

lemma unmap_if_null_kept: "keeps st (fst (unmap_if_null k r st))"
  by (rule kept_frame) (auto simp: unmap_if_null_def Let_def split: option.split prod.split)

lemma commitNow_returns:
  assumes "acyclic (edges st)" "present st r"
  shows "\<exists>st' fx. commitNow k r s st = Some (st', fx) \<and> keeps st st'"
proof -
  obtain s1 acq rel where l: "latch k s = (s1, acq, rel)" by (cases "latch k s")
  obtain sync where sync: "effectiveSync st r = Some sync" using effectiveSync_returns [OF assms(1)] by blast
  define body where "body = (if sync
           then (let (s2, fx) = cache_commit k (pd_buffer (sf_pending s) \<noteq> None) acq rel s1 in Some (set_surface r s2 st, fx))
           else
             (let (s2, cachedFresh) = flush_left_over st s1;
                  s3 = (if acq \<noteq> None \<or> rel \<noteq> None then promoteSyncobjForCommit st acq rel s2 else s2)
              in Option.bind (applySurfaceState k r s3 (pd_buffer (sf_pending s) \<noteq> None \<or> cachedFresh) st) (\<lambda>(st', fx, need).
                 Some (st', fx @ (if need then [RebuildStack] else [])))))"
  have "\<exists>st' fx. body = Some (st', fx) \<and> keeps st st'"
  proof (cases sync)
    case True
    then show ?thesis using assms(2)
      by (cases "cache_commit k (pd_buffer (sf_pending s) \<noteq> None) acq rel s1") (simp add: body_def kept_set_surface)
  next
    case False
    obtain s2 fresh where fl: "flush_left_over st s1 = (s2, fresh)" by (cases "flush_left_over st s1")
    show ?thesis
      using False fl applySurfaceState_returns [OF assms, of k "if acq \<noteq> None \<or> rel \<noteq> None then promoteSyncobjForCommit st acq rel s2 else s2"
          "pd_buffer (sf_pending s) \<noteq> None \<or> fresh"]
      by (auto simp: body_def Let_def)
  qed
  then obtain st1 fx1 where b: "body = Some (st1, fx1)" "keeps st st1" by blast
  have "commitNow k r s st = Option.bind body (\<lambda>(st', fx).
            let (st'', fx') = unmap_if_null k r st' in Some (st'', fx @ fx' @ [Role_commit r]))"
    unfolding commitNow_def l Let_def prod.case sync Option.bind.simps body_def by (rule refl)
  with b show ?thesis using unmap_if_null_kept [of st1 k r]
    by (cases "unmap_if_null k r st1") (auto intro: forest_kept_trans)
qed

lemma restore_pending_kept: "keeps st (restore_pending r live st)"
  by (rule kept_frame) (auto simp: restore_pending_def split: option.split)

text \<open>One round of the loop: the head of the queue is committed and the live pending state put back.\<close>

definition latch_head :: "sink \<Rightarrow> nat \<Rightarrow> surface \<Rightarrow> pending_state \<Rightarrow> (pending_state \<times> int option) list \<Rightarrow>
    surface_state \<Rightarrow> (surface_state \<times> commit_effect list) option" where
  "latch_head k r s entry q st =
    Option.bind (commitNow k r (s\<lparr>sf_timedCommits := q, sf_pending := entry\<rparr>) st)
      (\<lambda>(st1, fx1). Some (restore_pending r (sf_pending s) st1, fx1))"

lemma pump_Suc:
  "pump k r (Suc n) st =
     (case oget (st_surfaces st) r of
        None \<Rightarrow> Some (st, [], False)
      | Some s \<Rightarrow>
          (case sf_timedCommits s of
             [] \<Rightarrow> Some (st, [], False)
           | (entry, target) # q \<Rightarrow>
               if sf_unmapped s \<or> sf_destroyed s
               then (let (s', fx) = discard_queue k s in Some (set_surface r s' st, fx, False))
               else if (case target of None \<Rightarrow> False | Some t \<Rightarrow> t > sk_nowNs k)
               then Some (st, [ArmTimer r ((the target - sk_nowNs k) div 1000000 + 1)], False)
               else Option.bind (latch_head k r s entry q st) (\<lambda>(st1, fx1).
                      Option.bind (pump k r n st1) (\<lambda>(st2, fx2, _). Some (st2, fx1 @ fx2, True)))))"
  by (simp add: latch_head_def bind_assoc split_def split: option.split list.split)

declare pump.simps(2) [simp del]

lemma latch_head_returns:
  assumes "acyclic (edges st)" "present st r"
  shows "\<exists>st' fx. latch_head k r s entry q st = Some (st', fx) \<and> keeps st st'"
  using commitNow_returns [OF assms, of k "s\<lparr>sf_timedCommits := q, sf_pending := entry\<rparr>"]
  by (auto simp: latch_head_def intro: forest_kept_trans [OF _ restore_pending_kept])

lemma pump_returns:
  "acyclic (edges st) \<Longrightarrow> \<exists>st' fx l. pump k r n st = Some (st', fx, l) \<and> keeps st st'"
proof (induction n arbitrary: st)
  case 0
  then show ?case by auto
next
  case (Suc n)
  show ?case
  proof (cases "oget (st_surfaces st) r")
    case None
    then show ?thesis by (simp add: pump_Suc) auto
  next
    case (Some s)
    then have r: "present st r" by (simp add: present_def)
    show ?thesis
    proof (cases "sf_timedCommits s")
      case Nil
      with Some show ?thesis by (auto simp: pump_Suc)
    next
      case (Cons a q)
      obtain entry target where a: "a = (entry, target)" by (cases a)
      obtain st1 fx1 where 1: "latch_head k r s entry q st = Some (st1, fx1)" "keeps st st1"
        using latch_head_returns [OF Suc.prems r] by blast
      have "acyclic (edges st1)" using 1(2) Suc.prems by (simp add: kept_edges)
      from Suc.IH [OF this] obtain st2 fx2 l where 2: "pump k r n st1 = Some (st2, fx2, l)" "keeps st1 st2" by blast
      have "keeps st st2" using 1(2) 2(2) by (rule forest_kept_trans)
      with Some Cons a 1 2 r show ?thesis
        by (auto simp: pump_Suc kept_set_surface split: prod.split)
    qed
  qed
qed

lemma pumpTimedCommits_returns:
  "acyclic (edges st) \<Longrightarrow> \<exists>st' fx. pumpTimedCommits k r st = Some (st', fx) \<and> keeps st st'"
  using pump_returns [of st k r "case oget (st_surfaces st) r of None \<Rightarrow> 0 | Some s \<Rightarrow> length (sf_timedCommits s)"]
  by (auto simp: pumpTimedCommits_def Let_def)

lemma commit_returns:
  assumes "acyclic (edges st)"
  shows "\<exists>st' fx. commit k r st = Some (st', fx) \<and> keeps st st'"
proof (cases "oget (st_surfaces st) r")
  case None
  then show ?thesis by (auto simp: commit_def)
next
  case (Some s)
  then have r: "present st r" by (simp add: present_def)
  have "\<exists>st' fx. pumpTimedCommits k r (set_surface r s' st) = Some (st', fx) \<and> keeps st st'" for s'
  proof -
    have k: "keeps st (set_surface r s' st)" using r by (rule kept_set_surface)
    then have "acyclic (edges (set_surface r s' st))" using assms by (simp add: kept_edges)
    from pumpTimedCommits_returns [OF this] show ?thesis using k by (blast intro: forest_kept_trans)
  qed
  then show ?thesis using Some commitNow_returns [OF assms r] by (simp add: commit_def Let_def)
qed

section \<open>Sessions that return\<close>

text \<open>A subsurface is not put above one of its own ancestors, nor is a subsurface id taken twice.\<close>

definition keeps_forest :: "surface_state \<Rightarrow> sink \<times> surf_op \<Rightarrow> bool" where
  "keeps_forest st e =
    (case snd e of
       Get_subsurface i surf parent \<Rightarrow> i \<notin> set (okeys (st_subsurfaces st)) \<and> (parent, surf) \<notin> (edges st)\<^sup>*
     | _ \<Rightarrow> True)"

definition forest :: "surface_state \<Rightarrow> bool" where
  "forest st \<longleftrightarrow> order_wf st \<and> acyclic (edges st)"

lemma forest_frame:
  "forest st \<Longrightarrow> st_subsurfaces st' = st_subsurfaces st \<Longrightarrow> st_order st' = st_order st \<Longrightarrow> forest st'"
  using order_wf_frame [of st st'] by (simp add: forest_def edges_def)

lemma forest_kept: "forest st \<Longrightarrow> keeps st st' \<Longrightarrow> forest st'"
  by (simp add: forest_def kept_edges) (simp add: keeps_def)

lemma edges_get_subsurface:
  "i \<notin> set (okeys (st_subsurfaces st)) \<Longrightarrow> edges (get_subsurface i surf parent st) = insert (surf, parent) (edges st)"
  by (auto simp: edges_def get_subsurface_def Let_def oset_fresh)

lemma set_oset_subset: "set (oset k v m) \<subseteq> insert (k, v) (set m)"
  by (induction m) auto

lemma edges_set_sub:
  assumes "oget (st_subsurfaces st) i = Some s" "ss_surface s' = ss_surface s" "ss_parent s' = ss_parent s"
  shows "edges (set_sub i s' st) \<subseteq> edges st"
proof -
  have "edges (set_sub i s' st) \<subseteq> insert (ss_surface s', ss_parent s') (edges st)"
    using set_oset_subset [of i s' "st_subsurfaces st"] by (fastforce simp: edges_def)
  then show ?thesis using oget_edge [OF assms(1)] assms(2,3) by auto
qed

lemma forest_set_sub:
  assumes "forest st" "oget (st_subsurfaces st) i = Some s" "ss_surface s' = ss_surface s" "ss_parent s' = ss_parent s"
  shows "forest (set_sub i s' st)"
  using assms set_sub_wf [OF _ assms(2,4)] acyclic_subset [OF _ edges_set_sub [OF assms(2-4)]] by (simp add: forest_def)

lemma edges_destroy_subsurface: "edges (fst (destroy_subsurface i st)) \<subseteq> edges st"
  by (auto simp: edges_def destroy_subsurface_def Let_def AList.delete_eq split: option.split)

lemma forest_request:
  assumes "forest st" "keeps_forest st (k, oper)"
  shows "forest (fst (surf_do st (k, oper)))"
proof -
  note acyc = assms(1) [unfolded forest_def, THEN conjunct2]
  have same: "forest st'" if "st_subsurfaces st' = st_subsurfaces st" "st_order st' = st_order st" for st'
    using forest_frame [OF assms(1) that] .
  show ?thesis
  proof (cases oper)
    case (Get_subsurface i surf parent)
    then have i: "i \<notin> set (okeys (st_subsurfaces st))" "(parent, surf) \<notin> (edges st)\<^sup>*"
      using assms(2) by (simp_all add: keeps_forest_def)
    then show ?thesis
      using Get_subsurface assms(1) get_subsurface_wf [OF _ i(1)] by (simp add: forest_def edges_get_subsurface acyclic_insert)
  next
    case (Destroy_subsurface i)
    then show ?thesis
      using assms(1) destroy_subsurface_wf [of st i] acyclic_subset [OF _ edges_destroy_subsurface [of i st]]
      by (simp add: forest_def)
  next
    case (Set_position i x y)
    then show ?thesis using assms(1) by (auto simp: set_position_def intro: forest_set_sub split: option.split)
  next
    case (Set_sync b i)
    then show ?thesis using assms(1) by (auto simp: set_sync_mode_def intro: forest_set_sub split: option.split)
  next
    case (Commit r)
    obtain st' fx where "commit k r st = Some (st', fx)" "keeps st st'" using commit_returns [OF acyc] by blast
    with Commit show ?thesis using forest_kept [OF assms(1)] by simp
  next
    case (Reorder i oo)
    then show ?thesis by (auto simp: queueReorder_def Let_def intro!: same split: option.split)
  qed (auto simp: attach_def damage_def damage_buffer_def frame_def presentation_feedback_def set_opaque_region_def
      set_input_region_def set_buffer_transform_def set_buffer_scale_def set_offset_def or_same_def
      get_timer_def set_timestamp_def destroy_timer_def get_viewport_def set_source_def set_destination_def
      destroy_viewport_def get_tearing_control_def set_presentation_hint_def destroy_tearing_control_def
      destroy_surface_def Let_def intro!: same split: option.split prod.split sum.split)
qed

definition returned :: "bool \<Rightarrow> sink \<times> surf_op \<Rightarrow> commit_effect list option \<Rightarrow> bool option" where
  "returned u e ans = (if ans = None then None else Some u)"

lemma request_returned:
  assumes "forest st"
  shows "snd (surf_do st (k, oper)) \<noteq> None"
proof (cases oper)
  case (Commit r)
  then show ?thesis
    using commit_returns [OF assms [unfolded forest_def, THEN conjunct2], of k r] by auto
qed (simp_all add: Let_def split_def)

interpretation surf_sessions: monitored surf_do keeps_forest returned "\<lambda>st _. forest st"
proof unfold_locales
  fix st u e st' ans
  assume "forest st" "keeps_forest st e" "surf_do st e = (st', ans)"
  then show "\<exists>u'. returned u e ans = Some u' \<and> forest st'"
    using forest_request [of st "fst e" "snd e"] request_returned [of st "fst e" "snd e"] by (simp add: returned_def)
qed

lemma monitor_returned: "monitor returned u tr \<noteq> None \<longleftrightarrow> (\<forall>(e, ans) \<in> set tr. ans \<noteq> None)"
  by (induction tr) (auto simp: returned_def split: if_splits)

text \<open>
  C6: As long as a client does not make a surface a subsurface of itself or of one of its own subsurfaces, every request of
  every session returns - the cascade through synchronized children, the timed queue and the synchronization
  test included - and so do, in the state it ends in, the walks that fill the draw stack and collect the
  subtree of any surface.
\<close>

theorem requests_always_return:
  assumes "forest st" "admissible surf_do keeps_forest st es"
  shows "None \<notin> snd ` set (snd (run surf_do st es)) \<and>
    (\<forall>r stack. emitSubtreeStack (fst (run surf_do st es)) r stack \<noteq> None \<and>
      collectSubsurfaceIds (fst (run surf_do st es)) r stack \<noteq> None)"
proof -
  have "monitor returned True (snd (run surf_do st es)) \<noteq> None"
    using assms by (rule surf_sessions.accepts)
  then have 1: "None \<notin> snd ` set (snd (run surf_do st es))" unfolding monitor_returned by force
  have "forest (fst (run surf_do st es))"
    using surf_sessions.related.inv_run [of st es] assms by simp
  then have f: "order_wf (fst (run surf_do st es))" "acyclic (edges (fst (run surf_do st es)))"
    by (simp_all add: forest_def)
  show ?thesis
    using 1 emit_walk.returns [OF f] collect_walk.returns [OF f]
    by (simp add: emitSubtreeStack_def collectSubsurfaceIds_def)
qed

text \<open>A desynchronized grandchild under a synchronized child, whose commits are cached and then applied with the root's.\<close>

definition tree_ops :: "surf_op list" where
  "tree_ops = [New_surface 5 105 No_role, New_surface 6 106 No_role, New_surface 7 107 No_role,
     Get_subsurface 11 6 5, Get_subsurface 12 7 6]"

definition commit_ops :: "surf_op list" where
  "commit_ops = [Set_sync False 12, Attach 7 (Some 71) 0 0, Frame 7 201, Commit 7,
     Attach 6 (Some 72) 0 0, Frame 6 202, Commit 6, Frame 5 203, Commit 5]"

lemma admissible_append:
  "admissible step ok s (es @ fs) \<longleftrightarrow> admissible step ok s es \<and> admissible step ok (fst (run step s es)) fs"
  by (induction es arbitrary: s) (auto simp: Let_def split: prod.splits)

lemma admissible_no_link:
  "(\<forall>e \<in> set es. \<forall>i r p. snd e \<noteq> Get_subsurface i r p) \<Longrightarrow> admissible surf_do keeps_forest st es"
proof (induction es arbitrary: st)
  case Nil
  then show ?case by simp
next
  case (Cons e es)
  have "keeps_forest st e" using Cons.prems by (auto simp: keeps_forest_def split: surf_op.split)
  then show ?case using Cons by simp
qed

lemma forest_nothing_yet: "forest (nothing_yet b g)"
  by (simp add: forest_def order_wf_def parent_at_def edges_def nothing_yet_def acyclic_def)

lemma tree_ops_ok: "admissible surf_do keeps_forest (nothing_yet b g) (at0 (tree_ops @ commit_ops))"
proof -
  have "admissible surf_do keeps_forest (nothing_yet b g) (at0 tree_ops)"
    by (auto simp: at0_def tree_ops_def keeps_forest_def nothing_yet_def get_subsurface_def edges_def Let_def elim: rtranclE)
  moreover have "admissible surf_do keeps_forest st (at0 commit_ops)" for st
    by (rule admissible_no_link) (simp add: at0_def commit_ops_def)
  ultimately show ?thesis by (simp add: at0_def admissible_append)
qed

theorem requests_always_return_witness:
  "None \<notin> snd ` set (snd (run surf_do (nothing_yet [(71, shm_buffer), (72, shm_buffer)] [])
      (at0 (tree_ops @ commit_ops)))) \<and>
   (\<forall>r stack. emitSubtreeStack (fst (run surf_do (nothing_yet [(71, shm_buffer), (72, shm_buffer)] [])
      (at0 (tree_ops @ commit_ops)))) r stack \<noteq> None \<and>
    collectSubsurfaceIds (fst (run surf_do (nothing_yet [(71, shm_buffer), (72, shm_buffer)] [])
      (at0 (tree_ops @ commit_ops)))) r stack \<noteq> None)"
  using forest_nothing_yet tree_ops_ok by (rule requests_always_return)

text \<open>
  The commit of a subsurface that was switched to desynchronized while it held a cached commit shows the cached
  buffer, which is older: the buffer of the newer commit is never uploaded and never released to the client, while
  its scale stays.
\<close>

lemma late_cache_overwrites_newer_commit:
  "map snd (drop 4 (snd (run surf_do (nothing_yet [(71, shm_buffer), (72, shm_buffer)] []) (at0 stale_ops)))) =
     [Some [Role_commit 6], Some [], Some [], Some [], 
      Some [SetOpaque 106 False, UploadShm 106 71 None, SendRelease 71, PushScale 106 2, PushTransform 106 0,
        PushGeometry 106 None, RebuildStack, Role_commit 6]]"
  by code_simp

end
