(* ===== verification/Surface_Atomic.thy ===== *)
theory Surface_Atomic
  imports Surface_Commit
begin

text \<open>
  What one commit changes: which surfaces a cascade reaches, which caches it empties, where the frame callbacks
  go, in which order the timed queue is latched (\<open>core/src/protocols/wl_surface.ts\<close>).
\<close>

section \<open>What applying does to a surface\<close>

definition cbs_of :: "surface \<Rightarrow> nat multiset" where
  "cbs_of s = mset (pd_frameCallbacks (sf_pending s)) +
     (case sf_cached s of None \<Rightarrow> {#} | Some c \<Rightarrow> mset (ca_frameCallbacks c)) + mset (sf_frameCallbacks s) +
     sum_list (map (\<lambda>(entry, _). mset (pd_frameCallbacks entry)) (sf_timedCommits s))"

text \<open>
  What a surface shows and takes input with, and what it will once a cached commit it may hold is applied: the slots of
  that commit, where it has none those that are pending, and where nothing is pending those of before.
\<close>

definition look :: "surface \<Rightarrow> nat option \<times> region option \<times> region option \<times> rect option \<times> (number \<times> number) option" where
  "look s = (cm_buffer (sf_committed s), sf_inputRegion s, sf_opaqueRegion s, sf_viewportSrc s, sf_viewportDst s)"

fun first_set :: "'a option \<Rightarrow> 'a option \<Rightarrow> 'a \<Rightarrow> 'a" where
  "first_set (Some v) _ _ = v"
| "first_set None (Some v) _ = v"
| "first_set None None d = d"

definition due_look :: "surface \<Rightarrow> nat option \<times> region option \<times> region option \<times> rect option \<times> (number \<times> number) option" where
  "due_look s = (let c = (case sf_cached s of None \<Rightarrow> cached_none | Some c \<Rightarrow> c); p = sf_pending s in
     (case ca_buffer c of Some (Some b) \<Rightarrow> Some b | _ \<Rightarrow> cm_buffer (sf_committed s),
      first_set (ca_inputRegion c) (pd_inputRegion p) (sf_inputRegion s),
      first_set (ca_opaqueRegion c) (pd_opaqueRegion p) (sf_opaqueRegion s),
      first_set (ca_viewportSrc c) (pd_viewportSrc p) (sf_viewportSrc s),
      first_set (ca_viewportDst c) (pd_viewportDst p) (sf_viewportDst s)))"

definition slots_clear :: "surface \<Rightarrow> bool" where
  "slots_clear s \<longleftrightarrow> pd_inputRegion (sf_pending s) = None \<and> pd_opaqueRegion (sf_pending s) = None \<and>
     pd_viewportSrc (sf_pending s) = None \<and> pd_viewportDst (sf_pending s) = None"

lemma due_look_shown: "sf_cached s = None \<Longrightarrow> slots_clear s \<Longrightarrow> due_look s = look s"
  by (simp add: due_look_def look_def slots_clear_def cached_none_def)

text \<open>
  Between a surface and its record after a step: no callback is lost, the queue and the cache's absence stay, and a cached
  commit is kept or applied.
\<close>

definition calm :: "surface \<Rightarrow> surface \<Rightarrow> bool" where
  "calm s s' \<longleftrightarrow> cbs_of s' = cbs_of s \<and> sf_timedCommits s' = sf_timedCommits s \<and>
     sf_unmapped s' = sf_unmapped s \<and> sf_destroyed s' = sf_destroyed s \<and>
     (pd_frameCallbacks (sf_pending s) = [] \<longrightarrow> pd_frameCallbacks (sf_pending s') = []) \<and>
     (sf_cached s = None \<longrightarrow> sf_cached s' = None) \<and>
     due_look s' = due_look s \<and> (slots_clear s \<longrightarrow> slots_clear s') \<and>
     (sf_cached s \<noteq> None \<and> sf_cached s' = None \<longrightarrow> slots_clear s')"

definition calm_state :: "surface_state \<Rightarrow> surface_state \<Rightarrow> bool" where
  "calm_state st st' \<longleftrightarrow> (\<forall>q. rel_option calm (oget (st_surfaces st) q) (oget (st_surfaces st') q))"

lemma calm_refl [simp]: "calm s s"
  by (auto simp: calm_def)

lemma calm_trans: "calm s s1 \<Longrightarrow> calm s1 s2 \<Longrightarrow> calm s s2"
  by (auto simp: calm_def)

lemma calm_state_refl [simp]: "calm_state st st"
  by (simp add: calm_state_def option.rel_refl)

lemma calm_state_trans: "calm_state st st1 \<Longrightarrow> calm_state st1 st2 \<Longrightarrow> calm_state st st2"
  unfolding calm_state_def
proof
  fix q
  assume "\<forall>q. rel_option calm (oget (st_surfaces st) q) (oget (st_surfaces st1) q)"
    "\<forall>q. rel_option calm (oget (st_surfaces st1) q) (oget (st_surfaces st2) q)"
  then have "rel_option calm (oget (st_surfaces st) q) (oget (st_surfaces st1) q)"
    "rel_option calm (oget (st_surfaces st1) q) (oget (st_surfaces st2) q)" by blast+
  then show "rel_option calm (oget (st_surfaces st) q) (oget (st_surfaces st2) q)"
    by (cases "oget (st_surfaces st) q"; cases "oget (st_surfaces st1) q"; cases "oget (st_surfaces st2) q")
      (auto intro: calm_trans)
qed

lemma calm_set:
  assumes "oget (st_surfaces st') = (oget (st_surfaces st))(r \<mapsto> s')" "oget (st_surfaces st) r = Some s" "calm s s'"
  shows "calm_state st st'"
  using assms by (simp add: calm_state_def option.rel_refl)

text \<open>The fields an upload leaves alone.\<close>

definition uploaded :: "sink \<Rightarrow> nat \<Rightarrow> surface \<Rightarrow> nat option \<Rightarrow> surface_state \<Rightarrow> surface" where
  "uploaded k r s b st = the (oget (st_surfaces (fst (uploadBuffer k r s b st))) r)"

lemma uploadBuffer_surfaces: "st_surfaces (fst (uploadBuffer k r s b st)) = oset r (uploaded k r s b st) (st_surfaces st)"
  by (simp add: uploaded_def uploadBuffer_def Let_def split_def split: option.split)

lemma uploaded_slots:
  "sf_pending (uploaded k r s b st) = sf_pending s" "sf_cached (uploaded k r s b st) = sf_cached s"
  "sf_frameCallbacks (uploaded k r s b st) = sf_frameCallbacks s"
  "sf_timedCommits (uploaded k r s b st) = sf_timedCommits s"
  "sf_unmapped (uploaded k r s b st) = sf_unmapped s" "sf_destroyed (uploaded k r s b st) = sf_destroyed s"
  "cm_buffer (sf_committed (uploaded k r s b st)) = cm_buffer (sf_committed s)"
  "sf_inputRegion (uploaded k r s b st) = sf_inputRegion s" "sf_opaqueRegion (uploaded k r s b st) = sf_opaqueRegion s"
  "sf_viewportSrc (uploaded k r s b st) = sf_viewportSrc s" "sf_viewportDst (uploaded k r s b st) = sf_viewportDst s"
  by (simp_all add: uploaded_def uploadBuffer_def Let_def upload_dmabuf_def upload_shm_def split_def split: option.split)

lemma uploaded_look: "due_look (uploaded k r s b st) = due_look s"
  by (simp only: due_look_def uploaded_slots)

lemma apply_slots_fields:
  "sf_cached (fst (apply_slots k n s)) = sf_cached s"
  "sf_frameCallbacks (fst (apply_slots k n s)) = sf_frameCallbacks s @ pd_frameCallbacks (sf_pending s)"
  "pd_frameCallbacks (sf_pending (fst (apply_slots k n s))) = []"
  "sf_timedCommits (fst (apply_slots k n s)) = sf_timedCommits s"
  "sf_unmapped (fst (apply_slots k n s)) = sf_unmapped s" "sf_destroyed (fst (apply_slots k n s)) = sf_destroyed s"
  by (simp_all add: apply_slots_def Let_def apply_feedbacks_def)

lemma first_set_promoted: "first_set c None (case p of None \<Rightarrow> d | Some v \<Rightarrow> v) = first_set c p d"
  by (cases c; cases p) simp_all

lemma apply_slots_promotes:
  "cm_buffer (sf_committed (fst (apply_slots k n s))) = cm_buffer (sf_committed s)"
  "sf_inputRegion (fst (apply_slots k n s)) = (case pd_inputRegion (sf_pending s) of None \<Rightarrow> sf_inputRegion s | Some v \<Rightarrow> v)"
  "sf_opaqueRegion (fst (apply_slots k n s)) = (case pd_opaqueRegion (sf_pending s) of None \<Rightarrow> sf_opaqueRegion s | Some v \<Rightarrow> v)"
  "sf_viewportSrc (fst (apply_slots k n s)) = (case pd_viewportSrc (sf_pending s) of None \<Rightarrow> sf_viewportSrc s | Some v \<Rightarrow> v)"
  "sf_viewportDst (fst (apply_slots k n s)) = (case pd_viewportDst (sf_pending s) of None \<Rightarrow> sf_viewportDst s | Some v \<Rightarrow> v)"
  "pd_inputRegion (sf_pending (fst (apply_slots k n s))) = None" "pd_opaqueRegion (sf_pending (fst (apply_slots k n s))) = None"
  "pd_viewportSrc (sf_pending (fst (apply_slots k n s))) = None" "pd_viewportDst (sf_pending (fst (apply_slots k n s))) = None"
  by (simp_all add: apply_slots_def Let_def apply_feedbacks_def cong: option.case_cong)

lemma apply_slots_look:
  "due_look (fst (apply_slots k n s)) = due_look s" "slots_clear (fst (apply_slots k n s))"
  by (simp_all only: due_look_def slots_clear_def apply_slots_promotes apply_slots_fields first_set_promoted Let_def simp_thms)

lemma apply_slots_surface:
  assumes "apply_slots k n s = (s', fx)"
  shows "sf_cached s' = sf_cached s" "sf_frameCallbacks s' = sf_frameCallbacks s @ pd_frameCallbacks (sf_pending s)"
    "pd_frameCallbacks (sf_pending s') = []" "sf_timedCommits s' = sf_timedCommits s"
    "sf_unmapped s' = sf_unmapped s" "sf_destroyed s' = sf_destroyed s" "due_look s' = due_look s" "slots_clear s'"
  using apply_slots_look [of k n s] apply_slots_fields [of k n s] by (simp_all add: assms)

lemma reorder_surfaces [simp]: "st_surfaces (fst (applySubsurfaceReorder p st)) = st_surfaces st"
  by (simp add: applySubsurfaceReorder_def Let_def split: option.split)

lemma apply_own_surface:
  "\<exists>s'. oget (st_surfaces (fst (apply_own k r s bf st))) = (oget (st_surfaces st))(r \<mapsto> s') \<and>
     sf_cached s' = sf_cached s \<and> cbs_of s' = cbs_of s \<and> pd_frameCallbacks (sf_pending s') = [] \<and>
     sf_timedCommits s' = sf_timedCommits s \<and> sf_unmapped s' = sf_unmapped s \<and> sf_destroyed s' = sf_destroyed s \<and>
     due_look s' = due_look s \<and> slots_clear s'"
proof -
  obtain st1 fx1 s1 s2 fx2 mv where
    1: "(if bf then uploadBuffer k r s (cm_buffer (sf_committed s)) st else (set_surface r s st, [])) = (st1, fx1)"
    and s1: "s1 = (case oget (st_surfaces st1) r of None \<Rightarrow> s | Some x \<Rightarrow> x)"
    and 2: "apply_slots k (st_xwaylandScale st1) s1 = (s2, fx2)"
    and own: "apply_own k r s bf st = (fst (applySubsurfaceReorder r (set_surface r s2 st1)), fx1 @ fx2, mv)"
    by (rule apply_own_steps)
  define s' where "s' = (if bf then uploaded k r s (cm_buffer (sf_committed s)) st else s)"
  have "st_surfaces st1 = oset r s' (st_surfaces st)"
    using arg_cong [OF 1, of "\<lambda>p. st_surfaces (fst p)"] uploadBuffer_surfaces [of k r s "cm_buffer (sf_committed s)" st]
    by (cases bf) (simp_all add: s'_def)
  then have s': "oget (st_surfaces st1) = (oget (st_surfaces st))(r \<mapsto> s')"
    "sf_pending s' = sf_pending s" "sf_cached s' = sf_cached s" "sf_frameCallbacks s' = sf_frameCallbacks s"
    "sf_timedCommits s' = sf_timedCommits s" "sf_unmapped s' = sf_unmapped s" "sf_destroyed s' = sf_destroyed s"
    "due_look s' = due_look s"
    by (simp_all only: oget_oset) (simp_all add: s'_def uploaded_slots uploaded_look)
  then have s1': "s1 = s'" by (simp add: s1)
  then show ?thesis
    using s' apply_slots_surface [OF 2]
    by (intro exI [of _ s2]) (simp add: own cbs_of_def s1' fun_upd_def fun_eq_iff)
qed

lemma take_cache_surface:
  "sf_cached (take_cache st c s) = None"
  "sf_cached s = Some c \<Longrightarrow> cbs_of (take_cache st c s) = cbs_of s"
  "sf_timedCommits (take_cache st c s) = sf_timedCommits s"
  "sf_unmapped (take_cache st c s) = sf_unmapped s" "sf_destroyed (take_cache st c s) = sf_destroyed s"
  by (simp_all add: take_cache_def flush_cache_def Let_def promoteSyncobjForCommit_def cbs_of_def split: option.split)

lemma first_set_merged: "first_set None (case c of None \<Rightarrow> p | Some v \<Rightarrow> Some v) d = first_set c p d"
  by (cases c; cases p) simp_all

lemma promote_syncobj_look: "due_look (promoteSyncobjForCommit st acq rel s) = due_look s"
  by (simp add: promoteSyncobjForCommit_def due_look_def Let_def split: option.split)

lemma take_cache_look: "sf_cached s = Some c \<Longrightarrow> due_look (take_cache st c s) = due_look s"
  by (simp add: take_cache_def promote_syncobj_look Let_def)
    (simp add: flush_cache_def due_look_def Let_def cached_none_def first_set_merged split: option.split)

lemma apply_own_calm:
  assumes "oget (st_surfaces st) r = Some s0" "cbs_of s = cbs_of s0" "sf_timedCommits s = sf_timedCommits s0"
    "sf_unmapped s = sf_unmapped s0" "sf_destroyed s = sf_destroyed s0" "sf_cached s0 = None \<longrightarrow> sf_cached s = None"
    "due_look s = due_look s0"
  shows "calm_state st (fst (apply_own k r s bf st))"
proof -
  obtain s' where "oget (st_surfaces (fst (apply_own k r s bf st))) = (oget (st_surfaces st))(r \<mapsto> s')"
     "sf_cached s' = sf_cached s" "cbs_of s' = cbs_of s" "pd_frameCallbacks (sf_pending s') = []"
     "sf_timedCommits s' = sf_timedCommits s" "sf_unmapped s' = sf_unmapped s" "sf_destroyed s' = sf_destroyed s"
     "due_look s' = due_look s" "slots_clear s'"
    using apply_own_surface by blast
  with assms show ?thesis by (auto intro!: calm_set simp: calm_def)
qed


section \<open>Which surfaces a cascade reaches\<close>

definition sub_at :: "surface_state \<Rightarrow> nat \<Rightarrow> (nat \<times> nat) option" where
  "sub_at st i = map_option (\<lambda>s. (ss_surface s, ss_parent s)) (oget (st_subsurfaces st) i)"

definition has_cache :: "surface_state \<Rightarrow> nat \<Rightarrow> bool" where
  "has_cache st q \<longleftrightarrow> (case oget (st_surfaces st) q of None \<Rightarrow> False | Some c \<Rightarrow> sf_cached c \<noteq> None)"

definition sync_child :: "surface_state \<Rightarrow> nat \<Rightarrow> nat \<Rightarrow> bool" where
  "sync_child st q p \<longleftrightarrow> (\<exists>i. sub_at st i = Some (q, p)) \<and> effectiveSync st q = Some True"

text \<open>The surfaces whose cached commit goes with a commit of \<open>r\<close>.\<close>

inductive carried :: "surface_state \<Rightarrow> nat \<Rightarrow> nat \<Rightarrow> bool" for st r where
  child: "sync_child st q r \<Longrightarrow> has_cache st q \<Longrightarrow> carried st r q"
| deeper: "carried st r p \<Longrightarrow> sync_child st q p \<Longrightarrow> has_cache st q \<Longrightarrow> carried st r q"

inductive_cases carriedE: "carried st r q"

lemma sub_at_shape: "sub_at st i = map_option (\<lambda>(s, p, b). (s, p)) (map_of (shape st) i)"
  by (simp add: sub_at_def shape_def map_of_map option.map_comp comp_def)

lemma same_forest_trans: "same_forest st st1 \<Longrightarrow> same_forest st1 st2 \<Longrightarrow> same_forest st st2"
  by (simp add: same_forest_def)

lemma sub_at_same: "same_forest st st' \<Longrightarrow> sub_at st' = sub_at st"
  by (simp add: sub_at_shape same_forest_def fun_eq_iff)

lemma sync_child_same: "same_forest st st' \<Longrightarrow> sync_child st' q p = sync_child st q p"
  by (simp add: sync_child_def sub_at_same effectiveSync_same)

lemma has_cache_calm: "calm_state st st' \<Longrightarrow> has_cache st' q \<Longrightarrow> has_cache st q"
proof -
  assume "calm_state st st'"
  then have "rel_option calm (oget (st_surfaces st) q) (oget (st_surfaces st') q)" by (simp add: calm_state_def)
  then show "has_cache st' q \<Longrightarrow> has_cache st q"
    by (cases "oget (st_surfaces st) q"; cases "oget (st_surfaces st') q") (auto simp: has_cache_def calm_def)
qed

lemma carried_before:
  assumes "same_forest st st'" "calm_state st st'"
  shows "carried st' r q \<Longrightarrow> carried st r q"
  by (induction rule: carried.induct)
    (auto intro: carried.intros has_cache_calm [OF assms(2)] simp: sync_child_same [OF assms(1)])

lemma carried_trans: "carried st p q \<Longrightarrow> carried st r p \<Longrightarrow> carried st r q"
  by (induction rule: carried.induct) (auto intro: carried.intros)

text \<open>What a cascade of \<open>r\<close> over the records \<open>is\<close> has done.\<close>

definition cascaded :: "nat \<Rightarrow> nat list \<Rightarrow> surface_state \<Rightarrow> surface_state \<Rightarrow> bool" where
  "cascaded r is st st' \<longleftrightarrow>
     same_forest st st' \<and> calm_state st st' \<and>
     (\<forall>i q. i \<in> set is \<longrightarrow> sub_at st i = Some (q, r) \<longrightarrow> effectiveSync st q = Some True \<longrightarrow> \<not> has_cache st' q) \<and>
     (\<forall>q q'. has_cache st q \<longrightarrow> \<not> has_cache st' q \<longrightarrow> sync_child st q' q \<longrightarrow> \<not> has_cache st' q') \<and>
     (\<forall>q. oget (st_surfaces st') q \<noteq> oget (st_surfaces st) q \<longrightarrow> carried st r q)"

lemma cascaded_Nil: "cascaded r [] st st"
  by (simp add: cascaded_def same_forest_def)

text \<open>The first record does nothing to the surfaces.\<close>

lemma cascaded_skip:
  assumes "cascaded r is st1 st'" "same_forest st st1" "st_surfaces st1 = st_surfaces st"
    "\<And>q. sub_at st i = Some (q, r) \<Longrightarrow> effectiveSync st q = Some True \<Longrightarrow> \<not> has_cache st q"
  shows "cascaded r (i # is) st st'"
proof -
  have calm: "calm_state st st1" by (simp add: calm_state_def assms(3) option.rel_refl)
  have hc: "has_cache st1 q = has_cache st q" for q by (simp add: has_cache_def assms(3))
  note c = assms(1) [unfolded cascaded_def sync_child_same [OF assms(2)] sub_at_same [OF assms(2)] effectiveSync_same [OF assms(2)] hc assms(3)]
  have "calm_state st st'" using calm c by (blast intro: calm_state_trans)
  moreover have "same_forest st st'" using assms(2) c by (blast intro: same_forest_trans)
  moreover have "\<not> has_cache st' q" if "sub_at st i = Some (q, r)" "effectiveSync st q = Some True" for q
    using assms(4) [OF that] has_cache_calm [OF \<open>calm_state st st'\<close>] by blast
  ultimately show ?thesis
    unfolding cascaded_def using c carried_before [OF assms(2) calm] by auto
qed

text \<open>The first record's surface \<open>q0\<close> is flushed, then its own children, then the rest.\<close>

lemma cascaded_child:
  assumes q0: "sub_at st i = Some (q0, r)" "effectiveSync st q0 = Some True" "has_cache st q0"
    and own: "same_forest st st2" "calm_state st st2" "\<not> has_cache st2 q0"
      "\<And>q. q \<noteq> q0 \<Longrightarrow> oget (st_surfaces st2) q = oget (st_surfaces st) q"
    and below: "cascaded q0 (okeys (st_subsurfaces st2)) st2 st3" and rest: "cascaded r is st3 st4"
  shows "cascaded r (i # is) st st4"
proof -
  have 23: "same_forest st2 st3" "calm_state st2 st3" and 34: "same_forest st3 st4" "calm_state st3 st4"
    using below rest by (simp_all add: cascaded_def)
  have 13: "same_forest st st3" "calm_state st st3" and 24: "calm_state st2 st4" and 14: "same_forest st st4" "calm_state st st4"
    using own 23 34 by (blast intro: same_forest_trans calm_state_trans)+
  have "sync_child st q0 r" using q0 by (auto simp: sync_child_def)
  then have carried0: "carried st r q0" using q0(3) by (rule carried.child)
  note b = below [unfolded cascaded_def sync_child_same [OF own(1)] sub_at_same [OF own(1)] effectiveSync_same [OF own(1)]]
  note c = rest [unfolded cascaded_def sync_child_same [OF 13(1)] sub_at_same [OF 13(1)] effectiveSync_same [OF 13(1)]]
  have keys: "j \<in> set (okeys (st_subsurfaces st2))" if "sub_at st j = Some x" for j x
    using that by (auto simp: sub_at_same [OF own(1), symmetric] sub_at_def dest: oget_Some_key)
  have down: "\<not> has_cache st4 q" if "\<not> has_cache st3 q" for q using that has_cache_calm [OF 34(2)] by blast
  have closed: "\<not> has_cache st4 q'" if q: "has_cache st q" "\<not> has_cache st4 q" "sync_child st q' q" for q q'
  proof (cases "has_cache st3 q")
    case True
    with q c show ?thesis by blast
  next
    case False
    show ?thesis
    proof (cases "q = q0")
      case True
      with q(3) obtain j where "sub_at st j = Some (q', q0)" "effectiveSync st q' = Some True" by (auto simp: sync_child_def)
      with keys b have "\<not> has_cache st3 q'" by blast
      then show ?thesis by (rule down)
    next
      case neq: False
      then have "has_cache st2 q" using q(1) own(4) by (simp add: has_cache_def)
      with False q(3) b have "\<not> has_cache st3 q'" by blast
      then show ?thesis by (rule down)
    qed
  qed
  have changed: "carried st r q" if ne: "oget (st_surfaces st4) q \<noteq> oget (st_surfaces st) q" for q
  proof -
    consider "oget (st_surfaces st4) q \<noteq> oget (st_surfaces st3) q" | "oget (st_surfaces st3) q \<noteq> oget (st_surfaces st2) q" | "q = q0"
      using ne own(4) [of q] by fastforce
    then show ?thesis
    proof cases
      case 1
      with c have "carried st3 r q" by blast
      then show ?thesis by (rule carried_before [OF 13])
    next
      case 2
      with b have "carried st2 q0 q" by blast
      then have "carried st q0 q" by (rule carried_before [OF own(1,2)])
      then show ?thesis using carried0 by (rule carried_trans)
    next
      case 3
      with carried0 show ?thesis by simp
    qed
  qed
  have mine: "\<not> has_cache st4 q" if "j \<in> set (i # is)" "sub_at st j = Some (q, r)" "effectiveSync st q = Some True" for j q
  proof (cases "j = i")
    case True
    with that q0 have "q = q0" by simp
    then show ?thesis using own(3) has_cache_calm [OF 24] by blast
  next
    case False
    with that c show ?thesis by auto
  qed
  show ?thesis unfolding cascaded_def using 14 mine closed changed by blast
qed


lemma position_surfaces [simp]: "st_surfaces (apply_position i sub st) = st_surfaces st"
  by (simp add: apply_position_def)

lemma cached_child_None:
  assumes "cached_child st q = Some None" "effectiveSync st q = Some True"
  shows "\<not> has_cache st q"
  using assms by (auto simp: cached_child_def has_cache_def split: option.splits)

lemma cascade_cascaded:
  assumes ret: "cascade k r is st = Some y"
  shows "cascaded r is st (fst y)"
proof (rule cascade.raw_induct [where P = "\<lambda>k r is st y. cascaded r is st (fst y)", OF _ ret])
  fix f k r "is" st y
  assume IH: "\<And>k r is st y. f k r is st = Some y \<Longrightarrow> cascaded r is st (fst y)"
    and eq: "(case is of [] \<Rightarrow> Some (st, [], False)
     | i # rest \<Rightarrow>
         (case oget (st_subsurfaces st) i of None \<Rightarrow> f k r rest st
          | Some sub \<Rightarrow>
              if ss_parent sub \<noteq> r then f k r rest st
              else
                (let st1 = apply_position i sub st
                 in Option.bind (cached_child st1 (ss_surface sub)) (\<lambda>child.
                    case child of
                      None \<Rightarrow> Option.bind (f k r rest st1) (\<lambda>(st', fx, need). Some (st', fx, moved sub \<or> need))
                    | Some (c, ca) \<Rightarrow>
                        (let (st2, fx2, need2) = apply_own k (ss_surface sub) (take_cache st1 ca c) (ca_bufferFresh ca) st1
                         in Option.bind (f k (ss_surface sub) (okeys (st_subsurfaces st2)) st2) (\<lambda>(st3, fx3, need3).
                            Option.bind (f k r rest st3) (\<lambda>(st4, fx4, need4).
                            Some (st4, fx2 @ fx3 @ fx4,
                              moved sub \<or> need2 \<or> need3 \<or> first_content c st3 (ss_surface sub) \<or> need4)))))))) = Some y"
  show "cascaded r is st (fst y)"
  proof (cases "is")
    case Nil
    with eq show ?thesis by (auto simp: cascaded_Nil)
  next
    case (Cons i rest)
    show ?thesis
    proof (cases "\<exists>sub. oget (st_subsurfaces st) i = Some sub \<and> ss_parent sub = r")
      case False
      with eq Cons have "f k r rest st = Some y" by (auto split: option.splits if_splits)
      from IH [OF this] show ?thesis unfolding Cons
        by (rule cascaded_skip) (use False in \<open>auto simp: same_forest_def sub_at_def\<close>)
    next
      case True
      then obtain sub where sub: "oget (st_subsurfaces st) i = Some sub" "ss_parent sub = r" by blast
      define st1 where "st1 = apply_position i sub st"
      have st1: "same_forest st st1" unfolding st1_def using kept_position [OF sub(1)] by (rule kept_forest)
      have hc: "has_cache st1 = has_cache st" by (simp add: has_cache_def [abs_def] st1_def)
      have at: "sub_at st i = Some (q, r) \<longleftrightarrow> q = ss_surface sub" for q using sub by (auto simp: sub_at_def)
      obtain child where child: "cached_child st1 (ss_surface sub) = Some child"
        using eq Cons sub by (auto simp: Let_def bind_eq_Some_conv st1_def)
      show ?thesis
      proof (cases child)
        case None
        then obtain y' where y': "f k r rest st1 = Some y'" "fst y' = fst y"
          using eq Cons sub child by (auto simp: Let_def bind_eq_Some_conv st1_def)
        have "\<not> has_cache st1 (ss_surface sub)" if "effectiveSync st1 (ss_surface sub) = Some True"
          by (rule cached_child_None [OF _ that]) (simp add: child None)
        then have "\<not> has_cache st q" if "sub_at st i = Some (q, r)" "effectiveSync st q = Some True" for q
          using that hc by (simp add: at effectiveSync_same [OF st1])
        then show ?thesis unfolding Cons using IH [OF y'(1)] st1 y'(2)
          by (auto intro!: cascaded_skip simp: st1_def)
      next
        case (Some p)
        obtain c ca where p: "p = (c, ca)" by (cases p)
        note c = child [unfolded Some p cached_child_Some]
        obtain st2 fx2 need2 where own: "apply_own k (ss_surface sub) (take_cache st1 ca c) (ca_bufferFresh ca) st1 = (st2, fx2, need2)"
          by (cases "apply_own k (ss_surface sub) (take_cache st1 ca c) (ca_bufferFresh ca) st1")
        obtain y3 y4 where f: "f k (ss_surface sub) (okeys (st_subsurfaces st2)) st2 = Some y3" "f k r rest (fst y3) = Some y4" "fst y4 = fst y"
          using eq Cons sub child Some p own by (fastforce simp: Let_def bind_eq_Some_conv st1_def)
        obtain s' where s': "oget (st_surfaces st2) = (oget (st_surfaces st1))(ss_surface sub \<mapsto> s')" "sf_cached s' = None"
          using apply_own_surface [of k "ss_surface sub" "take_cache st1 ca c" "ca_bufferFresh ca" st1] own
          by (auto simp: take_cache_surface)
        have "present st1 (ss_surface sub)" using c by (simp add: present_def)
        then have k2: "same_forest st1 st2" using apply_own_kept [of st1 "ss_surface sub" k "take_cache st1 ca c" "ca_bufferFresh ca"] own
          by (auto dest: kept_forest)
        have "calm_state st1 st2"
          using apply_own_calm [of st1 "ss_surface sub" c "take_cache st1 ca c" k "ca_bufferFresh ca"] c own
          by (simp add: take_cache_surface take_cache_look)
        then have calm: "calm_state st st2" by (simp add: calm_state_def st1_def)
        have "cascaded r (i # rest) st (fst y4)"
        proof (rule cascaded_child [OF _ _ _ _ calm _ _ IH [OF f(1)] IH [OF f(2)]])
          show "sub_at st i = Some (ss_surface sub, r)" by (simp add: at)
          show "effectiveSync st (ss_surface sub) = Some True" using c by (simp add: effectiveSync_same [OF st1])
          show "has_cache st (ss_surface sub)" using c by (simp add: has_cache_def st1_def)
          show "same_forest st st2" using st1 k2 by (rule same_forest_trans)
          show "\<not> has_cache st2 (ss_surface sub)" using s' by (simp add: has_cache_def)
          show "oget (st_surfaces st2) q = oget (st_surfaces st) q" if "q \<noteq> ss_surface sub" for q
            using that s'(1) by (simp add: st1_def)
        qed
        then show ?thesis by (simp add: Cons f(3))
      qed
    qed
  qed
qed

section \<open>One commit\<close>

definition detaches :: "commit_effect list \<Rightarrow> bool" where
  "detaches fx = list_ex (\<lambda>e. case e of DetachRole _ \<Rightarrow> True | _ \<Rightarrow> False) fx"

lemma detaches_iff: "detaches fx \<longleftrightarrow> (\<exists>i. DetachRole i \<in> set fx)"
  by (induction fx) (auto simp: detaches_def split: commit_effect.split)

lemma detaches_append [simp]: "detaches (fx @ fy) \<longleftrightarrow> detaches fx \<or> detaches fy"
  by (auto simp: detaches_iff)

lemma latch_fst:
  "cbs_of (fst (latch k s)) = cbs_of s" "sf_cached (fst (latch k s)) = sf_cached s"
  "sf_timedCommits (fst (latch k s)) = sf_timedCommits s" "sf_unmapped (fst (latch k s)) = sf_unmapped s"
  "sf_destroyed (fst (latch k s)) = sf_destroyed s" "sf_role (fst (latch k s)) = sf_role s"
  by (simp_all add: latch_def promote_pending_def Let_def cbs_of_def)

lemma latch_fields:
  assumes "latch k s = (s1, acq, rel)"
  shows "cbs_of s1 = cbs_of s" "sf_cached s1 = sf_cached s" "sf_timedCommits s1 = sf_timedCommits s"
    "sf_unmapped s1 = sf_unmapped s" "sf_destroyed s1 = sf_destroyed s"
  using latch_fst [of k s] by (simp_all add: assms)

lemma releaseSuperseded_fst:
  "sf_pending (fst (releaseSupersededCachedBuffer k s)) = sf_pending s"
  "sf_frameCallbacks (fst (releaseSupersededCachedBuffer k s)) = sf_frameCallbacks s"
  "sf_timedCommits (fst (releaseSupersededCachedBuffer k s)) = sf_timedCommits s"
  "sf_unmapped (fst (releaseSupersededCachedBuffer k s)) = sf_unmapped s"
  "sf_destroyed (fst (releaseSupersededCachedBuffer k s)) = sf_destroyed s"
  "map_option ca_frameCallbacks (sf_cached (fst (releaseSupersededCachedBuffer k s))) = map_option ca_frameCallbacks (sf_cached s)"
  by (simp_all add: releaseSupersededCachedBuffer_def split: option.split)

lemma releaseSuperseded_quiet: "DetachRole i \<notin> set (snd (releaseSupersededCachedBuffer k s))"
  by (simp add: releaseSupersededCachedBuffer_def split: option.split)

lemma cache_commit_fst:
  "sf_timedCommits (fst (cache_commit k attached acq rel s)) = sf_timedCommits s"
  "sf_unmapped (fst (cache_commit k attached acq rel s)) = sf_unmapped s"
  "sf_destroyed (fst (cache_commit k attached acq rel s)) = sf_destroyed s"
  "pd_frameCallbacks (sf_pending (fst (cache_commit k attached acq rel s))) = []"
  "sf_frameCallbacks (fst (cache_commit k attached acq rel s)) = sf_frameCallbacks s"
  by (simp_all add: cache_commit_def Let_def split_def releaseSuperseded_fst)

lemma cache_commit_cached:
  "map_option ca_frameCallbacks (sf_cached (fst (cache_commit k attached acq rel s))) =
     Some ((case sf_cached s of None \<Rightarrow> [] | Some c \<Rightarrow> ca_frameCallbacks c) @ pd_frameCallbacks (sf_pending s))"
proof -
  define s1 where "s1 = s\<lparr>sf_cached := Some (case sf_cached s of None \<Rightarrow> cached_none | Some c \<Rightarrow> c)\<rparr>"
  define s2 where "s2 = fst (if attached then releaseSupersededCachedBuffer k s1 else (s1, []))"
  have "sf_pending s2 = sf_pending s" by (simp add: s2_def s1_def releaseSuperseded_fst)
  moreover have "map_option ca_frameCallbacks (sf_cached s2) = Some (case sf_cached s of None \<Rightarrow> [] | Some c \<Rightarrow> ca_frameCallbacks c)"
  proof -
    have "map_option ca_frameCallbacks (sf_cached s2) = map_option ca_frameCallbacks (sf_cached s1)"
      unfolding s2_def by (cases attached) (simp_all only: if_True if_False releaseSuperseded_fst fst_conv)
    then show ?thesis by (cases "sf_cached s") (simp_all add: s1_def cached_none_def)
  qed
  ultimately show ?thesis
    unfolding cache_commit_def Let_def split_def s1_def [symmetric] s2_def [symmetric] by auto
qed

lemma cache_commit_fields:
  assumes "cache_commit k attached acq rel s = (s', fx)"
  shows "cbs_of s' = cbs_of s" "sf_timedCommits s' = sf_timedCommits s" "sf_unmapped s' = sf_unmapped s"
    "sf_destroyed s' = sf_destroyed s" "pd_frameCallbacks (sf_pending s') = []" "\<not> detaches fx"
proof -
  have s': "s' = fst (cache_commit k attached acq rel s)" "fx = snd (cache_commit k attached acq rel s)" by (simp_all add: assms)
  show "sf_timedCommits s' = sf_timedCommits s" "sf_unmapped s' = sf_unmapped s"
    "sf_destroyed s' = sf_destroyed s" "pd_frameCallbacks (sf_pending s') = []"
    unfolding s' by (simp_all only: cache_commit_fst)
  then show "cbs_of s' = cbs_of s"
    using cache_commit_cached [of k attached acq rel s] cache_commit_fst [of k attached acq rel s]
    by (cases "sf_cached s") (auto simp: cbs_of_def s')
  show "\<not> detaches fx" by (simp add: s' cache_commit_def Let_def split_def detaches_iff releaseSuperseded_quiet)
qed

lemma flush_left_over_fields:
  assumes "flush_left_over st s = (s', fresh)"
  shows "cbs_of s' = cbs_of s" "sf_cached s' = None" "sf_timedCommits s' = sf_timedCommits s"
    "sf_unmapped s' = sf_unmapped s" "sf_destroyed s' = sf_destroyed s"
  using assms by (auto simp: flush_left_over_def take_cache_surface split: option.splits)

lemma promoteSyncobj_fields:
  "cbs_of (promoteSyncobjForCommit st acq rel s) = cbs_of s"
  "sf_cached (promoteSyncobjForCommit st acq rel s) = sf_cached s"
  "sf_timedCommits (promoteSyncobjForCommit st acq rel s) = sf_timedCommits s"
  "sf_unmapped (promoteSyncobjForCommit st acq rel s) = sf_unmapped s"
  "sf_destroyed (promoteSyncobjForCommit st acq rel s) = sf_destroyed s"
  by (simp_all add: promoteSyncobjForCommit_def Let_def cbs_of_def split: option.split)

lemma unmap_if_null_quiet:
  assumes "unmap_if_null k r st = (st', fx)" "\<not> detaches fx"
  shows "st' = st"
  using assms
  by (auto simp: unmap_if_null_def detachSurfaceRole_def discard_queue_def detaches_iff Let_def split_def
      split: option.splits if_splits)

text \<open>Promotion and the synchronization test, up to the unmapping.\<close>

lemma commitNow_cases:
  assumes "commitNow k r s st = Some (st', fx)"
  obtains (cached) s1 acq rel s2 fx2 fx' where "effectiveSync st r = Some True" "latch k s = (s1, acq, rel)"
      "cache_commit k (pd_buffer (sf_pending s) \<noteq> None) acq rel s1 = (s2, fx2)"
      "unmap_if_null k r (set_surface r s2 st) = (st', fx')" "fx = fx2 @ fx' @ [Role_commit r]"
  | (applied) s1 acq rel s2 fresh s3 st2 fx2 need fx' where "effectiveSync st r = Some False" "latch k s = (s1, acq, rel)"
      "flush_left_over st s1 = (s2, fresh)"
      "s3 = (if acq \<noteq> None \<or> rel \<noteq> None then promoteSyncobjForCommit st acq rel s2 else s2)"
      "applySurfaceState k r s3 (pd_buffer (sf_pending s) \<noteq> None \<or> fresh) st = Some (st2, fx2, need)"
      "unmap_if_null k r st2 = (st', fx')" "fx = (fx2 @ (if need then [RebuildStack] else [])) @ fx' @ [Role_commit r]"
proof -
  obtain s1 acq rel where l: "latch k s = (s1, acq, rel)" by (cases "latch k s")
  obtain sync where sync: "effectiveSync st r = Some sync"
    using assms by (cases "effectiveSync st r") (auto simp: commitNow_def l Let_def)
  show ?thesis
  proof (cases sync)
    case True
    obtain s2 fx2 where "cache_commit k (pd_buffer (sf_pending s) \<noteq> None) acq rel s1 = (s2, fx2)"
      by (cases "cache_commit k (pd_buffer (sf_pending s) \<noteq> None) acq rel s1")
    moreover obtain st'' fx' where "unmap_if_null k r (set_surface r s2 st) = (st'', fx')"
      by (cases "unmap_if_null k r (set_surface r s2 st)")
    ultimately show ?thesis using assms sync True l cached by (simp add: commitNow_def Let_def)
  next
    case False
    obtain s2 fresh where fl: "flush_left_over st s1 = (s2, fresh)" by (cases "flush_left_over st s1")
    define s3 where "s3 = (if acq \<noteq> None \<or> rel \<noteq> None then promoteSyncobjForCommit st acq rel s2 else s2)"
    have eq: "commitNow k r s st =
      Option.bind (Option.bind (applySurfaceState k r s3 (pd_buffer (sf_pending s) \<noteq> None \<or> fresh) st)
          (\<lambda>(st', fx, need). Some (st', fx @ (if need then [RebuildStack] else []))))
        (\<lambda>(st', fx). let (st'', fx') = unmap_if_null k r st' in Some (st'', fx @ fx' @ [Role_commit r]))"
      unfolding commitNow_def l Let_def prod.case sync Option.bind.simps s3_def using False fl by (simp only: if_False prod.case)
    obtain st2 fx2 need where ap: "applySurfaceState k r s3 (pd_buffer (sf_pending s) \<noteq> None \<or> fresh) st = Some (st2, fx2, need)"
      using assms unfolding eq by (cases "applySurfaceState k r s3 (pd_buffer (sf_pending s) \<noteq> None \<or> fresh) st") auto
    obtain st'' fx' where un: "unmap_if_null k r st2 = (st'', fx')" by (cases "unmap_if_null k r st2")
    have "st' = st''" "fx = (fx2 @ (if need then [RebuildStack] else [])) @ fx' @ [Role_commit r]"
      using assms unfolding eq ap by (simp_all add: un)
    then show ?thesis using applied [OF _ l fl s3_def ap] un sync False by simp
  qed
qed

text \<open>An applied commit: the surface itself, then the cascade.\<close>

lemma applySurfaceState_steps:
  assumes "applySurfaceState k r s bf st = Some (st', fx, need)"
  obtains st1 where "st1 = fst (apply_own k r s bf st)" "cascaded r (okeys (st_subsurfaces st1)) st1 st'"
  using assms cascade_cascaded
  by (fastforce simp: applySurfaceState_def Let_def bind_eq_Some_conv split: prod.splits)

lemma applySurfaceState_calm:
  assumes ap: "applySurfaceState k r s bf st = Some (st', fx, need)" and r: "oget (st_surfaces st) r = Some s0"
  shows "calm_state (set_surface r s st) st'"
    "\<exists>s'. oget (st_surfaces st') r = Some s' \<and> pd_frameCallbacks (sf_pending s') = []"
proof -
  obtain st1 where st1: "st1 = fst (apply_own k r s bf st)" "cascaded r (okeys (st_subsurfaces st1)) st1 st'"
    using ap by (rule applySurfaceState_steps)
  then have 1: "calm_state st1 st'" by (simp add: cascaded_def)
  obtain s1 where s1: "oget (st_surfaces st1) = (oget (st_surfaces st))(r \<mapsto> s1)"
     "sf_cached s1 = sf_cached s" "cbs_of s1 = cbs_of s" "pd_frameCallbacks (sf_pending s1) = []"
     "sf_timedCommits s1 = sf_timedCommits s" "sf_unmapped s1 = sf_unmapped s" "sf_destroyed s1 = sf_destroyed s"
     "due_look s1 = due_look s" "slots_clear s1"
    using apply_own_surface [of k r s bf st] st1(1) by auto
  have "calm_state (set_surface r s st) st1" using s1 by (simp add: calm_state_def calm_def option.rel_refl)
  then show "calm_state (set_surface r s st) st'" using 1 by (rule calm_state_trans)
  have "rel_option calm (Some s1) (oget (st_surfaces st') r)" using 1 s1(1) by (simp add: calm_state_def) (metis fun_upd_same)
  then show "\<exists>s'. oget (st_surfaces st') r = Some s' \<and> pd_frameCallbacks (sf_pending s') = []"
    using s1(4) by (auto simp: option_rel_Some1 calm_def)
qed


text \<open>Nothing is lost by one commit that does not unmap, and the set it consumed is used up.\<close>

lemma calm_set_set:
  assumes "calm s s'"
  shows "calm_state (set_surface r s st) (set_surface r s' st)"
  using assms by (simp add: calm_state_def option.rel_refl)

lemma set_surface_calm:
  assumes "cbs_of s' = cbs_of s" "sf_timedCommits s' = sf_timedCommits s" "sf_unmapped s' = sf_unmapped s"
    "sf_destroyed s' = sf_destroyed s" "calm_state (set_surface r s' st) st'" 
    "\<exists>x. oget (st_surfaces st') r = Some x \<and> pd_frameCallbacks (sf_pending x) = []"
  shows "\<exists>x. oget (st_surfaces st') r = Some x \<and> pd_frameCallbacks (sf_pending x) = [] \<and> cbs_of x = cbs_of s \<and>
      sf_timedCommits x = sf_timedCommits s \<and> sf_unmapped x = sf_unmapped s \<and> sf_destroyed x = sf_destroyed s"
    "q \<noteq> r \<Longrightarrow> rel_option calm (oget (st_surfaces st) q) (oget (st_surfaces st') q)"
proof -
  have 1: "rel_option calm (oget (st_surfaces (set_surface r s' st)) p) (oget (st_surfaces st') p)" for p
    using assms(5) unfolding calm_state_def by blast
  show "\<exists>x. oget (st_surfaces st') r = Some x \<and> pd_frameCallbacks (sf_pending x) = [] \<and> cbs_of x = cbs_of s \<and>
      sf_timedCommits x = sf_timedCommits s \<and> sf_unmapped x = sf_unmapped s \<and> sf_destroyed x = sf_destroyed s"
    using 1 [of r] assms(1-4,6) by (auto simp: calm_def)
  show "q \<noteq> r \<Longrightarrow> rel_option calm (oget (st_surfaces st) q) (oget (st_surfaces st') q)"
    using 1 [of q] by simp
qed

lemma commitNow_keeps:
  assumes "commitNow k r s st = Some (st', fx)" "\<not> detaches fx" "oget (st_surfaces st) r = Some s0"
  shows "\<exists>x. oget (st_surfaces st') r = Some x \<and> pd_frameCallbacks (sf_pending x) = [] \<and> cbs_of x = cbs_of s \<and>
      sf_timedCommits x = sf_timedCommits s \<and> sf_unmapped x = sf_unmapped s \<and> sf_destroyed x = sf_destroyed s"
    "q \<noteq> r \<Longrightarrow> rel_option calm (oget (st_surfaces st) q) (oget (st_surfaces st') q)"
proof (atomize (full), rule commitNow_cases [OF assms(1)])
  fix s1 acq rel s2 fx2 fx'
  assume l: "latch k s = (s1, acq, rel)" and c: "cache_commit k (pd_buffer (sf_pending s) \<noteq> None) acq rel s1 = (s2, fx2)"
    and u: "unmap_if_null k r (set_surface r s2 st) = (st', fx')" and fx: "fx = fx2 @ fx' @ [Role_commit r]"
  have st': "st' = set_surface r s2 st" using u assms(2) fx by (auto intro: unmap_if_null_quiet)
  have "cbs_of s2 = cbs_of s" "sf_timedCommits s2 = sf_timedCommits s" "sf_unmapped s2 = sf_unmapped s"
    "sf_destroyed s2 = sf_destroyed s" using latch_fields [OF l] cache_commit_fields [OF c] by simp_all
  moreover have "calm_state (set_surface r s2 st) st'" by (simp add: st')
  moreover have "\<exists>x. oget (st_surfaces st') r = Some x \<and> pd_frameCallbacks (sf_pending x) = []"
    using cache_commit_fields [OF c] by (simp add: st')
  ultimately show "(\<exists>x. oget (st_surfaces st') r = Some x \<and> pd_frameCallbacks (sf_pending x) = [] \<and> cbs_of x = cbs_of s \<and>
      sf_timedCommits x = sf_timedCommits s \<and> sf_unmapped x = sf_unmapped s \<and> sf_destroyed x = sf_destroyed s) \<and>
    (q \<noteq> r \<longrightarrow> rel_option calm (oget (st_surfaces st) q) (oget (st_surfaces st') q))"
    using set_surface_calm(1) [of s2 s r st st'] set_surface_calm(2) [of s2 s r st st' q] by blast
next
  fix s1 acq rel s2 fresh s3 st2 fx2 need fx'
  assume l: "latch k s = (s1, acq, rel)" and f: "flush_left_over st s1 = (s2, fresh)"
    and s3: "s3 = (if acq \<noteq> None \<or> rel \<noteq> None then promoteSyncobjForCommit st acq rel s2 else s2)"
    and ap: "applySurfaceState k r s3 (pd_buffer (sf_pending s) \<noteq> None \<or> fresh) st = Some (st2, fx2, need)"
    and u: "unmap_if_null k r st2 = (st', fx')" and fx: "fx = (fx2 @ (if need then [RebuildStack] else [])) @ fx' @ [Role_commit r]"
  have st': "st' = st2" using u assms(2) fx by (auto intro: unmap_if_null_quiet)
  have "cbs_of s3 = cbs_of s" "sf_timedCommits s3 = sf_timedCommits s" "sf_unmapped s3 = sf_unmapped s"
    "sf_destroyed s3 = sf_destroyed s" using latch_fields [OF l] flush_left_over_fields [OF f]
    by (simp_all add: s3 promoteSyncobj_fields)
  then show "(\<exists>x. oget (st_surfaces st') r = Some x \<and> pd_frameCallbacks (sf_pending x) = [] \<and> cbs_of x = cbs_of s \<and>
      sf_timedCommits x = sf_timedCommits s \<and> sf_unmapped x = sf_unmapped s \<and> sf_destroyed x = sf_destroyed s) \<and>
    (q \<noteq> r \<longrightarrow> rel_option calm (oget (st_surfaces st) q) (oget (st_surfaces st') q))"
    using set_surface_calm(1) [of s3 s r st st'] set_surface_calm(2) [of s3 s r st st' q] applySurfaceState_calm [OF ap assms(3)] st' by blast
qed

section \<open>The timed queue\<close>

definition not_due :: "sink \<Rightarrow> pending_state \<times> int option \<Rightarrow> bool" where
  "not_due k e = (case snd e of None \<Rightarrow> False | Some t \<Rightarrow> t > sk_nowNs k)"

text \<open>What the loop leaves: the entries up to the first that is not due are gone, the rest are in order.\<close>

definition latched_prefix :: "sink \<Rightarrow> (pending_state \<times> int option) list \<Rightarrow> (pending_state \<times> int option) list \<Rightarrow> bool" where
  "latched_prefix k q q' \<longleftrightarrow> q' = dropWhile (\<lambda>e. \<not> not_due k e) q"

definition pumped :: "sink \<Rightarrow> nat \<Rightarrow> surface_state \<Rightarrow> surface_state \<Rightarrow> bool" where
  "pumped k r st st' \<longleftrightarrow>
     (\<forall>q. q \<noteq> r \<longrightarrow> rel_option calm (oget (st_surfaces st) q) (oget (st_surfaces st') q)) \<and>
     (\<forall>s. oget (st_surfaces st) r = Some s \<longrightarrow>
        (\<exists>x. oget (st_surfaces st') r = Some x \<and> sf_pending x = sf_pending s \<and> cbs_of x = cbs_of s \<and>
           latched_prefix k (sf_timedCommits s) (sf_timedCommits x)))"

lemma latch_head_keeps:
  assumes "latch_head k r s entry q st = Some (st', fx)" "\<not> detaches fx" "oget (st_surfaces st) r = Some s"
    "sf_timedCommits s = (entry, target) # q"
  shows "\<exists>x. oget (st_surfaces st') r = Some x \<and> sf_pending x = sf_pending s \<and> cbs_of x = cbs_of s \<and>
      sf_timedCommits x = q \<and> sf_unmapped x = sf_unmapped s \<and> sf_destroyed x = sf_destroyed s"
    "p \<noteq> r \<Longrightarrow> rel_option calm (oget (st_surfaces st) p) (oget (st_surfaces st') p)"
proof -
  obtain st1 where c: "commitNow k r (s\<lparr>sf_timedCommits := q, sf_pending := entry\<rparr>) st = Some (st1, fx)"
    and st': "st' = restore_pending r (sf_pending s) st1"
    using assms(1) by (auto simp: latch_head_def bind_eq_Some_conv)
  obtain x where x: "oget (st_surfaces st1) r = Some x" "pd_frameCallbacks (sf_pending x) = []"
      "cbs_of x = cbs_of (s\<lparr>sf_timedCommits := q, sf_pending := entry\<rparr>)" "sf_timedCommits x = q"
      "sf_unmapped x = sf_unmapped s" "sf_destroyed x = sf_destroyed s"
    using commitNow_keeps(1) [OF c assms(2,3)] by auto
  have "cbs_of (x\<lparr>sf_pending := sf_pending s\<rparr>) = cbs_of s"
    using x(2-4) assms(4) by (simp add: cbs_of_def ac_simps)
  then show "\<exists>x. oget (st_surfaces st') r = Some x \<and> sf_pending x = sf_pending s \<and> cbs_of x = cbs_of s \<and>
      sf_timedCommits x = q \<and> sf_unmapped x = sf_unmapped s \<and> sf_destroyed x = sf_destroyed s"
    using x by (simp add: st' restore_pending_def)
  show "p \<noteq> r \<Longrightarrow> rel_option calm (oget (st_surfaces st) p) (oget (st_surfaces st') p)"
    using commitNow_keeps(2) [OF c assms(2,3), of p] x(1) by (simp add: st' restore_pending_def)
qed

lemma rel_calm_trans:
  "rel_option calm a b \<Longrightarrow> rel_option calm b c \<Longrightarrow> rel_option calm a c"
  by (cases a; cases b; cases c) (auto intro: calm_trans)

lemma pumped_trans1:
  assumes "\<exists>x. oget (st_surfaces st1) r = Some x \<and> sf_pending x = sf_pending s \<and> cbs_of x = cbs_of s \<and> sf_timedCommits x = q"
    "\<And>p. p \<noteq> r \<Longrightarrow> rel_option calm (oget (st_surfaces st) p) (oget (st_surfaces st1) p)"
    "oget (st_surfaces st) r = Some s" "sf_timedCommits s = e # q" "\<not> not_due k e" "pumped k r st1 st2"
  shows "pumped k r st st2"
  using assms unfolding pumped_def latched_prefix_def by (auto intro: rel_calm_trans)

lemma pump_order:
  assumes "pump k r n st = Some (st', fx, l)" "\<not> detaches fx" "oget (st_surfaces st) r = Some s"
    "\<not> sf_unmapped s" "\<not> sf_destroyed s" "length (sf_timedCommits s) \<le> n"
  shows "pumped k r st st'"
  using assms
proof (induction n arbitrary: st s fx l)
  case 0
  then show ?case by (auto simp: pumped_def latched_prefix_def option.rel_refl)
next
  case (Suc n)
  note s = Suc.prems(3)
  show ?case
  proof (cases "sf_timedCommits s")
    case Nil
    with Suc.prems show ?thesis by (auto simp: pump_Suc pumped_def latched_prefix_def option.rel_refl)
  next
    case (Cons e q)
    obtain entry target where e: "e = (entry, target)" by (cases e)
    show ?thesis
    proof (cases "not_due k e")
      case True
      then have "st' = st" using Suc.prems Cons e
        by (cases target) (auto simp: pump_Suc not_due_def)
      with True s Cons show ?thesis by (auto simp: pumped_def latched_prefix_def option.rel_refl)
    next
      case False
      then have "\<not> (case target of None \<Rightarrow> False | Some t \<Rightarrow> t > sk_nowNs k)" by (simp add: not_due_def e)
      then obtain st1 fx1 fx2 l2 where 1: "latch_head k r s entry q st = Some (st1, fx1)"
        and 2: "pump k r n st1 = Some (st', fx2, l2)" and fx: "fx = fx1 @ fx2"
        using Suc.prems Cons e by (auto simp: pump_Suc bind_eq_Some_conv)
      have d: "\<not> detaches fx1" "\<not> detaches fx2" using Suc.prems(2) fx by simp_all
      obtain x where x: "oget (st_surfaces st1) r = Some x" "sf_pending x = sf_pending s" "cbs_of x = cbs_of s"
          "sf_timedCommits x = q" "sf_unmapped x = sf_unmapped s" "sf_destroyed x = sf_destroyed s"
        using latch_head_keeps(1) [OF 1 d(1) s Cons [unfolded e]] by blast
      have "pumped k r st1 st'"
        using Suc.IH [OF 2 d(2) x(1)] x(4-6) Suc.prems(4-6) Cons by simp
      with x(1-4) show ?thesis
        by (intro pumped_trans1 [OF _ latch_head_keeps(2) [OF 1 d(1) s Cons [unfolded e]] s Cons False]) auto
    qed
  qed
qed

text \<open>The commit request.\<close>

definition cbs_at :: "surface_state \<Rightarrow> nat \<Rightarrow> nat multiset option" where
  "cbs_at st q = map_option cbs_of (oget (st_surfaces st) q)"

lemma cbs_at_calm: "rel_option calm (oget (st_surfaces st) q) (oget (st_surfaces st') q) \<Longrightarrow> cbs_at st' q = cbs_at st q"
  by (cases "oget (st_surfaces st) q"; cases "oget (st_surfaces st') q") (auto simp: cbs_at_def calm_def)

lemma detaches_wake [simp]: "detaches (if b then [Wake] else []) = False"
  by (simp add: detaches_iff)

lemma pumpTimedCommits_pumped:
  assumes "pumpTimedCommits k r st = Some (st', fx)" "\<not> detaches fx" "oget (st_surfaces st) r = Some s"
    "\<not> sf_unmapped s" "\<not> sf_destroyed s"
  shows "pumped k r st st'"
proof -
  obtain fx1 l where "pump k r (length (sf_timedCommits s)) st = Some (st', fx1, l)" "\<not> detaches fx1"
    using assms(1,2) by (auto simp: pumpTimedCommits_def Let_def bind_eq_Some_conv assms(3))
  then show ?thesis by (rule pump_order [OF _ _ assms(3-5) order_refl])
qed

text \<open>
  C8: No frame callback is lost or duplicated: unless a commit unmaps the surface, the callbacks of every surface - requested,
  cached with a synchronized commit, captured in the timed queue, or armed for the next frame - are after it the
  ones before it.
\<close>

theorem frame_callbacks_conserved:
  assumes "commit k r st = Some (st', fx)" "\<not> detaches fx"
    "\<And>s. oget (st_surfaces st) r = Some s \<Longrightarrow> \<not> sf_unmapped s \<and> \<not> sf_destroyed s"
  shows "cbs_at st' q = cbs_at st q"
proof (cases "oget (st_surfaces st) r")
  case None
  with assms(1) show ?thesis by (simp add: commit_def)
next
  case (Some s0)
  define s where "s = s0\<lparr>sf_pending := (sf_pending s0)\<lparr>pd_commitTimestamp := None\<rparr>\<rparr>"
  have s: "cbs_of s = cbs_of s0" by (simp add: s_def cbs_of_def)
  define t where "t = s\<lparr>sf_timedCommits := sf_timedCommits s @ [(sf_pending s, pd_commitTimestamp (sf_pending s0))],
                                       sf_pending := pending_none\<rparr>"
  have t: "cbs_of t = cbs_of s0" by (simp add: t_def s_def cbs_of_def pending_none_def ac_simps)
  consider "pumpTimedCommits k r (set_surface r t st) = Some (st', fx)" | "commitNow k r s st = Some (st', fx)"
    using assms(1) Some by (auto simp: commit_def Let_def s_def t_def split: if_splits)
  then show ?thesis
  proof cases
    case 1
    have "pumped k r (set_surface r t st) st'"
      by (rule pumpTimedCommits_pumped [OF 1 assms(2), of t])
        (use assms(3) [OF Some] in \<open>simp_all add: t_def s_def\<close>)
    then have p: "\<And>q. q \<noteq> r \<Longrightarrow> rel_option calm (oget (st_surfaces st) q) (oget (st_surfaces st') q)"
      "\<exists>x. oget (st_surfaces st') r = Some x \<and> cbs_of x = cbs_of t"
      by (auto simp: pumped_def)
    show ?thesis
    proof (cases "q = r")
      case True
      with p(2) t Some show ?thesis by (auto simp: cbs_at_def)
    qed (rule cbs_at_calm [OF p(1)])
  next
    case 2
    show ?thesis
    proof (cases "q = r")
      case True
      with commitNow_keeps(1) [OF 2 assms(2) Some] s Some show ?thesis by (auto simp: cbs_at_def)
    qed (rule cbs_at_calm [OF commitNow_keeps(2) [OF 2 assms(2) Some]])
  qed
qed


text \<open>Which surfaces a commit that is applied changes.\<close>

lemma unmap_if_null_others: "q \<noteq> r \<Longrightarrow> oget (st_surfaces (fst (unmap_if_null k r st))) q = oget (st_surfaces st) q"
  by (simp add: unmap_if_null_def Let_def split_def split: option.split)

lemma detach_cached: "sf_cached (fst (detachSurfaceRole k s)) = sf_cached s"
  by (simp add: detachSurfaceRole_def discard_queue_def)

lemma unmap_if_null_cache: "has_cache (fst (unmap_if_null k r st)) q = has_cache st q"
  by (cases "q = r") (auto simp: has_cache_def unmap_if_null_def Let_def split_def detach_cached split: option.split)

lemma applySurfaceState_carried:
  assumes ap: "applySurfaceState k r s bf st = Some (st', fx, need)" and r: "present st r" "sf_cached s = None"
  shows "q = r \<or> carried st r q \<Longrightarrow> \<not> has_cache st' q"
    "q \<noteq> r \<Longrightarrow> \<not> carried st r q \<Longrightarrow> oget (st_surfaces st') q = oget (st_surfaces st) q"
proof -
  obtain st1 where st1: "st1 = fst (apply_own k r s bf st)" "cascaded r (okeys (st_subsurfaces st1)) st1 st'"
    using ap by (rule applySurfaceState_steps)
  obtain s1 where s1: "oget (st_surfaces st1) = (oget (st_surfaces st))(r \<mapsto> s1)" "sf_cached s1 = None"
    using apply_own_surface [of k r s bf st] st1(1) r(2) by auto
  have same: "same_forest st st1" unfolding st1(1) using apply_own_kept [OF r(1)] by (rule kept_forest)
  note c = st1(2) [unfolded cascaded_def sync_child_same [OF same] sub_at_same [OF same] effectiveSync_same [OF same]]
  have down: "\<not> has_cache st1 q \<Longrightarrow> \<not> has_cache st' q" for q using c has_cache_calm by blast
  have own: "\<not> has_cache st' r" by (rule down) (use s1 in \<open>simp add: has_cache_def\<close>)
  have kids: "\<not> has_cache st' q" if kid: "sync_child st q r" for q
  proof -
    obtain i where "sub_at st i = Some (q, r)" "effectiveSync st q = Some True" using kid by (auto simp: sync_child_def)
    moreover from this have "i \<in> set (okeys (st_subsurfaces st1))"
      by (auto simp: sub_at_same [OF same, symmetric] sub_at_def dest: oget_Some_key)
    ultimately show ?thesis using c by blast
  qed
  have hc1: "has_cache st1 q \<longleftrightarrow> q \<noteq> r \<and> has_cache st q" for q using s1 by (simp add: has_cache_def)
  have "carried st r q \<Longrightarrow> \<not> has_cache st' q" for q
  proof (induction rule: carried.induct)
    case (child q)
    then show ?case using kids by blast
  next
    case (deeper p q)
    have "has_cache st p" using deeper(1) by (cases rule: carried.cases)
    with deeper kids c hc1 [of p] show ?case by (cases "p = r") blast+
  qed
  with own show "q = r \<or> carried st r q \<Longrightarrow> \<not> has_cache st' q" by blast
  have mono: "carried st1 r q \<Longrightarrow> carried st r q" for q
    by (induction rule: carried.induct) (auto intro: carried.intros simp: sync_child_same [OF same] hc1)
  show "oget (st_surfaces st') q = oget (st_surfaces st) q" if "q \<noteq> r" "\<not> carried st r q"
  proof -
    have "oget (st_surfaces st') q = oget (st_surfaces st1) q" using that c mono [of q] by blast
    then show ?thesis using s1(1) that(1) by simp
  qed
qed

lemma applied_commit_carries:
  assumes "oget (st_surfaces st) r = Some s" "effectiveSync st r = Some False" "sf_timedCommits s = []"
    "\<not> not_due k (sf_pending s, pd_commitTimestamp (sf_pending s))" "commit k r st = Some (st', fx)"
  shows "(q = r \<or> carried st r q \<longrightarrow> \<not> has_cache st' q) \<and>
    (q \<noteq> r \<and> carried st r q \<longrightarrow>
      map_option look (oget (st_surfaces st') q) = map_option due_look (oget (st_surfaces st) q)) \<and>
    (q \<noteq> r \<and> \<not> carried st r q \<longrightarrow> oget (st_surfaces st') q = oget (st_surfaces st) q)"
proof -
  have r: "present st r" using assms(1) by (simp add: present_def)
  have "commitNow k r (s\<lparr>sf_pending := (sf_pending s)\<lparr>pd_commitTimestamp := None\<rparr>\<rparr>) st = Some (st', fx)"
    using assms by (simp add: commit_def Let_def not_due_def)
  then show ?thesis
  proof (cases rule: commitNow_cases)
    case (cached s1 acq rel s2 fx2 fx')
    with assms(2) show ?thesis by simp
  next
    case (applied s1 acq rel s2 fresh s3 st2 fx2 need fx')
    have "sf_cached s3 = None" using flush_left_over_fields [OF applied(3)] applied(4) by (simp add: promoteSyncobj_fields)
    note st2 = applySurfaceState_carried [OF applied(5) r this]
    have st': "st' = fst (unmap_if_null k r st2)" using applied(6) by simp
    have "calm_state (set_surface r s3 st) st2" using applySurfaceState_calm(1) [OF applied(5)] assms(1) by simp
    then have "rel_option calm (oget (st_surfaces (set_surface r s3 st)) q) (oget (st_surfaces st2) q)"
      unfolding calm_state_def by blast
    then have "map_option look (oget (st_surfaces st2) q) = map_option due_look (oget (st_surfaces st) q)"
      if "q \<noteq> r" "has_cache st q" "\<not> has_cache st2 q"
      using that by (cases "oget (st_surfaces st) q"; cases "oget (st_surfaces st2) q")
        (auto simp: calm_def has_cache_def dest: due_look_shown)
    moreover have "carried st r q \<Longrightarrow> has_cache st q" by (cases rule: carried.cases)
    ultimately show ?thesis using st2 by (auto simp: st' unmap_if_null_others unmap_if_null_cache)
  qed
qed



text \<open>All slots but the double-buffered ones and the offset are equal.\<close>

definition shows_same :: "surface \<Rightarrow> surface \<Rightarrow> bool" where
  "shows_same s s' \<longleftrightarrow> s' = s\<lparr>sf_pending := sf_pending s', sf_committed := sf_committed s', sf_cached := sf_cached s',
      sf_offsetDx := sf_offsetDx s', sf_offsetDy := sf_offsetDy s'\<rparr>"

lemma shows_same_trans: "shows_same s s1 \<Longrightarrow> shows_same s1 s2 \<Longrightarrow> shows_same s s2"
  by (cases s; cases s1; cases s2) (simp add: shows_same_def)

lemma shows_same_role: "shows_same s s' \<Longrightarrow> sf_role s' = sf_role s"
  by (cases s; cases s') (simp add: shows_same_def)

lemma latch_same: "shows_same s (fst (latch k s))"
  by (rule surface.cases [of s]) (simp add: latch_def promote_pending_def Let_def shows_same_def)

lemma releaseSuperseded_same: "shows_same s (fst (releaseSupersededCachedBuffer k s))"
  by (rule surface.cases [of s]) (simp add: releaseSupersededCachedBuffer_def shows_same_def split: option.split)

lemma shows_same_updates [simp]:
  "shows_same s (s'\<lparr>sf_pending := p\<rparr>) = shows_same s s'"
  "shows_same s (s'\<lparr>sf_committed := m\<rparr>) = shows_same s s'"
  "shows_same s (s'\<lparr>sf_cached := c\<rparr>) = shows_same s s'"
  "shows_same (s\<lparr>sf_pending := p\<rparr>) s' = shows_same s s'"
  "shows_same (s\<lparr>sf_cached := c\<rparr>) s' = shows_same s s'"
  "shows_same s s"
  by (cases s; cases s'; simp add: shows_same_def)+

lemma cache_commit_same: "shows_same s (fst (cache_commit k attached acq rel s))"
  using releaseSuperseded_same [of "s\<lparr>sf_cached := Some (case sf_cached s of None \<Rightarrow> cached_none | Some c \<Rightarrow> c)\<rparr>" k]
  by (cases attached) (simp_all add: cache_commit_def Let_def split_def)

lemma releases_only:
  "set (snd (cache_commit k attached acq rel s)) \<subseteq> range SendRelease \<union> range SignalPoint"
  by (auto simp: cache_commit_def Let_def split_def releaseSupersededCachedBuffer_def split: option.splits if_splits)

lemma synced_commit_frame:
  assumes "oget (st_surfaces st) r = Some s" "effectiveSync st r = Some True" "sf_timedCommits s = []"
    "\<not> not_due k (sf_pending s, pd_commitTimestamp (sf_pending s))" "sf_role s = No_role"
    "commit k r st = Some (st', fx)"
  shows "(\<exists>s'. st' = set_surface r s' st \<and> shows_same s s' \<and> sf_cached s' \<noteq> None) \<and>
    set fx \<subseteq> insert (Role_commit r) (range SendRelease \<union> range SignalPoint)"
proof -
  have "commitNow k r (s\<lparr>sf_pending := (sf_pending s)\<lparr>pd_commitTimestamp := None\<rparr>\<rparr>) st = Some (st', fx)"
    using assms by (simp add: commit_def Let_def not_due_def)
  then show ?thesis
  proof (cases rule: commitNow_cases)
    case (cached s1 acq rel s2 fx2 fx')
    have "shows_same s s1"
      using latch_same [of "s\<lparr>sf_pending := (sf_pending s)\<lparr>pd_commitTimestamp := None\<rparr>\<rparr>" k] by (simp add: cached(2))
    moreover have "shows_same s1 s2"
      using cache_commit_same [of s1 k _ acq rel] cached(3) by (metis fst_conv)
    ultimately have s2: "shows_same s s2" by (rule shows_same_trans)
    then have "sf_role s2 = No_role" using assms(5) by (simp add: shows_same_role)
    then have u: "st' = set_surface r s2 st" "fx' = []" using cached(4) by (auto simp: unmap_if_null_def)
    have "sf_cached s2 \<noteq> None"
      using cache_commit_cached [of k "pd_buffer (sf_pending (s\<lparr>sf_pending := (sf_pending s)\<lparr>pd_commitTimestamp := None\<rparr>\<rparr>)) \<noteq> None" acq rel s1]
      unfolding cached(3) by auto
    moreover have "set fx2 \<subseteq> range SendRelease \<union> range SignalPoint"
      using releases_only [of k _ acq rel s1] cached(3) by (metis snd_conv)
    ultimately show ?thesis using s2 u cached(5) by auto
  next
    case (applied s1 acq rel s2 fresh s3 st2 fx2 need fx')
    with assms(2) show ?thesis by simp
  qed
qed


section \<open>Concrete sessions\<close>

text \<open>The session of \<open>tree_ops\<close> and \<open>commit_ops\<close> before its last commit, which carries 6 and 7 with 5.\<close>

definition demo_state :: surface_state where
  "demo_state = fst (run surf_do (nothing_yet [(71, shm_buffer), (72, shm_buffer)] []) (at0 (tree_ops @ butlast commit_ops)))"

definition demo_root :: surface where
  "demo_root = the (oget (st_surfaces demo_state) 5)"

definition demo_child :: surface where
  "demo_child = the (oget (st_surfaces demo_state) 6)"

lemma present_the: "present st r \<Longrightarrow> oget (st_surfaces st) r = Some (the (oget (st_surfaces st) r))"
  by (auto simp: present_def)

lemma demo_root:
  "oget (st_surfaces demo_state) 5 = Some demo_root"
  "effectiveSync demo_state 5 = Some False"
  "sf_timedCommits demo_root = []"
  "\<not> not_due (plain_sink 0) (sf_pending demo_root, pd_commitTimestamp (sf_pending demo_root))"
proof -
  have "present demo_state 5" unfolding present_def by code_simp
  then show "oget (st_surfaces demo_state) 5 = Some demo_root" unfolding demo_root_def by (rule present_the)
qed code_simp+

lemma demo_child:
  "oget (st_surfaces demo_state) 6 = Some demo_child"
  "effectiveSync demo_state 6 = Some True"
  "sf_timedCommits demo_child = []" "\<not> sf_unmapped demo_child" "\<not> sf_destroyed demo_child"
  "\<not> not_due (plain_sink 0) (sf_pending demo_child, pd_commitTimestamp (sf_pending demo_child))"
  "sf_role demo_child = No_role"
proof -
  have "present demo_state 6" unfolding present_def by code_simp
  then show "oget (st_surfaces demo_state) 6 = Some demo_child" unfolding demo_child_def by (rule present_the)
qed code_simp+

lemma demo_carried: "carried demo_state 5 6" "carried demo_state 5 7"
proof -
  have at: "sub_at demo_state 11 = Some (6, 5)" "sub_at demo_state 12 = Some (7, 6)" by code_simp+
  have sync: "effectiveSync demo_state 6 = Some True" "effectiveSync demo_state 7 = Some True" by code_simp+
  have cache: "has_cache demo_state 6" "has_cache demo_state 7" by code_simp+
  show 6: "carried demo_state 5 6"
    by (rule carried.child) (use at sync cache in \<open>auto simp: sync_child_def\<close>)
  show "carried demo_state 5 7"
    by (rule carried.deeper [OF 6]) (use at sync cache in \<open>auto simp: sync_child_def\<close>)
qed

text \<open>
  The cascade stops at a synchronized child that holds no cached commit: a commit of 5 leaves the cached commit of the
  synchronized grandchild 7 where it is, because 6 has not committed.
\<close>

definition cut_state :: surface_state where
  "cut_state = fst (run surf_do (nothing_yet [(71, shm_buffer)] []) (at0 (tree_ops @ [Attach 7 (Some 71) 0 0, Commit 7])))"

definition cut_root :: surface where
  "cut_root = the (oget (st_surfaces cut_state) 5)"

lemma cut_facts:
  "oget (st_surfaces cut_state) 5 = Some cut_root" "effectiveSync cut_state 5 = Some False"
  "effectiveSync cut_state 7 = Some True" "sf_timedCommits cut_root = []"
  "\<not> not_due (plain_sink 0) (sf_pending cut_root, pd_commitTimestamp (sf_pending cut_root))"
  "\<not> has_cache cut_state 6" "has_cache cut_state 7"
proof -
  have "present cut_state 5" unfolding present_def by code_simp
  then show "oget (st_surfaces cut_state) 5 = Some cut_root" unfolding cut_root_def by (rule present_the)
qed code_simp+

lemma cut_parents: "sub_at cut_state i = Some (7, p) \<Longrightarrow> p = 6"
proof -
  have "map (\<lambda>(i, s). (i, (\<lambda>s. (ss_surface s, ss_parent s)) s)) (st_subsurfaces cut_state) = [(11, 6, 5), (12, 7, 6)]"
    by code_simp
  from arg_cong [OF this, of "\<lambda>xs. map_of xs i"] have "sub_at cut_state i = map_of [(11, 6, 5), (12, 7, 6)] i"
    by (simp only: map_of_map sub_at_def comp_def)
  then show "sub_at cut_state i = Some (7, p) \<Longrightarrow> p = 6" by (simp split: if_splits)
qed

lemma cacheless_child_stops_cascade:
  assumes "commit (plain_sink 0) 5 cut_state = Some (st', fx)"
  shows "has_cache st' 7"
proof -
  have "\<not> carried cut_state 5 7"
  proof
    assume "carried cut_state 5 7"
    then show False
      using cut_facts(6) by (cases rule: carried.cases) (auto simp: sync_child_def dest!: cut_parents elim: carried.cases)
  qed
  with applied_commit_carries [OF cut_facts(1,2,4,5) assms, of 7] cut_facts(7) show ?thesis by (simp add: has_cache_def)
qed

lemma demo_commits: "\<exists>st' fx. commit k r demo_state = Some (st', fx)"
proof -
  have "admissible surf_do keeps_forest (nothing_yet b g) (at0 (tree_ops @ butlast commit_ops))" for b g
    using tree_ops_ok [of b g] unfolding at0_def commit_ops_def by (simp add: admissible_append)
  then have "forest demo_state" unfolding demo_state_def
    using surf_sessions.related.inv_run [of "nothing_yet [(71, shm_buffer), (72, shm_buffer)] []"] forest_nothing_yet by simp
  then show ?thesis using commit_returns [of demo_state k r] by (auto simp: forest_def)
qed



theorem frame_callbacks_conserved_witness:
  "\<exists>st' fx. commit (plain_sink 0) 6 demo_state = Some (st', fx) \<and> cbs_at st' 6 = Some {#202#}"
proof -
  obtain st' fx where c: "commit (plain_sink 0) 6 demo_state = Some (st', fx)" using demo_commits by blast
  have "set fx \<subseteq> insert (Role_commit 6) (range SendRelease \<union> range SignalPoint)"
    using synced_commit_frame [OF demo_child(1-3,6,7) c] by blast
  then have "\<not> detaches fx" by (auto simp: detaches_iff)
  moreover have "cbs_at demo_state 6 = Some {#202#}" by code_simp
  ultimately show ?thesis
    using c frame_callbacks_conserved [OF c, of 6] demo_child(1,4,5) by auto
qed

text \<open>A commit with a target half a microsecond ahead waits.\<close>

definition timed_state :: surface_state where
  "timed_state = fst (run surf_do (nothing_yet [] []) (at0
     [New_surface 5 105 No_role, Get_timer 9 5, Set_timestamp 9 0 0 500, Frame 5 201]))"

definition timed_surface :: surface where
  "timed_surface = the (oget (st_surfaces timed_state) 5)"

lemma timed_surface:
  "oget (st_surfaces timed_state) 5 = Some timed_surface"
  "\<not> sf_unmapped timed_surface" "\<not> sf_destroyed timed_surface" "sf_timedCommits timed_surface = []"
  "pd_commitTimestamp (sf_pending timed_surface) = Some 500"
proof -
  have "present timed_state 5" unfolding present_def by code_simp
  then show "oget (st_surfaces timed_state) 5 = Some timed_surface" unfolding timed_surface_def by (rule present_the)
qed code_simp+

lemma commit_waits:
  assumes "oget (st_surfaces st) r = Some s" "sf_timedCommits s = []" "pd_commitTimestamp (sf_pending s) = Some t"
    "sk_nowNs k < t" "\<not> sf_unmapped s" "\<not> sf_destroyed s"
  shows "\<exists>st'. commit k r st = Some (st', [ArmTimer r ((t - sk_nowNs k) div 1000000 + 1)])"
  using assms by (simp add: commit_def Let_def pumpTimedCommits_def pump_Suc)


end
