(* ===== verification/Window_State.thy ===== *)
theory Window_State
  imports Prelude
begin

text \<open>
  The behavioural state of a window and the policy that changes it (\<open>core/src/wm/index.ts\<close>, the module-level
  functions, and the parts of \<open>propose\<close> that compute a state): merging a proposal, validating what an
  interceptor returns, resolving a client's requests, comparing two states.

  A value that arrives from an interceptor is a \<open>js_value\<close> value. \<open>layoutData\<close> is opaque to the code and compared by
  identity: a primitive is itself, an object its reference \<open>JRef\<close>; a NaN there, which the code finds different from itself,
  is not considered. A parent that is not a number of a window is
  kept as it came; one that is NaN is \<open>-1\<close>, which is no window's number either.
\<close>

section \<open>Data\<close>

datatype js_value =
    JUndefined
  | JNull
  | JBool bool
  | JNumber number
  | JNonFinite
  | JString string
  | JRef nat
  | JObject "(string \<times> js_value) list"

datatype tiling = Managed | Floating

datatype size_mode = No_size_mode | Maximized | Zoomed | Fullscreen

record client_requests =
  wantsMaximized :: bool
  wantsFullscreen :: bool
  wantsMinimized :: bool
  wantsModal :: bool

type_synonym size2 = "number \<times> number"

record window_state =
  wn_tiling :: tiling
  wn_sizeMode :: size_mode
  wn_visible :: bool
  wn_modal :: bool
  wn_lifted :: bool
  wn_clientRequests :: client_requests
  wn_layoutMode :: "string option"
  wn_layoutData :: js_value
  wn_minSize :: "size2 option"
  wn_maxSize :: "size2 option"
  wn_parent :: "number option"

definition defaultWindowState :: window_state where
  "defaultWindowState = \<lparr>wn_tiling = Managed, wn_sizeMode = No_size_mode, wn_visible = True, wn_modal = False,
     wn_lifted = False, wn_clientRequests = \<lparr>wantsMaximized = False, wantsFullscreen = False,
       wantsMinimized = False, wantsModal = False\<rparr>,
     wn_layoutMode = None, wn_layoutData = JUndefined, wn_minSize = None, wn_maxSize = None, wn_parent = None\<rparr>"

text \<open>A slot of a proposal that is absent is \<open>None\<close>.\<close>

record request_proposal =
  rp_maximized :: "bool option"
  rp_fullscreen :: "bool option"
  rp_minimized :: "bool option"
  rp_modal :: "bool option"

record proposal =
  pr_tiling :: "tiling option"
  pr_sizeMode :: "size_mode option"
  pr_visible :: "bool option"
  pr_modal :: "bool option"
  pr_lifted :: "bool option"
  pr_clientRequests :: "request_proposal option"
  pr_layoutMode :: "string option option"
  pr_layoutData :: "js_value option"
  pr_minSize :: "size2 option option"
  pr_maxSize :: "size2 option option"
  pr_parent :: "number option option"
  pr_floatByType :: "bool option"

definition no_proposal :: proposal where
  "no_proposal = \<lparr>pr_tiling = None, pr_sizeMode = None, pr_visible = None, pr_modal = None, pr_lifted = None,
     pr_clientRequests = None, pr_layoutMode = None, pr_layoutData = None, pr_minSize = None, pr_maxSize = None,
     pr_parent = None, pr_floatByType = None\<rparr>"

definition no_requests :: request_proposal where
  "no_requests = \<lparr>rp_maximized = None, rp_fullscreen = None, rp_minimized = None, rp_modal = None\<rparr>"

datatype state_field =
    F_tiling | F_sizeMode | F_visible | F_modal | F_lifted | F_clientRequests | F_layoutMode | F_layoutData
  | F_constraints | F_parent

text \<open>An absent slot leaves the value.\<close>

abbreviation slot :: "'a option \<Rightarrow> 'a \<Rightarrow> 'a" where
  "slot v old \<equiv> (case v of None \<Rightarrow> old | Some x \<Rightarrow> x)"

section \<open>Geometry of a window\<close>

record insets =
  in_top :: number
  in_right :: number
  in_bottom :: number
  in_left :: number

definition shrink :: "rect \<Rightarrow> insets \<Rightarrow> rect" where
  "shrink outer i = \<lparr>rx = rx outer + in_left i, ry = ry outer + in_top i,
     rw = max 0 (rw outer - in_left i - in_right i), rh = max 0 (rh outer - in_top i - in_bottom i)\<rparr>"

definition content_of :: "window_state \<Rightarrow> rect \<Rightarrow> insets option \<Rightarrow> rect" where
  "content_of s outer insets =
    (if wn_sizeMode s = Fullscreen then outer
     else case insets of None \<Rightarrow> outer | Some i \<Rightarrow> shrink outer i)"

section \<open>Comparing and merging\<close>

definition clientRequestsEqual :: "client_requests \<Rightarrow> client_requests \<Rightarrow> bool" where
  "clientRequestsEqual a b \<longleftrightarrow> wantsMaximized a = wantsMaximized b \<and> wantsFullscreen a = wantsFullscreen b \<and>
     wantsMinimized a = wantsMinimized b \<and> wantsModal a = wantsModal b"

fun sizeEqual :: "size2 option \<Rightarrow> size2 option \<Rightarrow> bool" where
  "sizeEqual None None = True"
| "sizeEqual None (Some b) = False"
| "sizeEqual (Some a) None = False"
| "sizeEqual (Some (w, h)) (Some (w', h')) = (w = w' \<and> h = h')"

definition constraintsEqual :: "window_state \<Rightarrow> window_state \<Rightarrow> bool" where
  "constraintsEqual a b \<longleftrightarrow> sizeEqual (wn_minSize a) (wn_minSize b) \<and> sizeEqual (wn_maxSize a) (wn_maxSize b)"

definition diffState :: "window_state \<Rightarrow> window_state \<Rightarrow> state_field list" where
  "diffState prev nxt =
    (if wn_tiling prev \<noteq> wn_tiling nxt then [F_tiling] else []) @
    (if wn_sizeMode prev \<noteq> wn_sizeMode nxt then [F_sizeMode] else []) @
    (if wn_visible prev \<noteq> wn_visible nxt then [F_visible] else []) @
    (if wn_modal prev \<noteq> wn_modal nxt then [F_modal] else []) @
    (if wn_lifted prev \<noteq> wn_lifted nxt then [F_lifted] else []) @
    (if \<not> clientRequestsEqual (wn_clientRequests prev) (wn_clientRequests nxt) then [F_clientRequests] else []) @
    (if wn_layoutMode prev \<noteq> wn_layoutMode nxt then [F_layoutMode] else []) @
    (if wn_layoutData prev \<noteq> wn_layoutData nxt then [F_layoutData] else []) @
    (if \<not> constraintsEqual prev nxt then [F_constraints] else []) @
    (if wn_parent prev \<noteq> wn_parent nxt then [F_parent] else [])"

definition merge_requests :: "client_requests \<Rightarrow> request_proposal \<Rightarrow> client_requests" where
  "merge_requests c p = c\<lparr>wantsMaximized := slot (rp_maximized p) (wantsMaximized c),
     wantsFullscreen := slot (rp_fullscreen p) (wantsFullscreen c),
     wantsMinimized := slot (rp_minimized p) (wantsMinimized c),
     wantsModal := slot (rp_modal p) (wantsModal c)\<rparr>"

definition mergeProposal :: "window_state \<Rightarrow> proposal \<Rightarrow> window_state" where
  "mergeProposal current p = current\<lparr>
     wn_tiling := slot (pr_tiling p) (wn_tiling current),
     wn_sizeMode := slot (pr_sizeMode p) (wn_sizeMode current),
     wn_visible := slot (pr_visible p) (wn_visible current),
     wn_modal := slot (pr_modal p) (wn_modal current),
     wn_lifted := slot (pr_lifted p) (wn_lifted current),
     wn_clientRequests := (case pr_clientRequests p of
         None \<Rightarrow> wn_clientRequests current
       | Some q \<Rightarrow> merge_requests (wn_clientRequests current) q),
     wn_layoutMode := slot (pr_layoutMode p) (wn_layoutMode current),
     wn_layoutData := slot (pr_layoutData p) (wn_layoutData current),
     wn_minSize := slot (pr_minSize p) (wn_minSize current),
     wn_maxSize := slot (pr_maxSize p) (wn_maxSize current),
     wn_parent := slot (pr_parent p) (wn_parent current)\<rparr>"

section \<open>What an interceptor returned\<close>

fun jget :: "js_value \<Rightarrow> string \<Rightarrow> js_value" where
  "jget (JObject kvs) k = (case map_of kvs k of None \<Rightarrow> JUndefined | Some v \<Rightarrow> v)"
| "jget _ k = JUndefined"

fun is_object :: "js_value \<Rightarrow> bool" where
  "is_object (JObject _) = True"
| "is_object (JRef _) = True"
| "is_object _ = False"

fun to_bool :: "js_value \<Rightarrow> bool option" where
  "to_bool (JBool b) = Some b"
| "to_bool _ = None"

definition to_tiling :: "js_value \<Rightarrow> tiling option" where
  "to_tiling v = (if v = JString ''managed'' then Some Managed else if v = JString ''floating'' then Some Floating
     else None)"

definition to_size_mode :: "js_value \<Rightarrow> size_mode option" where
  "to_size_mode v = (if v = JString ''none'' then Some No_size_mode else if v = JString ''maximized'' then Some Maximized
     else if v = JString ''zoomed'' then Some Zoomed else if v = JString ''fullscreen'' then Some Fullscreen else None)"

fun to_lifted :: "js_value \<Rightarrow> bool option" where
  "to_lifted JUndefined = Some False"
| "to_lifted (JBool b) = Some b"
| "to_lifted _ = None"

definition to_requests :: "js_value \<Rightarrow> client_requests option" where
  "to_requests v =
    (if \<not> is_object v then None
     else case (to_bool (jget v ''wantsMaximized''), to_bool (jget v ''wantsFullscreen''),
                to_bool (jget v ''wantsMinimized''), to_bool (jget v ''wantsModal'')) of
            (Some a, Some b, Some c, Some d) \<Rightarrow>
              Some \<lparr>wantsMaximized = a, wantsFullscreen = b, wantsMinimized = c, wantsModal = d\<rparr>
          | _ \<Rightarrow> None)"

fun to_mode :: "js_value \<Rightarrow> string option option" where
  "to_mode JNull = Some None"
| "to_mode (JString s) = Some (Some s)"
| "to_mode _ = None"

fun to_finite :: "js_value \<Rightarrow> number option" where
  "to_finite (JNumber n) = Some n"
| "to_finite _ = None"

definition to_size :: "js_value \<Rightarrow> size2 option option" where
  "to_size v =
    (if v = JNull then Some None
     else if \<not> is_object v then None
     else case (to_finite (jget v ''width''), to_finite (jget v ''height'')) of
            (Some w, Some h) \<Rightarrow> Some (Some (w, h))
          | _ \<Rightarrow> None)"

fun to_parent :: "js_value \<Rightarrow> number option option" where
  "to_parent JNull = Some None"
| "to_parent (JNumber n) = Some (Some n)"
| "to_parent JNonFinite = Some (Some (- 1))"
| "to_parent _ = None"

definition validateState :: "js_value \<Rightarrow> window_state option" where
  "validateState v =
    (if \<not> is_object v \<or> \<not> is_object (jget v ''constraints'') then None
     else case (to_tiling (jget v ''tiling''), to_size_mode (jget v ''sizeMode''), to_bool (jget v ''visible''),
                to_bool (jget v ''modal''), to_lifted (jget v ''lifted''), to_requests (jget v ''clientRequests''),
                to_mode (jget v ''layoutMode''), to_size (jget (jget v ''constraints'') ''minSize''),
                to_size (jget (jget v ''constraints'') ''maxSize''), to_parent (jget v ''parent'')) of
            (Some t, Some m, Some vis, Some md, Some l, Some cr, Some lm, Some mn, Some mx, Some p) \<Rightarrow>
              Some \<lparr>wn_tiling = t, wn_sizeMode = m, wn_visible = vis, wn_modal = md, wn_lifted = l,
                wn_clientRequests = cr, wn_layoutMode = lm, wn_layoutData = jget v ''layoutData'',
                wn_minSize = mn, wn_maxSize = mx, wn_parent = p\<rparr>
          | _ \<Rightarrow> None)"

section \<open>Policy\<close>

datatype phase = Pre_content | Post_content

text \<open>The default mapping of a client's requests to decisions, when the candidate decides nothing itself.\<close>

definition decided_directly :: "window_state \<Rightarrow> window_state \<Rightarrow> bool" where
  "decided_directly prev cand \<longleftrightarrow> wn_tiling prev \<noteq> wn_tiling cand \<or> wn_sizeMode prev \<noteq> wn_sizeMode cand \<or>
     wn_visible prev \<noteq> wn_visible cand \<or> wn_modal prev \<noteq> wn_modal cand"

definition resolve_size :: "client_requests \<Rightarrow> client_requests \<Rightarrow> phase \<Rightarrow> size_mode \<Rightarrow> size_mode" where
  "resolve_size old new ph m =
    (if wantsFullscreen new \<noteq> wantsFullscreen old
     then if wantsFullscreen new then Fullscreen else No_size_mode
     else if wantsMaximized new \<noteq> wantsMaximized old
     then if wantsMaximized new then (if ph = Post_content then Maximized else m)
          else if m = Maximized then No_size_mode else m
     else m)"

definition resolve_visible :: "client_requests \<Rightarrow> client_requests \<Rightarrow> phase \<Rightarrow> bool \<Rightarrow> bool" where
  "resolve_visible old new ph vis =
    (if wantsMinimized new \<noteq> wantsMinimized old
     then if wantsMinimized new then (if ph = Post_content then False else vis) else True
     else vis)"

definition resolveDecisions :: "window_state \<Rightarrow> window_state \<Rightarrow> phase \<Rightarrow> window_state" where
  "resolveDecisions prev cand ph =
    (if decided_directly prev cand then cand
     else (let old = wn_clientRequests prev; new = wn_clientRequests cand
           in cand\<lparr>wn_sizeMode := resolve_size old new ph (wn_sizeMode cand),
                   wn_visible := resolve_visible old new ph (wn_visible cand),
                   wn_modal := (if wantsModal new \<noteq> wantsModal old then wantsModal new else wn_modal cand)\<rparr>))"

definition coversIsland :: "size_mode \<Rightarrow> bool" where
  "coversIsland m \<longleftrightarrow> m = Maximized \<or> m = Zoomed"

text \<open>
  The candidate of \<open>propose\<close>: merge, what the interceptors made of it (\<open>None\<close> for no payload), the policy, and
  the flag that the floating lane cannot hold.
\<close>

definition decide :: "window_state \<Rightarrow> proposal \<Rightarrow> js_value option \<Rightarrow> phase \<Rightarrow> window_state" where
  "decide current p answer ph =
    (let merged = mergeProposal current p;
         intercepted = (case answer of
             None \<Rightarrow> merged
           | Some v \<Rightarrow> (case validateState v of None \<Rightarrow> merged | Some m \<Rightarrow> m));
         resolved = resolveDecisions current intercepted ph
     in if wn_tiling resolved = Floating \<and> wn_lifted resolved then resolved\<lparr>wn_lifted := False\<rparr> else resolved)"

text \<open>The stamps that \<open>propose\<close> makes at once: decisions and requests before the first content, constraints always.\<close>

definition stamp_decisions :: "window_state \<Rightarrow> proposal \<Rightarrow> window_state" where
  "stamp_decisions s p =
    (let s1 = s\<lparr>wn_tiling := slot (pr_tiling p) (wn_tiling s), wn_sizeMode := slot (pr_sizeMode p) (wn_sizeMode s),
                wn_visible := slot (pr_visible p) (wn_visible s), wn_modal := slot (pr_modal p) (wn_modal s),
                wn_parent := slot (pr_parent p) (wn_parent s)\<rparr>
     in case pr_clientRequests p of
          None \<Rightarrow> s1
        | Some q \<Rightarrow>
            resolveDecisions s1 (s1\<lparr>wn_clientRequests := merge_requests (wn_clientRequests s1) q\<rparr>) Pre_content)"

definition stamp_constraints :: "window_state \<Rightarrow> proposal \<Rightarrow> window_state" where
  "stamp_constraints s p = s\<lparr>wn_minSize := slot (pr_minSize p) (wn_minSize s), wn_maxSize := slot (pr_maxSize p) (wn_maxSize s)\<rparr>"

text \<open>
  The fields a \<open>preconfigure\<close> interceptor changed, relative to what it was shown, laid over the state as it is now.
\<close>

definition apply_field :: "window_state \<Rightarrow> state_field \<Rightarrow> window_state \<Rightarrow> window_state" where
  "apply_field src f s = (case f of
      F_tiling \<Rightarrow> s\<lparr>wn_tiling := wn_tiling src\<rparr>
    | F_sizeMode \<Rightarrow> s\<lparr>wn_sizeMode := wn_sizeMode src\<rparr>
    | F_visible \<Rightarrow> s\<lparr>wn_visible := wn_visible src\<rparr>
    | F_modal \<Rightarrow> s\<lparr>wn_modal := wn_modal src\<rparr>
    | F_lifted \<Rightarrow> s\<lparr>wn_lifted := wn_lifted src\<rparr>
    | F_clientRequests \<Rightarrow> s\<lparr>wn_clientRequests := wn_clientRequests src\<rparr>
    | F_layoutMode \<Rightarrow> s\<lparr>wn_layoutMode := wn_layoutMode src\<rparr>
    | F_layoutData \<Rightarrow> s\<lparr>wn_layoutData := wn_layoutData src\<rparr>
    | F_constraints \<Rightarrow> s\<lparr>wn_minSize := wn_minSize src, wn_maxSize := wn_maxSize src\<rparr>
    | F_parent \<Rightarrow> s\<lparr>wn_parent := wn_parent src\<rparr>)"

definition rule_state :: "window_state \<Rightarrow> window_state \<Rightarrow> js_value option \<Rightarrow> window_state" where
  "rule_state preEmit now answer =
    (case (case answer of None \<Rightarrow> None | Some v \<Rightarrow> validateState v) of
       None \<Rightarrow> now
     | Some m \<Rightarrow> fold (apply_field m) (diffState preEmit m) now)"

section \<open>Lemmas\<close>

lemma sizeEqual_iff [simp]: "sizeEqual a b \<longleftrightarrow> a = b"
  by (cases "(a, b)" rule: sizeEqual.cases) auto

lemma clientRequestsEqual_iff [simp]: "clientRequestsEqual a b \<longleftrightarrow> a = b"
  by (cases a; cases b) (auto simp: clientRequestsEqual_def)

lemma diffState_field:
  "F_tiling \<in> set (diffState a b) \<longleftrightarrow> wn_tiling a \<noteq> wn_tiling b"
  "F_sizeMode \<in> set (diffState a b) \<longleftrightarrow> wn_sizeMode a \<noteq> wn_sizeMode b"
  "F_visible \<in> set (diffState a b) \<longleftrightarrow> wn_visible a \<noteq> wn_visible b"
  "F_modal \<in> set (diffState a b) \<longleftrightarrow> wn_modal a \<noteq> wn_modal b"
  "F_lifted \<in> set (diffState a b) \<longleftrightarrow> wn_lifted a \<noteq> wn_lifted b"
  "F_clientRequests \<in> set (diffState a b) \<longleftrightarrow> wn_clientRequests a \<noteq> wn_clientRequests b"
  "F_layoutMode \<in> set (diffState a b) \<longleftrightarrow> wn_layoutMode a \<noteq> wn_layoutMode b"
  "F_layoutData \<in> set (diffState a b) \<longleftrightarrow> wn_layoutData a \<noteq> wn_layoutData b"
  "F_constraints \<in> set (diffState a b) \<longleftrightarrow> wn_minSize a \<noteq> wn_minSize b \<or> wn_maxSize a \<noteq> wn_maxSize b"
  "F_parent \<in> set (diffState a b) \<longleftrightarrow> wn_parent a \<noteq> wn_parent b"
  by (simp_all add: diffState_def constraintsEqual_def)

lemma diffState_refl [simp]: "diffState a a = []"
  by (simp add: diffState_def constraintsEqual_def)

lemma diffState_Nil [simp]: "diffState a b = [] \<longleftrightarrow> a = b"
proof
  assume "diffState a b = []"
  then show "a = b" using diffState_field [of a b] by (intro window_state.equality) simp_all
qed simp

text \<open>Writing the fields of a difference over the older state gives the newer one.\<close>

lemma apply_fields:
  "wn_tiling (fold (apply_field b) fs s) = (if F_tiling \<in> set fs then wn_tiling b else wn_tiling s)"
  "wn_sizeMode (fold (apply_field b) fs s) = (if F_sizeMode \<in> set fs then wn_sizeMode b else wn_sizeMode s)"
  "wn_visible (fold (apply_field b) fs s) = (if F_visible \<in> set fs then wn_visible b else wn_visible s)"
  "wn_modal (fold (apply_field b) fs s) = (if F_modal \<in> set fs then wn_modal b else wn_modal s)"
  "wn_lifted (fold (apply_field b) fs s) = (if F_lifted \<in> set fs then wn_lifted b else wn_lifted s)"
  "wn_clientRequests (fold (apply_field b) fs s) = (if F_clientRequests \<in> set fs then wn_clientRequests b else wn_clientRequests s)"
  "wn_layoutMode (fold (apply_field b) fs s) = (if F_layoutMode \<in> set fs then wn_layoutMode b else wn_layoutMode s)"
  "wn_layoutData (fold (apply_field b) fs s) = (if F_layoutData \<in> set fs then wn_layoutData b else wn_layoutData s)"
  "wn_minSize (fold (apply_field b) fs s) = (if F_constraints \<in> set fs then wn_minSize b else wn_minSize s)"
  "wn_maxSize (fold (apply_field b) fs s) = (if F_constraints \<in> set fs then wn_maxSize b else wn_maxSize s)"
  "wn_parent (fold (apply_field b) fs s) = (if F_parent \<in> set fs then wn_parent b else wn_parent s)"
  by (induction fs arbitrary: s) (simp_all add: apply_field_def split: state_field.split)

lemma apply_diff: "fold (apply_field b) (diffState a b) a = b"
  by (intro window_state.equality) (simp_all add: apply_fields diffState_field)

lemma merge_requests_again [simp]: "merge_requests (merge_requests c q) q = merge_requests c q"
  by (cases c) (simp add: merge_requests_def split: option.split)

lemma merge_simps [simp]:
  "wn_tiling (mergeProposal s p) = slot (pr_tiling p) (wn_tiling s)"
  "wn_sizeMode (mergeProposal s p) = slot (pr_sizeMode p) (wn_sizeMode s)"
  "wn_visible (mergeProposal s p) = slot (pr_visible p) (wn_visible s)"
  "wn_modal (mergeProposal s p) = slot (pr_modal p) (wn_modal s)"
  "wn_lifted (mergeProposal s p) = slot (pr_lifted p) (wn_lifted s)"
  "wn_clientRequests (mergeProposal s p) = (case pr_clientRequests p of None \<Rightarrow> wn_clientRequests s
     | Some q \<Rightarrow> merge_requests (wn_clientRequests s) q)"
  "wn_layoutMode (mergeProposal s p) = slot (pr_layoutMode p) (wn_layoutMode s)"
  "wn_layoutData (mergeProposal s p) = slot (pr_layoutData p) (wn_layoutData s)"
  "wn_minSize (mergeProposal s p) = slot (pr_minSize p) (wn_minSize s)"
  "wn_maxSize (mergeProposal s p) = slot (pr_maxSize p) (wn_maxSize s)"
  "wn_parent (mergeProposal s p) = slot (pr_parent p) (wn_parent s)"
  by (simp_all add: mergeProposal_def)

lemma merge_lifted [simp]:
  "mergeProposal (s\<lparr>wn_lifted := b\<rparr>) p = (mergeProposal s p)\<lparr>wn_lifted := slot (pr_lifted p) b\<rparr>"
  by (intro window_state.equality) (simp_all split: option.split)

lemma resolve_same_requests: "wn_clientRequests prev = wn_clientRequests cand \<Longrightarrow> resolveDecisions prev cand ph = cand"
  by (simp add: resolveDecisions_def resolve_size_def resolve_visible_def Let_def)

lemma resolve_frame [simp]:
  "wn_tiling (resolveDecisions prev cand ph) = wn_tiling cand"
  "wn_lifted (resolveDecisions prev cand ph) = wn_lifted cand"
  "wn_clientRequests (resolveDecisions prev cand ph) = wn_clientRequests cand"
  "wn_layoutMode (resolveDecisions prev cand ph) = wn_layoutMode cand"
  "wn_layoutData (resolveDecisions prev cand ph) = wn_layoutData cand"
  "wn_minSize (resolveDecisions prev cand ph) = wn_minSize cand"
  "wn_maxSize (resolveDecisions prev cand ph) = wn_maxSize cand"
  "wn_parent (resolveDecisions prev cand ph) = wn_parent cand"
  by (simp_all add: resolveDecisions_def Let_def)

text \<open>Most proposals either decide or carry a client's requests.\<close>

definition unmixed :: "proposal \<Rightarrow> bool" where
  "unmixed p \<longleftrightarrow> pr_clientRequests p = None \<or>
     (pr_tiling p = None \<and> pr_sizeMode p = None \<and> pr_visible p = None \<and> pr_modal p = None)"

text \<open>What an interceptor that hands a state back produces.\<close>

fun encode_size :: "size2 option \<Rightarrow> js_value" where
  "encode_size None = JNull"
| "encode_size (Some (w, h)) = JObject [(''width'', JNumber w), (''height'', JNumber h)]"

fun encode_tiling :: "tiling \<Rightarrow> string" where
  "encode_tiling Managed = ''managed''" | "encode_tiling Floating = ''floating''"

fun encode_size_mode :: "size_mode \<Rightarrow> string" where
  "encode_size_mode No_size_mode = ''none''" | "encode_size_mode Maximized = ''maximized''"
| "encode_size_mode Zoomed = ''zoomed''" | "encode_size_mode Fullscreen = ''fullscreen''"

definition encode_state :: "window_state \<Rightarrow> js_value" where
  "encode_state s = JObject [(''tiling'', JString (encode_tiling (wn_tiling s))),
     (''sizeMode'', JString (encode_size_mode (wn_sizeMode s))), (''visible'', JBool (wn_visible s)),
     (''modal'', JBool (wn_modal s)), (''lifted'', JBool (wn_lifted s)),
     (''clientRequests'', JObject [(''wantsMaximized'', JBool (wantsMaximized (wn_clientRequests s))),
        (''wantsFullscreen'', JBool (wantsFullscreen (wn_clientRequests s))),
        (''wantsMinimized'', JBool (wantsMinimized (wn_clientRequests s))),
        (''wantsModal'', JBool (wantsModal (wn_clientRequests s)))]),
     (''layoutMode'', (case wn_layoutMode s of None \<Rightarrow> JNull | Some m \<Rightarrow> JString m)),
     (''layoutData'', wn_layoutData s),
     (''constraints'', JObject [(''minSize'', encode_size (wn_minSize s)), (''maxSize'', encode_size (wn_maxSize s))]),
     (''parent'', (case wn_parent s of None \<Rightarrow> JNull | Some n \<Rightarrow> JNumber n))]"

lemma to_encoded_enum [simp]:
  "to_tiling (JString (encode_tiling t)) = Some t" "to_size_mode (JString (encode_size_mode m)) = Some m"
  by (cases t; simp add: to_tiling_def) (cases m; simp add: to_size_mode_def)

lemma to_encoded_size [simp]: "to_size (encode_size z) = Some z"
  by (cases z rule: encode_size.cases) (simp_all add: to_size_def)

lemma to_encoded_option [simp]:
  "to_mode (case lm of None \<Rightarrow> JNull | Some x \<Rightarrow> JString x) = Some lm"
  "to_parent (case n of None \<Rightarrow> JNull | Some x \<Rightarrow> JNumber x) = Some n"
  by (simp_all split: option.split)

lemma validate_encoded: "validateState (encode_state s) = Some s"
  by (simp add: validateState_def encode_state_def to_requests_def)

section \<open>Properties\<close>

text \<open>
  C14: The state an interceptor was shown, handed back unchanged, is accepted as itself, so it decides exactly what no
  interceptor at all decides; the rules of a \<open>preconfigure\<close> interceptor that changes nothing leave the state as
  it is by then, whatever it was when they were asked; and rules that meet an unchanged state produce exactly
  the state they hand back.
\<close>

theorem unchanged_answer_is_no_answer:
  "decide current p (Some (encode_state (mergeProposal current p))) ph = decide current p None ph \<and>
   rule_state shown now (Some (encode_state shown)) = now \<and>
   rule_state shown shown (Some (encode_state wanted)) = wanted"
  by (simp add: decide_def validate_encoded rule_state_def apply_diff)

lemma resolved_again:
  assumes "unmixed p"
  shows "mergeProposal (resolveDecisions current (mergeProposal current p) ph) p = resolveDecisions current (mergeProposal current p) ph"
proof (cases "pr_clientRequests p")
  case None
  then have "resolveDecisions current (mergeProposal current p) ph = mergeProposal current p"
    by (intro resolve_same_requests) simp
  then show ?thesis by (intro window_state.equality) (simp_all add: None split: option.split)
next
  case (Some q)
  with assms show ?thesis
    by (intro window_state.equality) (auto simp: unmixed_def split: option.split)
qed

text \<open>
  C13: A proposal settles when no interceptor is asked: made a second time, in the same phase or another one, it changes
  nothing - no field differs, so nothing is committed and nobody is told - as long as it does not both
  decide and carry requests of the client.
\<close>

theorem repeated_proposal_changes_nothing:
  assumes "unmixed p"
  shows "diffState (decide current p None ph) (decide (decide current p None ph) p None later) = []"
proof -
  let ?s = "decide current p None ph"
  have "wn_clientRequests (mergeProposal ?s p) = wn_clientRequests ?s"
    by (simp add: decide_def Let_def split: option.split)
  moreover have "decide ?s p None later = (let m = mergeProposal ?s p in
      if wn_tiling m = Floating \<and> wn_lifted m then m\<lparr>wn_lifted := False\<rparr> else m)"
    using calculation by (simp add: decide_def [of ?s] Let_def resolve_same_requests)
  moreover have "(let m = mergeProposal ?s p in
      if wn_tiling m = Floating \<and> wn_lifted m then m\<lparr>wn_lifted := False\<rparr> else m) = ?s"
  proof -
    let ?r = "resolveDecisions current (mergeProposal current p) ph"
    have s: "?s = (if wn_tiling ?r = Floating \<and> wn_lifted ?r then ?r\<lparr>wn_lifted := False\<rparr> else ?r)"
      by (simp add: decide_def Let_def)
    have again: "mergeProposal ?r p = ?r" using assms by (rule resolved_again)
    show ?thesis
      by (cases "wn_tiling ?r = Floating \<and> wn_lifted ?r"; cases "pr_lifted p = Some True")
        (auto simp add: s again Let_def simp del: merge_simps resolve_frame split: option.split)
  qed
  ultimately show ?thesis by simp
qed

lemma repeated_proposal_changes_nothing_witness:
  "diffState (decide defaultWindowState (no_proposal\<lparr>pr_clientRequests := Some (no_requests\<lparr>rp_maximized := Some True\<rparr>)\<rparr>) None Post_content)
     (decide (decide defaultWindowState (no_proposal\<lparr>pr_clientRequests := Some (no_requests\<lparr>rp_maximized := Some True\<rparr>)\<rparr>) None Post_content)
        (no_proposal\<lparr>pr_clientRequests := Some (no_requests\<lparr>rp_maximized := Some True\<rparr>)\<rparr>) None Pre_content) = [] \<and>
   wn_sizeMode (decide defaultWindowState (no_proposal\<lparr>pr_clientRequests := Some (no_requests\<lparr>rp_maximized := Some True\<rparr>)\<rparr>) None Post_content) = Maximized"
proof
  show "diffState (decide defaultWindowState (no_proposal\<lparr>pr_clientRequests := Some (no_requests\<lparr>rp_maximized := Some True\<rparr>)\<rparr>) None Post_content)
     (decide (decide defaultWindowState (no_proposal\<lparr>pr_clientRequests := Some (no_requests\<lparr>rp_maximized := Some True\<rparr>)\<rparr>) None Post_content)
        (no_proposal\<lparr>pr_clientRequests := Some (no_requests\<lparr>rp_maximized := Some True\<rparr>)\<rparr>) None Pre_content) = []"
    by (rule repeated_proposal_changes_nothing) (simp add: unmixed_def no_proposal_def)
qed code_simp

end
