(* ===== verification/Window_Stack.thy ===== *)
theory Window_Stack
  imports Window_State Surface_Tree
begin

text \<open>
  The stacking of windows (\<open>core/src/wm/index.ts\<close>, the state of \<open>createWm\<close> and the functions over it, with
  \<open>effectiveStackZ\<close> and \<open>computeBaseStack\<close> of \<open>core/src/subsurfaces.ts\<close> and \<open>pickToplevel\<close> of
  \<open>core/src/protocols/wl_seat.ts\<close>): z values, the chains of parents that raise together, tiers, the drawn order,
  and the window under a point.

  A window is a value in the list \<open>windows\<close>; what the code mutates through a reference is updated in the list
  under the window's number. \<open>outputContent()\<close>, the outputs and whether a \<open>rebuild\<close> callback is wired are an
  argument of every operation, because they may differ from one call to the next; \<open>we_seatFocus\<close> is \<open>None\<close> when no
  focus driver is wired, and otherwise what \<open>currentFocusedSurfaceId()\<close> answers. \<open>we_views\<close>, \<open>we_serial\<close> and
  \<open>we_animation\<close> are what \<open>viewportOf\<close>, \<open>configure\<close> and \<open>hasOpeningAnimation\<close> answer, \<open>we_configure\<close> and
  \<open>we_bus\<close> say whether the configure sink and the plugin bus are wired, and \<open>we_beforeMap\<close> holds the gates that the
  hook engages while it runs.
\<close>

section \<open>Windows\<close>

record window =
  w_id :: nat
  w_z :: int
  w_rect :: rect
  w_outer :: rect
  w_resource :: nat
  w_insets :: "insets option"
  w_gates :: "string list"
  w_content :: bool
  w_floatByType :: bool
  w_tier :: int
  w_active :: bool
  w_mirrorOf :: "nat option"
  w_floatingRect :: "rect option"
  w_pendingInitialCommit :: bool
  w_pendingSizeConfigure :: bool
  w_lastAckedSerial :: int
  w_awaitingMapAck :: bool
  w_state :: window_state

record wm_env =
  we_content :: "(nat \<times> nat list) list option"
  we_outputs :: "(nat, rect) omap"
  we_rebuild :: bool
  we_seatFocus :: "nat option option"
  we_views :: "nat \<Rightarrow> rect option"
  we_configure :: bool
  we_serial :: "nat \<Rightarrow> int option"
  we_beforeMap :: "string list option"
  we_animation :: bool
  we_bus :: bool

record wm =
  wm_windows :: "window list"
  wm_tiledZ :: int
  wm_focused :: "nat option"
  wm_lastActive :: "(nat, nat) omap"
  wm_fullscreens :: "nat list"

datatype wm_effect =
    Rebuild "window list"
  | SetStack "nat list"
  | SetOutputAnchored nat bool
  | SetOutputFullscreenActive nat bool
  | RequestFocus "nat option"
  | Schedule string
  | Configure nat rect
  | ConfigureMove nat rect
  | SetSurfaceLayout nat rect
  | BeforeMap nat
  | Committed nat string window_state window_state "state_field list"

definition wm_new :: wm where
  "wm_new = \<lparr>wm_windows = [], wm_tiledZ = 0, wm_focused = None, wm_lastActive = [], wm_fullscreens = []\<rparr>"

definition window_at :: "window list \<Rightarrow> nat \<Rightarrow> window option" where
  "window_at ws i = find (\<lambda>w. w_id w = i) ws"

abbreviation parent_id :: "window \<Rightarrow> number option" where
  "parent_id w \<equiv> wn_parent (w_state w)"

definition parent_window :: "window list \<Rightarrow> window \<Rightarrow> window option" where
  "parent_window ws w = (case parent_id w of None \<Rightarrow> None | Some p \<Rightarrow> find (\<lambda>v. of_nat (w_id v) = p) ws)"

definition upd_window :: "nat \<Rightarrow> (window \<Rightarrow> window) \<Rightarrow> window list \<Rightarrow> window list" where
  "upd_window i f ws = map (\<lambda>w. if w_id w = i then f w else w) ws"

definition isGated :: "window \<Rightarrow> bool" where
  "isGated w \<longleftrightarrow> w_gates w \<noteq> []"

fun outputOf :: "(nat \<times> nat list) list option \<Rightarrow> nat \<Rightarrow> nat option" where
  "outputOf None i = None"
| "outputOf (Some []) i = None"
| "outputOf (Some ((out, ids) # rest)) i = (if i \<in> set ids then Some out else outputOf (Some rest) i)"

section \<open>z values and chains of parents\<close>

definition aboveTile :: "window \<Rightarrow> bool" where
  "aboveTile w \<longleftrightarrow> wn_tiling (w_state w) = Floating \<or> wn_modal (w_state w)"

definition maxFloatingZ :: "int \<Rightarrow> window list \<Rightarrow> int" where
  "maxFloatingZ tiledZ ws = foldl (\<lambda>m w. if aboveTile w \<and> w_z w > m then w_z w else m) tiledZ ws"

definition childrenOf_window :: "window list \<Rightarrow> nat \<Rightarrow> window list" where
  "childrenOf_window ws p = filter (\<lambda>w. parent_id w = Some (of_nat p)) ws"

definition raisesWithParent :: "window \<Rightarrow> window \<Rightarrow> bool" where
  "raisesWithParent child parent \<longleftrightarrow> wn_modal (w_state child) \<or> wn_tiling (w_state parent) = Managed"

fun chain_root :: "nat \<Rightarrow> window list \<Rightarrow> window \<Rightarrow> window" where
  "chain_root 0 ws cur = cur"
| "chain_root (Suc n) ws cur =
    (case parent_window ws cur of
       None \<Rightarrow> cur
     | Some p \<Rightarrow> if raisesWithParent cur p then chain_root n ws p else cur)"

definition rootOfChain :: "window list \<Rightarrow> window \<Rightarrow> window" where
  "rootOfChain ws start = chain_root 64 ws start"

fun chain_from :: "nat \<Rightarrow> window list \<Rightarrow> window \<Rightarrow> window list" where
  "chain_from 0 ws cur = []"
| "chain_from (Suc n) ws cur = cur # (case parent_window ws cur of None \<Rightarrow> [] | Some p \<Rightarrow> chain_from n ws p)"

definition chainOf :: "window list \<Rightarrow> window \<Rightarrow> window list" where
  "chainOf ws start = chain_from 64 ws start"

text \<open>
  \<open>visit\<close> of \<open>raiseStackedDescendants\<close>, as its loop over the children still to do. The parent is read again for
  every child, its target z only once.
\<close>

definition bump :: "window list \<Rightarrow> nat \<times> int \<Rightarrow> nat \<Rightarrow> window list" where
  "bump ws parent c =
    (case (window_at ws (fst parent), window_at ws c) of
       (Some p, Some child) \<Rightarrow>
         if raisesWithParent child p \<and> w_z child \<le> w_z p then upd_window c (\<lambda>w. w\<lparr>w_z := snd parent\<rparr>) ws else ws
     | _ \<Rightarrow> ws)"

definition z_of :: "window list \<Rightarrow> nat \<Rightarrow> int" where
  "z_of ws i = (case window_at ws i of None \<Rightarrow> 0 | Some w \<Rightarrow> w_z w)"

definition child_ids :: "window list \<Rightarrow> nat \<Rightarrow> nat list" where
  "child_ids ws p = map w_id (childrenOf_window ws p)"

partial_function (option) raise_children :: "window list \<Rightarrow> nat \<times> int \<Rightarrow> nat list \<Rightarrow> window list option" where
  "raise_children ws parent cs =
    (case cs of
       [] \<Rightarrow> Some ws
     | c # rest \<Rightarrow>
         Option.bind
           (raise_children (bump ws parent c) (c, z_of (bump ws parent c) c + 1) (child_ids (bump ws parent c) c))
           (\<lambda>ws2. raise_children ws2 parent rest))"

definition raiseStackedDescendants :: "window list \<Rightarrow> nat \<Rightarrow> window list option" where
  "raiseStackedDescendants ws i = raise_children ws (i, z_of ws i + 1) (child_ids ws i)"

definition better_modal :: "window option \<Rightarrow> window \<Rightarrow> window option" where
  "better_modal best child =
    (if wn_modal (w_state child) \<and> wn_visible (w_state child) \<and> w_content child \<and> \<not> isGated child
        \<and> (case best of None \<Rightarrow> True | Some b \<Rightarrow> w_z child > w_z b)
     then Some child else best)"

partial_function (option) modal_walk :: "window list \<Rightarrow> window option \<Rightarrow> window list \<Rightarrow> window option option" where
  "modal_walk ws best cs =
    (case cs of
       [] \<Rightarrow> Some best
     | child # rest \<Rightarrow>
         Option.bind (modal_walk ws (better_modal best child) (childrenOf_window ws (w_id child)))
           (\<lambda>best2. modal_walk ws best2 rest))"

definition topmostModalDescendant :: "window list \<Rightarrow> nat \<Rightarrow> window option option" where
  "topmostModalDescendant ws p =
    (case window_at ws p of None \<Rightarrow> Some None | Some start \<Rightarrow> modal_walk ws None (childrenOf_window ws (w_id start)))"

definition assigned_z :: "int \<Rightarrow> window list \<Rightarrow> window \<Rightarrow> int" where
  "assigned_z tiledZ ws w =
    (case parent_window ws w of
       Some p \<Rightarrow>
         if wn_modal (w_state w) then max (w_z p) (maxFloatingZ tiledZ ws) + 1
         else if wn_tiling (w_state w) \<noteq> Floating then tiledZ
         else if raisesWithParent w p then max (w_z p) (maxFloatingZ tiledZ ws) + 1
         else maxFloatingZ tiledZ ws + 1
     | None \<Rightarrow>
         if wn_tiling (w_state w) \<noteq> Floating \<and> \<not> wn_modal (w_state w) then tiledZ else maxFloatingZ tiledZ ws + 1)"

definition assignZForMap :: "wm \<Rightarrow> nat \<Rightarrow> wm option" where
  "assignZForMap s i =
    (case window_at (wm_windows s) i of
       None \<Rightarrow> Some s
     | Some w \<Rightarrow>
         map_option (\<lambda>ws. s\<lparr>wm_windows := ws\<rparr>)
           (raiseStackedDescendants
              (upd_window i (\<lambda>v. v\<lparr>w_z := assigned_z (wm_tiledZ s) (wm_windows s) w\<rparr>) (wm_windows s)) i))"

section \<open>Tiers\<close>

definition effectiveStackZ :: "window \<Rightarrow> int" where
  "effectiveStackZ w = w_tier w * 0x40000000 + w_z w * 2 + (if w_active w then 1 else 0)"

definition has_window :: "window list \<Rightarrow> nat \<Rightarrow> bool" where
  "has_window ws i \<longleftrightarrow> (\<exists>w \<in> set ws. w_id w = i)"

fun remembered :: "(nat, nat) omap \<Rightarrow> window list \<Rightarrow> (nat \<times> nat list) list \<Rightarrow> (nat, nat) omap \<Rightarrow> (nat, nat) omap" where
  "remembered memory ws [] acc = acc"
| "remembered memory ws ((out, ids) # rest) acc =
    remembered memory ws rest
      (case oget memory out of
         None \<Rightarrow> acc
       | Some l \<Rightarrow> if l \<in> set ids \<and> has_window ws l then oset out l acc else acc)"

definition focused_output :: "wm_env \<Rightarrow> wm \<Rightarrow> (nat \<times> nat) option" where
  "focused_output e s =
    (case wm_focused s of
       None \<Rightarrow> None
     | Some f \<Rightarrow>
         if has_window (wm_windows s) f then map_option (\<lambda>out. (out, f)) (outputOf (we_content e) f) else None)"

definition activeByOutput :: "wm_env \<Rightarrow> wm \<Rightarrow> (nat, nat) omap" where
  "activeByOutput e s =
    (let m = (case we_content e of None \<Rightarrow> [] | Some c \<Rightarrow> remembered (wm_lastActive s) (wm_windows s) c [])
     in case focused_output e s of None \<Rightarrow> m | Some (out, f) \<Rightarrow> oset out f m)"

definition is_active :: "wm_env \<Rightarrow> wm \<Rightarrow> window \<Rightarrow> bool" where
  "is_active e s w \<longleftrightarrow>
    (case outputOf (we_content e) (w_id w) of
       Some out \<Rightarrow> oget (activeByOutput e s) out = Some (w_id w)
     | None \<Rightarrow> wm_focused s = Some (w_id w))"

definition own_tier :: "wm_env \<Rightarrow> wm \<Rightarrow> window \<Rightarrow> int" where
  "own_tier e s w =
    (let overriding = wn_sizeMode (w_state w) \<noteq> No_size_mode \<and> wn_visible (w_state w);
         tileMember = wn_tiling (w_state w) = Managed \<and> wn_sizeMode (w_state w) \<noteq> Fullscreen
     in if overriding \<and> is_active e s w then 1 else if overriding \<and> \<not> tileMember then - 1 else 0)"

definition lookup_tier :: "(nat, int) omap \<Rightarrow> nat \<Rightarrow> int" where
  "lookup_tier tiers i = (case oget tiers i of None \<Rightarrow> 0 | Some t \<Rightarrow> t)"

definition inherit_tier :: "window list \<Rightarrow> (nat, int) omap \<Rightarrow> window \<Rightarrow> (nat, int) omap" where
  "inherit_tier ws tiers w =
    (if lookup_tier tiers (w_id w) \<noteq> 0 then tiers
     else (let rt = rootOfChain ws w
           in if w_id rt \<noteq> w_id w \<and> oget tiers (w_id rt) = Some 1 then oset (w_id w) 1 tiers else tiers))"

definition all_tiers :: "wm_env \<Rightarrow> wm \<Rightarrow> (nat, int) omap" where
  "all_tiers e s =
    foldl (inherit_tier (wm_windows s)) (foldl (\<lambda>m w. oset (w_id w) (own_tier e s w) m) [] (wm_windows s)) (wm_windows s)"

definition stamp_tier :: "wm_env \<Rightarrow> wm \<Rightarrow> window \<Rightarrow> window" where
  "stamp_tier e s w = w\<lparr>w_tier := lookup_tier (all_tiers e s) (w_id w), w_active := is_active e s w\<rparr>"

definition shows_fullscreen :: "window \<Rightarrow> bool" where
  "shows_fullscreen w \<longleftrightarrow> w_tier w = 1 \<and> wn_sizeMode (w_state w) = Fullscreen \<and> wn_visible (w_state w) \<and>
     w_content w \<and> \<not> isGated w"

definition add_fullscreen :: "wm_env \<Rightarrow> nat list \<Rightarrow> window \<Rightarrow> nat list" where
  "add_fullscreen e outs w =
    (if \<not> shows_fullscreen w then outs
     else case outputOf (we_content e) (w_id w) of
            Some out \<Rightarrow> oset_add out outs
          | None \<Rightarrow> if we_content e = None \<and> we_outputs e \<noteq> [] then oset_add (fst (hd (we_outputs e))) outs else outs)"

definition updateStackTiers :: "wm_env \<Rightarrow> wm \<Rightarrow> wm \<times> bool \<times> wm_effect list" where
  "updateStackTiers e s =
    (let ws = map (stamp_tier e s) (wm_windows s);
         changed = (\<exists>w \<in> set (wm_windows s). stamp_tier e s w \<noteq> w);
         fs = foldl (add_fullscreen e) [] ws;
         memory = (case focused_output e s of None \<Rightarrow> wm_lastActive s | Some (out, f) \<Rightarrow> oset out f (wm_lastActive s))
     in (s\<lparr>wm_windows := ws, wm_lastActive := memory, wm_fullscreens := fs\<rparr>, changed,
         map (\<lambda>w. SetOutputAnchored (w_id w) (wn_sizeMode (w_state w) = Fullscreen)) ws @
         map (\<lambda>out. SetOutputFullscreenActive out False) (filter (\<lambda>out. out \<notin> set fs) (wm_fullscreens s)) @
         map (\<lambda>out. SetOutputFullscreenActive out True) (filter (\<lambda>out. out \<notin> set (wm_fullscreens s)) fs)))"

definition drawable :: "window \<Rightarrow> bool" where
  "drawable w \<longleftrightarrow> \<not> isGated w \<and> w_content w \<and> wn_visible (w_state w)"

definition drawn :: "window list \<Rightarrow> nat list" where
  "drawn ws = map w_id (sort_key effectiveStackZ (filter drawable ws))"

definition pushStack :: "wm_env \<Rightarrow> wm \<Rightarrow> wm \<times> wm_effect list" where
  "pushStack e s =
    (let (s', _, eff) = updateStackTiers e s
     in (s', eff @ [if we_rebuild e then Rebuild (wm_windows s') else SetStack (drawn (wm_windows s'))]))"

section \<open>Requests on the stack\<close>

definition refreshStackTiers :: "wm_env \<Rightarrow> wm \<Rightarrow> wm \<times> wm_effect list" where
  "refreshStackTiers e s = (let (s', _, eff) = updateStackTiers e s in (s', eff))"

definition setKeyboardFocus :: "wm_env \<Rightarrow> nat option \<Rightarrow> wm \<Rightarrow> wm \<times> wm_effect list" where
  "setKeyboardFocus e i s =
    (if wm_focused s = i then (s, [])
     else (let s1 = s\<lparr>wm_focused := i\<rparr>;
               s2 = (case i of
                   None \<Rightarrow> s1
                 | Some f \<Rightarrow>
                     if has_window (wm_windows s1) f
                     then (case outputOf (we_content e) f of
                             None \<Rightarrow> s1
                           | Some out \<Rightarrow> s1\<lparr>wm_lastActive := oset out f (wm_lastActive s1)\<rparr>)
                     else s1);
               (s3, changed, eff) = updateStackTiers e s2
           in if changed then (let (s4, eff') = pushStack e s3 in (s4, eff @ eff')) else (s3, eff)))"

definition engageContentGate :: "wm_env \<Rightarrow> nat \<Rightarrow> string \<Rightarrow> wm \<Rightarrow> wm \<times> wm_effect list" where
  "engageContentGate e i key s =
    (case window_at (wm_windows s) i of
       None \<Rightarrow> (s, [])
     | Some w \<Rightarrow>
         if key \<in> set (w_gates w) then (s, [])
         else (let s' = s\<lparr>wm_windows := upd_window i (\<lambda>v. v\<lparr>w_gates := w_gates v @ [key]\<rparr>) (wm_windows s)\<rparr>
               in if isGated w then (s', []) else pushStack e s'))"

definition releaseContentGate :: "wm_env \<Rightarrow> nat \<Rightarrow> string \<Rightarrow> wm \<Rightarrow> wm \<times> wm_effect list" where
  "releaseContentGate e i key s =
    (case window_at (wm_windows s) i of
       None \<Rightarrow> (s, [])
     | Some w \<Rightarrow>
         if key \<notin> set (w_gates w) then (s, [])
         else (let s' = s\<lparr>wm_windows := upd_window i (\<lambda>v. v\<lparr>w_gates := removeAll key (w_gates v)\<rparr>) (wm_windows s)\<rparr>
               in if removeAll key (w_gates w) = [] then pushStack e s' else (s', [])))"

text \<open>The renormalization of several chains, one after the other.\<close>

fun raise_each :: "nat list \<Rightarrow> window list \<Rightarrow> window list option" where
  "raise_each [] ws = Some ws"
| "raise_each (i # is) ws = Option.bind (raiseStackedDescendants ws i) (raise_each is)"

definition managed :: "window \<Rightarrow> bool" where
  "managed w \<longleftrightarrow> wn_tiling (w_state w) = Managed"

definition lift_tiles :: "int \<Rightarrow> window list \<Rightarrow> window list" where
  "lift_tiles z ws = map (\<lambda>w. if managed w then w\<lparr>w_z := z\<rparr> else w) ws"

definition raised :: "nat \<Rightarrow> wm \<Rightarrow> wm option" where
  "raised i s =
    (case window_at (wm_windows s) i of
       None \<Rightarrow> Some s
     | Some w \<Rightarrow>
         (let rt = rootOfChain (wm_windows s) w;
              highest = maxFloatingZ (wm_tiledZ s) (wm_windows s)
          in if managed rt
             then (let lifts = wm_tiledZ s \<le> highest;
                       z = (if lifts then highest + 1 else wm_tiledZ s);
                       ws = (if lifts then lift_tiles z (wm_windows s) else wm_windows s)
                   in map_option (\<lambda>ws'. s\<lparr>wm_windows := ws', wm_tiledZ := z\<rparr>)
                        (raise_each (map w_id (filter managed ws)) ws))
             else map_option (\<lambda>ws'. s\<lparr>wm_windows := ws'\<rparr>)
                    (raiseStackedDescendants
                       (if w_z rt \<le> highest
                        then upd_window (w_id rt) (\<lambda>v. v\<lparr>w_z := highest + 1\<rparr>) (wm_windows s) else wm_windows s)
                       (w_id rt))))"

definition raiseWindow :: "wm_env \<Rightarrow> nat \<Rightarrow> wm \<Rightarrow> (wm \<times> wm_effect list) option" where
  "raiseWindow e i s =
    (if window_at (wm_windows s) i = None then Some (s, []) else map_option (pushStack e) (raised i s))"

fun restack :: "nat list \<Rightarrow> int \<Rightarrow> window list \<Rightarrow> window list option" where
  "restack [] z ws = Some ws"
| "restack (i # is) z ws =
    Option.bind (raiseStackedDescendants (upd_window i (\<lambda>w. w\<lparr>w_z := z + 1\<rparr>) ws) i) (restack is (z + 1))"

definition floating_roots :: "window list \<Rightarrow> window list" where
  "floating_roots ws =
    sort_key w_z (filter (\<lambda>w. wn_tiling (w_state w) = Floating \<and> w_id (rootOfChain ws w) = w_id w) ws)"

definition raiseAllFloating :: "wm_env \<Rightarrow> wm \<Rightarrow> (wm \<times> wm_effect list) option" where
  "raiseAllFloating e s =
    (if floating_roots (wm_windows s) = [] then Some (s, [])
     else map_option (\<lambda>ws. pushStack e (s\<lparr>wm_windows := ws\<rparr>))
            (restack (map w_id (floating_roots (wm_windows s))) (wm_tiledZ s) (wm_windows s)))"

datatype restack_op = Promote | Swap_next | Swap_prev

definition swap_windows :: "nat \<Rightarrow> nat \<Rightarrow> window list \<Rightarrow> window list" where
  "swap_windows i j ws = ws[i := ws ! j, j := ws ! i]"

definition focusable_at :: "window list \<Rightarrow> nat list" where
  "focusable_at ws = filter (\<lambda>i. w_content (ws ! i) \<and> wn_visible (w_state (ws ! i))) [0..<length ws]"

definition neighbour :: "restack_op \<Rightarrow> window list \<Rightarrow> nat \<Rightarrow> nat option" where
  "neighbour op ws k =
    (case index_of k (focusable_at ws) of
       None \<Rightarrow> None
     | Some p \<Rightarrow>
         (case op of
            Swap_prev \<Rightarrow> if p = 0 then None else Some (focusable_at ws ! (p - 1))
          | _ \<Rightarrow> if p + 1 < length (focusable_at ws) then Some (focusable_at ws ! (p + 1)) else None))"

definition reorder_windows :: "wm_env \<Rightarrow> nat \<Rightarrow> restack_op \<Rightarrow> wm \<Rightarrow> wm \<times> bool \<times> wm_effect list" where
  "reorder_windows e i op s =
    (case index_of i (map w_id (wm_windows s)) of
       None \<Rightarrow> (s, False, [])
     | Some k \<Rightarrow>
         (let ws = wm_windows s;
              moved = (if op = Promote then (if k = 0 then None else Some (ws ! k # remove_at k ws))
                       else map_option (\<lambda>j. swap_windows k j ws) (neighbour op ws k))
          in case moved of
               None \<Rightarrow> (s, False, [])
             | Some ws' \<Rightarrow>
                 (let (s', eff) = pushStack e (s\<lparr>wm_windows := ws'\<rparr>) in (s', True, Schedule ''reorder'' # eff))))"

definition focus_listed :: "window \<Rightarrow> bool" where
  "focus_listed w \<longleftrightarrow> w_content w \<and> wn_visible (w_state w) \<and> w_mirrorOf w = None"

definition focusOrder :: "wm_env \<Rightarrow> wm \<Rightarrow> nat list" where
  "focusOrder e s =
    (case we_content e of
       None \<Rightarrow> map w_id (filter focus_listed (wm_windows s))
     | Some c \<Rightarrow>
         map w_id (filter focus_listed
           (List.map_filter (window_at (wm_windows s)) (concat (map snd (sort_key fst c))))))"

section \<open>The window under a point\<close>

definition candidates :: "wm_env \<Rightarrow> wm \<Rightarrow> window list" where
  "candidates e s =
    (case we_content e of
       None \<Rightarrow> wm_windows s
     | Some c \<Rightarrow> List.map_filter (window_at (wm_windows s)) (foldl (\<lambda>seen i. oset_add i seen) [] (concat (map snd c))))"

definition outside :: "rect \<Rightarrow> number \<Rightarrow> number \<Rightarrow> bool" where
  "outside r x y \<longleftrightarrow> x < rx r \<or> rx r + rw r \<le> x \<or> y < ry r \<or> ry r + rh r \<le> y"

fun first_taking :: "(window \<Rightarrow> number \<Rightarrow> number \<Rightarrow> bool) option \<Rightarrow> number \<Rightarrow> number \<Rightarrow> window list \<Rightarrow> window option" where
  "first_taking acc x y [] = None"
| "first_taking acc x y (w # ws) =
    (if w_tier w = - 1 then first_taking acc x y ws
     else if outside (w_rect w) x y then first_taking acc x y ws
     else case acc of
            None \<Rightarrow> Some w
          | Some f \<Rightarrow> if f w (x - rx (w_rect w)) (y - ry (w_rect w)) then Some w else first_taking acc x y ws)"

definition hit_window ::
  "wm_env \<Rightarrow> (window \<Rightarrow> number \<Rightarrow> number \<Rightarrow> bool) option \<Rightarrow> number \<Rightarrow> number \<Rightarrow> wm \<Rightarrow> window option" where
  "hit_window e acc x y s = first_taking acc x y (rev (sort_key effectiveStackZ (candidates e s)))"

definition windowAt ::
  "wm_env \<Rightarrow> (window \<Rightarrow> number \<Rightarrow> number \<Rightarrow> bool) option \<Rightarrow> number \<Rightarrow> number \<Rightarrow> wm \<Rightarrow> window option option" where
  "windowAt e acc x y s =
    (case hit_window e acc x y s of
       None \<Rightarrow> Some None
     | Some w \<Rightarrow>
         map_option (\<lambda>m. Some (case m of None \<Rightarrow> w | Some d \<Rightarrow> d)) (topmostModalDescendant (wm_windows s) (w_id w)))"

definition anchoredFullscreenAt :: "wm_env \<Rightarrow> number \<Rightarrow> number \<Rightarrow> wm \<Rightarrow> window option" where
  "anchoredFullscreenAt e x y s =
    find (\<lambda>w. shows_fullscreen w \<and> (we_content e = None \<or> outputOf (we_content e) (w_id w) \<noteq> None) \<and>
       \<not> outside (w_rect w) x y) (wm_windows s)"

text \<open>The drawn stack: every window of the list that no gate holds, followed by its subsurfaces.\<close>

fun base_stack :: "surface_state \<Rightarrow> window list \<Rightarrow> nat list \<Rightarrow> nat list option" where
  "base_stack st [] stack = Some stack"
| "base_stack st (w # ws) stack =
    (if isGated w then base_stack st ws stack
     else Option.bind (emitSubtreeStack st (w_resource w) (stack @ [w_id w])) (base_stack st ws))"

definition computeBaseStack :: "surface_state \<Rightarrow> window list \<Rightarrow> nat list option" where
  "computeBaseStack st ws = base_stack st (sort_key effectiveStackZ ws) []"

text \<open>
  The pointer's pick among the windows. The callback given to \<open>windowAt\<close> stores the hit of the last window it
  accepted, which is the only one it accepts.
\<close>

definition tree_hit :: "surface_state \<Rightarrow> number \<Rightarrow> number \<Rightarrow> window \<Rightarrow> surface_hit option" where
  "tree_hit st x y w =
    (case oget (st_surfaces st) (w_resource w) of
       None \<Rightarrow> None
     | Some r \<Rightarrow> (case hitTestSurfaceTree st (w_resource w) r (w_rect w) x y of Some (Some h) \<Rightarrow> Some h | _ \<Rightarrow> None))"

definition pick_accepts :: "surface_state \<Rightarrow> number \<Rightarrow> number \<Rightarrow> window \<Rightarrow> number \<Rightarrow> number \<Rightarrow> bool" where
  "pick_accepts st x y w lx ly \<longleftrightarrow>
    \<not> (w_tier w = 1 \<and> wn_sizeMode (w_state w) = Fullscreen) \<and> (w_mirrorOf w \<noteq> None \<or> tree_hit st x y w \<noteq> None)"

datatype picked = Nothing_picked | Mirror_picked nat | Surface_picked surface_hit nat

definition pickToplevel :: "surface_state \<Rightarrow> wm_env \<Rightarrow> wm \<Rightarrow> number \<Rightarrow> number \<Rightarrow> picked option" where
  "pickToplevel st e s x y =
    (let acc = Some (pick_accepts st x y)
     in map_option (\<lambda>win.
          case win of
            None \<Rightarrow> Nothing_picked
          | Some v \<Rightarrow>
              if w_mirrorOf v \<noteq> None then Mirror_picked (w_id v)
              else case hit_window e acc x y s of
                     None \<Rightarrow> Nothing_picked
                   | Some w \<Rightarrow>
                       if w_mirrorOf w \<noteq> None then Nothing_picked
                       else case (tree_hit st x y w, oget (st_surfaces st) (w_resource w)) of
                              (Some h, Some r) \<Rightarrow> Surface_picked h (sf_id r)
                            | _ \<Rightarrow> Nothing_picked)
          (windowAt e acc x y s))"

section \<open>Chains\<close>

text \<open>A window and its parent, by their numbers. The operations of this section change nothing but z values.\<close>

definition kin :: "window list \<Rightarrow> (nat \<times> nat) set" where
  "kin ws = {(c, p). c \<in> set (child_ids ws p)}"

definition ids :: "window list \<Rightarrow> nat list" where
  "ids ws = map w_id ws"

definition same_shape :: "window list \<Rightarrow> window list \<Rightarrow> bool" where
  "same_shape ws vs \<longleftrightarrow> map (\<lambda>w. w\<lparr>w_z := 0\<rparr>) ws = map (\<lambda>w. w\<lparr>w_z := 0\<rparr>) vs"

lemma same_shape_refl [simp]: "same_shape ws ws"
  by (simp add: same_shape_def)

lemma same_shape_sym: "same_shape ws vs \<Longrightarrow> same_shape vs ws"
  by (simp add: same_shape_def)

lemma same_shape_trans [trans]: "same_shape ws vs \<Longrightarrow> same_shape vs us \<Longrightarrow> same_shape ws us"
  by (simp add: same_shape_def)

lemma same_shape_upd: "(\<And>w. (f w)\<lparr>w_z := 0\<rparr> = w\<lparr>w_z := 0\<rparr>) \<Longrightarrow> same_shape ws (upd_window i f ws)"
  by (induction ws) (auto simp: same_shape_def upd_window_def)

lemma same_shape_upd_z [simp]: "same_shape ws (upd_window i (\<lambda>w. w\<lparr>w_z := z\<rparr>) ws)"
  by (rule same_shape_upd) simp

lemma shape_Cons: "same_shape (w # ws) (v # vs) \<longleftrightarrow> w\<lparr>w_z := 0\<rparr> = v\<lparr>w_z := 0\<rparr> \<and> same_shape ws vs"
  by (simp add: same_shape_def)

lemma shape_Nil: "same_shape [] vs \<longleftrightarrow> vs = []" "same_shape vs [] \<longleftrightarrow> vs = []"
  by (auto simp: same_shape_def)

lemma same_but_z:
  assumes "w\<lparr>w_z := 0\<rparr> = v\<lparr>w_z := 0\<rparr>"
  shows "w_id w = w_id v" "w_state w = w_state v" "w_content w = w_content v" "w_gates w = w_gates v"
    "w_tier w = w_tier v" "w_active w = w_active v" "w_pendingInitialCommit w = w_pendingInitialCommit v"
  using assms by (metis window.select_convs window.surjective window.update_convs(2))+

lemma shape_ids: "same_shape ws vs \<Longrightarrow> ids ws = ids vs"
  by (induction ws arbitrary: vs; case_tac vs) (auto simp: shape_Nil shape_Cons ids_def dest: same_but_z)

lemma shape_filter:
  assumes "\<And>w v. w\<lparr>w_z := 0\<rparr> = v\<lparr>w_z := 0\<rparr> \<Longrightarrow> P w = P v"
  shows "same_shape ws vs \<Longrightarrow> map w_id (filter P ws) = map w_id (filter P vs)"
proof (induction ws arbitrary: vs)
  case Nil
  then show ?case by (simp add: shape_Nil)
next
  case (Cons w ws)
  then obtain v vs' where "vs = v # vs'" "w\<lparr>w_z := 0\<rparr> = v\<lparr>w_z := 0\<rparr>" "same_shape ws vs'"
    by (cases vs) (auto simp: shape_Nil shape_Cons)
  with Cons.IH assms [of w v] show ?case by (auto dest: same_but_z)
qed

lemma shape_child_ids: "same_shape ws vs \<Longrightarrow> child_ids ws p = child_ids vs p"
  unfolding child_ids_def childrenOf_window_def by (rule shape_filter) (auto dest: same_but_z)

lemma shape_kin: "same_shape ws vs \<Longrightarrow> kin ws = kin vs"
  by (simp add: kin_def shape_child_ids)

lemma window_at_Some: "window_at ws i = Some w \<Longrightarrow> w \<in> set ws \<and> w_id w = i"
  by (auto simp: window_at_def find_Some_iff)

lemma window_at_None: "window_at ws i = None \<longleftrightarrow> i \<notin> set (ids ws)"
  by (auto simp: window_at_def find_None_iff ids_def)

lemma window_at_in: "distinct (ids ws) \<Longrightarrow> w \<in> set ws \<Longrightarrow> window_at ws (w_id w) = Some w"
  by (induction ws) (auto simp: window_at_def ids_def)

lemma window_at_Cons [simp]: "window_at (w # ws) i = (if w_id w = i then Some w else window_at ws i)"
  by (simp add: window_at_def)

lemma window_at_Nil [simp]: "window_at [] i = None"
  by (simp add: window_at_def)

lemma shape_window_at:
  "same_shape ws vs \<Longrightarrow> window_at ws i = Some w \<Longrightarrow> \<exists>v. window_at vs i = Some v \<and> w\<lparr>w_z := 0\<rparr> = v\<lparr>w_z := 0\<rparr>"
proof (induction ws arbitrary: vs)
  case Nil
  then show ?case by simp
next
  case (Cons w' ws)
  then obtain v' vs' where v: "vs = v' # vs'" "w'\<lparr>w_z := 0\<rparr> = v'\<lparr>w_z := 0\<rparr>" "same_shape ws vs'"
    by (cases vs) (auto simp: shape_Nil shape_Cons)
  then have "w_id w' = w_id v'" by (blast dest: same_but_z)
  with Cons v show ?case by (auto split: if_splits)
qed

lemma window_at_upd:
  assumes "\<And>w. w_id (f w) = w_id w"
  shows "window_at (upd_window i f ws) j = (if i = j then map_option f (window_at ws j) else window_at ws j)"
  by (induction ws) (auto simp: upd_window_def assms)

lemma window_at_upd_z [simp]:
  "window_at (upd_window i (\<lambda>w. w\<lparr>w_z := z\<rparr>) ws) j =
    (if i = j then map_option (\<lambda>w. w\<lparr>w_z := z\<rparr>) (window_at ws j) else window_at ws j)"
  by (rule window_at_upd) simp

lemma z_of_upd [simp]:
  "z_of (upd_window i (\<lambda>w. w\<lparr>w_z := z\<rparr>) ws) j = (if i = j \<and> window_at ws j \<noteq> None then z else z_of ws j)"
  by (auto simp: z_of_def split: option.split)

lemma kin_iff: "(c, p) \<in> kin ws \<longleftrightarrow> (\<exists>w \<in> set ws. w_id w = c \<and> parent_id w = Some (of_nat p))"
  by (auto simp: kin_def child_ids_def childrenOf_window_def)

lemma finite_kin: "finite (kin ws)"
proof (rule finite_subset)
  show "kin ws \<subseteq> (\<lambda>w. (w_id w, nat \<lfloor>the (parent_id w)\<rfloor>)) ` set ws"
    by (force simp: kin_iff)
qed simp

text \<open>A child that goes up with its parent, and the pair in order.\<close>

definition raises :: "window list \<Rightarrow> nat \<Rightarrow> nat \<Rightarrow> bool" where
  "raises ws c p \<longleftrightarrow> (\<exists>child par. window_at ws c = Some child \<and> window_at ws p = Some par \<and> raisesWithParent child par)"

definition in_order :: "window list \<Rightarrow> nat \<Rightarrow> nat \<Rightarrow> bool" where
  "in_order ws c p \<longleftrightarrow> (raises ws c p \<longrightarrow> z_of ws p < z_of ws c)"

lemma shape_raises: "same_shape ws vs \<Longrightarrow> raises ws c p = raises vs c p"
proof -
  have "raises vs' c p" if shape: "same_shape ws' vs'" and r: "raises ws' c p" for ws' vs'
  proof -
    obtain child par where "window_at ws' c = Some child" "window_at ws' p = Some par" "raisesWithParent child par"
      using r by (auto simp: raises_def)
    moreover from this obtain child' par' where "window_at vs' c = Some child'" "window_at vs' p = Some par'"
      "child\<lparr>w_z := 0\<rparr> = child'\<lparr>w_z := 0\<rparr>" "par\<lparr>w_z := 0\<rparr> = par'\<lparr>w_z := 0\<rparr>"
      using shape_window_at [OF shape] by blast
    ultimately show ?thesis by (auto simp: raises_def raisesWithParent_def dest!: same_but_z(2))
  qed
  then show "same_shape ws vs \<Longrightarrow> raises ws c p = raises vs c p" using same_shape_sym by blast
qed

lemma bump_spec:
  assumes "c \<noteq> p"
  shows "same_shape ws (bump ws (p, z_of ws p + 1) c)"
    and "z_of ws i \<le> z_of (bump ws (p, z_of ws p + 1) c) i"
    and "i \<noteq> c \<Longrightarrow> z_of (bump ws (p, z_of ws p + 1) c) i = z_of ws i"
    and "in_order (bump ws (p, z_of ws p + 1) c) c p"
proof -
  have "z_of ws' i = w_z w" if "window_at ws' i = Some w" for ws' i w
    using that by (simp add: z_of_def)
  then show "same_shape ws (bump ws (p, z_of ws p + 1) c)"
    and "z_of ws i \<le> z_of (bump ws (p, z_of ws p + 1) c) i"
    and "i \<noteq> c \<Longrightarrow> z_of (bump ws (p, z_of ws p + 1) c) i = z_of ws i"
    and "in_order (bump ws (p, z_of ws p + 1) c) c p"
    using assms by (auto simp: bump_def in_order_def raises_def raisesWithParent_def split: option.split)
qed

definition below :: "window list \<Rightarrow> nat list \<Rightarrow> nat set" where
  "below ws cs = {i. \<exists>c \<in> set cs. (i, c) \<in> (kin ws)\<^sup>*}"

lemma shape_below: "same_shape ws vs \<Longrightarrow> below ws cs = below vs cs"
  by (simp add: below_def shape_kin)

lemma below_Cons: "below ws (c # cs) = insert c (below ws (child_ids ws c)) \<union> below ws cs"
proof -
  have "(i, c) \<in> (kin ws)\<^sup>* \<longleftrightarrow> i = c \<or> (\<exists>d. d \<in> set (child_ids ws c) \<and> (i, d) \<in> (kin ws)\<^sup>*)" for i
    by (auto simp: kin_def elim: rtranclE intro: rtrancl_into_rtrancl)
  then show ?thesis by (auto simp: below_def)
qed

lemma below_not_parent: "acyclic (kin ws) \<Longrightarrow> set cs \<subseteq> set (child_ids ws p) \<Longrightarrow> p \<notin> below ws cs"
  by (auto simp: below_def kin_def acyclic_def dest: rtrancl_into_trancl1)

text \<open>What renormalizing the children \<open>cs\<close> of \<open>p\<close> does.\<close>

definition renormalized :: "nat \<Rightarrow> nat list \<Rightarrow> window list \<Rightarrow> window list \<Rightarrow> bool" where
  "renormalized p cs ws vs \<longleftrightarrow> same_shape ws vs \<and> (\<forall>i. z_of ws i \<le> z_of vs i) \<and>
     (\<forall>i. i \<notin> below ws cs \<longrightarrow> z_of vs i = z_of ws i) \<and> (\<forall>c \<in> set cs. in_order vs c p) \<and>
     (\<forall>q \<in> below ws cs. \<forall>c \<in> set (child_ids ws q). in_order vs c q)"

lemma in_order_kept:
  assumes "in_order ws c q" "same_shape ws vs" "z_of vs q = z_of ws q" "z_of ws c \<le> z_of vs c"
  shows "in_order vs c q"
  using assms shape_raises [OF assms(2), of c q] by (auto simp: in_order_def)

lemma renormalized_Cons:
  assumes "same_shape ws us" "acyclic (kin ws)" "set (c # cs) \<subseteq> set (child_ids ws p)"
    and bumped: "\<And>i. z_of ws i \<le> z_of us i" "\<And>i. i \<noteq> c \<Longrightarrow> z_of us i = z_of ws i" "in_order us c p"
    and deep: "renormalized c (child_ids us c) us vs"
    and rest: "renormalized p cs vs xs"
  shows "renormalized p (c # cs) ws xs"
proof -
  have 1: "same_shape us vs" "\<And>i. z_of us i \<le> z_of vs i" "\<And>i. i \<notin> below us (child_ids us c) \<Longrightarrow> z_of vs i = z_of us i"
    "\<And>d. d \<in> set (child_ids us c) \<Longrightarrow> in_order vs d c"
    "\<And>q d. q \<in> below us (child_ids us c) \<Longrightarrow> d \<in> set (child_ids us q) \<Longrightarrow> in_order vs d q"
    using deep by (auto simp: renormalized_def)
  have 2: "same_shape vs xs" "\<And>i. z_of vs i \<le> z_of xs i" "\<And>i. i \<notin> below vs cs \<Longrightarrow> z_of xs i = z_of vs i"
    "\<And>d. d \<in> set cs \<Longrightarrow> in_order xs d p" "\<And>q d. q \<in> below vs cs \<Longrightarrow> d \<in> set (child_ids vs q) \<Longrightarrow> in_order xs d q"
    using rest by (auto simp: renormalized_def)
  have shape: "same_shape ws vs" "same_shape ws xs"
    using assms(1) 1(1) 2(1) same_shape_trans by blast+
  note same = shape_child_ids [OF assms(1), symmetric] shape_child_ids [OF shape(1), symmetric]
    shape_child_ids [OF shape(2), symmetric] shape_below [OF assms(1), symmetric]
    shape_below [OF shape(1), symmetric] shape_below [OF shape(2), symmetric]
  have p: "p \<notin> below ws (c # cs)" using assms(2,3) by (rule below_not_parent)
  then have zp: "z_of us p = z_of ws p" "z_of vs p = z_of us p" "z_of xs p = z_of vs p"
    using bumped(2) [of p] 1(3) [of p] 2(3) [of p] by (auto simp: below_Cons same)
  have "in_order vs c p" using bumped(3) 1(1) zp(2) 1(2) by (rule in_order_kept)
  then have "in_order xs c p" using 2(1) zp(3) 2(2) by (rule in_order_kept)
  moreover have "in_order xs d q" if q: "q \<in> below ws (c # cs)" and d: "d \<in> set (child_ids ws q)" for q d
  proof (cases "q \<in> below ws cs")
    case True
    with 2(5) d show ?thesis by (simp add: same)
  next
    case False
    then have "z_of xs q = z_of vs q" using 2(3) by (simp add: same)
    moreover have "in_order vs d q"
      using q d False 1(4,5) by (auto simp: below_Cons same)
    ultimately show ?thesis using 2(1,2) in_order_kept by blast
  qed
  moreover have "z_of xs i = z_of ws i" if "i \<notin> below ws (c # cs)" for i
    using that bumped(2) [of i] 1(3) [of i] 2(3) [of i] by (auto simp: below_Cons same)
  moreover have "z_of ws i \<le> z_of xs i" for i
    using bumped(1) [of i] 1(2) [of i] 2(2) [of i] by linarith
  ultimately show ?thesis using shape(2) 2(4) by (auto simp: renormalized_def)
qed

lemma renormalized_Nil: "renormalized p [] ws ws"
  by (simp add: renormalized_def below_def)

lemma raise_children_simps:
  "raise_children ws parent [] = Some ws"
  "raise_children ws parent (c # cs) =
     Option.bind (raise_children (bump ws parent c) (c, z_of (bump ws parent c) c + 1) (child_ids (bump ws parent c) c))
       (\<lambda>ws2. raise_children ws2 parent cs)"
  by (simp_all add: raise_children.simps [of ws parent "[]"] raise_children.simps [of ws parent "c # cs"])

lemma raise_children_list:
  assumes "acyclic (kin ws)" "set cs \<subseteq> set (child_ids ws p)" "t = z_of ws p + 1"
    and deep: "\<And>c us. c \<in> set (child_ids ws p) \<Longrightarrow> same_shape ws us \<Longrightarrow>
      \<exists>vs. raise_children us (c, z_of us c + 1) (child_ids us c) = Some vs \<and> renormalized c (child_ids us c) us vs"
  shows "\<exists>xs. raise_children ws (p, t) cs = Some xs \<and> renormalized p cs ws xs"
  using assms
proof (induction cs arbitrary: ws)
  case Nil
  then show ?case by (simp add: raise_children_simps renormalized_Nil)
next
  case (Cons c cs)
  let ?us = "bump ws (p, t) c"
  have c: "(c, p) \<in> kin ws" using Cons.prems(2) by (auto simp: kin_def)
  then have "c \<noteq> p" using Cons.prems(1) by (auto simp: acyclic_def)
  then have b: "same_shape ws ?us" "\<And>i. z_of ws i \<le> z_of ?us i" "\<And>i. i \<noteq> c \<Longrightarrow> z_of ?us i = z_of ws i" "in_order ?us c p"
    unfolding Cons.prems(3) by (simp_all add: bump_spec)
  obtain vs where vs: "raise_children ?us (c, z_of ?us c + 1) (child_ids ?us c) = Some vs"
    "renormalized c (child_ids ?us c) ?us vs"
    using Cons.prems(4) [OF _ b(1)] Cons.prems(2) by auto
  have shape: "same_shape ws vs" using b(1) vs(2) same_shape_trans by (auto simp: renormalized_def)
  have "p \<notin> below ws (c # cs)" using Cons.prems(1,2) by (rule below_not_parent)
  then have "z_of vs p = z_of ws p"
    using vs(2) b(3) [OF \<open>c \<noteq> p\<close> [symmetric]] shape_below [OF b(1)] shape_child_ids [OF b(1)]
    by (auto simp: renormalized_def below_Cons)
  moreover have "acyclic (kin vs)" "set cs \<subseteq> set (child_ids vs p)"
    using Cons.prems(1,2) shape_kin [OF shape] shape_child_ids [OF shape] by auto
  moreover have "\<exists>xs. raise_children us (d, z_of us d + 1) (child_ids us d) = Some xs \<and> renormalized d (child_ids us d) us xs"
    if "d \<in> set (child_ids vs p)" "same_shape vs us" for d us
    using Cons.prems(4) that shape_child_ids [OF shape] same_shape_trans [OF shape] by auto
  ultimately obtain xs where xs: "raise_children vs (p, t) cs = Some xs" "renormalized p cs vs xs"
    using Cons.IH [of vs] Cons.prems(3) by auto
  have "renormalized p (c # cs) ws xs"
    using b(1) Cons.prems(1,2) b(2,3,4) vs(2) xs(2) by (rule renormalized_Cons)
  with vs(1) xs(1) show ?case by (simp add: raise_children_simps)
qed

lemma raise_returns:
  assumes "acyclic (kin ws)"
  shows "\<exists>vs. raiseStackedDescendants ws p = Some vs \<and> renormalized p (child_ids ws p) ws vs"
proof -
  have "wf (kin ws)" using finite_kin assms by (rule finite_acyclic_wf)
  then have "\<exists>vs. raise_children us (p, z_of us p + 1) (child_ids us p) = Some vs \<and> renormalized p (child_ids us p) us vs"
    if "same_shape ws us" for us
    using that
  proof (induction p arbitrary: us rule: wf_induct_rule)
    case (less p)
    have acyclic: "acyclic (kin us)" using assms shape_kin [OF less.prems] by simp
    show ?case
    proof (rule raise_children_list [OF acyclic subset_refl refl])
      fix c vs assume "c \<in> set (child_ids us p)" "same_shape us vs"
      then have "(c, p) \<in> kin ws" "same_shape ws vs"
        using shape_child_ids [OF less.prems] same_shape_trans [OF less.prems] by (simp_all add: kin_def)
      then show "\<exists>xs. raise_children vs (c, z_of vs c + 1) (child_ids vs c) = Some xs \<and>
          renormalized c (child_ids vs c) vs xs"
        by (rule less.IH)
    qed
  qed
  then show ?thesis unfolding raiseStackedDescendants_def by simp
qed

text \<open>
  The invariant: a window that goes up with its parent and belongs above the tiles is above its parent, once both
  have content. It may be broken for the parents \<open>Q\<close> until their chains are renormalized.
\<close>

definition tops :: "window list \<Rightarrow> nat \<Rightarrow> nat \<Rightarrow> bool" where
  "tops ws c p \<longleftrightarrow>
     (\<exists>child par. window_at ws c = Some child \<and> window_at ws p = Some par \<and> parent_id child = Some (of_nat p) \<and>
        raisesWithParent child par \<and> aboveTile child \<and> w_content child \<and> w_content par)"

lemma tops_kin: "tops ws c p \<Longrightarrow> (c, p) \<in> kin ws"
  by (auto simp: tops_def kin_iff dest: window_at_Some)

definition stacked_but :: "nat set \<Rightarrow> window list \<Rightarrow> bool" where
  "stacked_but Q ws \<longleftrightarrow> (\<forall>c p. tops ws c p \<and> p \<notin> Q \<longrightarrow> z_of ws p < z_of ws c)"

abbreviation stacked :: "window list \<Rightarrow> bool" where
  "stacked \<equiv> stacked_but {}"

lemma shape_tops: "same_shape ws vs \<Longrightarrow> tops ws c p = tops vs c p"
proof -
  have "tops vs' c p" if shape: "same_shape ws' vs'" and r: "tops ws' c p" for ws' vs'
  proof -
    obtain child par where "window_at ws' c = Some child" "window_at ws' p = Some par"
      "parent_id child = Some (of_nat p)" "raisesWithParent child par" "aboveTile child" "w_content child" "w_content par"
      using r by (auto simp: tops_def)
    moreover from this obtain child' par' where "window_at vs' c = Some child'" "window_at vs' p = Some par'"
      "child\<lparr>w_z := 0\<rparr> = child'\<lparr>w_z := 0\<rparr>" "par\<lparr>w_z := 0\<rparr> = par'\<lparr>w_z := 0\<rparr>"
      using shape_window_at [OF shape] by blast
    moreover from this have "w_state child = w_state child'" "w_content child = w_content child'"
      "w_state par = w_state par'" "w_content par = w_content par'"
      using same_but_z(2,3) by blast+
    ultimately show ?thesis by (auto simp: tops_def raisesWithParent_def aboveTile_def)
  qed
  then show "same_shape ws vs \<Longrightarrow> tops ws c p = tops vs c p" using same_shape_sym by blast
qed

lemma tops_raises: "tops ws c p \<Longrightarrow> raises ws c p"
  by (auto simp: tops_def raises_def)

lemma renormalized_stacked:
  assumes "renormalized i (child_ids ws i) ws vs" "stacked_but Q ws"
  shows "stacked_but (Q - {i}) vs"
  unfolding stacked_but_def
proof (intro allI impI, elim conjE)
  fix c p assume t: "tops vs c p" and p: "p \<notin> Q - {i}"
  have shape: "same_shape ws vs" using assms(1) by (simp add: renormalized_def)
  have kin: "c \<in> set (child_ids ws p)" using tops_kin [OF t] shape_child_ids [OF shape] by (simp add: kin_def)
  show "z_of vs p < z_of vs c"
  proof (cases "p = i \<or> p \<in> below ws (child_ids ws i)")
    case True
    with assms(1) kin have "in_order vs c p" by (auto simp: renormalized_def)
    with tops_raises [OF t] show ?thesis by (simp add: in_order_def)
  next
    case False
    then have "z_of vs p = z_of ws p" "z_of ws c \<le> z_of vs c" using assms(1) by (auto simp: renormalized_def)
    moreover have "z_of ws p < z_of ws c"
      using False p t shape_tops [OF shape] assms(2) by (auto simp: stacked_but_def)
    ultimately show ?thesis by simp
  qed
qed

text \<open>Raising the chains of several windows.\<close>

lemma raise_stacked:
  assumes "acyclic (kin ws)" "stacked_but Q ws"
  shows "\<exists>vs. raiseStackedDescendants ws i = Some vs \<and> same_shape ws vs \<and> stacked_but (Q - {i}) vs \<and>
    (\<forall>j. z_of ws j \<le> z_of vs j)"
  using raise_returns [OF assms(1), of i] renormalized_stacked [OF _ assms(2), of i]
  by (auto simp: renormalized_def)

lemma raise_each_stacked:
  assumes "acyclic (kin ws)" "stacked_but Q ws"
  shows "\<exists>vs. raise_each is ws = Some vs \<and> same_shape ws vs \<and> stacked_but (Q - set is) vs"
  using assms
proof (induction "is" arbitrary: ws Q)
  case Nil
  then show ?case by simp
next
  case (Cons i "is")
  obtain us where us: "raiseStackedDescendants ws i = Some us" "same_shape ws us" "stacked_but (Q - {i}) us"
    using raise_stacked [OF Cons.prems] by blast
  have "acyclic (kin us)" using Cons.prems(1) shape_kin [OF us(2)] by simp
  from Cons.IH [OF this us(3)] obtain vs where "raise_each is us = Some vs" "same_shape us vs"
    "stacked_but (Q - {i} - set is) vs" by blast
  moreover have "Q - {i} - set is = Q - set (i # is)" by auto
  ultimately show ?case using us(1) same_shape_trans [OF us(2)] by auto
qed

lemma maxFloatingZ_ge: "tz \<le> maxFloatingZ tz ws"
proof -
  have "m \<le> foldl (\<lambda>m w. if aboveTile w \<and> w_z w > m then w_z w else m) m ws" for m
  proof (induction ws arbitrary: m)
    case (Cons w ws)
    show ?case using Cons [of m] Cons [of "w_z w"] by auto
  qed simp
  then show ?thesis by (simp add: maxFloatingZ_def)
qed

lemma maxFloatingZ_above: "w \<in> set ws \<Longrightarrow> aboveTile w \<Longrightarrow> w_z w \<le> maxFloatingZ tz ws"
proof (induction ws arbitrary: tz)
  case (Cons v ws)
  have step: "maxFloatingZ tz (v # ws) = maxFloatingZ (if aboveTile v \<and> w_z v > tz then w_z v else tz) ws"
    by (simp add: maxFloatingZ_def)
  show ?case
  proof (cases "w = v")
    case True
    with Cons.prems(2) have "w_z w \<le> (if aboveTile v \<and> w_z v > tz then w_z v else tz)" by auto
    also have "\<dots> \<le> maxFloatingZ tz (v # ws)" unfolding step by (rule maxFloatingZ_ge)
    finally show ?thesis .
  next
    case False
    with Cons show ?thesis by (simp add: step)
  qed
qed simp

lemma parent_window_at: "parent_id w = Some (of_nat p) \<Longrightarrow> parent_window ws w = window_at ws p"
  by (simp add: parent_window_def window_at_def)

lemma parent_windowD:
  "parent_window ws w = Some v \<Longrightarrow> parent_id w = Some (of_nat (w_id v)) \<and> v \<in> set ws"
  by (auto simp: parent_window_def find_Some_iff split: option.splits)

lemma upd_z_stacked:
  assumes "stacked_but Q ws" "\<And>p. tops ws i p \<Longrightarrow> p \<noteq> i \<Longrightarrow> z_of ws p < z"
  shows "stacked_but (insert i Q) (upd_window i (\<lambda>w. w\<lparr>w_z := z\<rparr>) ws)"
proof -
  have "tops (upd_window i (\<lambda>w. w\<lparr>w_z := z\<rparr>) ws) c p = tops ws c p" for c p
    by (rule shape_tops [symmetric]) simp
  moreover have "tops ws c p \<Longrightarrow> window_at ws c \<noteq> None" for c p by (auto simp: tops_def)
  ultimately show ?thesis using assms by (auto simp: stacked_but_def)
qed

lemma assigned_above_parent:
  assumes "tops ws i p" "window_at ws i = Some w"
  shows "z_of ws p < assigned_z tz ws w"
proof -
  obtain par where "window_at ws p = Some par" "parent_id w = Some (of_nat p)" "raisesWithParent w par" "aboveTile w"
    using assms by (auto simp: tops_def)
  then show ?thesis
    by (auto simp: assigned_z_def parent_window_at z_of_def aboveTile_def)
qed

text \<open>Raising a window and its chain, with its own z set first.\<close>

lemma lifted_stacked:
  assumes "acyclic (kin ws)" "stacked_but Q ws" "\<And>p. tops ws i p \<Longrightarrow> p \<noteq> i \<Longrightarrow> z_of ws p < z"
  shows "\<exists>vs. raiseStackedDescendants (upd_window i (\<lambda>w. w\<lparr>w_z := z\<rparr>) ws) i = Some vs \<and> same_shape ws vs \<and>
    stacked_but (Q - {i}) vs"
proof -
  let ?us = "upd_window i (\<lambda>w. w\<lparr>w_z := z\<rparr>) ws"
  have shape: "same_shape ws ?us" by simp
  have "acyclic (kin ?us)" using assms(1) shape_kin [OF shape] by simp
  from raise_stacked [OF this upd_z_stacked [OF assms(2,3)], of i]
  show ?thesis using same_shape_trans [OF shape] by fastforce
qed

lemma assignZForMap_stacked:
  assumes "acyclic (kin (wm_windows s))" "stacked_but {i} (wm_windows s)"
  shows "\<exists>vs. assignZForMap s i = Some (s\<lparr>wm_windows := vs\<rparr>) \<and> same_shape (wm_windows s) vs \<and> stacked vs"
proof (cases "window_at (wm_windows s) i")
  case None
  have "\<not> tops (wm_windows s) c i" for c using None by (auto simp: tops_def)
  then have "stacked (wm_windows s)" using assms(2) by (auto simp: stacked_but_def)
  with None show ?thesis by (auto simp: assignZForMap_def intro!: exI [of _ "wm_windows s"])
next
  case (Some w)
  have "\<exists>vs. raiseStackedDescendants (upd_window i (\<lambda>v. v\<lparr>w_z := assigned_z (wm_tiledZ s) (wm_windows s) w\<rparr>)
      (wm_windows s)) i = Some vs \<and> same_shape (wm_windows s) vs \<and> stacked_but ({i} - {i}) vs"
    using assms by (rule lifted_stacked) (rule assigned_above_parent [OF _ Some])
  with Some show ?thesis by (auto simp: assignZForMap_def)
qed

lemma lift_tiles_shape: "same_shape ws (lift_tiles z ws)"
  by (simp add: same_shape_def lift_tiles_def)

lemma window_at_lift: "window_at (lift_tiles z ws) i = map_option (\<lambda>w. if managed w then w\<lparr>w_z := z\<rparr> else w) (window_at ws i)"
  by (induction ws) (auto simp: lift_tiles_def)

lemma lift_tiles_stacked:
  assumes "stacked ws" "maxFloatingZ tz ws < z"
  shows "stacked_but (set (map w_id (filter managed (lift_tiles z ws)))) (lift_tiles z ws)"
  unfolding stacked_but_def
proof (intro allI impI, elim conjE)
  fix c p assume t: "tops (lift_tiles z ws) c p" and p: "p \<notin> set (map w_id (filter managed (lift_tiles z ws)))"
  have t': "tops ws c p" using t shape_tops [OF lift_tiles_shape] by blast
  then obtain child par where w: "window_at ws c = Some child" "window_at ws p = Some par" "aboveTile child"
    by (auto simp: tops_def)
  have "\<not> managed par"
  proof
    assume "managed par"
    then have "par\<lparr>w_z := z\<rparr> \<in> set (filter managed (lift_tiles z ws))"
      using window_at_Some [OF w(2)] by (force simp: lift_tiles_def managed_def)
    then have "w_id (par\<lparr>w_z := z\<rparr>) \<in> set (map w_id (filter managed (lift_tiles z ws)))"
      unfolding set_map by (rule imageI)
    then show False using p window_at_Some [OF w(2)] by simp
  qed
  then have "z_of (lift_tiles z ws) p = w_z par" "w_z par \<le> maxFloatingZ tz ws"
    using w(2) maxFloatingZ_above window_at_Some [OF w(2)]
    by (auto simp: z_of_def window_at_lift managed_def aboveTile_def intro: tiling.exhaust)
  moreover have "z_of ws p < z_of ws c" using assms(1) t' by (simp add: stacked_but_def)
  moreover have "z_of (lift_tiles z ws) c = (if managed child then z else z_of ws c)"
    using w(1) by (simp add: z_of_def window_at_lift)
  moreover have "z_of ws p = w_z par" using w(2) by (simp add: z_of_def)
  ultimately show "z_of (lift_tiles z ws) p < z_of (lift_tiles z ws) c" using assms(2) by simp
qed

lemma chain_root_reaches: "cur \<in> set ws \<Longrightarrow> chain_root n ws cur \<in> set ws \<and> (w_id cur, w_id (chain_root n ws cur)) \<in> (kin ws)\<^sup>*"
proof (induction n arbitrary: cur)
  case (Suc n)
  show ?case
  proof (cases "parent_window ws cur")
    case (Some p)
    then have "(w_id cur, w_id p) \<in> kin ws" "p \<in> set ws"
      using Suc.prems parent_windowD [OF Some] by (auto simp: kin_iff)
    with Suc.IH [of p] Suc.prems Some show ?thesis by (auto intro: converse_rtrancl_into_rtrancl)
  qed (use Suc.prems in simp)
qed simp

lemma own_root:
  assumes "acyclic (kin ws)" "w \<in> set ws" "w_id (rootOfChain ws w) = w_id w" "parent_window ws w = Some p"
  shows "\<not> raisesWithParent w p"
proof
  assume r: "raisesWithParent w p"
  have p: "(w_id w, w_id p) \<in> kin ws" "p \<in> set ws" using assms(2) parent_windowD [OF assms(4)] by (auto simp: kin_iff)
  have "rootOfChain ws w = chain_root 63 ws p"
    using assms(4) r by (simp add: rootOfChain_def eval_nat_numeral)
  then have "(w_id p, w_id w) \<in> (kin ws)\<^sup>*" using chain_root_reaches [OF p(2), of 63] assms(3) by simp
  with p(1) assms(1) show False by (auto simp: acyclic_def dest: rtrancl_into_trancl2)
qed

lemma root_not_tops:
  assumes "acyclic (kin ws)" "distinct (ids ws)" "w \<in> set ws" "w_id (rootOfChain ws w) = w_id w"
  shows "\<not> tops ws (w_id w) p"
proof
  assume "tops ws (w_id w) p"
  then obtain par where p: "window_at ws p = Some par" "parent_id w = Some (of_nat p)" "raisesWithParent w par"
    using window_at_in [OF assms(2,3)] by (auto simp: tops_def)
  then have "parent_window ws w = Some par" by (simp add: parent_window_at)
  with own_root [OF assms(1,3,4)] p(3) show False by blast
qed

lemma restack_stacked:
  assumes "acyclic (kin ws)" "stacked ws" "\<And>i p. i \<in> set is \<Longrightarrow> \<not> tops ws i p"
  shows "\<exists>vs. restack is z ws = Some vs \<and> same_shape ws vs \<and> stacked vs"
  using assms
proof (induction "is" arbitrary: ws z)
  case Nil
  then show ?case by simp
next
  case (Cons i "is")
  obtain us where us: "raiseStackedDescendants (upd_window i (\<lambda>w. w\<lparr>w_z := z + 1\<rparr>) ws) i = Some us"
    "same_shape ws us" "stacked us"
    using lifted_stacked [OF Cons.prems(1,2), of i "z + 1"] Cons.prems(3) by auto
  have "acyclic (kin us)" "\<And>j p. j \<in> set is \<Longrightarrow> \<not> tops us j p"
    using Cons.prems(1,3) shape_kin [OF us(2)] shape_tops [OF us(2)] by auto
  then obtain vs where "restack is (z + 1) us = Some vs" "same_shape us vs" "stacked vs"
    using Cons.IH [of us "z + 1"] us(3) by blast
  then show ?case using us same_shape_trans [OF us(2)] by auto
qed

lemma raiseAllFloating_stacked:
  assumes "acyclic (kin (wm_windows s))" "distinct (ids (wm_windows s))" "stacked (wm_windows s)"
  shows "\<exists>vs. same_shape (wm_windows s) vs \<and> stacked vs \<and>
    (raiseAllFloating e s = Some (s, []) \<or> raiseAllFloating e s = Some (pushStack e (s\<lparr>wm_windows := vs\<rparr>)))"
proof -
  have "\<And>i p. i \<in> set (map w_id (floating_roots (wm_windows s))) \<Longrightarrow> \<not> tops (wm_windows s) i p"
    using root_not_tops [OF assms(1,2)] by (auto simp: floating_roots_def)
  from restack_stacked [OF assms(1,3) this, of "map w_id (floating_roots (wm_windows s))" "wm_tiledZ s"]
  show ?thesis using assms(3) by (fastforce simp: raiseAllFloating_def)
qed

lemma highest_exceeds: "managed w \<or> aboveTile w"
  by (cases "wn_tiling (w_state w)") (simp_all add: managed_def aboveTile_def)

lemma raised_stacked:
  assumes "acyclic (kin (wm_windows s))" "distinct (ids (wm_windows s))" "stacked (wm_windows s)"
  shows "\<exists>vs z. raised i s = Some (s\<lparr>wm_windows := vs, wm_tiledZ := z\<rparr>) \<and> same_shape (wm_windows s) vs \<and> stacked vs"
proof (cases "window_at (wm_windows s) i")
  case None
  then show ?thesis using assms(3) by (auto simp: raised_def intro!: exI [of _ "wm_windows s"] exI [of _ "wm_tiledZ s"])
next
  case (Some w)
  let ?ws = "wm_windows s" and ?rt = "rootOfChain (wm_windows s) w"
  let ?h = "maxFloatingZ (wm_tiledZ s) ?ws"
  have rt: "?rt \<in> set ?ws" using chain_root_reaches window_at_Some [OF Some] by (simp add: rootOfChain_def)
  show ?thesis
  proof (cases "managed ?rt")
    case True
    let ?us = "lift_tiles (?h + 1) ?ws"
    have shape: "same_shape ?ws ?us" by (rule lift_tiles_shape)
    have "acyclic (kin ?us)" using assms(1) shape_kin [OF shape] by simp
    from raise_each_stacked [OF this lift_tiles_stacked [OF assms(3), of "wm_tiledZ s"], of "map w_id (filter managed ?us)"]
    obtain vs where "raise_each (map w_id (filter managed ?us)) ?us = Some vs" "same_shape ?us vs" "stacked vs"
      by auto
    then show ?thesis using Some True maxFloatingZ_ge [of "wm_tiledZ s" ?ws] same_shape_trans [OF shape]
      by (auto simp: raised_def Let_def)
  next
    case False
    have h: "w_z ?rt \<le> ?h" using rt False highest_exceeds maxFloatingZ_above by blast
    have "z_of ?ws p < ?h + 1" if t: "tops ?ws (w_id ?rt) p" for p
    proof -
      have "z_of ?ws p < z_of ?ws (w_id ?rt)" using assms(3) t by (simp add: stacked_but_def)
      also have "z_of ?ws (w_id ?rt) = w_z ?rt" using window_at_in [OF assms(2) rt] by (simp add: z_of_def)
      finally show ?thesis using h by simp
    qed
    then obtain vs where "raiseStackedDescendants (upd_window (w_id ?rt) (\<lambda>w. w\<lparr>w_z := ?h + 1\<rparr>) ?ws) (w_id ?rt) = Some vs"
      "same_shape ?ws vs" "stacked vs"
      using lifted_stacked [OF assms(1,3), of "w_id ?rt" "?h + 1"] by auto
    then show ?thesis using Some False h
      by (auto simp: raised_def Let_def intro!: exI [of _ vs] exI [of _ "wm_tiledZ s"])
  qed
qed

lemma modal_walk_simps:
  "modal_walk ws best [] = Some best"
  "modal_walk ws best (c # cs) =
     Option.bind (modal_walk ws (better_modal best c) (childrenOf_window ws (w_id c))) (\<lambda>b. modal_walk ws b cs)"
  by (simp_all add: modal_walk.simps [of ws best "[]"] modal_walk.simps [of ws best "c # cs"])

lemma modal_returns:
  assumes "acyclic (kin ws)"
  shows "modal_walk ws best (childrenOf_window ws p) \<noteq> None"
proof -
  have "wf (kin ws)" using finite_kin assms by (rule finite_acyclic_wf)
  then show ?thesis
  proof (induction p arbitrary: best rule: wf_induct_rule)
    case (less p)
    have "modal_walk ws b cs \<noteq> None" if "set cs \<subseteq> set (childrenOf_window ws p)" for b cs
      using that
    proof (induction cs arbitrary: b)
      case (Cons c cs)
      have "(w_id c, p) \<in> kin ws" using Cons.prems by (auto simp: kin_def child_ids_def)
      from less.IH [OF this, of "better_modal b c"] obtain b' where
        "modal_walk ws (better_modal b c) (childrenOf_window ws (w_id c)) = Some b'" by auto
      with Cons.IH [of b'] Cons.prems show ?case by (simp add: modal_walk_simps)
    qed (simp add: modal_walk_simps)
    then show ?case by blast
  qed
qed

section \<open>What a point hits\<close>

definition takes :: "(window \<Rightarrow> number \<Rightarrow> number \<Rightarrow> bool) option \<Rightarrow> number \<Rightarrow> number \<Rightarrow> window \<Rightarrow> bool" where
  "takes acc x y w \<longleftrightarrow> w_tier w \<noteq> - 1 \<and> \<not> outside (w_rect w) x y \<and>
     (case acc of None \<Rightarrow> True | Some f \<Rightarrow> f w (x - rx (w_rect w)) (y - ry (w_rect w)))"

lemma first_taking_find: "first_taking acc x y ws = find (takes acc x y) ws"
  by (induction ws) (auto simp: takes_def split: option.splits)

lemma find_rev_None: "find P (rev xs) = None \<longleftrightarrow> (\<forall>x \<in> set xs. \<not> P x)"
  by (auto simp: find_None_iff)

lemma find_rev_Some:
  "find P (rev xs) = Some x \<Longrightarrow> \<exists>under over. xs = under @ x # over \<and> P x \<and> (\<forall>v \<in> set over. \<not> P v)"
proof (induction xs rule: rev_induct)
  case (snoc z zs)
  show ?case
  proof (cases "P z")
    case True
    with snoc.prems have "zs @ [z] = zs @ x # [] \<and> P x \<and> (\<forall>v \<in> set []. \<not> P v)" by simp
    then show ?thesis by blast
  next
    case False
    with snoc obtain under over where "zs = under @ x # over" "P x" "\<forall>v \<in> set over. \<not> P v" by auto
    with False have "zs @ [z] = under @ x # (over @ [z]) \<and> P x \<and> (\<forall>v \<in> set (over @ [z]). \<not> P v)" by simp
    then show ?thesis by blast
  qed
qed simp

text \<open>The part of the drawn stack that belongs to one window: its surface and its subsurfaces.\<close>

definition block :: "surface_state \<Rightarrow> window \<Rightarrow> nat list" where
  "block st w = (if isGated w then [] else the (emitSubtreeStack st (w_resource w) [w_id w]))"

lemma base_stack_blocks:
  assumes "order_wf st" "acyclic (edges st)"
  shows "base_stack st ws stack = Some (stack @ concat (map (block st) ws))"
proof (induction ws arbitrary: stack)
  case (Cons w ws)
  obtain L where "emit_children st (childrenOf st (w_resource w)) = Some L"
    using emit_walk.returns [OF assms, of "w_resource w"] by blast
  then show ?case using Cons by (simp add: block_def emitSubtreeStack_def)
qed simp

definition modal_shown :: "window \<Rightarrow> bool" where
  "modal_shown w \<longleftrightarrow> wn_modal (w_state w) \<and> wn_visible (w_state w) \<and> w_content w \<and> \<not> isGated w"

definition under_window :: "window list \<Rightarrow> nat \<Rightarrow> window set" where
  "under_window ws p = {d \<in> set ws. (w_id d, p) \<in> (kin ws)\<^sup>+}"

definition walked :: "window list \<Rightarrow> window list \<Rightarrow> window set" where
  "walked ws cs = {d. d \<in> set cs \<or> (\<exists>c \<in> set cs. d \<in> under_window ws (w_id c))}"

lemma reached_children:
  assumes "distinct (ids ws)"
  shows "walked ws (childrenOf_window ws p) = under_window ws p"
proof -
  have child: "c \<in> set (childrenOf_window ws p) \<longleftrightarrow> c \<in> set ws \<and> (w_id c, p) \<in> kin ws" for c
  proof
    assume c: "c \<in> set ws \<and> (w_id c, p) \<in> kin ws"
    then obtain c' where c': "c' \<in> set ws" "w_id c' = w_id c" "parent_id c' = Some (of_nat p)"
      by (auto simp: kin_iff)
    have "Some c' = Some c"
      using window_at_in [OF assms c'(1)] window_at_in [OF assms, of c] c c'(2) by (metis)
    with c c'(3) show "c \<in> set (childrenOf_window ws p)" by (simp add: childrenOf_window_def)
  qed (auto simp: childrenOf_window_def kin_iff)
  show ?thesis
  proof (intro equalityI subsetI)
    fix d assume "d \<in> walked ws (childrenOf_window ws p)"
    then consider "d \<in> set (childrenOf_window ws p)"
      | c where "c \<in> set (childrenOf_window ws p)" "d \<in> under_window ws (w_id c)"
      unfolding walked_def by blast
    then show "d \<in> under_window ws p"
    proof cases
      case 1
      then show ?thesis by (simp add: child under_window_def r_into_trancl')
    next
      case 2
      then have "d \<in> set ws" "(w_id d, w_id c) \<in> (kin ws)\<^sup>+" "(w_id c, p) \<in> kin ws"
        by (simp_all add: child under_window_def)
      then show ?thesis by (simp add: under_window_def trancl_into_trancl)
    qed
  next
    fix d assume "d \<in> under_window ws p"
    then have d: "d \<in> set ws" "(w_id d, p) \<in> (kin ws)\<^sup>+" by (auto simp: under_window_def)
    from d(2) show "d \<in> walked ws (childrenOf_window ws p)"
    proof (cases rule: trancl.cases)
      case r_into_trancl
      with d(1) show ?thesis by (simp add: walked_def child)
    next
      case (trancl_into_trancl i)
      then obtain c where "c \<in> set ws" "w_id c = i" by (auto simp: kin_iff)
      with trancl_into_trancl d(1) show ?thesis by (auto simp: walked_def child under_window_def)
    qed
  qed
qed

lemma reached_Cons: "distinct (ids ws) \<Longrightarrow> walked ws (c # cs) = insert c (walked ws (childrenOf_window ws (w_id c))) \<union> walked ws cs"
  unfolding reached_children by (auto simp: walked_def)

text \<open>The best window so far is a shown modal, and no shown modal that was passed is above it.\<close>

definition best_of :: "window option \<Rightarrow> window set \<Rightarrow> window option \<Rightarrow> bool" where
  "best_of best D r \<longleftrightarrow> (r = best \<or> (\<exists>b \<in> D. r = Some b \<and> modal_shown b)) \<and>
     (\<forall>d \<in> D. modal_shown d \<longrightarrow> (\<exists>b. r = Some b \<and> w_z d \<le> w_z b)) \<and>
     (\<forall>d. best = Some d \<longrightarrow> (\<exists>b. r = Some b \<and> w_z d \<le> w_z b))"

lemma best_of_trans: "best_of best D r \<Longrightarrow> best_of r E r' \<Longrightarrow> best_of best (D \<union> E) r'"
proof -
  assume 1: "best_of best D r" and 2: "best_of r E r'"
  have keeps: "\<exists>b. r' = Some b \<and> w_z d \<le> w_z b" if "\<exists>b. r = Some b \<and> w_z d \<le> w_z b" for d
    using that 2 by (auto simp: best_of_def intro: order_trans)
  have "r' = best \<or> (\<exists>b \<in> D \<union> E. r' = Some b \<and> modal_shown b)"
    using 1 2 unfolding best_of_def by blast
  moreover have "\<exists>b. r' = Some b \<and> w_z d \<le> w_z b" if "d \<in> D \<union> E" "modal_shown d" for d
    using that 1 2 keeps [of d] unfolding best_of_def by blast
  moreover have "\<exists>b. r' = Some b \<and> w_z d \<le> w_z b" if "best = Some d" for d
    using that 1 keeps [of d] unfolding best_of_def by blast
  ultimately show ?thesis unfolding best_of_def by blast
qed

lemma best_of_better: "best_of best {c} (better_modal best c)"
  by (auto simp: best_of_def better_modal_def modal_shown_def split: option.splits)

lemma modal_walk_found:
  assumes ret: "modal_walk ws best cs = Some r" and distinct: "distinct (ids ws)"
  shows "best_of best (walked ws cs) r"
proof -
  have "ws = ws \<longrightarrow> best_of best (walked ws cs) r"
  proof (rule modal_walk.raw_induct [where P = "\<lambda>vs best cs r. vs = ws \<longrightarrow> best_of best (walked ws cs) r", OF _ ret], rule impI)
    fix f vs best cs r
    assume IH: "\<And>vs best cs r. f vs best cs = Some r \<Longrightarrow> vs = ws \<longrightarrow> best_of best (walked ws cs) r"
      and eq: "(case cs of [] \<Rightarrow> Some best | child # rest \<Rightarrow>
        Option.bind (f vs (better_modal best child) (childrenOf_window vs (w_id child))) (\<lambda>best2. f vs best2 rest)) = Some r"
      and "vs = ws"
    show "best_of best (walked ws cs) r"
    proof (cases cs)
      case Nil
      with eq show ?thesis by (auto simp: best_of_def walked_def)
    next
      case (Cons c rest)
      with eq \<open>vs = ws\<close> obtain r1 where 1: "f ws (better_modal best c) (childrenOf_window ws (w_id c)) = Some r1"
        "f ws r1 rest = Some r" by (auto simp: bind_eq_Some_conv)
      have "best_of best ({c} \<union> walked ws (childrenOf_window ws (w_id c)) \<union> walked ws rest) r"
        using best_of_trans [OF best_of_trans [OF best_of_better]] IH [OF 1(1)] IH [OF 1(2)] by blast
      then show ?thesis by (simp add: Cons reached_Cons [OF distinct])
    qed
  qed
  then show ?thesis by simp
qed

lemma topmost_modal_spec:
  assumes "acyclic (kin ws)" "distinct (ids ws)" "w \<in> set ws"
  shows "\<exists>m. topmostModalDescendant ws (w_id w) = Some m \<and> best_of None (under_window ws (w_id w)) m"
proof -
  obtain m where m: "modal_walk ws None (childrenOf_window ws (w_id w)) = Some m"
    using modal_returns [OF assms(1)] by blast
  with modal_walk_found [OF m assms(2)] show ?thesis
    by (simp add: topmostModalDescendant_def window_at_in [OF assms(2,3)] reached_children [OF assms(2)])
qed

lemma redirect_spec:
  assumes "acyclic (kin (wm_windows s))" "distinct (ids (wm_windows s))" "hit_window e acc x y s = Some w" "w \<in> set (wm_windows s)"
  shows "\<exists>v. windowAt e acc x y s = Some (Some v) \<and>
    (if {d \<in> under_window (wm_windows s) (w_id w). modal_shown d} = {} then v = w
     else is_arg_max w_z (\<lambda>d. d \<in> under_window (wm_windows s) (w_id w) \<and> modal_shown d) v)"
proof -
  let ?ws = "wm_windows s"
  obtain m where m: "topmostModalDescendant ?ws (w_id w) = Some m" "best_of None (under_window ?ws (w_id w)) m"
    using topmost_modal_spec [OF assms(1,2,4)] by blast
  have "if {d \<in> under_window ?ws (w_id w). modal_shown d} = {} then (case m of None \<Rightarrow> w | Some d \<Rightarrow> d) = w
    else is_arg_max w_z (\<lambda>d. d \<in> under_window ?ws (w_id w) \<and> modal_shown d) (case m of None \<Rightarrow> w | Some d \<Rightarrow> d)"
    using m(2) by (auto simp: best_of_def is_arg_max_linorder)
  with m(1) assms(3) show ?thesis by (intro exI) (auto simp: windowAt_def)
qed

lemma hit_window_split:
  "case hit_window e acc x y s of
     None \<Rightarrow> \<not> list_ex (takes acc x y) (sort_key effectiveStackZ (candidates e s))
   | Some w \<Rightarrow> w \<in> set (wm_windows s) \<and> (\<exists>under over. sort_key effectiveStackZ (candidates e s) = (under @ [w]) @ over \<and>
       takes acc x y w \<and> \<not> list_ex (takes acc x y) over)"
proof (cases "hit_window e acc x y s")
  case None
  then have "\<not> list_ex (takes acc x y) (sort_key effectiveStackZ (candidates e s))"
    by (simp add: hit_window_def first_taking_find find_rev_None list_ex_iff)
  with None show ?thesis by simp
next
  case (Some w)
  then obtain under over where o: "sort_key effectiveStackZ (candidates e s) = under @ w # over" "takes acc x y w"
      "\<forall>v \<in> set over. \<not> takes acc x y v"
    using find_rev_Some [of "takes acc x y" "sort_key effectiveStackZ (candidates e s)" w]
    by (auto simp: hit_window_def first_taking_find)
  have "w \<in> set (candidates e s)" using arg_cong [OF o(1), of set] by simp
  then have "w \<in> set (wm_windows s)"
    by (auto simp: candidates_def List.map_filter_def dest: window_at_Some split: option.splits)
  moreover have "sort_key effectiveStackZ (candidates e s) = (under @ [w]) @ over" using o(1) by simp
  ultimately show ?thesis using Some o(2,3) unfolding list_ex_iff by (simp del: append_assoc) blast
qed


section \<open>Examples\<close>

text \<open>A window of the examples: content, no gate, the rectangle 100 by 100 at the origin.\<close>

definition plain_window :: "nat \<Rightarrow> int \<Rightarrow> window_state \<Rightarrow> window" where
  "plain_window i z st = \<lparr>w_id = i, w_z = z, w_rect = \<lparr>rx = 0, ry = 0, rw = 100, rh = 100\<rparr>,
     w_outer = \<lparr>rx = 0, ry = 0, rw = 100, rh = 100\<rparr>, w_resource = i, w_insets = None, w_gates = [],
     w_content = True, w_floatByType = False, w_tier = 0, w_active = False, w_mirrorOf = None,
     w_floatingRect = None, w_pendingInitialCommit = False, w_pendingSizeConfigure = False,
     w_lastAckedSerial = - 1, w_awaitingMapAck = False, w_state = st\<rparr>"

definition tile :: window_state where "tile = defaultWindowState"
definition float :: window_state where "float = tile\<lparr>wn_tiling := Floating\<rparr>"
definition dialog_of :: "nat \<Rightarrow> window_state" where
  "dialog_of p = float\<lparr>wn_modal := True, wn_parent := Some (of_nat p)\<rparr>"

lemmas sample_windows = plain_window_def tile_def float_def dialog_of_def defaultWindowState_def

definition no_surfaces :: surface_state where
  "no_surfaces = \<lparr>st_surfaces = [], st_subsurfaces = [], st_order = [], st_pendingOrder = [],
     st_buffers = [], st_regions = [], st_xwaylandScale = 1, st_pendingShmReleases = [], st_commitTimers = [],
     st_viewports = [], st_tearingControls = []\<rparr>"

definition bare_env :: wm_env where
  "bare_env = \<lparr>we_content = None, we_outputs = [(0, \<lparr>rx = 0, ry = 0, rw = 1000, rh = 1000\<rparr>)], we_rebuild = False,
     we_seatFocus = None, we_views = (\<lambda>_. None), we_configure = True, we_serial = (\<lambda>_. None), we_beforeMap = None,
     we_animation = False, we_bus = True\<rparr>"

definition two_floats :: wm where
  "two_floats = wm_new\<lparr>wm_windows := [plain_window 3 3 float, plain_window 2 2 (dialog_of 1), plain_window 1 1 float]\<rparr>"

lemma two_floats_kin: "kin (wm_windows two_floats) = {(2, 1)}"
  by (auto simp: kin_iff two_floats_def wm_new_def sample_windows)

lemma acyclic_none: "acyclic ({} :: (nat \<times> nat) set)"
  by (rule acyclic_measure [of _ "\<lambda>_. 0"]) simp

lemma acyclic_single: "a \<noteq> b \<Longrightarrow> acyclic {(a, b)}"
  using wf_acyclic [of "{}"] by (simp add: acyclic_insert)

text \<open>
  A float, its modal dialog and a second float over the same rectangle; the surfaces of the two upper windows have empty
  input regions, so the click lands on the first float although its modal is open.
\<close>

definition click_through :: surface_state where
  "click_through = no_surfaces\<lparr>st_surfaces := [(1, surface_new 101 No_role),
     (2, (surface_new 102 No_role)\<lparr>sf_inputRegion := Some []\<rparr>), (3, (surface_new 103 No_role)\<lparr>sf_inputRegion := Some []\<rparr>)]\<rparr>"

lemma click_surfaces:
  "oget (st_surfaces click_through) 1 = Some (surface_new 101 No_role)"
  "oget (st_surfaces click_through) (Suc 0) = Some (surface_new 101 No_role)"
  "oget (st_surfaces click_through) 2 = Some ((surface_new 102 No_role)\<lparr>sf_inputRegion := Some []\<rparr>)"
  "oget (st_surfaces click_through) 3 = Some ((surface_new 103 No_role)\<lparr>sf_inputRegion := Some []\<rparr>)"
  by (simp_all add: click_through_def no_surfaces_def)

lemma no_children: "hitTestSubsurfaces click_through r px py x y = Some None"
  by (simp add: hitTestSubsurfaces_def childrenOf_def click_through_def no_surfaces_def hit_children.simps)


text \<open>
  The pointer's pick does not follow the redirection to a modal descendant: it returns the hit of the window that was
  hit, not of the modal that \<open>windowAt\<close> returned.
\<close>

lemma pick_ignores_modal:
  assumes "windowAt e (Some (pick_accepts st x y)) x y s = Some (Some m)" "w_mirrorOf m = None"
    "hit_window e (Some (pick_accepts st x y)) x y s = Some w" "w_mirrorOf w = None"
    "tree_hit st x y w = Some h" "oget (st_surfaces st) (w_resource w) = Some r"
  shows "pickToplevel st e s x y = Some (Surface_picked h (sf_id r))"
  using assms by (simp add: pickToplevel_def)

text \<open>
  Raising all floating windows does not keep their order: the dialog of the lower float keeps its z and ends
  above the other float, which it was below.
\<close>

lemma raise_chain_one:
  assumes "child_ids ws i = [c]" "c \<noteq> i" "child_ids ws c = []"
  shows "raiseStackedDescendants ws i = Some (bump ws (i, z_of ws i + 1) c)"
proof -
  have "same_shape ws (bump ws (i, z_of ws i + 1) c)" using assms(2) by (rule bump_spec(1))
  then have "child_ids (bump ws (i, z_of ws i + 1) c) c = []" using assms(3) shape_child_ids by metis
  then show ?thesis by (simp add: raiseStackedDescendants_def assms(1) raise_children_simps)
qed

lemma chain_root_numeral [simp]:
  "chain_root (numeral k) ws w = (case parent_window ws w of None \<Rightarrow> w
     | Some p \<Rightarrow> if raisesWithParent w p then chain_root (pred_numeral k) ws p else w)"
  by (simp add: numeral_eq_Suc)

lemmas run_stack = two_floats_def wm_new_def sample_windows floating_roots_def rootOfChain_def parent_window_def
  raisesWithParent_def child_ids_def childrenOf_window_def upd_window_def raiseStackedDescendants_def
  raise_children_simps bump_def z_of_def drawn_def drawable_def isGated_def effectiveStackZ_def

lemma raise_all_floating_reorders:
  "drawn (wm_windows two_floats) = [1, 2, 3] \<and>
   map_option (\<lambda>(s, _). drawn (wm_windows s)) (raiseAllFloating bare_env two_floats) = Some [1, 3, 2]"
  by (simp add: raiseAllFloating_def run_stack pushStack_def updateStackTiers_def stamp_tier_def bare_env_def Let_def
      all_tiers_def own_tier_def lookup_tier_def inherit_tier_def is_active_def)

text \<open>
  A dialog of an active fullscreen window is drawn below it when that window itself belongs to a tiled window: the tier
  is inherited from the root of the chain only.
\<close>

definition three_levels :: wm where
  "three_levels = wm_new\<lparr>wm_focused := Some 2, wm_windows := [plain_window 3 2 (dialog_of 2),
     plain_window 2 1 (float\<lparr>wn_parent := Some 1, wn_sizeMode := Fullscreen\<rparr>), plain_window 1 0 tile]\<rparr>"

lemma dialog_under_fullscreen_parent:
  "drawn (wm_windows three_levels) = [1, 2, 3] \<and>
   drawn (wm_windows (fst (updateStackTiers bare_env three_levels))) = [1, 3, 2]"
  by (simp add: three_levels_def run_stack updateStackTiers_def stamp_tier_def bare_env_def Let_def
      all_tiers_def own_tier_def lookup_tier_def inherit_tier_def is_active_def)

text \<open>Nothing keeps a client from making a window its own parent, and then raising it does not return.\<close>

lemma bump_shape: "same_shape ws (bump ws parent c)"
  by (auto simp: bump_def split: option.split)

lemma own_parent_never_raised:
  assumes "child_ids ws i = [i]"
  shows "raiseStackedDescendants ws i = None"
proof (rule ccontr)
  assume "raiseStackedDescendants ws i \<noteq> None"
  then obtain r where ret: "raise_children ws (i, z_of ws i + 1) [i] = Some r"
    by (auto simp: raiseStackedDescendants_def assms)
  have "same_shape ws ws \<and> fst (i, z_of ws i + 1) = i \<and> [i] = [i] \<longrightarrow> False"
  proof (rule raise_children.raw_induct [where P =
        "\<lambda>us parent cs r. same_shape ws us \<and> fst parent = i \<and> cs = [i] \<longrightarrow> False", OF _ ret], intro impI, elim conjE)
    fix f us cs r and parent :: "nat \<times> int"
    assume IH: "\<And>us parent cs r. f us parent cs = Some r \<Longrightarrow> same_shape ws us \<and> fst parent = i \<and> cs = [i] \<longrightarrow> False"
      and eq: "(case cs of [] \<Rightarrow> Some us | c # rest \<Rightarrow>
        Option.bind (f (bump us parent c) (c, z_of (bump us parent c) c + 1) (child_ids (bump us parent c) c))
          (\<lambda>ws2. f ws2 parent rest)) = Some r"
      and us: "same_shape ws us" "cs = [i]"
    have shape: "same_shape ws (bump us parent i)" using us(1) bump_shape same_shape_trans by blast
    then have "child_ids (bump us parent i) i = [i]" using assms shape_child_ids by metis
    with eq us(2) obtain r' where "f (bump us parent i) (i, z_of (bump us parent i) i + 1) [i] = Some r'"
      by (auto simp: bind_eq_Some_conv)
    with IH shape show False by fastforce
  qed
  then show False by simp
qed

end
