(* ===== verification/Window_Manager.thy ===== *)
theory Window_Manager
  imports Window_Stack
begin

text \<open>
  The window manager as a machine (\<open>createWm\<close> of \<open>core/src/wm/index.ts\<close>): adding, mapping and removing windows, content
  gates, insets, the opening sequence with its wait for the client's acknowledgement, and the proposals.

  A proposal and the end of the initial commit are asynchronous functions. What they do before their first
  \<open>await\<close> is one operation. The rest waits behind the window's earlier calls (\<open>pendingMutation\<close>), so each window has a
  queue: \<open>Begin\<close> is the moment the promise before it is settled, when the call takes its snapshot and emits the
  interceptable event, and \<open>Answer\<close> the moment that emit resolves. \<open>None\<close> as an answer is a bus without payload. Jobs
  of a window that was removed find it gone and do nothing; the model drops them with the window.
\<close>

section \<open>State\<close>

datatype job = Proposal_job proposal string "(size2 option \<times> size2 option) option" | Initial_job bool

datatype stage = Waiting | Shown window_state | Settling

record manager =
  mg_wm :: wm
  mg_jobs :: "(nat, (job \<times> stage) list) omap"
  mg_serials :: "(nat, int) omap"
  mg_backstops :: "nat list"

definition mg_new :: manager where
  "mg_new = \<lparr>mg_wm = wm_new, mg_jobs = [], mg_serials = [], mg_backstops = []\<rparr>"

abbreviation mg_windows :: "manager \<Rightarrow> window list" where
  "mg_windows m \<equiv> wm_windows (mg_wm m)"

definition set_windows :: "window list \<Rightarrow> manager \<Rightarrow> manager" where
  "set_windows ws m = m\<lparr>mg_wm := (mg_wm m)\<lparr>wm_windows := ws\<rparr>\<rparr>"

definition edit :: "nat \<Rightarrow> (window \<Rightarrow> window) \<Rightarrow> manager \<Rightarrow> manager" where
  "edit i f m = set_windows (upd_window i f (mg_windows m)) m"

definition jobs_of :: "manager \<Rightarrow> nat \<Rightarrow> (job \<times> stage) list" where
  "jobs_of m i = (case oget (mg_jobs m) i of None \<Rightarrow> [] | Some q \<Rightarrow> q)"

definition set_jobs :: "nat \<Rightarrow> (job \<times> stage) list \<Rightarrow> manager \<Rightarrow> manager" where
  "set_jobs i q m = m\<lparr>mg_jobs := oset i q (mg_jobs m)\<rparr>"

text \<open>Running an operation of the stack inside the manager.\<close>

definition on_wm :: "(wm \<Rightarrow> wm \<times> wm_effect list) \<Rightarrow> manager \<Rightarrow> manager \<times> wm_effect list" where
  "on_wm f m = (let (s, eff) = f (mg_wm m) in (m\<lparr>mg_wm := s\<rparr>, eff))"

definition on_wm_opt :: "(wm \<Rightarrow> (wm \<times> wm_effect list) option) \<Rightarrow> manager \<Rightarrow> (manager \<times> wm_effect list) option" where
  "on_wm_opt f m = map_option (\<lambda>(s, eff). (m\<lparr>mg_wm := s\<rparr>, eff)) (f (mg_wm m))"

text \<open>One step after another, with the effects in order.\<close>

definition then_also :: "manager \<times> wm_effect list \<Rightarrow> (manager \<Rightarrow> manager \<times> wm_effect list) \<Rightarrow> manager \<times> wm_effect list" where
  "then_also r f = (let (m, eff) = r; (m', eff') = f m in (m', eff @ eff'))"

section \<open>Windows come and go\<close>

definition new_window :: "nat \<Rightarrow> nat \<Rightarrow> bool \<Rightarrow> nat option \<Rightarrow> int \<Rightarrow> window" where
  "new_window i res deferred mirror z = \<lparr>w_id = i, w_z = z, w_rect = \<lparr>rx = 0, ry = 0, rw = - 1, rh = - 1\<rparr>,
     w_outer = \<lparr>rx = 0, ry = 0, rw = - 1, rh = - 1\<rparr>, w_resource = res, w_insets = None, w_gates = [],
     w_content = False, w_floatByType = False, w_tier = 0, w_active = False, w_mirrorOf = mirror,
     w_floatingRect = None, w_pendingInitialCommit = deferred, w_pendingSizeConfigure = False,
     w_lastAckedSerial = - 1, w_awaitingMapAck = False, w_state = defaultWindowState\<rparr>"

definition addWindow :: "nat \<Rightarrow> nat \<Rightarrow> bool \<Rightarrow> nat option \<Rightarrow> manager \<Rightarrow> manager \<times> wm_effect list" where
  "addWindow i res deferred mirror m =
    (if has_window (mg_windows m) i then (m, [])
     else (set_windows (new_window i res deferred mirror (wm_tiledZ (mg_wm m)) # mg_windows m) m, [Schedule ''mapped'']))"

text \<open>Focus goes to a modal that opened over the focused window, and back when the modal is gone.\<close>

definition tetherFocusOnModal :: "wm_env \<Rightarrow> window \<Rightarrow> window list \<Rightarrow> wm_effect list" where
  "tetherFocusOnModal e w ws =
    (case we_seatFocus e of
       Some (Some f) \<Rightarrow>
         if wn_modal (w_state w) \<and> wn_visible (w_state w) \<and> f \<noteq> w_id w
            \<and> (\<exists>a \<in> set (chainOf ws w). w_id a \<noteq> w_id w \<and> w_id a = f)
         then [RequestFocus (Some (w_id w))] else []
     | _ \<Rightarrow> [])"

definition untetherFocusOnUnmodal :: "wm_env \<Rightarrow> window \<Rightarrow> window list \<Rightarrow> wm_effect list" where
  "untetherFocusOnUnmodal e w ws =
    (case we_seatFocus e of
       None \<Rightarrow> []
     | Some f \<Rightarrow>
         if f \<noteq> Some (w_id w) then []
         else (case parent_window ws w of None \<Rightarrow> [RequestFocus None] | Some p \<Rightarrow> [RequestFocus (Some (w_id p))]))"

definition without_window :: "nat \<Rightarrow> manager \<Rightarrow> manager" where
  "without_window i m =
    (let s = mg_wm m;
         ws = (case index_of i (ids (wm_windows s)) of None \<Rightarrow> wm_windows s | Some k \<Rightarrow> remove_at k (wm_windows s))
     in m\<lparr>mg_wm := s\<lparr>wm_windows := ws, wm_lastActive := filter (\<lambda>(out, a). a \<noteq> i) (wm_lastActive s)\<rparr>,
          mg_jobs := odel i (mg_jobs m), mg_serials := odel i (mg_serials m),
          mg_backstops := removeAll i (mg_backstops m)\<rparr>)"

definition unmapWindow :: "wm_env \<Rightarrow> nat \<Rightarrow> manager \<Rightarrow> manager \<times> wm_effect list" where
  "unmapWindow e i m =
    (case window_at (mg_windows m) i of
       None \<Rightarrow> (m, [])
     | Some w \<Rightarrow>
         then_also (then_also (without_window i m, [Schedule ''unmapped'']) (on_wm (pushStack e))) (\<lambda>m2.
           (m2, if wn_modal (w_state w) then untetherFocusOnUnmodal e w (mg_windows m2) else [])))"

section \<open>Configures and the opening sequence\<close>

definition configure :: "wm_env \<Rightarrow> nat \<Rightarrow> rect \<Rightarrow> manager \<Rightarrow> manager \<times> wm_effect list" where
  "configure e i r m =
    (if \<not> we_configure e then (m, [])
     else (case we_serial e i of None \<Rightarrow> m | Some n \<Rightarrow> m\<lparr>mg_serials := oset i n (mg_serials m)\<rparr>, [Configure i r]))"

abbreviation sized :: "rect \<Rightarrow> bool" where
  "sized r \<equiv> rw r > 0 \<and> rh r > 0"

definition contentOf :: "window \<Rightarrow> rect" where
  "contentOf w = content_of (w_state w) (w_outer w) (w_insets w)"

definition zero_rect :: rect where
  "zero_rect = \<lparr>rx = 0, ry = 0, rw = 0, rh = 0\<rparr>"

definition sendInitialConfigure :: "wm_env \<Rightarrow> nat \<Rightarrow> manager \<Rightarrow> manager \<times> wm_effect list" where
  "sendInitialConfigure e i m =
    (case window_at (mg_windows m) i of
       None \<Rightarrow> (m, [])
     | Some w \<Rightarrow>
         if w_pendingInitialCommit w \<and> \<not> w_pendingSizeConfigure w \<and> we_configure e
         then then_also (configure e i zero_rect m) (\<lambda>m'. (edit i (\<lambda>v. v\<lparr>w_pendingSizeConfigure := True\<rparr>) m', []))
         else (m, []))"

text \<open>The real size, owed since the first configure: \<open>pendingSizeConfigure\<close> is cleared and the content rect is sent.\<close>

definition send_owed_size :: "wm_env \<Rightarrow> window \<Rightarrow> manager \<Rightarrow> manager \<times> wm_effect list" where
  "send_owed_size e w m =
    (if w_pendingSizeConfigure w \<and> we_configure e \<and> sized (w_outer w)
     then configure e (w_id w) (contentOf w) (edit (w_id w) (\<lambda>v. v\<lparr>w_pendingSizeConfigure := False\<rparr>) m)
     else (m, []))"

fun engage_all :: "wm_env \<Rightarrow> nat \<Rightarrow> string list \<Rightarrow> wm \<Rightarrow> wm \<times> wm_effect list" where
  "engage_all e i [] s = (s, [])"
| "engage_all e i (k # ks) s =
     (let (s', eff) = engageContentGate e i k s; (s'', eff') = engage_all e i ks s' in (s'', eff @ eff'))"

definition run_before_map :: "wm_env \<Rightarrow> window \<Rightarrow> manager \<Rightarrow> manager \<times> wm_effect list" where
  "run_before_map e w m =
    (case (w_mirrorOf w, we_beforeMap e) of
       (None, Some keys) \<Rightarrow> then_also (m, [BeforeMap (w_id w)]) (on_wm (engage_all e (w_id w) keys))
     | _ \<Rightarrow> (m, []))"

definition drop_holds :: "nat \<Rightarrow> manager \<Rightarrow> manager" where
  "drop_holds i m =
    edit i (\<lambda>v. v\<lparr>w_gates := removeAll ''opening-pending-layout'' (removeAll ''opening-ack'' (w_gates v))\<rparr>) m"

definition mapOpenedWindow :: "wm_env \<Rightarrow> nat \<Rightarrow> manager \<Rightarrow> manager \<times> wm_effect list" where
  "mapOpenedWindow e i m =
    (case window_at (mg_windows m) i of
       None \<Rightarrow> (m, [])
     | Some w \<Rightarrow>
         (let m1 = (edit i (\<lambda>v. v\<lparr>w_awaitingMapAck := False\<rparr>) m)\<lparr>mg_backstops := removeAll i (mg_backstops m)\<rparr>
          in then_also (then_also (run_before_map e w m1) (\<lambda>m2. on_wm (pushStack e) (drop_holds i m2)))
               (\<lambda>m3. (m3, if wn_modal (w_state w) then tetherFocusOnModal e w (mg_windows m3) else []))))"

definition add_gate :: "nat \<Rightarrow> string \<Rightarrow> manager \<Rightarrow> manager" where
  "add_gate i k m = edit i (\<lambda>v. v\<lparr>w_gates := oset_add k (w_gates v)\<rparr>) m"

definition must_wait :: "wm_env \<Rightarrow> window \<Rightarrow> manager \<Rightarrow> bool" where
  "must_wait e w m \<longleftrightarrow> we_beforeMap e \<noteq> None \<and> we_animation e \<and> w_mirrorOf w = None \<and>
     (case oget (mg_serials m) (w_id w) of None \<Rightarrow> False | Some n \<Rightarrow> w_lastAckedSerial w < n)"

definition openWindow :: "wm_env \<Rightarrow> nat \<Rightarrow> manager \<Rightarrow> manager \<times> wm_effect list" where
  "openWindow e i m =
    (case window_at (mg_windows m) i of
       None \<Rightarrow> (m, [])
     | Some w \<Rightarrow>
         then_also (then_also (m, [SetSurfaceLayout i (w_rect w)]) (send_owed_size e w)) (\<lambda>m1.
           if must_wait e w m1
           then ((edit i (\<lambda>v. v\<lparr>w_awaitingMapAck := True\<rparr>) (add_gate i ''opening-ack'' m1))
                   \<lparr>mg_backstops := oset_add i (mg_backstops m1)\<rparr>, [])
           else mapOpenedWindow e i m1))"

text \<open>The timer of the wait, and a commit that acknowledges a configure.\<close>

definition backstop :: "wm_env \<Rightarrow> nat \<Rightarrow> manager \<Rightarrow> manager \<times> wm_effect list" where
  "backstop e i m =
    (if i \<notin> set (mg_backstops m) then (m, [])
     else (let m1 = m\<lparr>mg_backstops := removeAll i (mg_backstops m)\<rparr>
           in case window_at (mg_windows m1) i of
                None \<Rightarrow> (m1, [])
              | Some w \<Rightarrow> if w_awaitingMapAck w then mapOpenedWindow e i m1 else (m1, [])))"

definition notifyToplevelCommit :: "wm_env \<Rightarrow> nat \<Rightarrow> int option \<Rightarrow> manager \<Rightarrow> manager \<times> wm_effect list" where
  "notifyToplevelCommit e i acked m =
    (case (window_at (mg_windows m) i, acked) of
       (Some w, Some n) \<Rightarrow>
         (let m1 = edit i (\<lambda>v. v\<lparr>w_lastAckedSerial := max (w_lastAckedSerial v) n\<rparr>) m
          in if w_awaitingMapAck w \<and> (case oget (mg_serials m1) i of None \<Rightarrow> False | Some want \<Rightarrow> want \<le> n)
             then mapOpenedWindow e i m1 else (m1, []))
     | _ \<Rightarrow> (m, []))"

text \<open>The continuation of the first content, once the layout has settled.\<close>

definition runOpeningAfterLayoutSettles :: "wm_env \<Rightarrow> nat \<Rightarrow> manager \<Rightarrow> manager \<times> wm_effect list" where
  "runOpeningAfterLayoutSettles e i m = openWindow e i m"

section \<open>First content\<close>

definition fixed_axes :: "window_state \<Rightarrow> number \<times> number \<times> number \<times> number" where
  "fixed_axes st = (let z = (\<lambda>s. case s of None \<Rightarrow> (0, 0) | Some p \<Rightarrow> p)
     in (fst (z (wn_minSize st)), snd (z (wn_minSize st)), fst (z (wn_maxSize st)), snd (z (wn_maxSize st))))"

definition floats_by_default :: "window \<Rightarrow> bool" where
  "floats_by_default w =
    (let (minW, minH, maxW, maxH) = fixed_axes (w_state w);
         fixedSize = minW \<noteq> 0 \<and> minH \<noteq> 0 \<and> (minW = maxW \<or> minH = maxH)
     in wn_tiling (w_state w) = Managed \<and> wn_sizeMode (w_state w) = No_size_mode \<and>
        (wn_parent (w_state w) \<noteq> None \<or> fixedSize \<or> w_floatByType w))"

definition clampAxis :: "number \<Rightarrow> number \<Rightarrow> number \<Rightarrow> number" where
  "clampAxis v lo hi = (let r = (if lo > 0 then max v lo else v) in if hi > 0 then min r hi else r)"

definition natural_size :: "number \<Rightarrow> number \<Rightarrow> number \<Rightarrow> number \<Rightarrow> number" where
  "natural_size c lo hi dflt =
    (if c > 0 then clampAxis c lo hi else if lo \<noteq> 0 \<and> lo = hi then lo else if lo \<noteq> 0 then lo else dflt)"

definition primaryOutputId :: "wm_env \<Rightarrow> nat" where
  "primaryOutputId e = Min (set (okeys (we_outputs e)))"

definition resolveParentOutputId :: "wm_env \<Rightarrow> number option \<Rightarrow> nat option" where
  "resolveParentOutputId e p =
    (case (p, we_content e) of
       (Some n, Some c) \<Rightarrow> map_option fst (find (\<lambda>(out, ids). n \<in> of_nat ` set ids) c)
     | _ \<Rightarrow> None)"

definition viewportOf :: "wm_env \<Rightarrow> nat \<Rightarrow> rect option" where
  "viewportOf e out = (case we_views e out of Some r \<Rightarrow> Some r | None \<Rightarrow> oget (we_outputs e) out)"

definition centered :: "wm_env \<Rightarrow> window \<Rightarrow> size2 option \<Rightarrow> rect" where
  "centered e w contentSize =
    (let (minW, minH, maxW, maxH) = fixed_axes (w_state w);
         (cw, ch) = (case contentSize of None \<Rightarrow> (0, 0) | Some p \<Rightarrow> p);
         band = (case w_insets w of None \<Rightarrow> (0, 0) | Some i \<Rightarrow> (in_left i + in_right i, in_top i + in_bottom i));
         outerW = natural_size cw minW maxW 800 + fst band;
         outerH = natural_size ch minH maxH 600 + snd band;
         target = (case resolveParentOutputId e (wn_parent (w_state w)) of Some out \<Rightarrow> out | None \<Rightarrow> primaryOutputId e);
         view = (case viewportOf e target of Some r \<Rightarrow> r | None \<Rightarrow> \<lparr>rx = 0, ry = 0, rw = outerW, rh = outerH\<rparr>)
     in \<lparr>rx = rx view + of_int (max 0 (js_round ((rw view - outerW) / 2))),
         ry = ry view + of_int (max 0 (js_round ((rh view - outerH) / 2))), rw = outerW, rh = outerH\<rparr>)"

definition promote_dialog :: "window \<Rightarrow> window" where
  "promote_dialog w = (if floats_by_default w then w\<lparr>w_state := (w_state w)\<lparr>wn_tiling := Floating\<rparr>\<rparr> else w)"

definition needs_rect :: "window \<Rightarrow> bool" where
  "needs_rect w \<longleftrightarrow> wn_tiling (w_state w) = Floating \<and> wn_sizeMode (w_state w) = No_size_mode \<and> w_floatingRect w = None"

definition take_content :: "wm_env \<Rightarrow> size2 option \<Rightarrow> window \<Rightarrow> window" where
  "take_content e contentSize w =
    (let v = promote_dialog (w\<lparr>w_content := True\<rparr>)
     in if needs_rect v then v\<lparr>w_floatingRect := Some (centered e v contentSize)\<rparr> else v)"

definition windowHasContent :: "wm_env \<Rightarrow> nat \<Rightarrow> size2 option \<Rightarrow> manager \<Rightarrow> (manager \<times> wm_effect list) option" where
  "windowHasContent e i contentSize m =
    (case window_at (mg_windows m) i of
       None \<Rightarrow> Some (m, [])
     | Some w \<Rightarrow>
         if w_content w then Some (m, [])
         else (let promoted = floats_by_default w;
                   floating_sized = needs_rect (promote_dialog w);
                   eff = (if promoted \<or> floating_sized then [Schedule ''state-changed''] else [])
               in map_option (\<lambda>s.
                    if (sized (w_outer w) \<and> \<not> promoted \<and> \<not> floating_sized) \<or> we_beforeMap e = None
                    then then_also (m\<lparr>mg_wm := s\<rparr>, eff) (openWindow e i)
                    else (add_gate i ''opening-pending-layout'' (m\<lparr>mg_wm := s\<rparr>), eff))
                  (assignZForMap (mg_wm (edit i (take_content e contentSize) m)) i)))"

section \<open>Geometry\<close>

definition granted :: "insets \<Rightarrow> insets" where
  "granted i = \<lparr>in_top = max 0 (in_top i), in_right = max 0 (in_right i), in_bottom = max 0 (in_bottom i),
     in_left = max 0 (in_left i)\<rparr>"

definition inset_window :: "insets \<Rightarrow> window \<Rightarrow> window" where
  "inset_window i w =
    (let g = granted i; prev = contentOf w;
         grown = (w_outer w)\<lparr>rw := rw prev + (in_left g + in_right g), rh := rh prev + (in_top g + in_bottom g)\<rparr>;
         v = (if wn_tiling (w_state w) = Floating \<and> sized (w_outer w)
              then w\<lparr>w_insets := Some g, w_outer := grown,
                     w_floatingRect := map_option (\<lambda>r. r\<lparr>rw := rw grown, rh := rh grown\<rparr>) (w_floatingRect w)\<rparr>
              else w\<lparr>w_insets := Some g\<rparr>)
     in v\<lparr>w_rect := contentOf v\<rparr>)"

definition setInsets :: "wm_env \<Rightarrow> nat \<Rightarrow> insets \<Rightarrow> manager \<Rightarrow> manager \<times> wm_effect list" where
  "setInsets e i ins m =
    (case window_at (mg_windows m) i of
       None \<Rightarrow> (m, [])
     | Some w \<Rightarrow>
         (let v = inset_window ins w; prev = contentOf w; now = contentOf v
          in then_also (edit i (inset_window ins) m, if w_content v then [SetSurfaceLayout i now] else []) (\<lambda>m1.
               if we_configure e \<and> sized (w_outer v) \<and> (rw now \<noteq> rw prev \<or> rh now \<noteq> rh prev)
               then configure e i now m1 else (m1, []))))"

text \<open>Geometry the layout decided, applied at once or when its transaction lets it through.\<close>

definition pushGeometry :: "wm_env \<Rightarrow> nat \<Rightarrow> rect \<Rightarrow> rect \<Rightarrow> manager \<Rightarrow> manager \<times> wm_effect list" where
  "pushGeometry e i outer content m =
    (case window_at (mg_windows m) i of
       None \<Rightarrow> (m, [])
     | Some w \<Rightarrow>
         (let prev = w_rect w
          in (edit i (\<lambda>v. v\<lparr>w_outer := outer, w_rect := content\<rparr>) m,
              (if w_content w then [SetSurfaceLayout i content] else []) @
              (if we_configure e \<and> w_content w \<and> sized prev \<and> (rx prev \<noteq> rx content \<or> ry prev \<noteq> ry content)
                  \<and> rw prev = rw content \<and> rh prev = rh content
               then [ConfigureMove i content] else []))))"

definition setFloatingRect :: "nat \<Rightarrow> rect \<Rightarrow> manager \<Rightarrow> manager \<times> wm_effect list" where
  "setFloatingRect i r m =
    (if has_window (mg_windows m) i
     then (edit i (\<lambda>v. v\<lparr>w_floatingRect := Some r\<rparr>) m, [Schedule ''state-changed'']) else (m, []))"

section \<open>Proposals\<close>

definition has_job :: "nat \<Rightarrow> manager \<Rightarrow> bool" where
  "has_job i m \<longleftrightarrow> jobs_of m i \<noteq> []"

definition names_constraints :: "proposal \<Rightarrow> bool" where
  "names_constraints p \<longleftrightarrow> pr_minSize p \<noteq> None \<or> pr_maxSize p \<noteq> None"

text \<open>What a proposal changes at once. A parameter \<open>p\<close> with neither constraint is one without the field.\<close>

definition stamp_window :: "proposal \<Rightarrow> window \<Rightarrow> window" where
  "stamp_window p w =
    (let s1 = (if w_pendingInitialCommit w then stamp_decisions (w_state w) p else w_state w)
     in w\<lparr>w_state := stamp_constraints s1 p,
          w_floatByType := slot (pr_floatByType p) (w_floatByType w)\<rparr>)"

text \<open>The announced edge of the stamp leaves the constraints out, which are stamped after it.\<close>

definition stamped :: "proposal \<Rightarrow> window \<Rightarrow> window_state" where
  "stamped p w = (if w_pendingInitialCommit w then stamp_decisions (w_state w) p else w_state w)"

definition propose_one :: "wm_env \<Rightarrow> nat \<Rightarrow> proposal \<Rightarrow> string \<Rightarrow> manager \<Rightarrow> manager \<times> wm_effect list" where
  "propose_one e i p reason m =
    (case window_at (mg_windows m) i of
       None \<Rightarrow> (m, [])
     | Some w \<Rightarrow>
         (let now = stamped p w;
              changed = diffState (w_state w) now;
              base = (if names_constraints p then Some (wn_minSize now, wn_maxSize now) else None)
          in (set_jobs i (jobs_of m i @ [(Proposal_job p reason base, Waiting)]) (edit i (stamp_window p) m),
              if changed \<noteq> [] \<and> we_bus e then [Committed i reason (w_state w) now changed] else [])))"

definition uncover :: proposal where
  "uncover = no_proposal\<lparr>pr_sizeMode := Some No_size_mode\<rparr>"

fun demote_each :: "wm_env \<Rightarrow> nat list \<Rightarrow> manager \<Rightarrow> manager \<times> wm_effect list" where
  "demote_each e [] m = (m, [])"
| "demote_each e (i # is) m = then_also (propose_one e i uncover ''core'' m) (demote_each e is)"

definition covering_peers :: "wm_env \<Rightarrow> nat \<Rightarrow> window list \<Rightarrow> nat list" where
  "covering_peers e i ws =
    (if outputOf (we_content e) i = None \<and> we_content e \<noteq> None then []
     else map w_id (filter (\<lambda>w. w_id w \<noteq> i \<and> coversIsland (wn_sizeMode (w_state w)) \<and>
       outputOf (we_content e) (w_id w) = outputOf (we_content e) i) ws))"

definition demoteCoveringPeers :: "wm_env \<Rightarrow> nat \<Rightarrow> manager \<Rightarrow> manager \<times> wm_effect list" where
  "demoteCoveringPeers e i m = demote_each e (covering_peers e i (mg_windows m)) m"

definition starts_covering :: "window_state \<Rightarrow> window_state \<Rightarrow> bool" where
  "starts_covering prev now \<longleftrightarrow> coversIsland (wn_sizeMode now) \<and> \<not> coversIsland (wn_sizeMode prev)"

text \<open>
  The demotions of a stamp come before the proposal's own place in its window's queue; they are other windows'
  proposals, so the order does not show.
\<close>

definition propose :: "wm_env \<Rightarrow> nat \<Rightarrow> proposal \<Rightarrow> string \<Rightarrow> manager \<Rightarrow> manager \<times> wm_effect list" where
  "propose e i p reason m =
    (case window_at (mg_windows m) i of
       None \<Rightarrow> (m, [])
     | Some w \<Rightarrow>
         then_also (propose_one e i p reason m) (\<lambda>m1.
           if w_pendingInitialCommit w \<and> starts_covering (w_state w) (stamped p w) then demoteCoveringPeers e i m1
           else (m1, [])))"

definition markInitialCommitComplete :: "nat \<Rightarrow> bool \<Rightarrow> manager \<Rightarrow> manager" where
  "markInitialCommitComplete i xwayland m =
    (case window_at (mg_windows m) i of
       None \<Rightarrow> m
     | Some w \<Rightarrow>
         if w_pendingInitialCommit w then set_jobs i (jobs_of m i @ [(Initial_job xwayland, Waiting)]) m else m)"

text \<open>The call at the head of the queue runs up to its emit.\<close>

definition snapshot_of :: "job \<Rightarrow> window_state \<Rightarrow> window_state" where
  "snapshot_of j s = (case j of Proposal_job p reason (Some (mn, mx)) \<Rightarrow> s\<lparr>wn_minSize := mn, wn_maxSize := mx\<rparr> | _ \<Rightarrow> s)"

definition begin_job :: "nat \<Rightarrow> manager \<Rightarrow> manager" where
  "begin_job i m =
    (case (window_at (mg_windows m) i, jobs_of m i) of
       (Some w, (j, Waiting) # q) \<Rightarrow>
         (case j of
            Initial_job _ \<Rightarrow> if w_pendingInitialCommit w then set_jobs i ((j, Shown (w_state w)) # q) m else set_jobs i q m
          | _ \<Rightarrow> set_jobs i ((j, Shown (snapshot_of j (w_state w))) # q) m)
     | _ \<Rightarrow> m)"

definition geometry_field :: "state_field \<Rightarrow> bool" where
  "geometry_field f \<longleftrightarrow> f \<in> {F_tiling, F_sizeMode, F_visible, F_lifted, F_layoutMode, F_layoutData, F_constraints}"

definition stacking_field :: "state_field \<Rightarrow> bool" where
  "stacking_field f \<longleftrightarrow> f \<in> {F_parent, F_modal}"

definition adopt_state :: "window_state \<Rightarrow> window_state \<Rightarrow> window \<Rightarrow> window" where
  "adopt_state current cand w =
    (let v = (if wn_tiling current \<noteq> Floating \<and> wn_tiling cand = Floating \<and> w_floatingRect w = None
              then w\<lparr>w_floatingRect := Some (w_outer w)\<rparr> else w)
     in v\<lparr>w_state := cand\<rparr>)"

definition restacked :: "wm_env \<Rightarrow> nat \<Rightarrow> state_field list \<Rightarrow> manager \<Rightarrow> (manager \<times> wm_effect list) option" where
  "restacked e i changed m =
    (case window_at (mg_windows m) i of
       None \<Rightarrow> Some (m, [])
     | Some w \<Rightarrow>
         if w_content w \<and> (F_tiling \<in> set changed \<or> list_ex stacking_field changed)
         then on_wm_opt (\<lambda>s. map_option (pushStack e) (assignZForMap s i)) m
         else if w_content w \<and> (F_sizeMode \<in> set changed \<or> F_visible \<in> set changed)
         then Some (on_wm (pushStack e) m)
         else Some (m, []))"

definition modal_turn :: "wm_env \<Rightarrow> nat \<Rightarrow> window_state \<Rightarrow> window_state \<Rightarrow> manager \<Rightarrow> wm_effect list" where
  "modal_turn e i current cand m =
    (case window_at (mg_windows m) i of
       None \<Rightarrow> []
     | Some w \<Rightarrow>
         if wn_modal current = wn_modal cand then []
         else if wn_modal cand then tetherFocusOnModal e w (mg_windows m)
         else untetherFocusOnUnmodal e w (mg_windows m))"

definition finish_proposal ::
  "wm_env \<Rightarrow> nat \<Rightarrow> string \<Rightarrow> window_state \<Rightarrow> window_state \<Rightarrow> manager \<Rightarrow> (manager \<times> wm_effect list) option" where
  "finish_proposal e i reason current cand m =
    (let changed = diffState current cand;
         eff = (if we_bus e then [Committed i reason current cand changed] else []) @
               (if list_ex geometry_field changed then [Schedule ''state-changed''] else [])
     in if changed = [] then Some (m, [])
        else map_option (\<lambda>(m1, eff1).
               then_also (m1, eff @ eff1 @ modal_turn e i current cand m1) (\<lambda>m2.
                 if starts_covering current cand then demoteCoveringPeers e i m2 else (m2, [])))
             (restacked e i changed (edit i (adopt_state current cand) m)))"

definition finish_initial ::
  "wm_env \<Rightarrow> nat \<Rightarrow> bool \<Rightarrow> window_state \<Rightarrow> js_value option \<Rightarrow> window \<Rightarrow> manager \<Rightarrow> manager \<times> wm_effect list" where
  "finish_initial e i xwayland shown answer w m =
    (let previous = w_state w; final = rule_state shown previous answer; changed = diffState previous final;
         r1 = (edit i (\<lambda>v. v\<lparr>w_state := final\<rparr>) m,
               if changed \<noteq> [] \<and> we_bus e then [Committed i ''window-rule'' previous final changed] else []);
         r2 = then_also r1 (\<lambda>m1. if starts_covering previous final then demoteCoveringPeers e i m1 else (m1, []));
         r3 = then_also r2 (\<lambda>m2. (edit i (\<lambda>v. v\<lparr>w_pendingInitialCommit := False\<rparr>) m2, []))
     in then_also (then_also r3 (\<lambda>m3.
          if we_configure e \<and> \<not> xwayland \<and> \<not> w_pendingSizeConfigure w
          then then_also (configure e i zero_rect m3) (\<lambda>m4. (edit i (\<lambda>v. v\<lparr>w_pendingSizeConfigure := True\<rparr>) m4, []))
          else (m3, []))) (\<lambda>m5. (m5, if list_ex geometry_field changed then [Schedule ''state-changed''] else [])))"

definition phase_of :: "window \<Rightarrow> phase" where
  "phase_of w = (if w_pendingInitialCommit w then Pre_content else Post_content)"

definition answer_job :: "wm_env \<Rightarrow> nat \<Rightarrow> js_value option \<Rightarrow> manager \<Rightarrow> (manager \<times> wm_effect list) option" where
  "answer_job e i answer m =
    (case (window_at (mg_windows m) i, jobs_of m i) of
       (Some w, (Proposal_job p reason base, Shown current) # q) \<Rightarrow>
         finish_proposal e i reason current (decide current p answer (phase_of w)) (set_jobs i q m)
     | (Some w, (Initial_job xwayland, Shown shown) # q) \<Rightarrow>
         Some (finish_initial e i xwayland shown answer w (set_jobs i ((Initial_job xwayland, Settling) # q) m))
     | _ \<Rightarrow> Some (m, []))"

definition settle_job :: "wm_env \<Rightarrow> nat \<Rightarrow> manager \<Rightarrow> manager \<times> wm_effect list" where
  "settle_job e i m =
    (case (window_at (mg_windows m) i, jobs_of m i) of
       (Some w, (Initial_job xwayland, Settling) # q) \<Rightarrow>
         (if xwayland then (set_jobs i q m, []) else send_owed_size e w (set_jobs i q m))
     | _ \<Rightarrow> (m, []))"

section \<open>Sessions\<close>

datatype mg_op =
    Add_window nat nat bool "nat option"
  | Unmap_window nat
  | Initial_configure nat
  | Initial_complete nat bool
  | Has_content nat "size2 option"
  | Opening_settled nat
  | Toplevel_commit nat "int option"
  | Backstop nat
  | Set_insets nat insets
  | Push_geometry nat rect rect
  | Set_floating_rect nat rect
  | Propose nat proposal string
  | Begin_job nat
  | Answer_job nat "js_value option"
  | Settle_job nat
  | Engage_gate nat string
  | Release_gate nat string
  | Raise nat
  | Raise_all_floating
  | Reorder nat restack_op
  | Keyboard_focus "nat option"
  | Refresh_tiers

fun mg_step :: "wm_env \<Rightarrow> mg_op \<Rightarrow> manager \<Rightarrow> (manager \<times> wm_effect list) option" where
  "mg_step e (Add_window i res deferred mirror) m = Some (addWindow i res deferred mirror m)"
| "mg_step e (Unmap_window i) m = Some (unmapWindow e i m)"
| "mg_step e (Initial_configure i) m = Some (sendInitialConfigure e i m)"
| "mg_step e (Initial_complete i x) m = Some (markInitialCommitComplete i x m, [])"
| "mg_step e (Has_content i z) m = windowHasContent e i z m"
| "mg_step e (Opening_settled i) m = Some (runOpeningAfterLayoutSettles e i m)"
| "mg_step e (Toplevel_commit i n) m = Some (notifyToplevelCommit e i n m)"
| "mg_step e (Backstop i) m = Some (backstop e i m)"
| "mg_step e (Set_insets i ins) m = Some (setInsets e i ins m)"
| "mg_step e (Push_geometry i out cont) m = Some (pushGeometry e i out cont m)"
| "mg_step e (Set_floating_rect i r) m = Some (setFloatingRect i r m)"
| "mg_step e (Propose i p reason) m = Some (propose e i p reason m)"
| "mg_step e (Begin_job i) m = Some (begin_job i m, [])"
| "mg_step e (Answer_job i v) m = answer_job e i v m"
| "mg_step e (Settle_job i) m = Some (settle_job e i m)"
| "mg_step e (Engage_gate i k) m = Some (on_wm (engageContentGate e i k) m)"
| "mg_step e (Release_gate i k) m = Some (on_wm (releaseContentGate e i k) m)"
| "mg_step e (Raise i) m = on_wm_opt (raiseWindow e i) m"
| "mg_step e Raise_all_floating m = on_wm_opt (raiseAllFloating e) m"
| "mg_step e (Reorder i op) m = Some (on_wm (\<lambda>s. let (s', _, eff) = reorder_windows e i op s in (s', eff)) m)"
| "mg_step e (Keyboard_focus i) m = Some (on_wm (setKeyboardFocus e i) m)"
| "mg_step e Refresh_tiers m = Some (on_wm (refreshStackTiers e) m)"

text \<open>An operation that does not return answers \<open>None\<close>.\<close>

definition mg_do :: "manager \<Rightarrow> wm_env \<times> mg_op \<Rightarrow> manager \<times> wm_effect list option" where
  "mg_do m ev = (case mg_step (fst ev) (snd ev) m of None \<Rightarrow> (m, None) | Some (m', eff) \<Rightarrow> (m', Some eff))"

end
