(* ===== verification/Window_Order.thy ===== *)
theory Window_Order
  imports Window_Manager
begin

text \<open>
  What holds of the stack through the sessions of the window manager in which no proposal and no interceptor makes a
  window its own ancestor: dialogs stay above the windows they belong to, and every operation returns.
\<close>

section \<open>What the order depends on\<close>

definition zview :: "window \<Rightarrow> nat \<times> int \<times> bool \<times> number option \<times> tiling \<times> bool" where
  "zview w = (w_id w, w_z w, w_content w, parent_id w, wn_tiling (w_state w), wn_modal (w_state w))"

lemma zview_ids: "map zview ws = map zview vs \<Longrightarrow> ids ws = ids vs"
  unfolding ids_def by (drule arg_cong [of _ _ "map fst"]) (simp add: zview_def comp_def)

lemma zview_window_at:
  "map zview ws = map zview vs \<Longrightarrow> window_at ws i = Some w \<Longrightarrow> \<exists>v. window_at vs i = Some v \<and> zview v = zview w"
proof (induction ws arbitrary: vs)
  case (Cons w' ws)
  then obtain v' vs' where v: "vs = v' # vs'" "zview w' = zview v'" "map zview ws = map zview vs'"
    by (cases vs) auto
  then have "w_id w' = w_id v'" by (simp add: zview_def)
  with Cons v show ?case by (auto split: if_splits)
qed simp

lemma z_of_Cons: "z_of (w # ws) i = (if w_id w = i then w_z w else z_of ws i)"
  by (simp add: z_of_def)

lemma zview_z: "map zview ws = map zview vs \<Longrightarrow> z_of ws i = z_of vs i"
proof (induction ws arbitrary: vs)
  case (Cons w ws)
  then obtain v vs' where v: "vs = v # vs'" "zview w = zview v" "map zview ws = map zview vs'"
    by (cases vs) auto
  then have "w_id w = w_id v" "w_z w = w_z v" by (simp_all add: zview_def)
  with Cons v show ?case by (simp add: z_of_Cons)
qed simp

lemma zview_tops: "map zview ws = map zview vs \<Longrightarrow> tops ws c p = tops vs c p"
proof -
  have "tops vs' c p" if v: "map zview ws' = map zview vs'" and t: "tops ws' c p" for ws' vs'
  proof -
    obtain child par where "window_at ws' c = Some child" "window_at ws' p = Some par" "parent_id child = Some (of_nat p)"
      "raisesWithParent child par" "aboveTile child" "w_content child" "w_content par"
      using t by (auto simp: tops_def)
    moreover from this obtain child' par' where "window_at vs' c = Some child'" "window_at vs' p = Some par'"
      "zview child' = zview child" "zview par' = zview par" using zview_window_at [OF v] by metis
    ultimately show ?thesis by (auto simp: tops_def raisesWithParent_def aboveTile_def zview_def)
  qed
  then show "map zview ws = map zview vs \<Longrightarrow> tops ws c p = tops vs c p" by metis
qed

lemma zview_stacked: "map zview ws = map zview vs \<Longrightarrow> stacked_but Q ws = stacked_but Q vs"
  unfolding stacked_but_def using zview_tops zview_z by metis

lemma kin_Cons: "kin (w # ws) = {(c, p). c = w_id w \<and> parent_id w = Some (of_nat p)} \<union> kin ws"
  by (auto simp: kin_iff)

lemma zview_kin: "map zview ws = map zview vs \<Longrightarrow> kin ws = kin vs"
proof (induction ws arbitrary: vs)
  case (Cons w ws)
  then obtain v vs' where v: "vs = v # vs'" "zview w = zview v" "map zview ws = map zview vs'"
    by (cases vs) auto
  then have "w_id w = w_id v" "parent_id w = parent_id v" by (simp_all add: zview_def)
  with Cons.IH v show ?case by (simp add: kin_Cons)
qed simp

lemma zview_upd: "(\<And>w. zview (f w) = zview w) \<Longrightarrow> map zview (upd_window i f ws) = map zview ws"
  by (simp add: upd_window_def)

section \<open>The invariant and its edits\<close>

definition order_ok :: "window list \<Rightarrow> bool" where
  "order_ok ws \<longleftrightarrow> distinct (ids ws) \<and> acyclic (kin ws) \<and> stacked ws \<and>
     (\<forall>w \<in> set ws. w_content w \<longrightarrow> \<not> w_pendingInitialCommit w)"

text \<open>What the invariant reads of a window.\<close>

definition oview :: "window \<Rightarrow> (nat \<times> int \<times> bool \<times> number option \<times> tiling \<times> bool) \<times> bool \<times> bool" where
  "oview w = (zview w, w_pendingInitialCommit w, wn_visible (w_state w))"

lemma oview_zview: "map oview ws = map oview vs \<Longrightarrow> map zview ws = map zview vs"
  by (drule arg_cong [of _ _ "map fst"]) (simp add: oview_def comp_def)

lemma oview_ok: "map oview ws = map oview vs \<Longrightarrow> order_ok ws = order_ok vs"
proof -
  assume v: "map oview ws = map oview vs"
  have "(\<forall>w \<in> set us. w_content w \<longrightarrow> \<not> w_pendingInitialCommit w) \<longleftrightarrow>
      (\<forall>v \<in> set (map oview us). fst (snd (snd (fst v))) \<longrightarrow> \<not> fst (snd v))" for us
    by (simp add: oview_def zview_def)
  with v zview_ids zview_kin zview_stacked oview_zview [OF v] show ?thesis unfolding order_ok_def by metis
qed

lemma ids_upd [simp]: "(\<And>w. w_id (f w) = w_id w) \<Longrightarrow> ids (upd_window i f ws) = ids ws"
  by (simp add: ids_def upd_window_def)

text \<open>Pairs that do not involve the window \<open>i\<close>.\<close>

definition loose :: "nat \<Rightarrow> window list \<Rightarrow> bool" where
  "loose i ws \<longleftrightarrow> (\<forall>c p. tops ws c p \<and> c \<noteq> i \<and> p \<noteq> i \<longrightarrow> z_of ws p < z_of ws c)"

lemma tops_upd:
  assumes "\<And>w. w_id (f w) = w_id w" "c \<noteq> i" "p \<noteq> i"
  shows "tops (upd_window i f ws) c p = tops ws c p"
  using assms by (simp add: tops_def window_at_upd)

lemma z_of_upd_other: "(\<And>w. w_id (f w) = w_id w) \<Longrightarrow> j \<noteq> i \<Longrightarrow> z_of (upd_window i f ws) j = z_of ws j"
  by (simp add: z_of_def window_at_upd)

lemma loose_edit: "(\<And>w. w_id (f w) = w_id w) \<Longrightarrow> stacked ws \<Longrightarrow> loose i (upd_window i f ws)"
  by (auto simp: loose_def stacked_but_def tops_upd z_of_upd_other)

lemma stacked_contentless:
  assumes "\<And>w. w_id (f w) = w_id w" "stacked ws"
    "\<And>w. window_at ws i = Some w \<Longrightarrow> \<not> w_content (f w)"
  shows "stacked (upd_window i f ws)"
proof -
  have "c \<noteq> i \<and> p \<noteq> i" if "tops (upd_window i f ws) c p" for c p
    using that assms by (auto simp: tops_def window_at_upd)
  then show ?thesis using loose_edit [OF assms(1,2), of i] by (fastforce simp: loose_def stacked_but_def)
qed

lemma assign_loose:
  assumes "acyclic (kin (wm_windows s))" "loose i (wm_windows s)"
  shows "\<exists>vs. assignZForMap s i = Some (s\<lparr>wm_windows := vs\<rparr>) \<and> same_shape (wm_windows s) vs \<and> stacked vs"
proof (cases "window_at (wm_windows s) i")
  case None
  have "\<not> tops (wm_windows s) c i" "\<not> tops (wm_windows s) i c" for c using None by (auto simp: tops_def)
  then have "stacked (wm_windows s)" using assms(2) by (auto simp: stacked_but_def loose_def)
  with None show ?thesis by (auto simp: assignZForMap_def intro!: exI [of _ "wm_windows s"])
next
  case (Some w)
  let ?us = "upd_window i (\<lambda>v. v\<lparr>w_z := assigned_z (wm_tiledZ s) (wm_windows s) w\<rparr>) (wm_windows s)"
  have shape: "same_shape (wm_windows s) ?us" by simp
  have tops: "tops ?us c p = tops (wm_windows s) c p" for c p using shape_tops [OF shape] by simp
  have "stacked_but {i} ?us"
    unfolding stacked_but_def tops
  proof (intro allI impI, elim conjE)
    fix c p assume t: "tops (wm_windows s) c p" and p: "p \<notin> {i}"
    show "z_of ?us p < z_of ?us c"
    proof (cases "c = i")
      case True
      with t p assigned_above_parent [OF _ Some, of p "wm_tiledZ s"] Some show ?thesis by simp
    next
      case False
      with t p assms(2) show ?thesis by (simp add: loose_def)
    qed
  qed
  moreover have "acyclic (kin ?us)" using assms(1) shape_kin [OF shape] by simp
  ultimately obtain vs where "raiseStackedDescendants ?us i = Some vs" "same_shape ?us vs" "stacked_but ({i} - {i}) vs"
    using raise_stacked by blast
  then show ?thesis using Some same_shape_trans [OF shape] by (auto simp: assignZForMap_def)
qed

lemma shape_ok:
  assumes "same_shape ws vs" "distinct (ids ws)" "acyclic (kin ws)" "stacked vs"
    "\<forall>w \<in> set ws. w_content w \<longrightarrow> \<not> w_pendingInitialCommit w"
  shows "order_ok vs"
proof -
  have "set (map (\<lambda>w. w\<lparr>w_z := 0\<rparr>) ws) = set (map (\<lambda>w. w\<lparr>w_z := 0\<rparr>) vs)"
    using assms(1) by (simp add: same_shape_def)
  then have "\<forall>v \<in> set vs. \<exists>w \<in> set ws. v\<lparr>w_z := 0\<rparr> = w\<lparr>w_z := 0\<rparr>" by (force simp: image_iff)
  then have "\<forall>w \<in> set vs. w_content w \<longrightarrow> \<not> w_pendingInitialCommit w"
    using assms(5) same_but_z(3,7) by metis
  with assms shape_ids [OF assms(1)] shape_kin [OF assms(1)] show ?thesis by (simp add: order_ok_def)
qed

section \<open>Pushing the stack\<close>

lemma stamp_tier_frame [simp]:
  "w_id (stamp_tier e s w) = w_id w" "w_state (stamp_tier e s w) = w_state w" "w_z (stamp_tier e s w) = w_z w"
  "w_content (stamp_tier e s w) = w_content w" "w_pendingInitialCommit (stamp_tier e s w) = w_pendingInitialCommit w"
  "w_gates (stamp_tier e s w) = w_gates w"
  by (simp_all add: stamp_tier_def)

lemma tiers_windows: "wm_windows (fst (updateStackTiers e s)) = map (stamp_tier e s) (wm_windows s)"
  by (simp add: updateStackTiers_def Let_def)

lemma push_windows: "wm_windows (fst (pushStack e s)) = map (stamp_tier e s) (wm_windows s)"
  by (simp add: pushStack_def Let_def tiers_windows [symmetric] split: prod.split)

lemma oview_stamp [simp]: "oview (stamp_tier e s w) = oview w"
  by (simp add: oview_def zview_def)

lemma tiers_oview [simp]:
  "map oview (wm_windows (fst (updateStackTiers e s))) = map oview (wm_windows s)"
  "map oview (wm_windows (fst (pushStack e s))) = map oview (wm_windows s)"
  by (simp_all add: tiers_windows push_windows comp_def)

section \<open>Operations that leave the order alone\<close>

definition ov :: "manager \<Rightarrow> ((nat \<times> int \<times> bool \<times> number option \<times> tiling \<times> bool) \<times> bool \<times> bool) list" where
  "ov m = map oview (mg_windows m)"

lemma and_then_fst [simp]: "fst (then_also r f) = fst (f (fst r))"
  by (simp add: then_also_def split: prod.split)

lemma and_then_snd [simp]: "snd (then_also r f) = snd r @ snd (f (fst r))"
  by (simp add: then_also_def split: prod.split)

lemma on_wm_fst [simp]: "fst (on_wm f m) = m\<lparr>mg_wm := fst (f (mg_wm m))\<rparr>"
  by (simp add: on_wm_def split: prod.split)

lemma on_wm_snd [simp]: "snd (on_wm f m) = snd (f (mg_wm m))"
  by (simp add: on_wm_def split: prod.split)

lemma ov_set_jobs [simp]: "ov (set_jobs i q m) = ov m"
  by (simp add: ov_def set_jobs_def)

lemma ov_updates [simp]:
  "ov (m\<lparr>mg_serials := x\<rparr>) = ov m" "ov (m\<lparr>mg_backstops := y\<rparr>) = ov m" "ov (m\<lparr>mg_jobs := q\<rparr>) = ov m"
  by (simp_all add: ov_def)

lemma mg_windows_edit: "mg_windows (edit i f m) = upd_window i f (mg_windows m)"
  by (simp add: edit_def set_windows_def)

lemma ov_edit: "(\<And>w. oview (f w) = oview w) \<Longrightarrow> ov (edit i f m) = ov m"
  by (simp add: ov_def mg_windows_edit upd_window_def)

lemma ov_edits [simp]:
  "ov (edit i (\<lambda>v. v\<lparr>w_awaitingMapAck := b\<rparr>) m) = ov m"
  "ov (edit i (\<lambda>v. v\<lparr>w_pendingSizeConfigure := b\<rparr>) m) = ov m"
  "ov (edit i (\<lambda>v. v\<lparr>w_gates := g v\<rparr>) m) = ov m"
  "ov (edit i (\<lambda>v. v\<lparr>w_lastAckedSerial := n v\<rparr>) m) = ov m"
  "ov (edit i (\<lambda>v. v\<lparr>w_outer := r, w_rect := q\<rparr>) m) = ov m"
  "ov (edit i (\<lambda>v. v\<lparr>w_floatingRect := fr\<rparr>) m) = ov m"
  by (rule ov_edit; simp add: oview_def zview_def)+

lemma ov_inset [simp]: "ov (edit i (inset_window ins) m) = ov m"
  by (rule ov_edit) (simp add: oview_def zview_def inset_window_def Let_def)

lemma ov_wm [simp]: "ov (m\<lparr>mg_wm := s\<rparr>) = map oview (wm_windows s)"
  by (simp add: ov_def)

lemma upd_gates [simp]: "map oview (upd_window i (\<lambda>v. v\<lparr>w_gates := g v\<rparr>) ws) = map oview ws"
  by (simp add: upd_window_def oview_def zview_def)

lemma engage_oview [simp]: "map oview (wm_windows (fst (engageContentGate e i k s))) = map oview (wm_windows s)"
  by (simp add: engageContentGate_def Let_def split: option.split)

lemma release_oview [simp]: "map oview (wm_windows (fst (releaseContentGate e i k s))) = map oview (wm_windows s)"
  by (simp add: releaseContentGate_def Let_def split: option.split)

lemma focus_cases:
  "setKeyboardFocus e i s = (s, []) \<or>
   (\<exists>s2. wm_windows s2 = wm_windows s \<and>
     setKeyboardFocus e i s =
       (let r = updateStackTiers e s2
        in if fst (snd r) then (fst (pushStack e (fst r)), snd (snd r) @ snd (pushStack e (fst r)))
           else (fst r, snd (snd r))))"
proof (cases "wm_focused s = i")
  case False
  let ?s1 = "s\<lparr>wm_focused := i\<rparr>"
  let ?s2 = "(case i of
                   None \<Rightarrow> ?s1
                 | Some f \<Rightarrow>
                     if has_window (wm_windows ?s1) f
                     then (case outputOf (we_content e) f of
                             None \<Rightarrow> ?s1
                           | Some out \<Rightarrow> ?s1\<lparr>wm_lastActive := oset out f (wm_lastActive ?s1)\<rparr>)
                     else ?s1)"
  have "wm_windows ?s2 = wm_windows s" by (simp split: option.split)
  moreover have "setKeyboardFocus e i s = (let r = updateStackTiers e ?s2
        in if fst (snd r) then (fst (pushStack e (fst r)), snd (snd r) @ snd (pushStack e (fst r)))
           else (fst r, snd (snd r)))"
    using False by (simp add: setKeyboardFocus_def Let_def split: prod.split)
  ultimately show ?thesis by blast
qed (simp add: setKeyboardFocus_def)

lemma focus_oview [simp]: "map oview (wm_windows (fst (setKeyboardFocus e i s))) = map oview (wm_windows s)"
  using focus_cases [of e i s] by (auto simp: Let_def tiers_windows push_windows comp_def)

lemma refresh_fst: "fst (refreshStackTiers e s) = fst (updateStackTiers e s)"
  by (simp add: refreshStackTiers_def Let_def split: prod.split)

lemma refresh_oview [simp]: "map oview (wm_windows (fst (refreshStackTiers e s))) = map oview (wm_windows s)"
  by (simp add: refresh_fst)

lemma engage_all_Cons:
  "engage_all e i (k # ks) s = (fst (engage_all e i ks (fst (engageContentGate e i k s))),
     snd (engageContentGate e i k s) @ snd (engage_all e i ks (fst (engageContentGate e i k s))))"
  by (simp split: prod.split)

lemma engage_all_oview [simp]: "map oview (wm_windows (fst (engage_all e i ks s))) = map oview (wm_windows s)"
  by (induction ks arbitrary: s) (simp_all add: engage_all_Cons del: engage_all.simps(2))

lemma ov_configure [simp]: "ov (fst (configure e i r m)) = ov m"
  by (simp add: configure_def split: option.split)

lemma ov_add_gate [simp]: "ov (add_gate i k m) = ov m"
  by (simp add: add_gate_def)

lemma ov_initial_configure [simp]: "ov (fst (sendInitialConfigure e i m)) = ov m"
  by (simp add: sendInitialConfigure_def split: option.split)

lemma ov_owed [simp]: "ov (fst (send_owed_size e w m)) = ov m"
  by (simp add: send_owed_size_def)

lemma ov_before_map [simp]: "ov (fst (run_before_map e w m)) = ov m"
  by (simp add: run_before_map_def ov_def split: option.split)

lemma ov_drop_holds [simp]: "ov (drop_holds i m) = ov m"
  by (simp add: drop_holds_def)

lemma ov_push [simp]: "ov (m\<lparr>mg_wm := fst (pushStack e (mg_wm m))\<rparr>) = ov m"
  by (simp add: ov_def push_windows comp_def)

lemma ov_mapOpened [simp]: "ov (fst (mapOpenedWindow e i m)) = ov m"
  by (simp add: mapOpenedWindow_def Let_def split: option.split del: ov_wm)

lemma ov_open [simp]: "ov (fst (openWindow e i m)) = ov m"
  by (simp add: openWindow_def split: option.split)

lemma ov_settled [simp]: "ov (fst (runOpeningAfterLayoutSettles e i m)) = ov m"
  by (simp add: runOpeningAfterLayoutSettles_def)

lemma ov_backstop [simp]: "ov (fst (backstop e i m)) = ov m"
  by (simp add: backstop_def Let_def split: option.split)

lemma ov_notify [simp]: "ov (fst (notifyToplevelCommit e i n m)) = ov m"
  by (simp add: notifyToplevelCommit_def Let_def split: option.split)

lemma ov_insets [simp]: "ov (fst (setInsets e i ins m)) = ov m"
  by (simp add: setInsets_def Let_def split: option.split)

lemma ov_geometry [simp]: "ov (fst (pushGeometry e i r q m)) = ov m" "ov (fst (setFloatingRect i fr m)) = ov m"
  by (simp_all add: pushGeometry_def setFloatingRect_def Let_def split: option.split)

lemma ov_jobs [simp]:
  "ov (begin_job i m) = ov m" "ov (markInitialCommitComplete i x m) = ov m" "ov (fst (settle_job e i m)) = ov m"
  by (simp_all add: begin_job_def markInitialCommitComplete_def settle_job_def
      split: option.split list.split prod.split job.split stage.split)

section \<open>The invariant\<close>

text \<open>A call in flight was shown the state that its window still has, apart from the fields no order depends on.\<close>

definition in_flight :: "manager \<Rightarrow> nat \<Rightarrow> window_state option" where
  "in_flight m i = (case jobs_of m i of (Proposal_job p reason base, Shown c) # q \<Rightarrow> Some c | _ \<Rightarrow> None)"

definition zcore :: "window_state \<Rightarrow> number option \<times> tiling \<times> bool" where
  "zcore s = (wn_parent s, wn_tiling s, wn_modal s)"

definition agrees :: "(job \<times> stage) list \<Rightarrow> window \<Rightarrow> bool" where
  "agrees q w =
    (case q of
       (Proposal_job p reason base, Shown c) # rest \<Rightarrow> w_content w \<longrightarrow>
         zcore c = zcore (w_state w) \<and> wn_visible c = wn_visible (w_state w)
     | (Initial_job x, Shown c) # rest \<Rightarrow> w_pendingInitialCommit w
     | _ \<Rightarrow> True)"

definition flights_ok :: "manager \<Rightarrow> bool" where
  "flights_ok m \<longleftrightarrow> (\<forall>w \<in> set (mg_windows m). agrees (jobs_of m (w_id w)) w)"

definition queues_ok :: "manager \<Rightarrow> bool" where
  "queues_ok m \<longleftrightarrow> (\<forall>i. list_all (\<lambda>(j, st). st = Waiting) (tl (jobs_of m i)) \<and>
     (jobs_of m i \<noteq> [] \<longrightarrow> i \<in> set (ids (mg_windows m))))"

definition order_inv :: "manager \<Rightarrow> bool" where
  "order_inv m \<longleftrightarrow> order_ok (mg_windows m) \<and> flights_ok m \<and> queues_ok m"

lemma ov_ids: "ov m = ov m' \<Longrightarrow> ids (mg_windows m) = ids (mg_windows m')"
  unfolding ov_def using oview_zview zview_ids by blast

lemma ov_order: "ov m = ov m' \<Longrightarrow> order_ok (mg_windows m) = order_ok (mg_windows m')"
  unfolding ov_def by (rule oview_ok)

lemma agrees_oview: "oview w = oview v \<Longrightarrow> agrees q w = agrees q v"
  by (cases q) (auto simp: agrees_def oview_def zview_def zcore_def split: prod.split job.split stage.split)

lemma agrees_waiting: "list_all (\<lambda>(j, st). st = Waiting) q \<Longrightarrow> agrees q w"
  by (cases q) (auto simp: agrees_def split: job.split)

lemma ov_flights:
  assumes "ov m = ov m'" "jobs_of m = jobs_of m'" "flights_ok m'"
  shows "flights_ok m"
  unfolding flights_ok_def
proof
  fix w assume "w \<in> set (mg_windows m)"
  then have "oview w \<in> set (ov m')" using assms(1) [symmetric] by (simp add: ov_def)
  then obtain v where v: "v \<in> set (mg_windows m')" "oview w = oview v" by (auto simp: ov_def)
  then have "w_id v = w_id w" by (simp add: oview_def zview_def)
  with v(1) assms(2,3) agrees_oview [OF v(2)] show "agrees (jobs_of m (w_id w)) w" by (auto simp: flights_ok_def)
qed

lemma quiet_inv:
  assumes "ov m' = ov m" "mg_jobs m' = mg_jobs m" "order_inv m"
  shows "order_inv m'"
proof -
  have "jobs_of m' = jobs_of m" using assms(2) by (auto simp: jobs_of_def fun_eq_iff)
  then show ?thesis
    using assms ov_order [OF assms(1)] ov_ids [OF assms(1)] ov_flights [OF assms(1)] \<open>jobs_of m' = jobs_of m\<close>
    by (simp add: order_inv_def queues_ok_def)
qed

lemma jobs_of_set [simp]: "jobs_of (set_jobs i q m) j = (if j = i then q else jobs_of m j)"
  by (simp add: jobs_of_def set_jobs_def)

lemma windows_set_jobs [simp]: "mg_windows (set_jobs i q m) = mg_windows m"
  by (simp add: set_jobs_def)

lemma jobs_edit [simp]: "mg_jobs (edit i f m) = mg_jobs m" "jobs_of (edit i f m) = jobs_of m"
  by (simp_all add: edit_def set_windows_def jobs_of_def fun_eq_iff)

text \<open>A change of one queue whose new head, if it is in flight, was just shown the window's state.\<close>

lemma queue_inv:
  assumes "order_inv m" "list_all (\<lambda>(j, st). st = Waiting) (tl q)" "q \<noteq> [] \<longrightarrow> i \<in> set (ids (mg_windows m))"
    "\<And>w. w \<in> set (mg_windows m) \<Longrightarrow> w_id w = i \<Longrightarrow> agrees q w"
  shows "order_inv (set_jobs i q m)"
proof -
  have "flights_ok (set_jobs i q m)"
    unfolding flights_ok_def
  proof
    fix w assume w: "w \<in> set (mg_windows (set_jobs i q m))"
    show "agrees (jobs_of (set_jobs i q m) (w_id w)) w"
      using w assms(1,4) by (cases "w_id w = i") (simp_all add: order_inv_def flights_ok_def)
  qed
  moreover have "queues_ok (set_jobs i q m)"
    unfolding queues_ok_def
  proof (rule allI)
    fix j
    show "list_all (\<lambda>(j, st). st = Waiting) (tl (jobs_of (set_jobs i q m) j)) \<and>
      (jobs_of (set_jobs i q m) j \<noteq> [] \<longrightarrow> j \<in> set (ids (mg_windows (set_jobs i q m))))"
      using assms(1-3) by (cases "j = i") (simp_all add: order_inv_def queues_ok_def)
  qed
  ultimately show ?thesis using assms(1) by (simp add: order_inv_def)
qed

lemma jobs_quiet [simp]:
  "mg_jobs (m\<lparr>mg_wm := s\<rparr>) = mg_jobs m"
  "mg_jobs (add_gate i k m) = mg_jobs m" "mg_jobs (drop_holds i m) = mg_jobs m"
  "mg_jobs (fst (configure e i r m)) = mg_jobs m"
  "mg_jobs (fst (sendInitialConfigure e i m)) = mg_jobs m"
  "mg_jobs (fst (send_owed_size e w m)) = mg_jobs m"
  "mg_jobs (fst (run_before_map e w m)) = mg_jobs m"
  "mg_jobs (fst (setInsets e i ins m)) = mg_jobs m"
  "mg_jobs (fst (pushGeometry e i r q m)) = mg_jobs m"
  "mg_jobs (fst (setFloatingRect i fr m)) = mg_jobs m"
  by (simp_all add: add_gate_def drop_holds_def configure_def sendInitialConfigure_def send_owed_size_def
      run_before_map_def setInsets_def pushGeometry_def setFloatingRect_def Let_def split: option.split)

lemma jobs_mapOpened [simp]: "mg_jobs (fst (mapOpenedWindow e i m)) = mg_jobs m"
  by (simp add: mapOpenedWindow_def Let_def split: option.split)

lemma jobs_open [simp]: "mg_jobs (fst (openWindow e i m)) = mg_jobs m"
  by (simp add: openWindow_def split: option.split)

lemma jobs_later [simp]:
  "mg_jobs (fst (runOpeningAfterLayoutSettles e i m)) = mg_jobs m"
  "mg_jobs (fst (backstop e i m)) = mg_jobs m" "mg_jobs (fst (notifyToplevelCommit e i n m)) = mg_jobs m"
  by (simp_all add: runOpeningAfterLayoutSettles_def backstop_def notifyToplevelCommit_def Let_def split: option.split)

lemma queue_tail:
  assumes "order_inv m" "jobs_of m i = a # q"
  shows "list_all (\<lambda>(j, st). st = Waiting) q" "i \<in> set (ids (mg_windows m))"
  using assms by (auto simp: order_inv_def queues_ok_def) (metis list.sel(3))

lemma waiting_tl: "list_all P q \<Longrightarrow> list_all P (tl q)"
  by (cases q) simp_all

lemma tail_inv:
  assumes "order_inv m" "jobs_of m i = a # q"
  shows "order_inv (set_jobs i q m)"
  using queue_tail [OF assms] by (intro queue_inv [OF assms(1)]) (simp_all add: waiting_tl agrees_waiting)

lemma window_at_ids: "window_at ws i = Some w \<Longrightarrow> i \<in> set (ids ws)"
  by (auto simp: ids_def dest: window_at_Some)

lemma the_window:
  assumes "order_inv m" "window_at (mg_windows m) i = Some w" "v \<in> set (mg_windows m)" "w_id v = i"
  shows "v = w"
proof -
  have "distinct (ids (mg_windows m))" using assms(1) by (simp add: order_inv_def order_ok_def)
  with assms(2-4) show ?thesis using window_at_in by fastforce
qed

lemma head_inv:
  assumes "order_inv m" "jobs_of m i = a # q" "window_at (mg_windows m) i = Some w" "agrees (b # q) w"
  shows "order_inv (set_jobs i (b # q) m)"
proof (rule queue_inv [OF assms(1)])
  fix v assume "v \<in> set (mg_windows m)" "w_id v = i"
  with the_window [OF assms(1,3)] assms(4) show "agrees (b # q) v" by simp
qed (use queue_tail [OF assms(1,2)] in simp_all)

lemma append_inv:
  assumes "order_inv m" "window_at (mg_windows m) i = Some w"
  shows "order_inv (set_jobs i (jobs_of m i @ [(j, Waiting)]) m)"
proof (cases "jobs_of m i")
  case Nil
  then show ?thesis
    using window_at_ids [OF assms(2)] by (intro queue_inv [OF assms(1)]) (simp_all add: agrees_waiting)
next
  case (Cons a q)
  show ?thesis
  proof (rule queue_inv [OF assms(1)])
    show "list_all (\<lambda>(j, st). st = Waiting) (tl (jobs_of m i @ [(j, Waiting)]))"
      using queue_tail [OF assms(1) Cons] by (simp add: Cons)
    fix v assume "v \<in> set (mg_windows m)" "w_id v = i"
    with assms(1) have "agrees (jobs_of m i) v" by (auto simp: order_inv_def flights_ok_def)
    then show "agrees (jobs_of m i @ [(j, Waiting)]) v"
      by (simp add: agrees_def Cons split: prod.splits job.splits stage.splits)
  qed (simp add: window_at_ids [OF assms(2)])
qed

lemma zcore_snapshot [simp]: "zcore (snapshot_of j s) = zcore s"
  by (auto simp: snapshot_of_def zcore_def split: job.split option.split)

lemma visible_snapshot [simp]: "wn_visible (snapshot_of j s) = wn_visible s"
  by (auto simp: snapshot_of_def split: job.split option.split)

lemma begin_inv:
  assumes inv: "order_inv m"
  shows "order_inv (begin_job i m)"
proof (cases "window_at (mg_windows m) i")
  case (Some w)
  show ?thesis
  proof (cases "jobs_of m i")
    case (Cons a q)
    obtain j st where a: "a = (j, st)" by (cases a)
    have "order_inv (set_jobs i q m)" using inv Cons by (rule tail_inv)
    moreover have "order_inv (set_jobs i ((j, Shown (snapshot_of j (w_state w))) # q) m)"
      if "\<And>x. j = Initial_job x \<Longrightarrow> w_pendingInitialCommit w"
      using that by (intro head_inv [OF inv Cons Some]) (simp add: agrees_def split: job.split)
    moreover have "snapshot_of (Initial_job x) s = s" for x s by (simp add: snapshot_of_def)
    ultimately show ?thesis using inv Some Cons by (cases st; cases j) (auto simp: begin_job_def a)
  qed (use Some inv in \<open>simp add: begin_job_def\<close>)
qed (simp add: begin_job_def inv)

lemma mark_inv: "order_inv m \<Longrightarrow> order_inv (markInitialCommitComplete i x m)"
  by (simp add: markInitialCommitComplete_def append_inv split: option.split)

lemma settle_inv:
  assumes "order_inv m"
  shows "order_inv (fst (settle_job e i m))"
proof -
  have "order_inv (set_jobs i q m) \<and> order_inv (fst (send_owed_size e w (set_jobs i q m)))" if "jobs_of m i = a # q" for a q w
    using tail_inv [OF assms that] quiet_inv [of "fst (send_owed_size e w (set_jobs i q m))" "set_jobs i q m"] by simp
  with assms show ?thesis
    by (auto simp: settle_job_def split: option.split list.split prod.split job.split stage.split)
qed

section \<open>Operations that change the order\<close>

lemma order_okD:
  "order_ok ws \<Longrightarrow> distinct (ids ws)" "order_ok ws \<Longrightarrow> acyclic (kin ws)" "order_ok ws \<Longrightarrow> stacked ws"
  "order_ok ws \<Longrightarrow> w \<in> set ws \<Longrightarrow> w_content w \<Longrightarrow> \<not> w_pendingInitialCommit w"
  by (simp_all add: order_ok_def)

text \<open>Fewer windows, or the same ones in another order.\<close>

lemma window_at_subset:
  assumes "set vs \<subseteq> set ws" "distinct (ids ws)" "window_at vs i = Some w"
  shows "window_at ws i = Some w"
proof -
  have "w \<in> set ws" "w_id w = i" using window_at_Some [OF assms(3)] assms(1) by auto
  then show ?thesis using window_at_in [OF assms(2)] by auto
qed

lemma order_ok_subset:
  assumes "order_ok ws" "set vs \<subseteq> set ws" "distinct (ids vs)"
  shows "order_ok vs"
proof -
  note at = window_at_subset [OF assms(2) order_okD(1) [OF assms(1)]]
  have "kin vs \<subseteq> kin ws"
  proof clarify
    fix c p assume "(c, p) \<in> kin vs"
    then obtain w where "w \<in> set vs" "w_id w = c" "parent_id w = Some (of_nat p)" by (auto simp: kin_iff)
    then show "(c, p) \<in> kin ws" using assms(2) unfolding kin_iff by blast
  qed
  then have "acyclic (kin vs)" using order_okD(2) [OF assms(1)] by (rule acyclic_subset [rotated])
  moreover have "stacked vs"
    unfolding stacked_but_def
  proof (intro allI impI, elim conjE)
    fix c p assume "tops vs c p"
    then obtain child par where w: "window_at vs c = Some child" "window_at vs p = Some par"
      "parent_id child = Some (of_nat p)" "raisesWithParent child par" "aboveTile child" "w_content child" "w_content par"
      by (auto simp: tops_def)
    then have "tops ws c p" using at [OF w(1)] at [OF w(2)] by (auto simp: tops_def)
    then have "z_of ws p < z_of ws c" using order_okD(3) [OF assms(1)] by (simp add: stacked_but_def)
    then show "z_of vs p < z_of vs c" using at [OF w(1)] at [OF w(2)] w(1,2) by (simp add: z_of_def)
  qed
  ultimately show ?thesis using assms by (auto simp: order_ok_def)
qed

lemma order_ok_add:
  assumes "order_ok ws" "\<not> has_window ws i"
  shows "order_ok (new_window i res d mir z # ws)"
proof -
  let ?n = "new_window i res d mir z"
  have n: "w_id ?n = i" "parent_id ?n = None" "\<not> w_content ?n"
    by (simp_all add: new_window_def defaultWindowState_def)
  have fresh: "i \<notin> set (ids ws)" using assms(2) by (auto simp: has_window_def ids_def)
  have "kin (?n # ws) = kin ws" by (auto simp: kin_Cons n)
  moreover have "tops (?n # ws) c p \<Longrightarrow> c \<noteq> i \<and> p \<noteq> i \<and> tops ws c p" for c p
    using n by (auto simp: tops_def split: if_splits)
  then have "stacked (?n # ws)"
    using order_okD(3) [OF assms(1)] by (auto simp: stacked_but_def z_of_Cons n)
  ultimately show ?thesis using assms(1) fresh n by (auto simp: order_ok_def ids_def)
qed

lemma set_windows_windows [simp]: "mg_windows (set_windows ws m) = ws" "mg_jobs (set_windows ws m) = mg_jobs m"
  "jobs_of (set_windows ws m) = jobs_of m"
  by (simp_all add: set_windows_def jobs_of_def fun_eq_iff)

lemma add_inv: "order_inv m \<Longrightarrow> order_inv (fst (addWindow i res d mir m))"
proof (cases "has_window (mg_windows m) i")
  case False
  assume inv: "order_inv m"
  let ?n = "new_window i res d mir (wm_tiledZ (mg_wm m))"
  have n: "w_id ?n = i" by (simp add: new_window_def)
  have "jobs_of m i = []"
    using inv False by (auto simp: order_inv_def queues_ok_def has_window_def ids_def)
  then have "agrees (jobs_of m i) ?n" by (simp add: agrees_waiting)
  then have "order_inv (set_windows (?n # mg_windows m) m)"
    using inv order_ok_add [OF _ False] n by (auto simp: order_inv_def flights_ok_def queues_ok_def ids_def)
  then show ?thesis by (simp add: addWindow_def False)
qed (simp add: addWindow_def)

text \<open>A change of the windows alone.\<close>

lemma windows_inv:
  assumes "order_inv m" "order_ok ws" "ids ws = ids (mg_windows m)"
    "\<And>w. w \<in> set ws \<Longrightarrow> agrees (jobs_of m (w_id w)) w"
  shows "order_inv (set_windows ws m)"
  using assms by (simp add: order_inv_def flights_ok_def queues_ok_def)

text \<open>Operations that only assign z values.\<close>

lemma shape_inv:
  assumes "order_inv m" "same_shape (mg_windows m) vs" "stacked vs"
  shows "order_inv (set_windows vs m)"
proof (rule windows_inv [OF assms(1)])
  have ok: "order_ok (mg_windows m)" "flights_ok m" using assms(1) by (simp_all add: order_inv_def)
  show "order_ok vs" using assms(2) order_okD(1,2) [OF ok(1)] assms(3) ok(1) by (intro shape_ok) (auto simp: order_ok_def)
  show "ids vs = ids (mg_windows m)" using shape_ids [OF assms(2)] by simp
  fix w assume w: "w \<in> set vs"
  have "set (map (\<lambda>w. w\<lparr>w_z := 0\<rparr>) (mg_windows m)) = set (map (\<lambda>w. w\<lparr>w_z := 0\<rparr>) vs)"
    using assms(2) by (simp add: same_shape_def)
  then obtain v where v: "v \<in> set (mg_windows m)" "w\<lparr>w_z := 0\<rparr> = v\<lparr>w_z := 0\<rparr>"
    using w by (metis (no_types, lifting) imageE imageI set_map)
  note eq = same_but_z [OF v(2)]
  have "agrees (jobs_of m (w_id v)) v" using ok(2) v(1) by (simp add: flights_ok_def)
  then show "agrees (jobs_of m (w_id w)) w"
    by (simp add: agrees_def eq split: list.splits prod.splits job.splits stage.splits)
qed

lemma order_ok_removed:
  assumes "order_ok ws"
  shows "order_ok (remove_at k ws)"
proof (rule order_ok_subset [OF assms set_remove_at_subset])
  have "ids (remove_at k ws) = remove_at k (ids ws)"
    by (simp add: ids_def remove_at_def take_map drop_map)
  then show "distinct (ids (remove_at k ws))" using order_okD(1) [OF assms] by simp
qed

lemma push_inv: "order_inv (m\<lparr>mg_wm := s\<rparr>) \<Longrightarrow> order_inv (m\<lparr>mg_wm := fst (pushStack e s)\<rparr>)"
  by (erule quiet_inv [rotated 2]) (simp_all add: ov_def push_windows comp_def)

lemma unmap_inv: 
  assumes "order_inv m"
  shows "order_inv (fst (unmapWindow e i m))"
proof (cases "window_at (mg_windows m) i")
  case (Some w)
  let ?ws = "mg_windows m"
  obtain k where k: "index_of i (ids ?ws) = Some k" using index_of_in [OF window_at_ids [OF Some]] by blast
  have ids: "ids (remove_at k ?ws) = remove_at k (ids ?ws)"
    by (simp add: ids_def remove_at_def take_map drop_map)
  have ok: "order_ok ?ws" "flights_ok m" "queues_ok m" using assms by (simp_all add: order_inv_def)
  let ?m1 = "without_window i m"
  have m1: "mg_windows ?m1 = remove_at k ?ws" by (simp add: without_window_def Let_def k)
  have gone: "i \<notin> set (ids (remove_at k ?ws))" "set (ids (remove_at k ?ws)) = set (ids ?ws) - {i}"
    using set_remove_at [OF order_okD(1) [OF ok(1)] k] by (simp_all add: ids)
  have jobs: "jobs_of ?m1 j = (if j = i then [] else jobs_of m j)" for j
    by (simp add: jobs_of_def without_window_def Let_def)
  have "order_inv ?m1"
    unfolding order_inv_def
  proof (intro conjI)
    show "order_ok (mg_windows ?m1)" using order_ok_removed [OF ok(1)] by (simp add: m1)
    show "flights_ok ?m1"
      using ok(2) set_remove_at_subset [of k ?ws] by (auto simp: flights_ok_def jobs m1 agrees_waiting)
    show "queues_ok ?m1" using ok(3) gone by (simp add: queues_ok_def jobs m1)
  qed
  then have "order_inv (?m1\<lparr>mg_wm := fst (pushStack e (mg_wm ?m1))\<rparr>)"
    by (rule quiet_inv [rotated 2]) (simp_all add: ov_push del: ov_wm)
  then show ?thesis using Some by (simp add: unmapWindow_def)
qed (simp add: unmapWindow_def assms)

lemma neighbour_less: "neighbour op ws k = Some j \<Longrightarrow> j < length ws"
  using nth_mem [of _ "focusable_at ws"]
  by (auto simp: neighbour_def focusable_at_def split: option.splits if_splits restack_op.splits dest!: index_of_Some_nth)

lemma reorder_cases:
  "reorder_windows e i op s = (s, False, []) \<or>
   (\<exists>vs. mset vs = mset (wm_windows s) \<and>
      reorder_windows e i op s = (fst (pushStack e (s\<lparr>wm_windows := vs\<rparr>)), True,
        Schedule ''reorder'' # snd (pushStack e (s\<lparr>wm_windows := vs\<rparr>))))"
proof (cases "index_of i (map w_id (wm_windows s))")
  case (Some k)
  let ?ws = "wm_windows s"
  let ?moved = "if op = Promote then (if k = 0 then None else Some (?ws ! k # remove_at k ?ws))
    else map_option (\<lambda>j. swap_windows k j ?ws) (neighbour op ?ws k)"
  have k: "k < length ?ws" using index_of_Some_nth [OF Some] by simp
  have r: "reorder_windows e i op s = (case ?moved of None \<Rightarrow> (s, False, [])
      | Some vs \<Rightarrow> (fst (pushStack e (s\<lparr>wm_windows := vs\<rparr>)), True,
          Schedule ''reorder'' # snd (pushStack e (s\<lparr>wm_windows := vs\<rparr>))))"
    by (simp add: reorder_windows_def Some Let_def split: option.split prod.split)
  show ?thesis
  proof (cases ?moved)
    case (Some vs)
    have "mset vs = mset ?ws"
    proof (cases "op = Promote")
      case True
      with Some mset_remove_at [OF k] show ?thesis by (auto split: if_splits)
    next
      case False
      then obtain j where "neighbour op ?ws k = Some j" "vs = swap_windows k j ?ws" using Some by auto
      with k neighbour_less show ?thesis by (simp add: swap_windows_def mset_swap)
    qed
    with r Some show ?thesis by auto
  qed (use r in simp)
next
  case None
  then show ?thesis by (simp add: reorder_windows_def del: index_of_None)
qed

lemma reorder_inv:
  assumes "order_inv m"
  shows "order_inv (m\<lparr>mg_wm := fst (reorder_windows e i op (mg_wm m))\<rparr>)"
proof -
  let ?ws = "mg_windows m"
  have ok: "order_ok ?ws" "flights_ok m" "queues_ok m" using assms by (simp_all add: order_inv_def)
  have perm: "order_inv (m\<lparr>mg_wm := fst (pushStack e ((mg_wm m)\<lparr>wm_windows := vs\<rparr>))\<rparr>)" if p: "mset vs = mset ?ws" for vs
  proof -
    have s: "set vs = set ?ws" using mset_eq_setD [OF p] .
    have i: "mset (ids vs) = mset (ids ?ws)" by (simp add: ids_def p)
    have "order_ok vs"
      using order_ok_subset [OF ok(1), of vs] s order_okD(1) [OF ok(1)] mset_eq_imp_distinct_iff [OF i] by simp
    moreover have "set (ids vs) = set (ids ?ws)" using mset_eq_setD [OF i] .
    ultimately have "order_inv (m\<lparr>mg_wm := (mg_wm m)\<lparr>wm_windows := vs\<rparr>\<rparr>)"
      using ok s by (simp add: order_inv_def flights_ok_def queues_ok_def jobs_of_def)
    then show ?thesis by (rule push_inv)
  qed
  from reorder_cases [of e i op "mg_wm m"] assms perm show ?thesis by auto
qed

lemma on_wm_opt_Some: "f (mg_wm m) = Some (s, eff) \<Longrightarrow> on_wm_opt f m = Some (m\<lparr>mg_wm := s\<rparr>, eff)"
  by (simp add: on_wm_opt_def)

lemma shaped_push:
  assumes "order_inv m" "same_shape (mg_windows m) vs" "stacked vs" "wm_windows s = vs"
  shows "order_inv (m\<lparr>mg_wm := fst (pushStack e s)\<rparr>)"
proof -
  have "order_inv (m\<lparr>mg_wm := s\<rparr>)"
    using shape_inv [OF assms(1-3)] by (rule quiet_inv [rotated 2]) (simp_all add: ov_def assms(4))
  then show ?thesis by (rule push_inv)
qed

lemma raise_inv:
  assumes "order_inv m"
  shows "\<exists>m' eff. on_wm_opt (raiseWindow e i) m = Some (m', eff) \<and> order_inv m'"
proof (cases "window_at (mg_windows m) i")
  case None
  then show ?thesis using assms by (simp add: raiseWindow_def on_wm_opt_def)
next
  case (Some w)
  have ok: "order_ok (mg_windows m)" using assms by (simp add: order_inv_def)
  from raised_stacked [OF order_okD(2,1,3), OF ok ok ok, of i]
  obtain vs z where r: "raised i (mg_wm m) = Some ((mg_wm m)\<lparr>wm_windows := vs, wm_tiledZ := z\<rparr>)"
    "same_shape (mg_windows m) vs" "stacked vs" by blast
  show ?thesis
    using shaped_push [OF assms r(2,3), of "(mg_wm m)\<lparr>wm_windows := vs, wm_tiledZ := z\<rparr>" e] Some r(1)
    by (simp add: raiseWindow_def on_wm_opt_def split: prod.split) (metis fst_conv)
qed

lemma raise_all_inv:
  assumes "order_inv m"
  shows "\<exists>m' eff. on_wm_opt (raiseAllFloating e) m = Some (m', eff) \<and> order_inv m'"
proof -
  have ok: "order_ok (mg_windows m)" using assms by (simp add: order_inv_def)
  from raiseAllFloating_stacked [OF order_okD(2,1,3), OF ok ok ok, of e]
  obtain vs where r: "same_shape (mg_windows m) vs" "stacked vs"
    "raiseAllFloating e (mg_wm m) = Some (mg_wm m, []) \<or>
     raiseAllFloating e (mg_wm m) = Some (pushStack e ((mg_wm m)\<lparr>wm_windows := vs\<rparr>))" by blast
  show ?thesis
    using shaped_push [OF assms r(1,2), of "(mg_wm m)\<lparr>wm_windows := vs\<rparr>" e] r(3) assms
    by (cases "pushStack e ((mg_wm m)\<lparr>wm_windows := vs\<rparr>)") (auto simp: on_wm_opt_def)
qed

text \<open>Parents decide the acyclicity.\<close>

lemma kin_pairs: "kin us = {(c, p). (c, Some (of_nat p)) \<in> set (map (\<lambda>w. (w_id w, parent_id w)) us)}"
  by (auto simp: kin_iff) force

lemma kin_upd:
  assumes "\<And>w. w_id (f w) = w_id w" "\<And>w. w \<in> set ws \<Longrightarrow> w_id w = i \<Longrightarrow> parent_id (f w) = parent_id w"
  shows "kin (upd_window i f ws) = kin ws"
proof -
  have "map (\<lambda>w. (w_id w, parent_id w)) (upd_window i f ws) = map (\<lambda>w. (w_id w, parent_id w)) ws"
    using assms by (auto simp: upd_window_def)
  then show ?thesis unfolding kin_pairs by (simp only:)
qed

lemma upd_cases:
  assumes "v \<in> set (upd_window i f ws)"
  shows "(\<exists>w \<in> set ws. w_id w = i \<and> v = f w) \<or> (v \<in> set ws \<and> w_id v \<noteq> i)"
  using assms by (auto simp: upd_window_def split: if_splits)

text \<open>The changes of one window: to a window without content, and to one with content.\<close>

lemma edit_contentless_inv:
  assumes inv: "order_inv m" and f: "\<And>w. w_id (f w) = w_id w"
    and acyclic: "acyclic (kin (upd_window i f (mg_windows m)))"
    and at: "\<And>w. window_at (mg_windows m) i = Some w \<Longrightarrow> \<not> w_content (f w) \<and> agrees (jobs_of m i) (f w)"
  shows "order_inv (edit i f m)"
  unfolding edit_def
proof (rule windows_inv [OF inv])
  have ok: "order_ok (mg_windows m)" "flights_ok m" using inv by (simp_all add: order_inv_def)
  have here: "\<not> w_content (f w) \<and> agrees (jobs_of m i) (f w)" if "w \<in> set (mg_windows m)" "w_id w = i" for w
    using at window_at_in [OF order_okD(1) [OF ok(1)] that(1)] that(2) by simp
  show "ids (upd_window i f (mg_windows m)) = ids (mg_windows m)" by (simp add: f)
  show "order_ok (upd_window i f (mg_windows m))"
    using stacked_contentless [OF f order_okD(3) [OF ok(1)]] at acyclic ok(1) here
    by (auto simp: order_ok_def f dest!: upd_cases)
  fix v assume "v \<in> set (upd_window i f (mg_windows m))"
  then show "agrees (jobs_of m (w_id v)) v"
    using here f ok(2) by (auto simp: flights_ok_def dest!: upd_cases)
qed

lemma edit_quiet_inv:
  assumes inv: "order_inv m" and f: "\<And>w. w_id (f w) = w_id w"
    and at: "\<And>w. window_at (mg_windows m) i = Some w \<Longrightarrow> oview (f w) = oview w"
  shows "order_inv (edit i f m)"
proof (rule quiet_inv [OF _ _ inv])
  have ok: "order_ok (mg_windows m)" using inv by (simp add: order_inv_def)
  have "oview (f w) = oview w" if "w \<in> set (mg_windows m)" "w_id w = i" for w
    using at window_at_in [OF order_okD(1) [OF ok] that(1)] that(2) by simp
  then show "ov (edit i f m) = ov m" by (auto simp: ov_def mg_windows_edit upd_window_def)
qed simp

lemma edit_same_inv:
  assumes inv: "order_inv m" and f: "\<And>w. w_id (f w) = w_id w"
    and at: "\<And>w. window_at (mg_windows m) i = Some w \<Longrightarrow> zview (f w) = zview w \<and>
      w_pendingInitialCommit (f w) = w_pendingInitialCommit w \<and> agrees (jobs_of m i) (f w)"
  shows "order_inv (edit i f m)"
  unfolding edit_def
proof (rule windows_inv [OF inv])
  have ok: "order_ok (mg_windows m)" "flights_ok m" using inv by (simp_all add: order_inv_def)
  have here: "zview (f w) = zview w \<and> w_pendingInitialCommit (f w) = w_pendingInitialCommit w \<and> agrees (jobs_of m i) (f w)"
    if "w \<in> set (mg_windows m)" "w_id w = i" for w
    using at window_at_in [OF order_okD(1) [OF ok(1)] that(1)] that(2) by simp
  show "ids (upd_window i f (mg_windows m)) = ids (mg_windows m)" by (simp add: f)
  have z: "map zview (upd_window i f (mg_windows m)) = map zview (mg_windows m)"
    using here by (auto simp: upd_window_def)
  have content: "w_content (f w) = w_content w" if "w \<in> set (mg_windows m)" "w_id w = i" for w
    using here [OF that] by (simp add: zview_def)
  show "order_ok (upd_window i f (mg_windows m))"
    using ok(1) zview_kin [OF z] zview_stacked [OF z] here content
    by (auto simp: order_ok_def f dest!: upd_cases)
  fix v assume "v \<in> set (upd_window i f (mg_windows m))"
  then show "agrees (jobs_of m (w_id v)) v"
    using here f ok(2) by (auto simp: flights_ok_def dest!: upd_cases)
qed

text \<open>A change followed by the assignment of z; no call of the window is in flight.\<close>

lemma edit_assign_inv:
  assumes inv: "order_inv m" and f: "\<And>w. w_id (f w) = w_id w"
    and acyclic: "acyclic (kin (upd_window i f (mg_windows m)))"
    and pending: "\<And>w. window_at (mg_windows m) i = Some w \<Longrightarrow> \<not> w_pendingInitialCommit (f w)"
    and waiting: "list_all (\<lambda>(j, st). st = Waiting) (jobs_of m i)"
  shows "\<exists>vs. assignZForMap (mg_wm (edit i f m)) i = Some ((mg_wm m)\<lparr>wm_windows := vs\<rparr>) \<and> order_inv (set_windows vs m)"
proof -
  let ?us = "upd_window i f (mg_windows m)"
  have ok: "order_ok (mg_windows m)" "flights_ok m" using inv by (simp_all add: order_inv_def)
  have s: "mg_wm (edit i f m) = (mg_wm m)\<lparr>wm_windows := ?us\<rparr>" by (simp add: edit_def set_windows_def)
  obtain vs where vs: "assignZForMap (mg_wm (edit i f m)) i = Some ((mg_wm m)\<lparr>wm_windows := vs\<rparr>)"
    "same_shape ?us vs" "stacked vs"
    using assign_loose [of "mg_wm (edit i f m)" i] acyclic loose_edit [OF f order_okD(3) [OF ok(1)], of i] s by auto
  have here: "\<not> w_pendingInitialCommit (f w)" if "w \<in> set (mg_windows m)" "w_id w = i" for w
    using pending window_at_in [OF order_okD(1) [OF ok(1)] that(1)] that(2) by simp
  have "order_ok vs"
    using vs(2) order_okD(1) [OF ok(1)] acyclic vs(3) order_okD(4) [OF ok(1)] here
    by (intro shape_ok [of ?us]) (auto simp: f dest!: upd_cases)
  moreover have "agrees (jobs_of m (w_id v)) v" if v: "v \<in> set vs" for v
  proof -
    have "set (map (\<lambda>w. w\<lparr>w_z := 0\<rparr>) ?us) = set (map (\<lambda>w. w\<lparr>w_z := 0\<rparr>) vs)"
      using vs(2) by (simp add: same_shape_def)
    then obtain u where u: "u \<in> set ?us" "v\<lparr>w_z := 0\<rparr> = u\<lparr>w_z := 0\<rparr>"
      using v by (metis (no_types, lifting) imageE imageI set_map)
    note eq = same_but_z [OF u(2)]
    have "agrees (jobs_of m (w_id u)) u"
      using upd_cases [OF u(1)] ok(2) waiting f by (auto simp: flights_ok_def agrees_waiting)
    then show ?thesis by (simp add: agrees_def eq split: list.splits prod.splits job.splits stage.splits)
  qed
  moreover have "ids vs = ids (mg_windows m)" using shape_ids [OF vs(2)] f by simp
  ultimately have "order_inv (set_windows vs m)" by (intro windows_inv [OF inv])
  with vs(1) show ?thesis by blast
qed

section \<open>Contents, proposals, answers\<close>

lemma take_content_frame [simp]:
  "w_id (take_content e z w) = w_id w" "parent_id (take_content e z w) = parent_id w"
  "w_pendingInitialCommit (take_content e z w) = w_pendingInitialCommit w"
  by (simp_all add: take_content_def promote_dialog_def Let_def)

lemma content_inv:
  assumes inv: "order_inv m"
    and ready: "\<And>w. window_at (mg_windows m) i = Some w \<Longrightarrow> \<not> w_pendingInitialCommit w"
    and idle: "list_all (\<lambda>(j, st). st = Waiting) (jobs_of m i)"
  shows "\<exists>m' eff. windowHasContent e i z m = Some (m', eff) \<and> order_inv m'"
proof (cases "window_at (mg_windows m) i")
  case None
  then show ?thesis using inv by (simp add: windowHasContent_def)
next
  case (Some w)
  show ?thesis
  proof (cases "w_content w")
    case True
    with Some inv show ?thesis by (simp add: windowHasContent_def)
  next
    case False
    have "acyclic (kin (upd_window i (take_content e z) (mg_windows m)))"
      using inv by (subst kin_upd) (simp_all add: order_inv_def order_ok_def)
    then obtain vs where vs:
      "assignZForMap (mg_wm (edit i (take_content e z) m)) i = Some ((mg_wm m)\<lparr>wm_windows := vs\<rparr>)"
      "order_inv (set_windows vs m)"
      using edit_assign_inv [OF inv, of "take_content e z" i] ready idle by auto
    have m: "m\<lparr>mg_wm := (mg_wm m)\<lparr>wm_windows := vs\<rparr>\<rparr> = set_windows vs m" by (simp add: set_windows_def)
    have "order_inv (fst (openWindow e i (set_windows vs m)))" "order_inv (add_gate i k (set_windows vs m))" for k
      using vs(2) by (auto intro: quiet_inv [rotated 2])
    then show ?thesis using Some False vs(1) m
      by (auto simp: windowHasContent_def Let_def then_also_def split: prod.split)
  qed
qed

lemma stamp_frame [simp]:
  "w_id (stamp_window p w) = w_id w" "w_content (stamp_window p w) = w_content w" "w_z (stamp_window p w) = w_z w"
  "w_pendingInitialCommit (stamp_window p w) = w_pendingInitialCommit w"
  by (simp_all add: stamp_window_def Let_def)

lemma stamp_constraints_zcore [simp]:
  "wn_parent (stamp_constraints s p) = wn_parent s" "wn_tiling (stamp_constraints s p) = wn_tiling s"
  "wn_modal (stamp_constraints s p) = wn_modal s" "wn_sizeMode (stamp_constraints s p) = wn_sizeMode s"
  "wn_visible (stamp_constraints s p) = wn_visible s"
  by (simp_all add: stamp_constraints_def)

lemma stamp_mapped: "\<not> w_pendingInitialCommit w \<Longrightarrow> oview (stamp_window p w) = oview w"
  by (simp add: oview_def zview_def stamp_window_def Let_def)

lemma propose_one_inv:
  assumes inv: "order_inv m" and acyclic: "acyclic (kin (upd_window i (stamp_window p) (mg_windows m)))"
  shows "order_inv (fst (propose_one e i p reason m))"
proof (cases "window_at (mg_windows m) i")
  case (Some w)
  have ok: "order_ok (mg_windows m)" "flights_ok m" using inv by (simp_all add: order_inv_def)
  have w: "w \<in> set (mg_windows m)" "w_id w = i" using window_at_Some [OF Some] by auto
  have "order_inv (edit i (stamp_window p) m)"
  proof (cases "w_pendingInitialCommit w")
    case True
    then have "\<not> w_content w" using order_okD(4) [OF ok(1) w(1)] by blast
    moreover from this have "agrees (jobs_of m i) (stamp_window p w)"
      using ok(2) w True
      by (fastforce simp: flights_ok_def agrees_def split: list.splits prod.splits job.splits stage.splits)
    ultimately show ?thesis using Some by (intro edit_contentless_inv [OF inv _ acyclic]) auto
  next
    case False
    with Some stamp_mapped show ?thesis by (intro edit_quiet_inv [OF inv]) auto
  qed
  moreover have "window_at (mg_windows (edit i (stamp_window p) m)) i = Some (stamp_window p w)"
    using Some by (simp add: mg_windows_edit window_at_upd)
  ultimately have "order_inv (set_jobs i (jobs_of (edit i (stamp_window p) m) i @ [(j, Waiting)]) (edit i (stamp_window p) m))" for j
    by (rule append_inv)
  then show ?thesis using Some by (simp add: propose_one_def Let_def)
qed (simp add: propose_one_def inv)

lemma uncover_parent [simp]: "parent_id (stamp_window uncover w) = parent_id w"
  by (simp add: stamp_window_def stamp_decisions_def uncover_def no_proposal_def Let_def)

lemma demote_inv: "order_inv m \<Longrightarrow> order_inv (fst (demote_each e is m))"
proof (induction "is" arbitrary: m)
  case (Cons i "is")
  have "acyclic (kin (upd_window i (stamp_window uncover) (mg_windows m)))"
    using Cons.prems by (subst kin_upd) (simp_all add: order_inv_def order_ok_def)
  then show ?case using Cons.IH propose_one_inv [OF Cons.prems] by simp
qed simp

lemma demote_peers_inv: "order_inv m \<Longrightarrow> order_inv (fst (demoteCoveringPeers e i m))"
  by (simp add: demoteCoveringPeers_def demote_inv)

lemma propose_inv:
  assumes "order_inv m" "acyclic (kin (upd_window i (stamp_window p) (mg_windows m)))"
  shows "order_inv (fst (propose e i p reason m))"
  using propose_one_inv [OF assms] assms(1) by (simp add: propose_def demote_peers_inv split: option.split)

lemma adopt_state_frame [simp]:
  "w_id (adopt_state c s w) = w_id w" "w_content (adopt_state c s w) = w_content w" "w_z (adopt_state c s w) = w_z w"
  "w_pendingInitialCommit (adopt_state c s w) = w_pendingInitialCommit w" "w_state (adopt_state c s w) = s"
  by (simp_all add: adopt_state_def Let_def)

lemma stacking_fields: "list_ex stacking_field fs \<longleftrightarrow> F_parent \<in> set fs \<or> F_modal \<in> set fs"
  by (induction fs) (auto simp: stacking_field_def)

lemma diff_zcore:
  "\<not> (F_tiling \<in> set (diffState a b) \<or> list_ex stacking_field (diffState a b)) \<Longrightarrow> zcore a = zcore b"
  by (simp add: stacking_fields diffState_field zcore_def)

lemma restacked_inv:
  assumes inv: "order_inv m" and acyclic: "acyclic (kin (upd_window i (adopt_state current cand) (mg_windows m)))"
    and waiting: "list_all (\<lambda>(j, st). st = Waiting) (jobs_of m i)"
    and w: "window_at (mg_windows m) i = Some w" "w_content w \<Longrightarrow> zcore current = zcore (w_state w)"
  shows "\<exists>m1 eff. restacked e i (diffState current cand) (edit i (adopt_state current cand) m) = Some (m1, eff) \<and> order_inv m1"
proof -
  let ?m = "edit i (adopt_state current cand) m" and ?ch = "diffState current cand"
  have at: "window_at (mg_windows ?m) i = Some (adopt_state current cand w)"
    using w(1) by (simp add: mg_windows_edit window_at_upd)
  have ok: "order_ok (mg_windows m)" using inv by (simp add: order_inv_def)
  show ?thesis
  proof (cases "w_content w \<and> (F_tiling \<in> set ?ch \<or> list_ex stacking_field ?ch)")
    case True
    have "\<not> w_pendingInitialCommit w" using True order_okD(4) [OF ok] window_at_Some [OF w(1)] by blast
    then obtain vs where vs: "assignZForMap (mg_wm ?m) i = Some ((mg_wm m)\<lparr>wm_windows := vs\<rparr>)"
      "order_inv (set_windows vs m)"
      using edit_assign_inv [OF inv _ acyclic _ waiting] w(1) by auto
    have "order_inv (?m\<lparr>mg_wm := fst (pushStack e ((mg_wm m)\<lparr>wm_windows := vs\<rparr>))\<rparr>)"
      using vs(2) by (rule quiet_inv [rotated 2]) (simp_all add: ov_def push_windows comp_def)
    then show ?thesis using True at vs(1)
      by (simp add: restacked_def on_wm_opt_def split: prod.split) (metis fst_conv)
  next
    case False
    have "order_inv ?m"
    proof (cases "w_content w")
      case True
      then have "zcore cand = zcore (w_state w)" using False w(2) diff_zcore [of current cand] by simp
      then have "zview (adopt_state current cand w) = zview w" by (simp add: zview_def zcore_def)
      with w(1) agrees_waiting [OF waiting] show ?thesis by (intro edit_same_inv [OF inv]) auto
    next
      case c: False
      have "agrees (jobs_of m i) (adopt_state current cand w)" using waiting by (rule agrees_waiting)
      with c w(1) show ?thesis by (intro edit_contentless_inv [OF inv _ acyclic]) auto
    qed
    moreover from this have "order_inv (fst (on_wm (pushStack e) ?m))"
      by (rule quiet_inv [rotated 2]) (simp_all add: ov_push del: ov_wm)
    ultimately show ?thesis using False at
      by (cases "on_wm (pushStack e) ?m") (auto simp: restacked_def)
  qed
qed

lemma finish_inv:
  assumes inv: "order_inv m" and acyclic: "acyclic (kin (upd_window i (adopt_state current cand) (mg_windows m)))"
    and waiting: "list_all (\<lambda>(j, st). st = Waiting) (jobs_of m i)"
    and w: "window_at (mg_windows m) i = Some w" "w_content w \<Longrightarrow> zcore current = zcore (w_state w)"
  shows "\<exists>m' eff. finish_proposal e i reason current cand m = Some (m', eff) \<and> order_inv m'"
proof (cases "diffState current cand = []")
  case True
  then show ?thesis using inv by (simp add: finish_proposal_def Let_def)
next
  case False
  obtain m1 eff where r: "restacked e i (diffState current cand) (edit i (adopt_state current cand) m) = Some (m1, eff)"
    "order_inv m1"
    using restacked_inv [OF assms] by blast
  then show ?thesis using False demote_peers_inv [OF r(2), of e i]
    by (auto simp: finish_proposal_def Let_def then_also_def split: prod.split)
qed

lemma propose_one_other:
  "j \<noteq> i \<Longrightarrow> jobs_of (fst (propose_one e j p r m)) i = jobs_of m i"
  "j \<noteq> i \<Longrightarrow> window_at (mg_windows (fst (propose_one e j p r m))) i = window_at (mg_windows m) i"
  by (auto simp: propose_one_def Let_def mg_windows_edit window_at_upd split: option.split)

lemma demote_other:
  "i \<notin> set is \<Longrightarrow> jobs_of (fst (demote_each e is m)) i = jobs_of m i"
  "i \<notin> set is \<Longrightarrow> window_at (mg_windows (fst (demote_each e is m))) i = window_at (mg_windows m) i"
  by (induction "is" arbitrary: m) (simp_all add: propose_one_other)

lemma demote_peers_other [simp]:
  "jobs_of (fst (demoteCoveringPeers e i m)) i = jobs_of m i"
  "window_at (mg_windows (fst (demoteCoveringPeers e i m))) i = window_at (mg_windows m) i"
proof -
  have "i \<notin> set (covering_peers e i (mg_windows m))" by (auto simp: covering_peers_def)
  then show "jobs_of (fst (demoteCoveringPeers e i m)) i = jobs_of m i"
    "window_at (mg_windows (fst (demoteCoveringPeers e i m))) i = window_at (mg_windows m) i"
    by (simp_all add: demoteCoveringPeers_def demote_other)
qed

lemma finish_initial_inv:
  assumes inv: "order_inv m"
    and acyclic: "acyclic (kin (upd_window i (\<lambda>v. v\<lparr>w_state := rule_state shown (w_state w) answer\<rparr>) (mg_windows m)))"
    and w: "window_at (mg_windows m) i = Some w" "w_pendingInitialCommit w"
    and q: "jobs_of m i = (Initial_job x, Shown c) # q"
  shows "order_inv (fst (finish_initial e i x shown answer w (set_jobs i ((Initial_job x, Settling) # q) m)))"
proof -
  let ?f = "\<lambda>v. v\<lparr>w_state := rule_state shown (w_state w) answer\<rparr>"
  let ?q = "(Initial_job x, Settling) # q" and ?m0 = "set_jobs i ((Initial_job x, Settling) # q) m"
  have ok: "order_ok (mg_windows m)" using inv by (simp add: order_inv_def)
  have content: "\<not> w_content w" using order_okD(4) [OF ok] window_at_Some [OF w(1)] w(2) by blast
  have settling: "agrees ?q v" for v by (simp add: agrees_def)
  have m0: "order_inv ?m0" using head_inv [OF inv q w(1) settling] .
  have m1: "order_inv (edit i ?f ?m0)"
    using acyclic content w(1) settling by (intro edit_contentless_inv [OF m0]) auto
  define m2 where "m2 = (if starts_covering (w_state w) (rule_state shown (w_state w) answer)
    then fst (demoteCoveringPeers e i (edit i ?f ?m0)) else edit i ?f ?m0)"
  have m2: "order_inv m2" "jobs_of m2 i = ?q" "window_at (mg_windows m2) i = Some (?f w)"
    using m1 demote_peers_inv [OF m1] w(1) by (auto simp: m2_def mg_windows_edit window_at_upd)
  have "order_inv (edit i (\<lambda>v. v\<lparr>w_pendingInitialCommit := False\<rparr>) m2)"
  proof (rule edit_contentless_inv [OF m2(1)])
    show "acyclic (kin (upd_window i (\<lambda>v. v\<lparr>w_pendingInitialCommit := False\<rparr>) (mg_windows m2)))"
      using m2(1) by (subst kin_upd) (simp_all add: order_inv_def order_ok_def)
  qed (use m2(2,3) content settling in auto)
  then have "order_inv (edit i (\<lambda>v. v\<lparr>w_pendingSizeConfigure := True\<rparr>)
        (fst (configure e i zero_rect (edit i (\<lambda>v. v\<lparr>w_pendingInitialCommit := False\<rparr>) m2))))"
      "order_inv (edit i (\<lambda>v. v\<lparr>w_pendingInitialCommit := False\<rparr>) m2)"
    by (auto intro: quiet_inv [rotated 2])
  then show ?thesis by (cases x) (simp_all add: finish_initial_def Let_def m2_def split: if_splits)
qed

section \<open>Sessions\<close>

text \<open>The states of the windows after an operation, before any z is assigned.\<close>

definition answered_windows :: "nat \<Rightarrow> js_value option \<Rightarrow> manager \<Rightarrow> window list" where
  "answered_windows i answer m =
    (case (window_at (mg_windows m) i, jobs_of m i) of
       (Some w, (Proposal_job p reason base, Shown current) # q) \<Rightarrow>
         upd_window i (adopt_state current (decide current p answer (phase_of w))) (mg_windows m)
     | (Some w, (Initial_job x, Shown shown) # q) \<Rightarrow>
         upd_window i (\<lambda>v. v\<lparr>w_state := rule_state shown (w_state w) answer\<rparr>) (mg_windows m)
     | _ \<Rightarrow> mg_windows m)"

text \<open>
  The sessions considered: neither a proposal nor an interceptor's answer makes a window an ancestor of itself, and a
  window gets its first content after the end of its initial commit and while none of its proposals is in flight.
\<close>

fun orderly :: "mg_op \<Rightarrow> manager \<Rightarrow> bool" where
  "orderly (Propose i p reason) m = acyclic (kin (upd_window i (stamp_window p) (mg_windows m)))"
| "orderly (Answer_job i v) m = acyclic (kin (answered_windows i v m))"
| "orderly (Has_content i z) m =
     ((case window_at (mg_windows m) i of None \<Rightarrow> True | Some w \<Rightarrow> \<not> w_pendingInitialCommit w) \<and>
      list_all (\<lambda>(j, st). st = Waiting) (jobs_of m i))"
| "orderly _ m = True"

lemma answer_inv:
  assumes inv: "order_inv m" and acyclic: "acyclic (kin (answered_windows i answer m))"
  shows "\<exists>m' eff. answer_job e i answer m = Some (m', eff) \<and> order_inv m'"
proof (cases "window_at (mg_windows m) i")
  case None
  then show ?thesis using inv by (simp add: answer_job_def)
next
  case (Some w)
  have agrees: "agrees (jobs_of m i) w"
    using inv window_at_Some [OF Some] by (auto simp: order_inv_def flights_ok_def)
  show ?thesis
  proof (cases "jobs_of m i")
    case Nil
    then show ?thesis using inv Some by (simp add: answer_job_def)
  next
    case (Cons a q)
    obtain j st where a: "a = (j, st)" by (cases a)
    show ?thesis
    proof (cases st)
      case (Shown c)
      show ?thesis
      proof (cases j)
        case (Proposal_job p reason base)
        let ?cand = "decide c p answer (phase_of w)"
        have "acyclic (kin (upd_window i (adopt_state c ?cand) (mg_windows m)))"
          using acyclic Some Cons a Shown Proposal_job by (simp add: answered_windows_def)
        moreover have "w_content w \<Longrightarrow> zcore c = zcore (w_state w)"
          using agrees by (simp add: agrees_def Cons a Shown Proposal_job)
        ultimately show ?thesis
          using finish_inv [OF tail_inv [OF inv Cons], of i c ?cand w e reason] queue_tail [OF inv Cons] Some
          by (simp add: answer_job_def Cons a Shown Proposal_job)
      next
        case (Initial_job x)
        have "w_pendingInitialCommit w" using agrees by (simp add: agrees_def Cons a Shown Initial_job)
        moreover have "acyclic (kin (upd_window i (\<lambda>v. v\<lparr>w_state := rule_state c (w_state w) answer\<rparr>) (mg_windows m)))"
          using acyclic Some Cons a Shown Initial_job by (simp add: answered_windows_def)
        ultimately show ?thesis
          using finish_initial_inv [OF inv _ Some, of c answer x c q e] Some
          by (simp add: answer_job_def Cons a Shown Initial_job) (metis prod.collapse)
      qed
    qed (use inv Some Cons a in \<open>auto simp: answer_job_def split: job.split\<close>)
  qed
qed

lemma quiet_op: "ov (fst r) = ov m \<Longrightarrow> mg_jobs (fst r) = mg_jobs m \<Longrightarrow> order_inv m \<Longrightarrow> \<exists>m' eff. Some r = Some (m', eff) \<and> order_inv m'"
  using quiet_inv [of "fst r" m] by (cases r) simp

lemma some_op: "order_inv (fst r) \<Longrightarrow> \<exists>m' eff. Some r = Some (m', eff) \<and> order_inv m'"
  by (cases r) simp

lemma fst_op: "(\<exists>m'. (\<exists>eff. r = (m', eff)) \<and> order_inv m') \<longleftrightarrow> order_inv (fst r)"
  by (cases r) simp

lemma quiet_ops:
  assumes "order_inv m"
  shows "order_inv (fst (sendInitialConfigure e i m))" "order_inv (fst (runOpeningAfterLayoutSettles e i m))"
    "order_inv (fst (notifyToplevelCommit e i n m))" "order_inv (fst (backstop e i m))"
    "order_inv (fst (setInsets e i ins m))" "order_inv (fst (pushGeometry e i r q m))"
    "order_inv (fst (setFloatingRect i fr m))" "order_inv (m\<lparr>mg_wm := fst (engageContentGate e i k (mg_wm m))\<rparr>)"
    "order_inv (m\<lparr>mg_wm := fst (releaseContentGate e i k (mg_wm m))\<rparr>)"
    "order_inv (m\<lparr>mg_wm := fst (setKeyboardFocus e j (mg_wm m))\<rparr>)"
    "order_inv (m\<lparr>mg_wm := fst (refreshStackTiers e (mg_wm m))\<rparr>)"
  by (rule quiet_inv [OF _ _ assms]; simp add: ov_def [of m])+

lemma step_inv:
  assumes "order_inv m" "orderly op m"
  shows "\<exists>m' eff. mg_step e op m = Some (m', eff) \<and> order_inv m'"
proof (cases op)
  case (Has_content i z)
  with assms content_inv [OF assms(1), of i e z] show ?thesis by (auto split: option.splits)
next
  case (Reorder i op')
  have "fst (on_wm (\<lambda>s. let (s', _, eff) = reorder_windows e i op' s in (s', eff)) m) =
      m\<lparr>mg_wm := fst (reorder_windows e i op' (mg_wm m))\<rparr>"
    by (simp add: Let_def split: prod.split)
  then show ?thesis unfolding Reorder mg_step.simps using reorder_inv [OF assms(1)] by (intro some_op) (simp only:)
next
  case (Raise i)
  with raise_inv [OF assms(1)] show ?thesis by simp
next
  case Raise_all_floating
  with raise_all_inv [OF assms(1)] show ?thesis by simp
next
  case (Answer_job i v)
  with answer_inv [OF assms(1)] assms(2) show ?thesis by simp
qed (use assms in \<open>simp_all add: fst_op quiet_ops add_inv unmap_inv propose_inv settle_inv begin_inv mark_inv\<close>)

definition orderly_event :: "manager \<Rightarrow> wm_env \<times> mg_op \<Rightarrow> bool" where
  "orderly_event m ev = orderly (snd ev) m"

text \<open>The specification of the answers: there is one.\<close>

definition answers :: "unit \<Rightarrow> wm_env \<times> mg_op \<Rightarrow> wm_effect list option \<Rightarrow> unit option" where
  "answers u ev r = (case r of None \<Rightarrow> None | Some _ \<Rightarrow> Some ())"

interpretation orderly_sessions: monitored mg_do orderly_event answers "\<lambda>m _. order_inv m"
proof unfold_locales
  fix m m' :: manager and a :: unit and ev r
  assume "order_inv m" "orderly_event m ev" "mg_do m ev = (m', r)"
  with step_inv [of m "snd ev" "fst ev"] show "\<exists>a'. answers a ev r = Some a' \<and> order_inv m'"
    by (auto simp: orderly_event_def mg_do_def answers_def)
qed

lemma monitor_answers: "monitor answers a tr \<noteq> None \<longleftrightarrow> None \<notin> snd ` set tr"
proof (induction tr arbitrary: a)
  case (Cons t tr)
  then show ?case by (cases t) (auto simp: answers_def split: option.splits)
qed simp

lemma order_inv_new: "order_inv mg_new"
  by (simp add: order_inv_def order_ok_def flights_ok_def queues_ok_def mg_new_def wm_new_def ids_def stacked_but_def
      tops_def jobs_of_def kin_def child_ids_def childrenOf_window_def acyclic_none)

lemma stacked_windows:
  assumes "order_ok ws" "child \<in> set ws" "par \<in> set ws" "parent_id child = Some (of_nat (w_id par))"
    "raisesWithParent child par" "aboveTile child" "w_content child" "w_content par"
  shows "w_z par < w_z child"
proof -
  have at: "window_at ws (w_id child) = Some child" "window_at ws (w_id par) = Some par"
    using assms(1-3) by (simp_all add: window_at_in order_ok_def)
  with assms have "tops ws (w_id child) (w_id par)" by (auto simp: tops_def)
  with assms(1) have "z_of ws (w_id par) < z_of ws (w_id child)" by (simp add: order_ok_def stacked_but_def)
  with at show ?thesis by (simp add: z_of_def)
qed

text \<open>
  C10: In every session from the start in which no proposal and no interceptor's answer makes a window its own ancestor
  and a first content comes after the initial commit and while no proposal of the window is in flight, every
  operation returns - the walks over the chains of parents included - and in the state it ends in, a modal window,
  or a floating window of a tiled one, has a higher z than its parent once both have content, and is drawn above it
  when both are of one tier.
\<close>

theorem dialogs_stay_above_parents:
  assumes "admissible mg_do orderly_event mg_new evs"
    and "child \<in> set (mg_windows (fst (run mg_do mg_new evs)))" "par \<in> set (mg_windows (fst (run mg_do mg_new evs)))"
    and "parent_id child = Some (of_nat (w_id par))" "raisesWithParent child par" "aboveTile child"
    and "w_content child" "w_content par"
  shows "None \<notin> snd ` set (snd (run mg_do mg_new evs)) \<and> w_z par < w_z child \<and>
    (w_tier par = w_tier child \<longrightarrow> effectiveStackZ par < effectiveStackZ child)"
proof -
  have "monitor answers () (snd (run mg_do mg_new evs)) \<noteq> None"
    using order_inv_new assms(1) by (rule orderly_sessions.accepts)
  then have "None \<notin> snd ` set (snd (run mg_do mg_new evs))" unfolding monitor_answers .
  moreover have "order_inv (fst (run mg_do mg_new evs))"
    using orderly_sessions.related.inv_run [of mg_new evs] order_inv_new assms(1) by simp
  then have "w_z par < w_z child"
    using stacked_windows [OF _ assms(2-8)] by (simp add: order_inv_def)
  ultimately show ?thesis by (simp add: effectiveStackZ_def)
qed

section \<open>A session\<close>

text \<open>A stronger guard that can be evaluated: parents have smaller numbers.\<close>

definition older_parents :: "window list \<Rightarrow> bool" where
  "older_parents ws = list_all (\<lambda>w. case parent_id w of None \<Rightarrow> True | Some p \<Rightarrow> p < of_nat (w_id w)) ws"

lemma older_parents_acyclic: "older_parents ws \<Longrightarrow> acyclic (kin ws)"
proof -
  assume old: "older_parents ws"
  have "p < c" if "(c, p) \<in> kin ws" for c p
  proof -
    obtain w where w: "w \<in> set ws" "w_id w = c" "parent_id w = Some (of_nat p)" using \<open>(c, p) \<in> kin ws\<close> by (auto simp: kin_iff)
    have "case parent_id w of None \<Rightarrow> True | Some p \<Rightarrow> p < of_nat (w_id w)"
      using old w(1) unfolding older_parents_def list_all_iff by (rule bspec)
    with w show ?thesis by simp
  qed
  then have "(kin ws)\<inverse> \<subseteq> measure id" by auto
  then have "acyclic ((kin ws)\<inverse>)" by (rule acyclic_measure)
  then show ?thesis by (simp add: acyclic_converse)
qed

fun orderly_by_age :: "mg_op \<Rightarrow> manager \<Rightarrow> bool" where
  "orderly_by_age (Propose i p reason) m = older_parents (upd_window i (stamp_window p) (mg_windows m))"
| "orderly_by_age (Answer_job i v) m = older_parents (answered_windows i v m)"
| "orderly_by_age (Has_content i z) m =
     ((case window_at (mg_windows m) i of None \<Rightarrow> True | Some w \<Rightarrow> \<not> w_pendingInitialCommit w) \<and>
      list_all (\<lambda>(j, st). st = Waiting) (jobs_of m i))"
| "orderly_by_age _ m = True"

lemma orderly_by_age: "orderly_by_age op m \<Longrightarrow> orderly op m"
  by (cases op) (simp_all add: older_parents_acyclic)

lemma admissible_by_age:
  "admissible mg_do (\<lambda>m ev. orderly_by_age (snd ev) m) m evs \<Longrightarrow> admissible mg_do orderly_event m evs"
  by (induction evs arbitrary: m) (simp_all add: orderly_event_def orderly_by_age)

text \<open>A tiled window, a floating dialog of it that a proposal made modal, and a click on the window.\<close>

definition dialog_proposal :: proposal where
  "dialog_proposal = no_proposal\<lparr>pr_tiling := Some Floating, pr_modal := Some True, pr_parent := Some (Some 1)\<rparr>"

definition dialog_session :: "(wm_env \<times> mg_op) list" where
  "dialog_session = map (Pair bare_env) [Add_window 1 1 False None, Add_window 2 2 False None, Has_content 1 None,
     Propose 2 dialog_proposal ''client-request'', Begin_job 2, Answer_job 2 None, Has_content 2 None, Raise 1]"

declare raise_children.simps [code]

lemma dialog_session_ok: "admissible mg_do orderly_event mg_new dialog_session"
  by (rule admissible_by_age) code_simp

lemma dialog_session_end:
  "map (\<lambda>w. (w_id w, w_z w)) (mg_windows (fst (run mg_do mg_new dialog_session))) = [(2, 3), (1, 2)]"
  by code_simp

theorem dialogs_stay_above_parents_witness:
  "let ws = mg_windows (fst (run mg_do mg_new dialog_session)) in
     None \<notin> snd ` set (snd (run mg_do mg_new dialog_session)) \<and> w_z (ws ! 1) < w_z (ws ! 0) \<and>
     (w_tier (ws ! 1) = w_tier (ws ! 0) \<longrightarrow> effectiveStackZ (ws ! 1) < effectiveStackZ (ws ! 0))"
proof -
  let ?ws = "mg_windows (fst (run mg_do mg_new dialog_session))"
  have n: "length ?ws = 2" by code_simp
  have "parent_id (?ws ! 0) = Some (of_nat (w_id (?ws ! 1)))" "raisesWithParent (?ws ! 0) (?ws ! 1)"
    "aboveTile (?ws ! 0)" "w_content (?ws ! 0)" "w_content (?ws ! 1)"
    by code_simp+
  with n show ?thesis
    using dialogs_stay_above_parents [OF dialog_session_ok, of "?ws ! 0" "?ws ! 1"] by (simp add: Let_def)
qed

end
