(* ===== verification/Window_Shown.thy ===== *)
theory Window_Shown
  imports Window_Order
begin

text \<open>
  The stack the compositor was last given against the windows as they are. A push either calls the \<open>rebuild\<close> callback, which
  the protocol layer always wires (\<open>core/src/protocols/index.ts\<close>) and which reads the windows at that moment
  (\<open>rebuildStackWithPopups\<close> of \<open>core/src/protocols/xdg_popup.ts\<close>), or sets the stack itself. The pushed list is an effect,
  and replaying the effects of a session gives the drawn windows in their order.
\<close>

section \<open>The replay\<close>

text \<open>
  The toplevel windows of a rebuilt stack: every window that no gate holds, in the drawn order. The subsurfaces that
  follow each one are left out here; the lemma relates the list to \<open>computeBaseStack\<close>.
\<close>

definition rebuilt :: "window list \<Rightarrow> nat list" where
  "rebuilt ws = map w_id (filter (\<lambda>w. \<not> isGated w) (sort_key effectiveStackZ ws))"

lemma base_stack_toplevels:
  assumes "order_wf st" "acyclic (edges st)"
  shows "\<exists>subs. computeBaseStack st ws = Some (concat (map (\<lambda>w. w_id w # subs w)
      (filter (\<lambda>w. \<not> isGated w) (sort_key effectiveStackZ ws))))"
proof -
  define subs where "subs w = tl (block st w)" for w
  have "block st w = (if isGated w then [] else w_id w # subs w)" for w
  proof -
    obtain L where "emit_children st (childrenOf st (w_resource w)) = Some L"
      using emit_walk.returns [OF assms, of "w_resource w"] by blast
    then show ?thesis by (simp add: subs_def block_def emitSubtreeStack_def)
  qed
  then have "concat (map (block st) vs) = concat (map (\<lambda>w. w_id w # subs w) (filter (\<lambda>w. \<not> isGated w) vs))" for vs
    by (induction vs) simp_all
  then show ?thesis using base_stack_blocks [OF assms] by (auto simp: computeBaseStack_def)
qed

fun show_effect :: "nat list \<Rightarrow> wm_effect \<Rightarrow> nat list" where
  "show_effect l (Rebuild ws) = rebuilt ws"
| "show_effect l (SetStack l2) = l2"
| "show_effect l _ = l"

definition replay_stack :: "nat list \<Rightarrow> wm_effect list \<Rightarrow> nat list" where
  "replay_stack l effs = foldl show_effect l effs"

fun silent :: "wm_effect \<Rightarrow> bool" where
  "silent (Rebuild _) = False"
| "silent (SetStack _) = False"
| "silent _ = True"

lemma replay_stack_append [simp]: "replay_stack l (a @ b) = replay_stack (replay_stack l a) b"
  by (simp add: replay_stack_def)

lemma replay_stack_simps [simp]: "replay_stack l [] = l" "replay_stack l (x # a) = replay_stack (show_effect l x) a"
  by (simp_all add: replay_stack_def)

lemma replay_stack_silent: "list_all silent effs \<Longrightarrow> replay_stack l effs = l"
proof (induction effs arbitrary: l)
  case (Cons x effs)
  then show ?case by (cases x) simp_all
qed simp

section \<open>What is drawn\<close>

text \<open>What the compositor has to show of the windows: those that are drawn, in their order, and none that a gate holds.\<close>

definition held_back :: "window list \<Rightarrow> nat set" where
  "held_back ws = w_id ` {w \<in> set ws. isGated w}"

definition view :: "window list \<Rightarrow> nat list \<times> nat set" where
  "view ws = (drawn ws, held_back ws)"

definition shows_view :: "nat list \<Rightarrow> nat list \<times> nat set \<Rightarrow> bool" where
  "shows_view l v \<longleftrightarrow> filter (\<lambda>i. i \<in> set (fst v)) l = fst v \<and> set l \<inter> snd v = {}"

abbreviation showing :: "nat list \<Rightarrow> manager \<Rightarrow> bool" where
  "showing l m \<equiv> shows_view l (view (mg_windows m))"

lemma same_window:
  assumes "distinct (ids ws)" "v \<in> set ws" "w \<in> set ws" "w_id v = w_id w"
  shows "v = w"
proof -
  have "Some v = Some w" using window_at_in [OF assms(1,2)] window_at_in [OF assms(1,3)] assms(4) by (simp only:)
  then show ?thesis by simp
qed

lemma ungated_ids: "distinct (ids ws) \<Longrightarrow> w_id ` {w \<in> set ws. \<not> isGated w} \<inter> held_back ws = {}"
  unfolding held_back_def by (blast dest: same_window)

lemma drawn_filter: "drawn ws = map w_id (filter drawable (sort_key effectiveStackZ ws))"
  by (simp add: drawn_def filter_sort)

lemma rebuilt_shows:
  assumes "distinct (ids ws)"
  shows "shows_view (rebuilt ws) (view ws)"
proof -
  have eq: "\<not> isGated w \<and> w_id w \<in> set (drawn ws) \<longleftrightarrow> drawable w" if "w \<in> set (sort_key effectiveStackZ ws)" for w
  proof
    assume "\<not> isGated w \<and> w_id w \<in> set (drawn ws)"
    then obtain v where "v \<in> set ws" "drawable v" "w_id v = w_id w" by (auto simp: drawn_filter)
    with same_window [OF assms, of v w] that show "drawable w" by simp
  next
    assume "drawable w"
    with that show "\<not> isGated w \<and> w_id w \<in> set (drawn ws)" by (auto simp: drawn_filter drawable_def)
  qed
  have "filter (\<lambda>i. i \<in> set (drawn ws)) (rebuilt ws) =
      map w_id (filter (\<lambda>w. \<not> isGated w \<and> w_id w \<in> set (drawn ws)) (sort_key effectiveStackZ ws))"
    by (simp add: rebuilt_def filter_map comp_def)
  also have "\<dots> = map w_id (filter drawable (sort_key effectiveStackZ ws))"
    by (intro arg_cong [of _ _ "map w_id"] filter_cong refl eq)
  also have "\<dots> = drawn ws" by (rule drawn_filter [symmetric])
  finally have "filter (\<lambda>i. i \<in> set (drawn ws)) (rebuilt ws) = drawn ws" .
  moreover have "set (rebuilt ws) \<inter> held_back ws = {}"
    using ungated_ids [OF assms] by (auto simp: rebuilt_def)
  ultimately show ?thesis by (simp add: shows_view_def view_def)
qed

lemma drawn_shows:
  assumes "distinct (ids ws)"
  shows "shows_view (drawn ws) (view ws)"
proof -
  have "set (drawn ws) \<inter> held_back ws = {}"
    using ungated_ids [OF assms] by (auto simp: drawn_def drawable_def)
  then show ?thesis by (simp add: shows_view_def view_def)
qed

text \<open>All this depends on the number, the gates and the key of each window.\<close>

definition dv :: "window \<Rightarrow> nat \<times> bool \<times> int option" where
  "dv w = (w_id w, isGated w, if drawable w then Some (effectiveStackZ w) else None)"

definition keyed :: "nat \<times> bool \<times> int option \<Rightarrow> (int \<times> nat) list" where
  "keyed d = (case d of (i, _, None) \<Rightarrow> [] | (i, _, Some z) \<Rightarrow> [(z, i)])"

lemma map_insort_key: "map (\<lambda>w. (k w, g w)) (insort_key k x xs) = insort_key fst (k x, g x) (map (\<lambda>w. (k w, g w)) xs)"
  by (induction xs) simp_all

lemma map_sort_key: "map (\<lambda>w. (k w, g w)) (sort_key k xs) = sort_key fst (map (\<lambda>w. (k w, g w)) xs)"
  by (induction xs) (simp_all add: map_insort_key)

lemma drawn_dv: "drawn ws = map snd (sort_key fst (concat (map keyed (map dv ws))))"
proof -
  have "concat (map keyed (map dv ws)) = map (\<lambda>w. (effectiveStackZ w, w_id w)) (filter drawable ws)"
    by (induction ws) (simp_all add: dv_def keyed_def)
  moreover have "drawn ws = map snd (map (\<lambda>w. (effectiveStackZ w, w_id w)) (sort_key effectiveStackZ (filter drawable ws)))"
    by (simp add: drawn_def comp_def)
  ultimately show ?thesis by (simp only: map_sort_key)
qed

lemma held_dv: "held_back ws = fst ` {d \<in> set (map dv ws). fst (snd d)}"
  by (force simp: held_back_def dv_def)

lemma view_cong: "map dv ws = map dv vs \<Longrightarrow> view ws = view vs"
  by (simp only: view_def drawn_dv held_dv)

lemma view_upd:
  assumes "distinct (ids ws)" "\<And>w. window_at ws i = Some w \<Longrightarrow> dv (f w) = dv w"
  shows "view (upd_window i f ws) = view ws"
proof (rule view_cong)
  have "dv (if w_id w = i then f w else w) = dv w" if "w \<in> set ws" for w
    using assms(2) window_at_in [OF assms(1) that] by auto
  then show "map dv (upd_window i f ws) = map dv ws" by (simp add: upd_window_def)
qed

text \<open>After an operation the compositor shows the windows as they are then.\<close>

definition mirrors :: "nat list \<Rightarrow> manager \<times> wm_effect list \<Rightarrow> bool" where
  "mirrors l r \<longleftrightarrow> (distinct (ids (mg_windows (fst r))) \<longrightarrow> showing (replay_stack l (snd r)) (fst r))"

lemma mirrors_and_then:
  "mirrors l r \<Longrightarrow> mirrors (replay_stack l (snd r)) (f (fst r)) \<Longrightarrow> mirrors l (then_also r f)"
  by (simp add: mirrors_def)

lemma mirrors_quiet: "list_all silent effs \<Longrightarrow> showing l m' \<Longrightarrow> mirrors l (m', effs)"
  by (simp add: mirrors_def replay_stack_silent)

lemma mirrors_after: "mirrors l r \<Longrightarrow> order_inv (fst r) \<Longrightarrow> showing (replay_stack l (snd r)) (fst r)"
  by (simp add: mirrors_def order_inv_def order_ok_def)

lemma tiers_silent: "list_all silent (snd (snd (updateStackTiers e s)))"
  by (auto simp: updateStackTiers_def Let_def list_all_iff)

lemma push_shown:
  "distinct (ids (wm_windows (fst (pushStack e s)))) \<Longrightarrow>
     shows_view (replay_stack l (snd (pushStack e s))) (view (wm_windows (fst (pushStack e s))))"
  using tiers_silent [of e s] rebuilt_shows drawn_shows
  by (cases "updateStackTiers e s") (simp add: pushStack_def replay_stack_silent)

lemma mirrors_push: "mirrors l (on_wm (pushStack e) m)"
  by (simp add: mirrors_def push_shown)

lemma mirrors_push_wm: "mirrors l (m\<lparr>mg_wm := fst (pushStack e s)\<rparr>, snd (pushStack e s))"
  by (simp add: mirrors_def push_shown)

lemma mirrors_silent_first: "list_all silent effs \<Longrightarrow> mirrors l (m, eff) \<Longrightarrow> mirrors l (m, effs @ eff)"
  by (simp add: mirrors_def replay_stack_silent)

lemma mirrors_silent_last: "mirrors l (m, eff) \<Longrightarrow> list_all silent effs \<Longrightarrow> mirrors l (m, eff @ effs)"
  by (simp add: mirrors_def replay_stack_silent)

lemma tether_silent [simp]:
  "list_all silent (tetherFocusOnModal e w ws)" "list_all silent (untetherFocusOnUnmodal e w ws)"
  "list_all silent (modal_turn e i c d m)"
  by (simp_all add: tetherFocusOnModal_def untetherFocusOnUnmodal_def modal_turn_def split: option.split)

section \<open>The operations\<close>

lemma view_edit:
  assumes "order_ok (mg_windows m)" "\<And>w. window_at (mg_windows m) i = Some w \<Longrightarrow> dv (f w) = dv w"
  shows "view (mg_windows (edit i f m)) = view (mg_windows m)"
  unfolding mg_windows_edit using assms by (intro view_upd) (simp_all add: order_ok_def)

lemma dv_simps [simp]:
  "dv (w\<lparr>w_awaitingMapAck := b\<rparr>) = dv w" "dv (w\<lparr>w_pendingSizeConfigure := b\<rparr>) = dv w"
  "dv (w\<lparr>w_lastAckedSerial := n\<rparr>) = dv w" "dv (w\<lparr>w_outer := r, w_rect := q\<rparr>) = dv w"
  "dv (w\<lparr>w_floatingRect := fr\<rparr>) = dv w" "dv (inset_window ins w) = dv w"
  "dv (w\<lparr>w_pendingInitialCommit := b\<rparr>) = dv w"
  by (simp_all add: dv_def drawable_def isGated_def effectiveStackZ_def inset_window_def Let_def)

lemma configure_mirrors: "showing l m \<Longrightarrow> mirrors l (configure e i r m)"
  by (simp add: configure_def mirrors_def split: option.split)

lemma configure_windows [simp]: "mg_windows (fst (configure e i r m)) = mg_windows m"
  by (simp add: configure_def split: option.split)

lemma configure_silent [simp]: "list_all silent (snd (configure e i r m))"
  by (simp add: configure_def)

lemma dv_held: "isGated w \<Longrightarrow> w_id (f w) = w_id w \<Longrightarrow> isGated (f w) \<Longrightarrow> dv (f w) = dv w"
  by (simp add: dv_def drawable_def)

lemma engage_mirrors:
  assumes "order_ok (mg_windows m)" "showing l m"
  shows "mirrors l (on_wm (engageContentGate e i k) m)"
proof (cases "window_at (mg_windows m) i")
  case None
  with assms show ?thesis by (simp add: mirrors_def engageContentGate_def)
next
  case (Some w)
  have "view (upd_window i (\<lambda>v. v\<lparr>w_gates := w_gates v @ [k]\<rparr>) (mg_windows m)) = view (mg_windows m)" if "isGated w"
    using assms(1) Some that by (intro view_upd dv_held) (auto simp: order_ok_def isGated_def)
  with Some assms show ?thesis by (simp add: mirrors_def engageContentGate_def Let_def push_shown)
qed

lemma release_mirrors:
  assumes "order_ok (mg_windows m)" "showing l m"
  shows "mirrors l (on_wm (releaseContentGate e i k) m)"
proof (cases "window_at (mg_windows m) i")
  case None
  with assms show ?thesis by (simp add: mirrors_def releaseContentGate_def)
next
  case (Some w)
  have "view (upd_window i (\<lambda>v. v\<lparr>w_gates := removeAll k (w_gates v)\<rparr>) (mg_windows m)) = view (mg_windows m)"
    if "removeAll k (w_gates w) \<noteq> []"
  proof -
    have "w_gates w \<noteq> []" using that by auto
    with assms(1) Some that show ?thesis by (intro view_upd dv_held) (auto simp: order_ok_def isGated_def)
  qed
  with Some assms show ?thesis by (simp add: mirrors_def releaseContentGate_def Let_def push_shown)
qed

lemma focus_mirrors:
  assumes "showing l m"
  shows "mirrors l (on_wm (setKeyboardFocus e i) m)"
proof -
  from focus_cases [of e i "mg_wm m"] consider "setKeyboardFocus e i (mg_wm m) = (mg_wm m, [])"
    | s2 where "wm_windows s2 = mg_windows m" "setKeyboardFocus e i (mg_wm m) =
       (let r = updateStackTiers e s2
        in if fst (snd r) then (fst (pushStack e (fst r)), snd (snd r) @ snd (pushStack e (fst r)))
           else (fst r, snd (snd r)))" by blast
  then show ?thesis
  proof cases
    case 1
    with assms show ?thesis by (simp add: mirrors_def)
  next
    case 2
    have same: "map (stamp_tier e s2) (wm_windows s2) = wm_windows s2" if "\<not> fst (snd (updateStackTiers e s2))"
      using that by (auto simp: updateStackTiers_def Let_def intro: map_idI)
    show ?thesis
    proof (cases "fst (snd (updateStackTiers e s2))")
      case True
      with 2 show ?thesis by (simp add: mirrors_def Let_def push_shown)
    next
      case False
      with 2 assms same [OF False] show ?thesis
        by (simp add: mirrors_def Let_def replay_stack_silent tiers_silent tiers_windows)
    qed
  qed
qed

text \<open>Opening a window that is held pushes whatever was pushed before, or leaves the window held.\<close>

lemma mapOpened_mirrors: "window_at (mg_windows m) i = Some w \<Longrightarrow> mirrors l (mapOpenedWindow e i m)"
  by (simp add: mapOpenedWindow_def Let_def mirrors_def push_shown replay_stack_silent)

lemma ov_order_ok: "ov m' = ov m \<Longrightarrow> order_ok (mg_windows m) \<Longrightarrow> order_ok (mg_windows m')"
  using ov_order by blast

lemma oset_add_not_Nil [simp]: "oset_add k g \<noteq> []"
  by (simp add: oset_add_def split: if_split) auto

lemma open_mirrors:
  assumes "order_ok (mg_windows m)" "window_at (mg_windows m) i = Some w" "isGated w" "showing l m"
  shows "mirrors l (openWindow e i m)"
proof -
  let ?r = "then_also (m, [SetSurfaceLayout i (w_rect w)]) (send_owed_size e w)"
  let ?held = "\<lambda>n. \<exists>v. window_at (mg_windows n) i = Some v \<and> isGated v"
  have id: "w_id w = i" using window_at_Some [OF assms(2)] by simp
  have ok: "order_ok (mg_windows (fst ?r))" by (intro ov_order_ok [OF _ assms(1)]) simp
  have "view (mg_windows (fst ?r)) = view (mg_windows m)"
    using assms(1,2) id by (auto simp: send_owed_size_def mg_windows_edit order_ok_def intro!: view_upd)
  then have m1: "showing l (fst ?r)" using assms(4) by simp
  have quiet: "list_all silent (snd ?r)" by (simp add: send_owed_size_def configure_def)
  have held: "?held (fst ?r)"
    using assms(2,3) id by (auto simp: send_owed_size_def mg_windows_edit window_at_upd isGated_def)
  show ?thesis
  proof (cases "must_wait e w (fst ?r)")
    case True
    let ?m = "(edit i (\<lambda>v. v\<lparr>w_awaitingMapAck := True\<rparr>) (add_gate i ''opening-ack'' (fst ?r)))
                   \<lparr>mg_backstops := oset_add i (mg_backstops (fst ?r))\<rparr>"
    have d: "distinct (ids (mg_windows (fst ?r)))" using ok by (simp add: order_ok_def)
    have "view (upd_window i (\<lambda>v. v\<lparr>w_gates := oset_add ''opening-ack'' (w_gates v)\<rparr>) (mg_windows (fst ?r))) = view (mg_windows (fst ?r))"
      using held by (intro view_upd [OF d] dv_held) (auto simp: isGated_def)
    moreover have "view (mg_windows ?m) = view (mg_windows (add_gate i ''opening-ack'' (fst ?r)))"
      using ov_order_ok [OF ov_add_gate ok] by (simp add: mg_windows_edit) (intro view_upd, simp_all add: order_ok_def)
    ultimately have "showing l ?m" using m1 by (simp add: add_gate_def mg_windows_edit)
    then have "mirrors l (?m, snd ?r)" using quiet by (intro mirrors_quiet)
    with True assms(2) show ?thesis by (simp add: openWindow_def mirrors_def)
  next
    case False
    obtain w' where "window_at (mg_windows (fst ?r)) i = Some w'" using held by auto
    from mapOpened_mirrors [OF this, of l e] have "mirrors l (then_also ?r (mapOpenedWindow e i))"
      using quiet by (simp add: mirrors_def replay_stack_silent)
    with False assms(2) show ?thesis by (simp add: openWindow_def mirrors_def)
  qed
qed

lemma mirrors_push_opt:
  assumes "f (mg_wm m) = map_option (pushStack e) g" "on_wm_opt f m = Some r"
  shows "mirrors l r"
proof -
  obtain s where "f (mg_wm m) = Some (pushStack e s)" using assms by (cases g) (auto simp: on_wm_opt_def)
  with assms(2) have "r = (m\<lparr>mg_wm := fst (pushStack e s)\<rparr>, snd (pushStack e s))"
    by (cases "pushStack e s") (simp add: on_wm_opt_def)
  then show ?thesis by (simp add: mirrors_push_wm)
qed

lemma raise_mirrors:
  assumes "showing l m" "on_wm_opt (raiseWindow e i) m = Some r"
  shows "mirrors l r"
proof (cases "window_at (mg_windows m) i = None")
  case True
  with assms show ?thesis by (auto simp: raiseWindow_def on_wm_opt_def mirrors_def)
next
  case False
  then show ?thesis by (intro mirrors_push_opt [OF _ assms(2)]) (auto simp: raiseWindow_def)
qed

lemma raise_all_mirrors:
  assumes "showing l m" "on_wm_opt (raiseAllFloating e) m = Some r"
  shows "mirrors l r"
proof (cases "floating_roots (mg_windows m) = []")
  case True
  with assms show ?thesis by (auto simp: raiseAllFloating_def on_wm_opt_def mirrors_def)
next
  case False
  then have "raiseAllFloating e (mg_wm m) = map_option (pushStack e) (map_option (\<lambda>ws. (mg_wm m)\<lparr>wm_windows := ws\<rparr>)
      (restack (map w_id (floating_roots (mg_windows m))) (wm_tiledZ (mg_wm m)) (mg_windows m)))"
    by (simp add: raiseAllFloating_def option.map_comp comp_def)
  then show ?thesis using assms(2) by (rule mirrors_push_opt)
qed

lemma reorder_pushes:
  "reorder_windows e i op s = (s, False, []) \<or>
   (\<exists>s2. reorder_windows e i op s = (fst (pushStack e s2), True, Schedule ''reorder'' # snd (pushStack e s2)))"
  by (auto simp: reorder_windows_def Let_def split: option.split prod.split) (metis fst_conv snd_conv)+

lemma reorder_mirrors:
  assumes "showing l m"
  shows "mirrors l (on_wm (\<lambda>s. let (s', _, eff) = reorder_windows e i op s in (s', eff)) m)"
  using reorder_pushes [of e i op "mg_wm m"]
proof (elim disjE exE)
  assume "reorder_windows e i op (mg_wm m) = (mg_wm m, False, [])"
  then show ?thesis using assms by (simp add: mirrors_def)
next
  fix s2 assume "reorder_windows e i op (mg_wm m) = (fst (pushStack e s2), True, Schedule ''reorder'' # snd (pushStack e s2))"
  then show ?thesis by (simp add: mirrors_def push_shown)
qed

lemma add_mirrors:
  assumes "showing l m"
  shows "mirrors l (addWindow i res d mir m)"
proof -
  have "view (new_window i res d mir z # ws) = view ws" for z ws
    by (auto simp: view_def drawn_def held_back_def drawable_def new_window_def isGated_def)
  with assms show ?thesis by (simp add: addWindow_def mirrors_def set_windows_def)
qed

lemma unmap_mirrors: "showing l m \<Longrightarrow> mirrors l (unmapWindow e i m)"
  by (simp add: unmapWindow_def mirrors_def push_shown replay_stack_silent split: option.split)

lemma insets_mirrors:
  assumes "order_ok (mg_windows m)" "showing l m"
  shows "mirrors l (setInsets e i ins m)"
proof -
  have "showing l (edit i (inset_window ins) m)" using assms by (subst view_edit) auto
  then show ?thesis using assms(2)
    by (simp add: setInsets_def Let_def mirrors_def configure_def split: option.split)
qed

lemma view_flag [simp]:
  assumes "order_ok (mg_windows m)"
  shows "view (mg_windows (edit i (\<lambda>v. v\<lparr>w_pendingSizeConfigure := b\<rparr>) m)) = view (mg_windows m)"
    "view (mg_windows (edit i (\<lambda>v. v\<lparr>w_outer := r, w_rect := q\<rparr>) m)) = view (mg_windows m)"
    "view (mg_windows (edit i (\<lambda>v. v\<lparr>w_floatingRect := fr\<rparr>) m)) = view (mg_windows m)"
  by (rule view_edit [OF assms]; simp)+

lemma geometry_mirrors:
  assumes "order_ok (mg_windows m)" "showing l m"
  shows "mirrors l (pushGeometry e i r q m)" "mirrors l (setFloatingRect i fr m)"
    "mirrors l (sendInitialConfigure e i m)"
  using assms by (simp_all add: pushGeometry_def setFloatingRect_def sendInitialConfigure_def Let_def mirrors_def
      replay_stack_silent split: option.split)

text \<open>A proposal stamps windows without content, which are not drawn, and fields that no order reads.\<close>

lemma dv_contentless: "\<not> w_content w \<Longrightarrow> \<not> w_content v \<Longrightarrow> w_id v = w_id w \<Longrightarrow> w_gates v = w_gates w \<Longrightarrow> dv v = dv w"
  by (simp add: dv_def drawable_def isGated_def)

lemma dv_stamp: "(w_content w \<longrightarrow> \<not> w_pendingInitialCommit w) \<Longrightarrow> dv (stamp_window p w) = dv w"
  by (cases "w_content w") (auto simp: dv_def drawable_def isGated_def effectiveStackZ_def stamp_window_def Let_def)

lemma view_stamp:
  assumes "order_ok (mg_windows m)"
  shows "view (mg_windows (edit i (stamp_window p) m)) = view (mg_windows m)"
  using assms order_okD(4) [OF assms] by (intro view_edit) (auto intro!: dv_stamp dest!: window_at_Some)

lemma propose_one_mirrors:
  "order_ok (mg_windows m) \<Longrightarrow> showing l m \<Longrightarrow> mirrors l (propose_one e i p reason m)"
  by (simp add: propose_one_def Let_def mirrors_def view_stamp split: option.split)

lemma demote_mirrors: "order_inv m \<Longrightarrow> showing l m \<Longrightarrow> mirrors l (demote_each e is m)"
proof (induction "is" arbitrary: m l)
  case (Cons i "is")
  have ok: "order_ok (mg_windows m)" using Cons.prems(1) by (simp add: order_inv_def)
  have "acyclic (kin (upd_window i (stamp_window uncover) (mg_windows m)))"
    using Cons.prems(1) by (subst kin_upd) (simp_all add: order_inv_def order_ok_def)
  then have "order_inv (fst (propose_one e i uncover ''core'' m))" using Cons.prems(1) by (intro propose_one_inv)
  from Cons.IH [OF this mirrors_after [OF propose_one_mirrors [OF ok Cons.prems(2)] this]] show ?case
    using propose_one_mirrors [OF ok Cons.prems(2)] by (simp add: mirrors_and_then)
qed (simp add: mirrors_def)

lemma demote_peers_mirrors:
  "order_inv m \<Longrightarrow> showing l m \<Longrightarrow> mirrors l (demoteCoveringPeers e i m)"
  by (simp add: demoteCoveringPeers_def demote_mirrors)

lemma propose_mirrors:
  assumes "order_inv m" "acyclic (kin (upd_window i (stamp_window p) (mg_windows m)))" "showing l m"
  shows "mirrors l (propose e i p reason m)"
proof -
  have ok: "order_ok (mg_windows m)" using assms(1) by (simp add: order_inv_def)
  show ?thesis
    using propose_one_mirrors [OF ok assms(3)] assms(3)
      demote_peers_mirrors [OF propose_one_inv [OF assms(1,2)] mirrors_after [OF propose_one_mirrors [OF ok assms(3)] propose_one_inv [OF assms(1,2)]]]
    by (auto simp: propose_def split: option.split intro!: mirrors_and_then) (simp_all add: mirrors_def)
qed

lemma dv_adopt:
  "(w_content w \<Longrightarrow> wn_visible cand = wn_visible (w_state w)) \<Longrightarrow> dv (adopt_state c cand w) = dv w"
  by (auto simp: dv_def drawable_def isGated_def effectiveStackZ_def adopt_state_def Let_def)

lemma restacked_mirrors:
  assumes "showing l m \<or>
      (\<exists>w. window_at (mg_windows m) i = Some w \<and> w_content w \<and>
        (F_tiling \<in> set ch \<or> list_ex stacking_field ch \<or> F_sizeMode \<in> set ch \<or> F_visible \<in> set ch))"
    "restacked e i ch m = Some r"
  shows "mirrors l r"
proof (cases "window_at (mg_windows m) i")
  case None
  with assms show ?thesis by (auto simp: restacked_def mirrors_def)
next
  case (Some w)
  consider "w_content w" "F_tiling \<in> set ch \<or> list_ex stacking_field ch"
    | "\<not> (w_content w \<and> (F_tiling \<in> set ch \<or> list_ex stacking_field ch))" "w_content w" "F_sizeMode \<in> set ch \<or> F_visible \<in> set ch"
    | "\<not> (w_content w \<and> (F_tiling \<in> set ch \<or> list_ex stacking_field ch))" "\<not> (w_content w \<and> (F_sizeMode \<in> set ch \<or> F_visible \<in> set ch))"
    by blast
  then show ?thesis
  proof cases
    case 1
    then have "on_wm_opt (\<lambda>s. map_option (pushStack e) (assignZForMap s i)) m = Some r"
      using Some assms(2) by (simp add: restacked_def)
    then show ?thesis by (intro mirrors_push_opt) auto
  next
    case 2
    then have "r = on_wm (pushStack e) m" using Some assms(2) by (auto simp: restacked_def)
    then show ?thesis by (simp add: mirrors_push)
  next
    case 3
    then have "r = (m, [])" using Some assms(2) by (auto simp: restacked_def split: if_splits)
    with 3 Some assms(1) show ?thesis by (auto simp: mirrors_def)
  qed
qed

lemma modal_turn_silent: "replay_stack l (modal_turn e i c d m) = l"
  by (simp add: replay_stack_silent)

lemma geometry_silent: "replay_stack l ((if we_bus e then [Committed i reason c d ch] else []) @
    (if list_ex geometry_field ch then [Schedule ''state-changed''] else [])) = l"
  by simp

lemma changed_visible: "wn_visible a \<noteq> wn_visible b \<Longrightarrow> F_visible \<in> set (diffState a b)"
  by (simp add: diffState_field)

lemma finish_mirrors:
  assumes inv: "order_inv m"
    and acyclic: "acyclic (kin (upd_window i (adopt_state current cand) (mg_windows m)))"
    and waiting: "list_all (\<lambda>(j, st). st = Waiting) (jobs_of m i)"
    and w: "window_at (mg_windows m) i = Some w"
      "w_content w \<Longrightarrow> zcore current = zcore (w_state w) \<and> wn_visible current = wn_visible (w_state w)"
    and l: "showing l m" and r: "finish_proposal e i reason current cand m = Some r"
  shows "mirrors l r"
proof (cases "diffState current cand = []")
  case True
  with r l show ?thesis by (auto simp: finish_proposal_def Let_def mirrors_def)
next
  case False
  let ?m = "edit i (adopt_state current cand) m" and ?ch = "diffState current cand"
  have ok: "order_ok (mg_windows m)" using inv by (simp add: order_inv_def)
  obtain m1 eff where m1: "restacked e i ?ch ?m = Some (m1, eff)" "order_inv m1"
    using restacked_inv [OF inv acyclic waiting w(1)] w(2) by blast
  have at: "window_at (mg_windows ?m) i = Some (adopt_state current cand w)"
    using w(1) by (simp add: mg_windows_edit window_at_upd)
  have "mirrors l (m1, eff)"
  proof (rule restacked_mirrors [OF _ m1(1)])
    show "showing l ?m \<or> (\<exists>w. window_at (mg_windows ?m) i = Some w \<and> w_content w \<and>
        (F_tiling \<in> set ?ch \<or> list_ex stacking_field ?ch \<or> F_sizeMode \<in> set ?ch \<or> F_visible \<in> set ?ch))"
    proof (cases "w_content w \<and> wn_visible cand \<noteq> wn_visible (w_state w)")
      case True
      then have "F_visible \<in> set ?ch" using w(2) changed_visible [of current cand] by auto
      with True at show ?thesis by auto
    next
      case False
      have "view (mg_windows ?m) = view (mg_windows m)"
        using False w(1) by (intro view_edit [OF ok] dv_adopt) auto
      with l show ?thesis by simp
    qed
  qed
  moreover from mirrors_after [OF this] m1(2) have "mirrors (replay_stack l eff) (demoteCoveringPeers e i m1)"
    by (intro demote_peers_mirrors) simp_all
  ultimately show ?thesis using False r m1(1)
    by (auto simp: finish_proposal_def Let_def mirrors_def modal_turn_silent split: if_splits)
qed

lemma finish_initial_mirrors:
  assumes inv: "order_inv m"
    and acyclic: "acyclic (kin (upd_window i (\<lambda>v. v\<lparr>w_state := rule_state shown (w_state w) answer\<rparr>) (mg_windows m)))"
    and w: "window_at (mg_windows m) i = Some w" "w_pendingInitialCommit w"
    and q: "jobs_of m i = (Initial_job x, Shown c) # q" and l: "showing l m"
  shows "mirrors l (finish_initial e i x shown answer w (set_jobs i ((Initial_job x, Settling) # q) m))"
proof -
  let ?f = "\<lambda>v. v\<lparr>w_state := rule_state shown (w_state w) answer\<rparr>"
  let ?q = "(Initial_job x, Settling) # q" and ?m0 = "set_jobs i ((Initial_job x, Settling) # q) m"
  have ok: "order_ok (mg_windows m)" using inv by (simp add: order_inv_def)
  have content: "\<not> w_content w" using order_okD(4) [OF ok] window_at_Some [OF w(1)] w(2) by blast
  have settling: "agrees ?q v" for v by (simp add: agrees_def)
  have m0: "order_inv ?m0" using head_inv [OF inv q w(1) settling] .
  have m1: "order_inv (edit i ?f ?m0)"
    using acyclic content w(1) settling by (intro edit_contentless_inv [OF m0]) auto
  have "dv (?f w) = dv w" using content by (intro dv_contentless) simp_all
  then have d1: "showing l (edit i ?f ?m0)"
    using w(1) l ok by (subst view_edit) auto
  define m2 where "m2 = (if starts_covering (w_state w) (rule_state shown (w_state w) answer)
    then fst (demoteCoveringPeers e i (edit i ?f ?m0)) else edit i ?f ?m0)"
  define e2 where "e2 = (if starts_covering (w_state w) (rule_state shown (w_state w) answer)
    then snd (demoteCoveringPeers e i (edit i ?f ?m0)) else [])"
  have m2: "order_inv m2" "showing (replay_stack l e2) m2"
    using m1 demote_peers_inv [OF m1, of e i] mirrors_after [OF demote_peers_mirrors [OF m1 d1, of e i]] d1
    by (auto simp: m2_def e2_def)
  let ?m3 = "edit i (\<lambda>v. v\<lparr>w_pendingInitialCommit := False\<rparr>) m2"
  have ok2: "order_ok (mg_windows m2)" using m2(1) by (simp add: order_inv_def)
  have d3: "view (mg_windows ?m3) = view (mg_windows m2)" using ok2 by (rule view_edit) simp
  have "distinct (ids (mg_windows ?m3))" using ok2 by (simp add: mg_windows_edit order_ok_def)
  then have d4: "view (mg_windows (edit i (\<lambda>v. v\<lparr>w_pendingSizeConfigure := True\<rparr>) (fst (configure e i zero_rect ?m3)))) =
      view (mg_windows ?m3)"
    unfolding mg_windows_edit [of _ _ "fst (configure e i zero_rect ?m3)"] configure_windows by (rule view_upd) simp
  show ?thesis using m2(2) d3 d4
    by (cases x) (simp_all add: finish_initial_def Let_def mirrors_def m2_def e2_def replay_stack_silent split: if_splits)
qed

lemma answer_mirrors:
  assumes inv: "order_inv m" and acyclic: "acyclic (kin (answered_windows i answer m))"
    and l: "showing l m" and r: "answer_job e i answer m = Some r"
  shows "mirrors l r"
proof (cases "window_at (mg_windows m) i")
  case None
  with l r show ?thesis by (auto simp: answer_job_def mirrors_def)
next
  case (Some w)
  have agrees: "agrees (jobs_of m i) w"
    using inv window_at_Some [OF Some] by (auto simp: order_inv_def flights_ok_def)
  show ?thesis
  proof (cases "jobs_of m i")
    case Nil
    with Some l r show ?thesis by (auto simp: answer_job_def mirrors_def)
  next
    case (Cons a q)
    consider p reason base c where "a = (Proposal_job p reason base, Shown c)" | x c where "a = (Initial_job x, Shown c)"
      | "\<And>c. snd a \<noteq> Shown c" by (cases a; cases "fst a"; cases "snd a") auto
    then show ?thesis
    proof cases
      case 1
      have "acyclic (kin (upd_window i (adopt_state c (decide c p answer (phase_of w))) (mg_windows m)))"
        using acyclic Some Cons 1 by (simp add: answered_windows_def)
      moreover have "w_content w \<Longrightarrow> zcore c = zcore (w_state w) \<and> wn_visible c = wn_visible (w_state w)"
        using agrees by (simp add: agrees_def Cons 1)
      moreover have "finish_proposal e i reason c (decide c p answer (phase_of w)) (set_jobs i q m) = Some r"
        using r Some Cons 1 by (simp add: answer_job_def)
      ultimately show ?thesis
        using finish_mirrors [OF tail_inv [OF inv Cons], of i c "decide c p answer (phase_of w)" w l e reason r]
          queue_tail [OF inv Cons] Some l by simp
    next
      case 2
      have "w_pendingInitialCommit w" using agrees by (simp add: agrees_def Cons 2)
      moreover have "acyclic (kin (upd_window i (\<lambda>v. v\<lparr>w_state := rule_state c (w_state w) answer\<rparr>) (mg_windows m)))"
        using acyclic Some Cons 2 by (simp add: answered_windows_def)
      ultimately show ?thesis
        using finish_initial_mirrors [OF inv _ Some, of c answer x c q l e] Some Cons 2 l r
        by (auto simp: answer_job_def)
    next
      case 3
      then have "r = (m, [])" using Some Cons r by (cases a; cases "fst a"; cases "snd a") (auto simp: answer_job_def)
      with l show ?thesis by (simp add: mirrors_def)
    qed
  qed
qed

text \<open>The rest of the opening sequence.\<close>

lemma settled_mirrors:
  assumes "order_ok (mg_windows m)" "showing l m"
    "\<And>w. window_at (mg_windows m) i = Some w \<Longrightarrow> isGated w"
  shows "mirrors l (runOpeningAfterLayoutSettles e i m)"
proof (cases "window_at (mg_windows m) i")
  case None
  with assms(2) show ?thesis by (simp add: runOpeningAfterLayoutSettles_def openWindow_def mirrors_def)
next
  case (Some w)
  with assms show ?thesis by (auto simp: runOpeningAfterLayoutSettles_def intro!: open_mirrors)
qed

lemma backstop_mirrors:
  assumes "showing l m"
  shows "mirrors l (backstop e i m)"
proof -
  have "mirrors l (mapOpenedWindow e i (m\<lparr>mg_backstops := removeAll i (mg_backstops m)\<rparr>))"
    if "window_at (mg_windows m) i = Some w" for w
    using that by (intro mapOpened_mirrors) simp_all
  then show ?thesis using assms by (auto simp: backstop_def Let_def mirrors_def split: option.split)
qed

lemma commit_mirrors:
  assumes "order_ok (mg_windows m)" "showing l m"
  shows "mirrors l (notifyToplevelCommit e i n m)"
proof -
  let ?m = "\<lambda>k. edit i (\<lambda>v. v\<lparr>w_lastAckedSerial := max (w_lastAckedSerial v) k\<rparr>) m"
  have "view (mg_windows (?m k)) = view (mg_windows m)" for k
    by (rule view_edit [OF assms(1)]) (simp add: dv_def drawable_def isGated_def effectiveStackZ_def)
  then have "showing l (?m k)" for k using assms(2) by simp
  moreover have "mirrors l (mapOpenedWindow e i (?m k))" if "window_at (mg_windows m) i = Some w" for k w
    using that by (intro mapOpened_mirrors [of "?m k" i "w\<lparr>w_lastAckedSerial := max (w_lastAckedSerial w) k\<rparr>"])
      (simp_all add: mg_windows_edit window_at_upd)
  ultimately show ?thesis using assms(2)
    by (auto simp: notifyToplevelCommit_def Let_def mirrors_def split: option.split)
qed

lemma jobs_mirrors:
  assumes "order_ok (mg_windows m)" "showing l m"
  shows "mirrors l (begin_job i m, [])" "mirrors l (markInitialCommitComplete i x m, [])" "mirrors l (settle_job e i m)"
  using assms
  by (simp_all add: begin_job_def markInitialCommitComplete_def settle_job_def send_owed_size_def mirrors_def replay_stack_silent
      split: option.split list.split prod.split job.split stage.split)

section \<open>Sessions\<close>

text \<open>
  What runs between two frames: an operation of the manager alone, or operations that run in one synchronous call which
  ends with a rebuild of the stack. The protocol layer's frame callback hands the first contents over and rebuilds
  (\<open>dispatchFrameCallbacks\<close> of \<open>core/src/protocols/index.ts\<close>), the windows broker refreshes the tiers and rebuilds
  (\<open>core/src/plugins/windows-broker.ts\<close>), and other callers just rebuild.
\<close>

datatype shown_event = Alone wm_env mg_op | Then_rebuild "(wm_env \<times> mg_op) list"

definition all_effects :: "((wm_env \<times> mg_op) \<times> wm_effect list option) list \<Rightarrow> wm_effect list option" where
  "all_effects tr = (if None \<in> snd ` set tr then None else Some (concat (map (the \<circ> snd) tr)))"

fun shown_do :: "manager \<Rightarrow> shown_event \<Rightarrow> manager \<times> wm_effect list option" where
  "shown_do m (Alone e op) = mg_do m (e, op)"
| "shown_do m (Then_rebuild evs) =
     (fst (run mg_do m evs),
      map_option (\<lambda>effs. effs @ [Rebuild (mg_windows (fst (run mg_do m evs)))]) (all_effects (snd (run mg_do m evs))))"

text \<open>
  The sessions considered, beside those of the order: tiers are refreshed and first contents handed over in calls that end
  with a rebuild, and the continuation of a first content finds its window still held, or gone.
\<close>

definition rebuilds_itself :: "mg_op \<Rightarrow> manager \<Rightarrow> bool" where
  "rebuilds_itself op m = (case op of
        Refresh_tiers \<Rightarrow> False
      | Has_content i z \<Rightarrow> False
      | Opening_settled i \<Rightarrow> (case window_at (mg_windows m) i of None \<Rightarrow> True | Some w \<Rightarrow> isGated w)
      | _ \<Rightarrow> True)"

fun shown_ok :: "manager \<Rightarrow> shown_event \<Rightarrow> bool" where
  "shown_ok m (Alone e op) = (orderly op m \<and> rebuilds_itself op m)"
| "shown_ok m (Then_rebuild evs) = admissible mg_do orderly_event m evs"

text \<open>The compositor: it keeps the list it was given last.\<close>

definition shown_after :: "nat list \<Rightarrow> shown_event \<Rightarrow> wm_effect list option \<Rightarrow> nat list option" where
  "shown_after l ev r = map_option (replay_stack l) r"

lemma step_mirrors:
  assumes inv: "order_inv m" and ok: "shown_ok m (Alone e op)" and l: "showing l m" and r: "mg_step e op m = Some r"
  shows "mirrors l r"
proof -
  have good: "order_ok (mg_windows m)" using inv by (simp add: order_inv_def)
  note ops = add_mirrors [OF l] unmap_mirrors [OF l] geometry_mirrors [OF good l] jobs_mirrors [OF good l]
    insets_mirrors [OF good l] backstop_mirrors [OF l] commit_mirrors [OF good l] focus_mirrors [OF l]
    engage_mirrors [OF good l] release_mirrors [OF good l] reorder_mirrors [OF l]
  show ?thesis
  proof (cases op)
    case (Has_content i z)
    then show ?thesis using ok by (simp add: rebuilds_itself_def)
  next
    case (Opening_settled i)
    then show ?thesis using settled_mirrors [OF good l, of i] ok r by (auto simp: rebuilds_itself_def split: option.splits)
  next
    case (Propose i p reason)
    with ok r propose_mirrors [OF inv _ l, of i p e reason] show ?thesis by simp
  next
    case (Answer_job i v)
    then show ?thesis using answer_mirrors [OF inv _ l, of i v e r] ok r by simp
  next
    case (Raise i)
    then show ?thesis using raise_mirrors [OF l] r by simp
  next
    case Raise_all_floating
    then show ?thesis using raise_all_mirrors [OF l] r by simp
  next
    case Refresh_tiers
    then show ?thesis using ok by (simp add: rebuilds_itself_def)
  qed (use r ops in \<open>simp_all del: on_wm_fst on_wm_snd\<close>, auto)
qed

lemma all_answered:
  assumes "order_inv m" "admissible mg_do orderly_event m evs"
  shows "all_effects (snd (run mg_do m evs)) \<noteq> None" "order_inv (fst (run mg_do m evs))"
proof -
  have "monitor answers () (snd (run mg_do m evs)) \<noteq> None" using assms by (rule orderly_sessions.accepts)
  then show "all_effects (snd (run mg_do m evs)) \<noteq> None" unfolding monitor_answers all_effects_def by simp
  show "order_inv (fst (run mg_do m evs))" using orderly_sessions.related.inv_run [of m evs] assms by simp
qed

interpretation shown_stack: monitored shown_do shown_ok shown_after "\<lambda>m l. order_inv m \<and> showing l m"
proof unfold_locales
  fix m m' :: manager and l :: "nat list" and ev r
  assume R: "order_inv m \<and> showing l m" and ok: "shown_ok m ev" and step: "shown_do m ev = (m', r)"
  show "\<exists>l'. shown_after l ev r = Some l' \<and> order_inv m' \<and> showing l' m'"
  proof (cases ev)
    case (Alone e op)
    then obtain m2 eff where s: "mg_step e op m = Some (m2, eff)" "order_inv m2"
      using step_inv [of m op e] R ok by auto
    have "mirrors l (m2, eff)" using step_mirrors [OF _ _ _ s(1)] R ok Alone by simp
    from mirrors_after [OF this] s step Alone show ?thesis by (auto simp: mg_do_def shown_after_def)
  next
    case (Then_rebuild evs)
    then have m': "order_inv m'" "m' = fst (run mg_do m evs)" using all_answered(2) [of m evs] R ok step by auto
    obtain effs where "all_effects (snd (run mg_do m evs)) = Some effs"
      using all_answered(1) [of m evs] R ok Then_rebuild by auto
    then have "r = Some (effs @ [Rebuild (mg_windows m')])" using step Then_rebuild by auto
    moreover have "distinct (ids (mg_windows m'))" using m'(1) by (simp add: order_inv_def order_ok_def)
    ultimately show ?thesis using m'(1) rebuilt_shows by (simp add: shown_after_def)
  qed
qed

text \<open>
  C11: Whatever happens between two frames, the compositor ends up showing the windows as they are: after any session the
  toplevel windows of the list that was pushed last, restricted to the windows that have content, are visible and are
  held by no gate, are those windows in the order of tier, z value and activity, each once, and no window held by a gate is
  in the list. The list may also name windows without content or not visible. The sessions are those in which parents form
  no cycle, first contents come after the initial commit and with no proposal in flight, in calls that end with a rebuild, as
  refreshes of the tiers do, and the continuation of a first content finds its window held or gone.
\<close>

theorem pushed_stack_is_drawn_windows:
  assumes "admissible shown_do shown_ok mg_new evs"
  shows "\<exists>l. monitor shown_after [] (snd (run shown_do mg_new evs)) = Some l \<and>
    filter (\<lambda>i. i \<in> set (drawn (mg_windows (fst (run shown_do mg_new evs))))) l =
      drawn (mg_windows (fst (run shown_do mg_new evs))) \<and>
    set l \<inter> w_id ` {w \<in> set (mg_windows (fst (run shown_do mg_new evs))). isGated w} = {}"
proof -
  have "order_inv mg_new \<and> showing [] mg_new"
    using order_inv_new by (simp add: mg_new_def wm_new_def drawn_def view_def shows_view_def)
  from shown_stack.sim_run [OF this assms] show ?thesis
    by (cases "run shown_do mg_new evs") (fastforce simp: shows_view_def view_def held_back_def)
qed

section \<open>A session\<close>

fun shown_by_age :: "manager \<Rightarrow> shown_event \<Rightarrow> bool" where
  "shown_by_age m (Alone e op) = (orderly_by_age op m \<and> rebuilds_itself op m)"
| "shown_by_age m (Then_rebuild evs) = admissible mg_do (\<lambda>m ev. orderly_by_age (snd ev) m) m evs"

lemma shown_by_age: "admissible shown_do shown_by_age m evs \<Longrightarrow> admissible shown_do shown_ok m evs"
proof (induction evs arbitrary: m)
  case (Cons ev evs)
  then show ?case by (cases ev) (simp_all add: orderly_by_age admissible_by_age del: shown_do.simps)
qed simp

text \<open>
  The dialog of before, in calls that end with a rebuild; a third window that is mapped and held by a gate, focused, and
  then let in; and a fourth that a push lists before it has content. The environment wires the rebuild.
\<close>

definition wired_env :: wm_env where
  "wired_env = bare_env\<lparr>we_rebuild := True\<rparr>"

definition gate_session :: "shown_event list" where
  "gate_session = [Then_rebuild (map (\<lambda>(_, op). (wired_env, op)) dialog_session)] @ map (Alone wired_env)
     [Add_window 3 3 False None, Engage_gate 3 ''plugin''] @ [Then_rebuild [(wired_env, Has_content 3 None)]] @
     map (Alone wired_env) [Keyboard_focus (Some 3), Raise 2, Release_gate 3 ''plugin'', Reorder 1 Promote,
       Add_window 4 4 False None, Raise 2]"

lemma gate_session_ok: "admissible shown_do shown_ok mg_new gate_session"
  by (rule shown_by_age) code_simp

theorem pushed_stack_is_drawn_windows_witness:
  "\<exists>l. monitor shown_after [] (snd (run shown_do mg_new gate_session)) = Some l \<and> filter (\<lambda>i. i \<in> {1, 2, 3}) l = [1, 3, 2]"
proof -
  have "drawn (mg_windows (fst (run shown_do mg_new gate_session))) = [1, 3, 2]" by code_simp
  with pushed_stack_is_drawn_windows [OF gate_session_ok] show ?thesis by (auto simp: insert_commute)
qed

end
