(* ===== verification/Spec2Isabelle.thy ===== *)
theory Spec2Isabelle
  imports Region Damage Buffer_Lifecycle Workspace_Hotplug Binding_Chain Match_Engine Layout Placement Surface_Tx
    Surface_Atomic Window_Shown
begin

text \<open>
  Verification library for the overdraw compositor, a Wayland compositor in TypeScript over a native core.

  \<^bold>\<open>The program.\<close> A client's surface is double-buffered state that its commits apply
  (\<open>core/src/protocols/wl_surface.ts\<close>, \<open>wl_subcompositor.ts\<close>); surfaces form trees of subsurfaces that are drawn and hit as one
  (\<open>core/src/subsurfaces.ts\<close>, \<open>surface-hit-test.ts\<close>). The buffers that commits attach live in a lifecycle shared with
  the GPU process (\<open>core/src/gpu/client-buffer-lifecycle.ts\<close>), and what a frame repaints is tracked per output and slot
  of its swapchain (\<open>core/src/gpu/output-damage-map.ts\<close>). A toplevel surface is a window of the window manager
  (\<open>core/src/wm/index.ts\<close>), which stacks it, gates it, negotiates its state with client and plugins, and holds its
  resizes in surface transactions (\<open>core/src/surface-transaction.ts\<close>). Plugins decide which workspace a window is on
  (\<open>plugin-workspace-default/src/registry.ts\<close>), where it is placed (\<open>plugin-layout-default\<close>), and which of its contents they
  intercept (\<open>core/src/intercept/match-engine.ts\<close>). Keys reach the binding chain first
  (\<open>core/src/input/binding-chain.ts\<close>); popups, layer surfaces, overlays, grabs and scales are pure geometry.

  \<^bold>\<open>The theories.\<close>

  \<^item> \<open>Prelude\<close>: numbers (exact rationals for geometry, \<open>js_round\<close>, \<open>js_floor\<close>), arrays, insertion-ordered maps
    (\<open>omap\<close>, a JavaScript \<open>Map\<close>, whose iteration order matters in several places), and two locales that every machine of
    the development interprets: \<open>step_invariant\<close> (what every admitted step keeps) and \<open>monitored\<close> (every trace of answers
    is accepted by an executable specification, which simulates the machine).
  \<^item> \<open>Region\<close>: \<open>protocols/region.ts\<close>. The specification is a set of points; the list is kept disjoint.
  \<^item> \<open>Damage\<close>: \<open>output-damage-ring.ts\<close>, \<open>output-damage-map.ts\<close>. A damaged point stays owed to each slot until its take.
  \<^item> \<open>Buffer_Lifecycle\<close>: \<open>client-buffer-lifecycle.ts\<close>. The specification is a monitor of the executor's protocol: one import
    per cache life, alternating begin and end of an access, releases and fences that are due.
  \<^item> \<open>Workspace\<close>, \<open>Workspace_Hotplug\<close>: \<open>registry.ts\<close>. Effects are values; a replay of them is the specification of what
    the compositor was told. The second theory holds the output reconfiguration loop by loop and the theorems.
  \<^item> \<open>Keyspec\<close>, \<open>Binding_Chain\<close>: \<open>keysyms.ts\<close>, \<open>keyspec.ts\<close>, \<open>binding-chain.ts\<close>. Tries of steps as finite maps, a stack of
    modes, held instances and their releases.
  \<^item> \<open>Match_Engine\<close>: \<open>match-engine.ts\<close>. The specification is the accepting registration of least rank, and a listener that
    applies events in order.
  \<^item> \<open>Layout\<close>: \<open>plugin-layout-default\<close>. Columns against a water level, master and stack, validation of untyped
    configuration, the state kept between calls.
  \<^item> \<open>Placement\<close>: reserved zones, \<open>layer-shell-position.ts\<close>, \<open>popup-position.ts\<close>, \<open>overlay-position.ts\<close>,
    \<open>grab-math.ts\<close>, \<open>arrangement.ts\<close>, \<open>scale.ts\<close>.
  \<^item> \<open>Surface_State\<close>, \<open>Surface_Tree\<close>, \<open>Surface_Commit\<close>, \<open>Surface_Atomic\<close>: the records and requests of a surface; the forest of
    subsurfaces with a specification of its draw order that carries places (\<open>placed_children\<close>); the commit with cache,
    cascade and timed queue; what one commit changes and what it leaves.
  \<^item> \<open>Surface_Tx\<close>: \<open>surface-transaction.ts\<close>. An independent reading of the grouping rule, deadlines with a watched clock, and a
    replay of freezes and thaws.
  \<^item> \<open>Window_State\<close>: the module-level functions of \<open>wm/index.ts\<close> and the parts of \<open>propose\<close> that compute a state.
  \<^item> \<open>Window_Stack\<close>: z values, chains of parents, tiers, the pushed stack, gates, raising, reordering, hit testing, with
    \<open>computeBaseStack\<close> and the seat's \<open>pickToplevel\<close>.
  \<^item> \<open>Window_Manager\<close>: \<open>createWm\<close> as a machine: adding, mapping and removing windows, the opening sequence, insets,
    geometry, and proposals as queues of jobs in three stages. \<open>Window_Order\<close> has its stacking invariant, for sessions in
    which no window is made its own ancestor, and \<open>Window_Shown\<close> the replay of the stacks it pushes, with the calls of the
    protocol layer and the brokers that end with a rebuild of the stack (\<open>protocols/xdg_popup.ts\<close>).

  \<^bold>\<open>How the code is modelled.\<close> A class or closure is a record of its fields; a method is a function from the state to the
  state with its answer or its list of effects; a callback or a sink is an effect constructor, and what it answers is an
  argument. A throw is a value of an error datatype. Asynchronous code is cut at each \<open>await\<close>: the window manager's
  proposals wait in a queue per window, and the answer of the interceptors is an argument of the operation that
  resumes them. Objects that are mutated through references are values in a table under their number. Coordinates,
  times and weights are exact rationals instead of floating point numbers; modifier masks and key codes are machine
  words.

  \<^bold>\<open>Loops and fuel.\<close> Structural recursion is used wherever the code walks a list. \<open>fill_passes\<close> gets one pass more than there
  are columns, and every pass but the last pins at least one of them. \<open>snap_search\<close> tries the sixty steps the code
  tries. \<open>pump\<close> takes at most as many entries as its queue has. \<open>rootOfChain\<close> and \<open>chainOf\<close> stop after the 64 links
  the code stops at. Walks that follow parents or children without such a bound, in the subsurface forest and in the
  window tree, are partial functions into options; that they return is a theorem under the guard that no object
  becomes its own ancestor (\<open>requests_always_return\<close>, \<open>dialogs_stay_above_parents\<close>), and lemmas show that they do not
  return without it.

  \<^bold>\<open>What is shown.\<close> Refinements: the buffer lifecycle obeys the executor's protocol, the workspace effects and the match
  events replay to the state that emitted them, regions denote point sets, freezes replay to open holds, the pushed stack
  shows the drawn windows in their order. Invariants: consistency of the five maps of the registry, conservation of frame
  callbacks and of transaction requirements, stacking of dialogs, the first accepting registration. Equivalences: a
  round of the broker against the grouping rule, hit testing against the draw order, columns against the water
  level. Progress: no debt of a buffer lingers, no hold outlives its deadline, a typed chord fires, a released one
  drains, every request returns. Round trips: unplugging and replugging outputs, printing and parsing chords,
  handing a state back to the window manager. Bounds: layouts tile, popups stay on their output, fractions keep their limits.

  \<^bold>\<open>Not modelled.\<close> The window manager's \<open>applyLayout\<close> with its resize transaction and the layout driver, which run plugin
  namespaces asynchronously (what they do to a window is the operation \<open>pushGeometry\<close>); islands, the state bag and the
  read-only snapshots; the timer that pumps a surface's queue of timed commits between requests, and the rest of the
  seat's pick (layers and popups). The commit's handshakes with shells and cursors are single effects. GPU rendering, the
  wire, file descriptors, Xwayland, workers and message ports, configuration files and animation curves are left out:
  they are I/O, or floating point numerics, or glue over the parts above. Floating point rounding itself is not modelled.
\<close>

end
